(* ===== verification/Narf_Prelude.thy ===== *)
theory Narf_Prelude
  imports Main "HOL-Library.Word" "HOL-Library.Multiset"
begin

text \<open>
  The vocabulary shared by the component theories: machine integer types of the Rust
  sources, the standard-library operations the sources call on integers and vectors
  (\<open>saturating_add\<close>, \<open>saturating_sub\<close>, \<open>saturating_mul\<close>, \<open>checked_add\<close>,
  \<open>Iterator::position\<close>, \<open>Vec::swap_remove\<close>), \<open>Result\<close> as a sum type with the error on
  the left, and the generic facts on lists, multisets and words that the components use.
\<close>

unbundle bit_operations_syntax

subsection \<open>Types\<close>

type_synonym u8 = "8 word"
type_synonym u16 = "16 word"
type_synonym u32 = "32 word"
type_synonym u64 = "64 word"
type_synonym u128 = "128 word"

text \<open>A Rust \<open>Result<T, E>\<close>; \<open>usize\<close> lengths and indices are natural numbers.\<close>

type_synonym ('a, 'e) result = "'e + 'a"

abbreviation Ok :: "'a \<Rightarrow> ('a, 'e) result" where "Ok \<equiv> Inr"
abbreviation Err :: "'e \<Rightarrow> ('a, 'e) result" where "Err \<equiv> Inl"

named_theorems sat_unat \<open>saturating word arithmetic read through \<open>unat\<close>\<close>
named_theorems bit_facts \<open>bitwise word facts used to reduce goals to single bits\<close>

subsection \<open>Integer operations of the standard library\<close>

definition saturating_add :: "'a::len word \<Rightarrow> 'a word \<Rightarrow> 'a word" where
  "saturating_add a b = (if unat a + unat b < 2 ^ LENGTH('a) then a + b else - 1)"

definition saturating_sub :: "'a::len word \<Rightarrow> 'a word \<Rightarrow> 'a word" where
  "saturating_sub a b = (if b \<le> a then a - b else 0)"

definition saturating_mul :: "'a::len word \<Rightarrow> 'a word \<Rightarrow> 'a word" where
  "saturating_mul a b = (if unat a * unat b < 2 ^ LENGTH('a) then a * b else - 1)"

definition checked_add :: "'a::len word \<Rightarrow> 'a word \<Rightarrow> 'a word option" where
  "checked_add a b = (if unat a + unat b < 2 ^ LENGTH('a) then Some (a + b) else None)"

text \<open>Code equations over \<open>int\<close>, so that kernel evaluation does not unfold large natural numbers.\<close>

lemma saturating_code [code]:
  "saturating_add (a :: 'a::len word) b = (if uint a + uint b < 2 ^ LENGTH('a) then a + b else - 1)"
  "saturating_mul (a :: 'a::len word) b = (if uint a * uint b < 2 ^ LENGTH('a) then a * b else - 1)"
  "checked_add (a :: 'a::len word) b = (if uint a + uint b < 2 ^ LENGTH('a) then Some (a + b) else None)"
  by (simp_all add: saturating_add_def saturating_mul_def checked_add_def flip: of_nat_less_iff [where 'a = int])

lemma unat_saturating_add [sat_unat]:
  fixes a b :: "'a::len word"
  shows "unat (saturating_add a b) = min (unat a + unat b) (2 ^ LENGTH('a) - 1)"
  by (auto simp: saturating_add_def unat_word_ariths unsigned_minus_1_eq_mask mask_eq_exp_minus_1)

lemma unat_saturating_sub [sat_unat]: "unat (saturating_sub a b) = unat a - unat b"
  by (auto simp: saturating_sub_def unat_sub word_le_nat_alt)

lemma unat_saturating_mul [sat_unat]:
  fixes a b :: "'a::len word"
  shows "unat (saturating_mul a b) = min (unat a * unat b) (2 ^ LENGTH('a) - 1)"
  by (auto simp: saturating_mul_def unat_word_ariths unsigned_minus_1_eq_mask mask_eq_exp_minus_1)

lemma saturating_add_exact:
  fixes a b :: "'a::len word"
  assumes "unat a + unat b < 2 ^ LENGTH('a)"
  shows "saturating_add a b = a + b"
  using assms by (simp add: saturating_add_def)

lemma saturating_sub_exact: "b \<le> a \<Longrightarrow> saturating_sub a b = a - b"
  by (simp add: saturating_sub_def)

lemma unat_min [sat_unat]: "unat (min a b) = min (unat a) (unat b)"
  by (auto simp: min_def word_le_nat_alt)

lemma unat_max [sat_unat]: "unat (max a b) = max (unat a) (unat b)"
  by (auto simp: max_def word_le_nat_alt)

lemma unat_less_u64: "unat (w :: u64) < 18446744073709551616"
  using unsigned_less [of w] by simp

lemma checked_add_Some_iff:
  fixes a b :: "'a::len word"
  shows "checked_add a b = Some c \<longleftrightarrow> unat a + unat b < 2 ^ LENGTH('a) \<and> unat c = unat a + unat b"
  by (auto simp: checked_add_def unat_word_ariths intro: word_unat_eq_iff [THEN iffD2])

subsection \<open>Vector operations of the standard library\<close>

text \<open>\<open>iter().position(p)\<close>: the index of the first element that satisfies \<open>p\<close>.\<close>

fun position :: "('a \<Rightarrow> bool) \<Rightarrow> 'a list \<Rightarrow> nat option" where
  "position p [] = None"
| "position p (x # xs) = (if p x then Some 0 else map_option Suc (position p xs))"

lemma position_None_iff: "position p xs = None \<longleftrightarrow> (\<forall>x \<in> set xs. \<not> p x)"
  by (induction xs) auto

lemma position_SomeD:
  "position p xs = Some i \<Longrightarrow> i < length xs \<and> p (xs ! i) \<and> (\<forall>j < i. \<not> p (xs ! j))"
proof (induction xs arbitrary: i)
  case Nil
  then show ?case by simp
next
  case (Cons x xs)
  show ?case
  proof (cases "p x")
    case True
    with Cons.prems show ?thesis by simp
  next
    case False
    with Cons.prems obtain k where k: "position p xs = Some k" "i = Suc k" by auto
    from Cons.IH [OF k(1)] k(2) False show ?thesis
      by (auto simp: nth_Cons split: nat.splits)
  qed
qed

lemma position_eq_imp: "position (\<lambda>x. x = a) xs = Some i \<Longrightarrow> i < length xs \<and> xs ! i = a"
  by (auto dest: position_SomeD)

text \<open>
  \<open>Vec::swap_remove(i)\<close>: the last element takes the place of element \<open>i\<close>. Rust panics for
  \<open>i >= len\<close>; every call in the sources has the index from \<open>position\<close> or a loop bound.
\<close>

definition swap_remove :: "nat \<Rightarrow> 'a list \<Rightarrow> 'a list" where
  "swap_remove i xs =
     (if i < length xs - 1 then (butlast xs)[i := last xs] else butlast xs)"

lemma length_swap_remove [simp]: "length (swap_remove i xs) = length xs - 1"
  by (simp add: swap_remove_def)

lemma mset_swap_remove: "i < length xs \<Longrightarrow> mset (swap_remove i xs) = mset xs - {# xs ! i #}"
proof (cases xs rule: rev_cases)
  case Nil
  then show "i < length xs \<Longrightarrow> ?thesis" by simp
next
  case (snoc ys y)
  assume "i < length xs"
  then show ?thesis using snoc
    by (auto simp: swap_remove_def mset_update nth_append less_Suc_eq)
qed

lemma add_mset_swap_remove:
  "i < length xs \<Longrightarrow> add_mset (xs ! i) (mset (swap_remove i xs)) = mset xs"
  by (simp add: mset_swap_remove nth_mem_mset)

lemma set_swap_remove_subset: "i < length xs \<Longrightarrow> set (swap_remove i xs) \<subseteq> set xs"
  by (metis add_mset_swap_remove set_mset_add_mset_insert set_mset_mset subset_insertI)

lemma take_swap_remove: "i < length xs \<Longrightarrow> take i (swap_remove i xs) = take i xs"
  by (auto simp: swap_remove_def take_butlast butlast_conv_take)

lemma last_in_set_butlast_update: "xs \<noteq> [] \<Longrightarrow> mset xs = add_mset (last xs) (mset (butlast xs))"
  by (metis append_butlast_last_id mset.simps mset_append union_mset_add_mset_right add.right_neutral)

text \<open>\<open>slice::get(i)\<close>: the element, or \<open>None\<close> out of range.\<close>

definition nth_opt :: "'a list \<Rightarrow> nat \<Rightarrow> 'a option" where
  "nth_opt xs i = (if i < length xs then Some (xs ! i) else None)"

lemma nth_opt_Some_iff: "nth_opt xs i = Some x \<longleftrightarrow> i < length xs \<and> xs ! i = x"
  by (auto simp: nth_opt_def)

lemma nth_opt_append: "i < length xs \<Longrightarrow> nth_opt (xs @ ys) i = nth_opt xs i"
  by (simp add: nth_opt_def nth_append)

end
