(* ===== verification/Capabilities.thy ===== *)
theory Capabilities
  imports Narf_Prelude
begin

text \<open>
  The capability core, \<open>capabilities/src/lib.rs\<close>: rights and their derivation order,
  the capability-kind registry, 128-bit capability slots and their atomic operations, the
  global object table with epoch revocation, typed capabilities and their operations
  (\<open>check_live\<close>, \<open>invoke\<close>, \<open>revoke\<close>, \<open>derive\<close>, \<open>transfer\<close>, \<open>bootstrap\<close>,
  \<open>bootstrap_with\<close>), and the per-task capability table. A typed \<open>Cap<T, R>\<close> is a record
  of its slot with the kind \<open>T::KIND\<close> and the right \<open>R\<close> that the type system carries.
  The locked global table is passed and returned explicitly. The last part closes the
  public operations into a step relation of the whole capability system.
\<close>

subsection \<open>Rights\<close>

datatype right = Read | Write | Grant | Spend | Invoke | Create

fun BITS :: "right \<Rightarrow> u32" where
  "BITS Read = 1"
| "BITS Write = 2"
| "BITS Grant = 4"
| "BITS Spend = 8"
| "BITS Invoke = 16"
| "BITS Create = 32"

text \<open>\<open>SubsetOf x y\<close>: the trait impl \<open>SubsetOf<y> for x\<close> exists, so a holder of \<open>y\<close> may
  derive \<open>x\<close>.\<close>

fun SubsetOf :: "right \<Rightarrow> right \<Rightarrow> bool" where
  "SubsetOf Read Grant = True"
| "SubsetOf Write Grant = True"
| "SubsetOf Spend Grant = True"
| "SubsetOf Invoke Grant = True"
| "SubsetOf Read Write = True"
| "SubsetOf Read Invoke = True"
| "SubsetOf Read Spend = True"
| "SubsetOf x y = (x = y)"

subsection \<open>Capability kinds\<close>

datatype (plugins only: size) cap_kind =
    K_BusDevice | K_BusDeviceP2pDma | K_BusReconfigureAcs | K_BusRegistry | K_BlockDevice
    | K_BlockDeviceBackend | K_BlockIoQueueOwn | K_Namespace | K_NetIface | K_StackInstall
    | K_NetfilterAdmin | K_FileNode | K_DirNode | K_MountPoint | K_FsInstance | K_Ring
    | K_RingPair | K_Endpoint | K_Domain | K_DmaBuffer | K_SharedRegion | K_Jit | K_Probe
    | K_TraceRing | K_Recorder | K_Pmu | K_HwCrypto | K_HwTrace | K_Debugger | K_Diagnostics
    | K_Watchpoint | K_Key | K_KeyMgr | K_Rng | K_Tpm | K_Spdm | K_Task | K_CpuAffinity
    | K_CpuLifecycle | K_CpuBudget | K_FreqHint | K_Power | K_Timer | K_DevicePm
    | K_Governor | K_PmBus | K_SleepableReader | K_Scmi | K_Process | K_Driver | K_FbScanout
    | K_AudioStream | K_I3cBus | K_Pwm | K_Firmware | K_FirmwareRegistry | K_Bluetooth
    | K_UsbPd | K_CpuTelemetry | K_TopicRegistry | K_EventPublisher | K_EventSubscriber
    | K_MemAlloc | K_HeapBackend | K_Pager | K_SchedPolicy | K_DonationPolicy
    | K_StealStrategy | K_IoScheduler | K_CongestionControl | K_IdleGovernor | K_EventSink
    | K_BpfProgLoad | K_BpfAttach | K_BpfMap | K_BpfArena | K_BpfStructOps

text \<open>The explicit discriminants: \<open>CapKind as u32\<close>.\<close>

primrec kind_tag :: "cap_kind \<Rightarrow> u32" where
  "kind_tag K_BusDevice = 0x0001"
| "kind_tag K_BusDeviceP2pDma = 0x0002"
| "kind_tag K_BusReconfigureAcs = 0x0003"
| "kind_tag K_BusRegistry = 0x0004"
| "kind_tag K_BlockDevice = 0x0010"
| "kind_tag K_BlockDeviceBackend = 0x0011"
| "kind_tag K_BlockIoQueueOwn = 0x0012"
| "kind_tag K_Namespace = 0x0013"
| "kind_tag K_NetIface = 0x0020"
| "kind_tag K_StackInstall = 0x0021"
| "kind_tag K_NetfilterAdmin = 0x0022"
| "kind_tag K_FileNode = 0x0030"
| "kind_tag K_DirNode = 0x0031"
| "kind_tag K_MountPoint = 0x0032"
| "kind_tag K_FsInstance = 0x0033"
| "kind_tag K_Ring = 0x0040"
| "kind_tag K_RingPair = 0x0041"
| "kind_tag K_Endpoint = 0x0042"
| "kind_tag K_Domain = 0x0050"
| "kind_tag K_DmaBuffer = 0x0051"
| "kind_tag K_SharedRegion = 0x0052"
| "kind_tag K_Jit = 0x0053"
| "kind_tag K_Probe = 0x0060"
| "kind_tag K_TraceRing = 0x0061"
| "kind_tag K_Recorder = 0x0062"
| "kind_tag K_Pmu = 0x0063"
| "kind_tag K_HwCrypto = 0x0064"
| "kind_tag K_HwTrace = 0x0065"
| "kind_tag K_Debugger = 0x0066"
| "kind_tag K_Diagnostics = 0x0067"
| "kind_tag K_Watchpoint = 0x0068"
| "kind_tag K_Key = 0x0070"
| "kind_tag K_KeyMgr = 0x0071"
| "kind_tag K_Rng = 0x0072"
| "kind_tag K_Tpm = 0x0073"
| "kind_tag K_Spdm = 0x0074"
| "kind_tag K_Task = 0x0080"
| "kind_tag K_CpuAffinity = 0x0081"
| "kind_tag K_CpuLifecycle = 0x0082"
| "kind_tag K_CpuBudget = 0x0083"
| "kind_tag K_FreqHint = 0x0084"
| "kind_tag K_Power = 0x0085"
| "kind_tag K_Timer = 0x0086"
| "kind_tag K_DevicePm = 0x0087"
| "kind_tag K_Governor = 0x0088"
| "kind_tag K_PmBus = 0x0089"
| "kind_tag K_SleepableReader = 0x0090"
| "kind_tag K_Scmi = 0x0091"
| "kind_tag K_Process = 0x00A0"
| "kind_tag K_Driver = 0x00A1"
| "kind_tag K_FbScanout = 0x00B0"
| "kind_tag K_AudioStream = 0x00C0"
| "kind_tag K_I3cBus = 0x00D0"
| "kind_tag K_Pwm = 0x00D1"
| "kind_tag K_Firmware = 0x00E0"
| "kind_tag K_FirmwareRegistry = 0x00E1"
| "kind_tag K_Bluetooth = 0x00F0"
| "kind_tag K_UsbPd = 0x00F1"
| "kind_tag K_CpuTelemetry = 0x00F2"
| "kind_tag K_TopicRegistry = 0x0100"
| "kind_tag K_EventPublisher = 0x0101"
| "kind_tag K_EventSubscriber = 0x0102"
| "kind_tag K_MemAlloc = 0x0200"
| "kind_tag K_HeapBackend = 0x0201"
| "kind_tag K_Pager = 0x0202"
| "kind_tag K_SchedPolicy = 0x0203"
| "kind_tag K_DonationPolicy = 0x0204"
| "kind_tag K_StealStrategy = 0x0205"
| "kind_tag K_IoScheduler = 0x0206"
| "kind_tag K_CongestionControl = 0x0207"
| "kind_tag K_IdleGovernor = 0x0208"
| "kind_tag K_EventSink = 0x0209"
| "kind_tag K_BpfProgLoad = 0x0300"
| "kind_tag K_BpfAttach = 0x0301"
| "kind_tag K_BpfMap = 0x0302"
| "kind_tag K_BpfArena = 0x0303"
| "kind_tag K_BpfStructOps = 0x0304"

definition KIND_NAMES :: "(string \<times> cap_kind) list" where
  "KIND_NAMES =
    [(''BusDevice'', K_BusDevice),
     (''BusDeviceP2pDma'', K_BusDeviceP2pDma),
     (''BusReconfigureAcs'', K_BusReconfigureAcs),
     (''BusRegistry'', K_BusRegistry),
     (''BlockDevice'', K_BlockDevice),
     (''BlockDeviceBackend'', K_BlockDeviceBackend),
     (''BlockIoQueueOwn'', K_BlockIoQueueOwn),
     (''Namespace'', K_Namespace),
     (''NetIface'', K_NetIface),
     (''StackInstall'', K_StackInstall),
     (''NetfilterAdmin'', K_NetfilterAdmin),
     (''FileNode'', K_FileNode),
     (''DirNode'', K_DirNode),
     (''MountPoint'', K_MountPoint),
     (''FsInstance'', K_FsInstance),
     (''Ring'', K_Ring),
     (''RingPair'', K_RingPair),
     (''Endpoint'', K_Endpoint),
     (''Domain'', K_Domain),
     (''DmaBuffer'', K_DmaBuffer),
     (''SharedRegion'', K_SharedRegion),
     (''Jit'', K_Jit),
     (''Probe'', K_Probe),
     (''TraceRing'', K_TraceRing),
     (''Recorder'', K_Recorder),
     (''Pmu'', K_Pmu),
     (''HwCrypto'', K_HwCrypto),
     (''HwTrace'', K_HwTrace),
     (''Debugger'', K_Debugger),
     (''Diagnostics'', K_Diagnostics),
     (''Watchpoint'', K_Watchpoint),
     (''Key'', K_Key),
     (''KeyMgr'', K_KeyMgr),
     (''Rng'', K_Rng),
     (''Tpm'', K_Tpm),
     (''Spdm'', K_Spdm),
     (''Task'', K_Task),
     (''CpuAffinity'', K_CpuAffinity),
     (''CpuLifecycle'', K_CpuLifecycle),
     (''CpuBudget'', K_CpuBudget),
     (''FreqHint'', K_FreqHint),
     (''Power'', K_Power),
     (''Timer'', K_Timer),
     (''DevicePm'', K_DevicePm),
     (''Governor'', K_Governor),
     (''PmBus'', K_PmBus),
     (''SleepableReader'', K_SleepableReader),
     (''Scmi'', K_Scmi),
     (''Process'', K_Process),
     (''Driver'', K_Driver),
     (''FbScanout'', K_FbScanout),
     (''AudioStream'', K_AudioStream),
     (''I3cBus'', K_I3cBus),
     (''Pwm'', K_Pwm),
     (''Firmware'', K_Firmware),
     (''FirmwareRegistry'', K_FirmwareRegistry),
     (''Bluetooth'', K_Bluetooth),
     (''UsbPd'', K_UsbPd),
     (''CpuTelemetry'', K_CpuTelemetry),
     (''TopicRegistry'', K_TopicRegistry),
     (''EventPublisher'', K_EventPublisher),
     (''EventSubscriber'', K_EventSubscriber),
     (''MemAlloc'', K_MemAlloc),
     (''HeapBackend'', K_HeapBackend),
     (''Pager'', K_Pager),
     (''SchedPolicy'', K_SchedPolicy),
     (''DonationPolicy'', K_DonationPolicy),
     (''StealStrategy'', K_StealStrategy),
     (''IoScheduler'', K_IoScheduler),
     (''CongestionControl'', K_CongestionControl),
     (''IdleGovernor'', K_IdleGovernor),
     (''EventSink'', K_EventSink),
     (''BpfProgLoad'', K_BpfProgLoad),
     (''BpfAttach'', K_BpfAttach),
     (''BpfMap'', K_BpfMap),
     (''BpfArena'', K_BpfArena),
     (''BpfStructOps'', K_BpfStructOps)]"

text \<open>The kinds in the order of the enum, which is the order of \<open>KIND_NAMES\<close>.\<close>

definition all_kinds :: "cap_kind list" where
  "all_kinds = [K_BusDevice, K_BusDeviceP2pDma, K_BusReconfigureAcs, K_BusRegistry, K_BlockDevice,
     K_BlockDeviceBackend, K_BlockIoQueueOwn, K_Namespace, K_NetIface, K_StackInstall,
     K_NetfilterAdmin, K_FileNode, K_DirNode, K_MountPoint, K_FsInstance, K_Ring, K_RingPair,
     K_Endpoint, K_Domain, K_DmaBuffer, K_SharedRegion, K_Jit, K_Probe, K_TraceRing, K_Recorder,
     K_Pmu, K_HwCrypto, K_HwTrace, K_Debugger, K_Diagnostics, K_Watchpoint, K_Key, K_KeyMgr,
     K_Rng, K_Tpm, K_Spdm, K_Task, K_CpuAffinity, K_CpuLifecycle, K_CpuBudget, K_FreqHint,
     K_Power, K_Timer, K_DevicePm, K_Governor, K_PmBus, K_SleepableReader, K_Scmi, K_Process,
     K_Driver, K_FbScanout, K_AudioStream, K_I3cBus, K_Pwm, K_Firmware, K_FirmwareRegistry,
     K_Bluetooth, K_UsbPd, K_CpuTelemetry, K_TopicRegistry, K_EventPublisher, K_EventSubscriber,
     K_MemAlloc, K_HeapBackend, K_Pager, K_SchedPolicy, K_DonationPolicy, K_StealStrategy,
     K_IoScheduler, K_CongestionControl, K_IdleGovernor, K_EventSink, K_BpfProgLoad, K_BpfAttach,
     K_BpfMap, K_BpfArena, K_BpfStructOps]"

lemma snd_KIND_NAMES: "map snd KIND_NAMES = all_kinds"
  by (simp only: KIND_NAMES_def all_kinds_def list.map snd_conv)

lemma in_all_kinds: "k \<in> set all_kinds"
  by (cases k) (simp_all only: all_kinds_def list.set insert_iff simp_thms)

lemma tags_increasing: "successively (\<lambda>a b. kind_tag a < kind_tag b) all_kinds"
  by (simp add: all_kinds_def)

lemma distinct_names: "distinct (map fst KIND_NAMES)"
  by (simp only: KIND_NAMES_def list.map fst_conv) simp

lemma distinct_tags: "distinct (map kind_tag all_kinds)"
proof -
  have "sorted_wrt (\<lambda>a b. kind_tag a < kind_tag b) all_kinds"
    using tags_increasing by (subst successively_conv_sorted_wrt [symmetric]) (auto simp: transp_def)
  then have "sorted_wrt (<) (map kind_tag all_kinds)"
    by (simp add: sorted_wrt_map)
  then show ?thesis by (simp add: strict_sorted_iff)
qed

lemma kind_tag_inj: "kind_tag a = kind_tag b \<longleftrightarrow> a = b"
  using distinct_tags in_all_kinds by (auto simp: distinct_map dest: inj_onD)

text \<open>Kinds are compared by their discriminants.\<close>

instantiation cap_kind :: equal
begin

definition equal_cap_kind :: "cap_kind \<Rightarrow> cap_kind \<Rightarrow> bool" where
  "equal_cap_kind a b \<longleftrightarrow> kind_tag a = kind_tag b"

instance
  by standard (simp add: equal_cap_kind_def kind_tag_inj)

end

definition parse_kind :: "string \<Rightarrow> cap_kind option" where
  "parse_kind name = map_option snd (List.find (\<lambda>(k_name, k). k_name = name) KIND_NAMES)"

definition kind_name :: "cap_kind \<Rightarrow> string" where
  "kind_name kind =
     (case List.find (\<lambda>(name, k). k = kind) KIND_NAMES of
        Some (name, k) \<Rightarrow> name | None \<Rightarrow> ''Unknown'')"

subsection \<open>Errors\<close>

datatype cap_error =
  Revoked | DomainMismatch | TypeMismatch | RightsTooWeak | CapTableFull | ObjectMismatch

subsection \<open>Slots\<close>

record cap_slot =
  generation :: u32
  index :: u32
  rights :: u32
  type_tag :: u32

definition EMPTY :: cap_slot where
  "EMPTY = \<lparr>generation = 0, index = 0, rights = 0, type_tag = 0\<rparr>"

definition is_empty :: "cap_slot \<Rightarrow> bool" where
  "is_empty s \<longleftrightarrow> generation s = 0 \<and> index s = 0 \<and> rights s = 0 \<and> type_tag s = 0"

text \<open>
  The \<open>repr(C)\<close> transmute on the little-endian targets: the first field is the low word.
\<close>

definition as_u128 :: "cap_slot \<Rightarrow> u128" where
  "as_u128 s = ucast (generation s) OR push_bit 32 (ucast (index s))
     OR push_bit 64 (ucast (rights s)) OR push_bit 96 (ucast (type_tag s))"

definition from_u128 :: "u128 \<Rightarrow> cap_slot" where
  "from_u128 v = \<lparr>generation = ucast v, index = ucast (drop_bit 32 v),
     rights = ucast (drop_bit 64 v), type_tag = ucast (drop_bit 96 v)\<rparr>"

text \<open>\<open>CMPXCHG16B\<close> on one memory cell: the new contents and the returned value.\<close>

definition cas128 :: "u128 \<Rightarrow> u128 \<Rightarrow> u128 \<Rightarrow> u128 \<times> (u128, u128) result" where
  "cas128 cell old new = (if cell = old then (new, Ok cell) else (cell, Err cell))"

definition atomic_cas ::
    "u128 \<Rightarrow> cap_slot \<Rightarrow> cap_slot \<Rightarrow> u128 \<times> (cap_slot, cap_slot) result" where
  "atomic_cas cell old new =
     (case cas128 cell (as_u128 old) (as_u128 new) of
        (cell', Ok v) \<Rightarrow> (cell', Ok (from_u128 v))
      | (cell', Err v) \<Rightarrow> (cell', Err (from_u128 v)))"

definition atomic_load :: "u128 \<Rightarrow> u128 \<times> cap_slot" where
  "atomic_load cell =
     (case cas128 cell 0 0 of
        (cell', Ok _) \<Rightarrow> (cell', EMPTY)
      | (cell', Err v) \<Rightarrow> (cell', from_u128 v))"

subsection \<open>The object table\<close>

record entry =
  epoch :: u32
  kind :: cap_kind

type_synonym object_table = "entry list"

definition register :: "object_table \<Rightarrow> cap_kind \<Rightarrow> object_table \<times> u32 \<times> u32" where
  "register t k = (t @ [\<lparr>epoch = 1, kind = k\<rparr>], word_of_nat (length t), 1)"

definition current_epoch :: "object_table \<Rightarrow> u32 \<Rightarrow> u32 option" where
  "current_epoch t i = map_option epoch (nth_opt t (unat i))"

definition epoch_and_kind :: "object_table \<Rightarrow> u32 \<Rightarrow> (u32 \<times> cap_kind) option" where
  "epoch_and_kind t i = map_option (\<lambda>e. (epoch e, kind e)) (nth_opt t (unat i))"

text \<open>
  \<open>fetch_add\<close> wraps at 32 bits. The \<open>+ 1\<close> on the value it returns wraps as in the release profile; with
  overflow checks on, the bump from the last epoch stores 0 and then panics.
\<close>

definition bump_epoch :: "object_table \<Rightarrow> u32 \<Rightarrow> object_table \<times> u32 option" where
  "bump_epoch t i =
     (case nth_opt t (unat i) of
        None \<Rightarrow> (t, None)
      | Some e \<Rightarrow> (t[unat i := e\<lparr>epoch := epoch e + 1\<rparr>], Some (epoch e + 1)))"

definition kind_at :: "object_table \<Rightarrow> u32 \<Rightarrow> cap_kind option" where
  "kind_at t i = map_option kind (nth_opt t (unat i))"

subsection \<open>Typed capabilities\<close>

record cap =
  slot :: cap_slot
  tag_T :: cap_kind
  right_R :: right

definition check_live :: "object_table \<Rightarrow> cap \<Rightarrow> (unit, cap_error) result" where
  "check_live t c =
     (case current_epoch t (index (slot c)) of
        Some e \<Rightarrow> if e = generation (slot c) then Ok () else Err Revoked
      | None \<Rightarrow> Err Revoked)"

definition is_live :: "object_table \<Rightarrow> cap \<Rightarrow> bool" where
  "is_live t c \<longleftrightarrow> check_live t c = Ok ()"

text \<open>\<open>op.execute\<close> is the caller's \<open>CapOp\<close> implementation, a parameter.\<close>

definition invoke ::
    "object_table \<Rightarrow> cap \<Rightarrow> (cap \<Rightarrow> ('o, cap_error) result) \<Rightarrow> ('o, cap_error) result" where
  "invoke t c execute =
     (case epoch_and_kind t (index (slot c)) of
        None \<Rightarrow> Err Revoked
      | Some (e, k) \<Rightarrow>
          if e \<noteq> generation (slot c) then Err Revoked
          else if k \<noteq> tag_T c then Err TypeMismatch
          else if type_tag (slot c) \<noteq> kind_tag (tag_T c) then Err TypeMismatch
          else if rights (slot c) AND BITS (right_R c) \<noteq> BITS (right_R c) then Err RightsTooWeak
          else execute c)"

definition NoopOp :: "cap \<Rightarrow> (unit, cap_error) result" where
  "NoopOp c = Ok ()"

definition revoke :: "object_table \<Rightarrow> cap \<Rightarrow> object_table" where
  "revoke t c = fst (bump_epoch t (index (slot c)))"

text \<open>The bound \<open>R2: SubsetOf<R>\<close> is a compile-time condition: the caller's obligation.\<close>

definition derive :: "object_table \<Rightarrow> cap \<Rightarrow> right \<Rightarrow> (cap, cap_error) result" where
  "derive t c r2 =
     (case check_live t c of
        Err e \<Rightarrow> Err e
      | Ok _ \<Rightarrow> Ok (c\<lparr>slot := (slot c)\<lparr>rights := BITS r2\<rparr>, right_R := r2\<rparr>))"

definition bootstrap :: "object_table \<Rightarrow> cap_kind \<Rightarrow> right \<Rightarrow> object_table \<times> cap" where
  "bootstrap t k r =
     (let (t', i, g) = register t k
      in (t', \<lparr>slot = \<lparr>generation = g, index = i, rights = BITS r, type_tag = kind_tag k\<rparr>,
              tag_T = k, right_R = r\<rparr>))"

definition bootstrap_with ::
    "object_table \<Rightarrow> cap \<Rightarrow> cap_kind \<Rightarrow> right \<Rightarrow> object_table \<times> (cap, cap_error) result" where
  "bootstrap_with t creator k r =
     (case check_live t creator of
        Err e \<Rightarrow> (t, Err e)
      | Ok _ \<Rightarrow>
          if type_tag (slot creator) \<noteq> kind_tag K_Task then (t, Err TypeMismatch)
          else if rights (slot creator) AND BITS Create = 0 then (t, Err RightsTooWeak)
          else
            (let (t', i, g) = register t k
             in (t', Ok \<lparr>slot = \<lparr>generation = g, index = i, rights = BITS r,
                                 type_tag = kind_tag k\<rparr>,
                         tag_T = k, right_R = r\<rparr>)))"

subsection \<open>Per-task capability tables\<close>

record cap_table =
  slots :: "cap_slot list"
  next_bootstrap :: nat
  next_general :: nat

definition INITIAL_SLOTS :: nat where "INITIAL_SLOTS = 256"
definition MAX_SLOTS :: nat where "MAX_SLOTS = 131072"
definition RESERVED_SLOTS :: nat where "RESERVED_SLOTS = 16"

definition new_table :: cap_table where
  "new_table = \<lparr>slots = replicate INITIAL_SLOTS EMPTY, next_bootstrap = 0,
                next_general = RESERVED_SLOTS\<rparr>"

definition capacity :: "cap_table \<Rightarrow> nat" where
  "capacity ct = length (slots ct)"

definition install_bootstrap ::
    "object_table \<Rightarrow> cap_table \<Rightarrow> cap \<Rightarrow> cap_table \<times> (u32, cap_error) result" where
  "install_bootstrap t ct c =
     (case check_live t c of
        Err e \<Rightarrow> (ct, Err e)
      | Ok _ \<Rightarrow>
          if type_tag (slot c) \<noteq> kind_tag (tag_T c) then (ct, Err TypeMismatch)
          else if next_bootstrap ct \<ge> RESERVED_SLOTS then (ct, Err CapTableFull)
          else
            (let at = next_bootstrap ct
             in (ct\<lparr>slots := (slots ct)[at := slot c], next_bootstrap := at + 1\<rparr>,
                 Ok (word_of_nat at))))"

definition install_general ::
    "cap_table \<Rightarrow> cap_slot \<Rightarrow> cap_table \<times> (u32, cap_error) result" where
  "install_general ct s =
     (let full = (next_general ct = length (slots ct)) in
      if full \<and> length (slots ct) \<ge> MAX_SLOTS then (ct, Err CapTableFull)
      else
        (let new_len = min (length (slots ct) * 2) MAX_SLOTS;
             grown = (if full then take new_len (slots ct)
                        @ replicate (new_len - length (slots ct)) EMPTY else slots ct);
             at = next_general ct
         in (ct\<lparr>slots := grown[at := s], next_general := at + 1\<rparr>, Ok (word_of_nat at))))"

definition lookup :: "object_table \<Rightarrow> cap_table \<Rightarrow> cap_slot \<Rightarrow> (cap_slot, cap_error) result" where
  "lookup t ct presented =
     (case nth_opt (slots ct) (unat (index presented)) of
        None \<Rightarrow> Err Revoked
      | Some e \<Rightarrow>
          if is_empty e then Err Revoked
          else if type_tag presented \<noteq> type_tag e then Err TypeMismatch
          else if generation presented \<noteq> generation e then Err Revoked
          else if current_epoch t (index e) \<noteq> Some (generation e) then Err Revoked
          else if rights presented AND NOT (rights e) \<noteq> 0 then Err RightsTooWeak
          else Ok e)"

definition install_transfer ::
    "cap_table \<Rightarrow> cap_slot \<Rightarrow> cap_slot \<Rightarrow> cap_table \<times> (u32, cap_error) result" where
  "install_transfer ct grant_entry cap_entry =
     (if rights grant_entry AND BITS Grant = 0 then (ct, Err RightsTooWeak)
      else if index grant_entry \<noteq> index cap_entry then (ct, Err ObjectMismatch)
      else if type_tag grant_entry \<noteq> type_tag cap_entry then (ct, Err TypeMismatch)
      else install_general ct cap_entry)"

definition transfer ::
    "object_table \<Rightarrow> cap \<Rightarrow> cap \<Rightarrow> cap_table \<Rightarrow> cap_table \<times> (u32, cap_error) result" where
  "transfer t self c target =
     (case check_live t self of
        Err e \<Rightarrow> (target, Err e)
      | Ok _ \<Rightarrow>
          (case check_live t c of
             Err e \<Rightarrow> (target, Err e)
           | Ok _ \<Rightarrow>
               if index (slot self) \<noteq> index (slot c) then (target, Err ObjectMismatch)
               else if type_tag (slot c) \<noteq> kind_tag (tag_T self) then (target, Err TypeMismatch)
               else install_general target (slot c)))"

subsection \<open>Facts on rights and kinds\<close>

lemma SubsetOf_refl [simp]: "SubsetOf r r"
  by (cases r) simp_all

lemma SubsetOf_trans: "SubsetOf a b \<Longrightarrow> SubsetOf b c \<Longrightarrow> SubsetOf a c"
  by (cases a; cases b; cases c) simp_all

lemma SubsetOf_antisym: "SubsetOf a b \<Longrightarrow> SubsetOf b a \<Longrightarrow> a = b"
  by (cases a; cases b) simp_all

lemma SubsetOf_Create_iff [simp]:
  "SubsetOf Create r \<longleftrightarrow> r = Create" "SubsetOf r Create \<longleftrightarrow> r = Create"
  by (cases r; simp)+

lemma BITS_nonzero [simp]: "BITS r \<noteq> 0"
  by (cases r) simp_all

lemma kind_entry: "\<exists>n. (n, k) \<in> set KIND_NAMES"
  using in_all_kinds [of k] by (auto simp flip: snd_KIND_NAMES)

lemma kind_name_in: "(kind_name k, k) \<in> set KIND_NAMES"
proof -
  obtain n where n: "(n, k) \<in> set KIND_NAMES" using kind_entry by blast
  then obtain p where p: "List.find (\<lambda>(name, k'). k' = k) KIND_NAMES = Some p"
    by (cases "List.find (\<lambda>(name, k'). k' = k) KIND_NAMES") (auto simp: find_None_iff)
  then have "p \<in> set KIND_NAMES" "snd p = k"
    by (auto simp: find_Some_iff case_prod_beta)
  with p show ?thesis by (cases p) (simp add: kind_name_def)
qed

lemma parse_kind_in: "parse_kind n = Some k \<longleftrightarrow> (n, k) \<in> set KIND_NAMES"
proof -
  have uniq: "(n, a) \<in> set KIND_NAMES \<Longrightarrow> (n, b) \<in> set KIND_NAMES \<Longrightarrow> a = b" for a b
    using distinct_names by (metis eq_key_imp_eq_value)
  show ?thesis
  proof (cases "List.find (\<lambda>(k_name, k). k_name = n) KIND_NAMES")
    case None
    then have "parse_kind n = None" "\<forall>k. (n, k) \<notin> set KIND_NAMES"
      by (simp add: parse_kind_def, auto simp: find_None_iff)
    then show ?thesis by simp
  next
    case (Some p)
    then have "p \<in> set KIND_NAMES" "fst p = n"
      by (auto simp: find_Some_iff case_prod_beta)
    with Some uniq show ?thesis by (cases p) (auto simp: parse_kind_def)
  qed
qed

subsection \<open>Slots\<close>

lemma bit_u32_high [simp]: "32 \<le> n \<Longrightarrow> \<not> bit (w :: u32) n"
  using bit_imp_le_length [of w n] by auto

lemma from_as_u128: "from_u128 (as_u128 s) = s"
  by (cases s) (auto simp: from_u128_def as_u128_def bit_simps intro!: bit_word_eqI)

lemma as_from_u128: "as_u128 (from_u128 v) = v"
proof (rule bit_word_eqI)
  fix n assume "n < LENGTH(128)"
  then consider "n < 32" | "32 \<le> n \<and> n < 64" | "64 \<le> n \<and> n < 96" | "96 \<le> n \<and> n < 128"
    by fastforce
  then show "bit (as_u128 (from_u128 v)) n \<longleftrightarrow> bit v n"
    by cases (auto simp: from_u128_def as_u128_def bit_simps)
qed

lemma as_u128_inj: "as_u128 a = as_u128 b \<longleftrightarrow> a = b"
  by (metis from_as_u128)

lemma as_u128_EMPTY: "as_u128 EMPTY = 0"
  by (simp add: as_u128_def EMPTY_def)

lemma atomic_cas_spec:
  "atomic_cas (as_u128 cur) old new =
     (if cur = old then (as_u128 new, Ok cur) else (as_u128 cur, Err cur))"
  by (simp add: atomic_cas_def cas128_def as_u128_inj from_as_u128)

lemma atomic_load_spec: "atomic_load cell = (cell, from_u128 cell)"
  using from_as_u128 [of EMPTY] by (simp add: atomic_load_def cas128_def as_u128_EMPTY)

lemma is_empty_iff: "is_empty s \<longleftrightarrow> s = EMPTY"
  by (cases s) (auto simp: is_empty_def EMPTY_def)

subsection \<open>Liveness and revocation\<close>

lemma is_live_iff: "is_live t c \<longleftrightarrow> current_epoch t (index (slot c)) = Some (generation (slot c))"
  by (auto simp: is_live_def check_live_def split: option.splits)

lemma check_live_eq: "check_live t c = (if is_live t c then Ok () else Err Revoked)"
  by (auto simp: is_live_def check_live_def split: option.splits)

lemma current_epoch_revoke:
  "current_epoch (revoke t c) i =
     (if i = index (slot c) then map_option (\<lambda>e. e + 1) (current_epoch t i) else current_epoch t i)"
  by (auto simp: revoke_def bump_epoch_def current_epoch_def nth_opt_def nth_list_update
      word_unat_eq_iff split: option.splits)

lemma length_revoke [simp]: "length (revoke t c) = length t"
  by (auto simp: revoke_def bump_epoch_def split: option.splits)

lemma kind_revoke: "i < length t \<Longrightarrow> kind (revoke t c ! i) = kind (t ! i)"
  by (auto simp: revoke_def bump_epoch_def nth_opt_def nth_list_update split: option.splits)

lemma current_epoch_revoke_n:
  "current_epoch (((\<lambda>t. revoke t c) ^^ n) t) (index (slot c)) =
     map_option (\<lambda>e. e + word_of_nat n) (current_epoch t (index (slot c)))"
  by (induction n) (auto simp: current_epoch_revoke option.map_comp algebra_simps option.map_ident o_def)

lemma word_of_nat_u32_eq_0: "(word_of_nat n :: u32) = 0 \<longleftrightarrow> 2 ^ 32 dvd n"
  by (simp add: word_of_nat_eq_0_iff)

lemma is_live_revoke_n:
  assumes "is_live t c"
  shows "is_live (((\<lambda>t. revoke t c) ^^ n) t) c \<longleftrightarrow> 2 ^ 32 dvd n"
  using assms word_of_nat_u32_eq_0 [of n] by (simp add: is_live_iff current_epoch_revoke_n)

subsection \<open>Capability tables\<close>

definition table_ok :: "cap_table \<Rightarrow> bool" where
  "table_ok ct \<longleftrightarrow> RESERVED_SLOTS \<le> next_general ct \<and> next_general ct \<le> length (slots ct)
     \<and> length (slots ct) \<le> MAX_SLOTS \<and> next_bootstrap ct \<le> RESERVED_SLOTS
     \<and> (\<forall>i < length (slots ct). (next_bootstrap ct \<le> i \<and> i < RESERVED_SLOTS \<or> next_general ct \<le> i)
          \<longrightarrow> slots ct ! i = EMPTY)"

lemmas table_sizes = INITIAL_SLOTS_def MAX_SLOTS_def RESERVED_SLOTS_def

lemma table_ok_new: "table_ok new_table"
  by (simp add: table_ok_def new_table_def table_sizes)

lemma unat_word_of_nat_u32: "n < 2 ^ 32 \<Longrightarrow> unat (word_of_nat n :: u32) = n"
  by (simp add: unat_of_nat take_bit_nat_eq_self_iff)

lemma install_general_OkD:
  assumes "install_general ct s = (ct', Ok n)" "table_ok ct"
  shows "table_ok ct'" "unat n = next_general ct" "next_general ct' = next_general ct + 1"
    "next_bootstrap ct' = next_bootstrap ct" "slots ct' ! unat n = s" "unat n < length (slots ct')"
    "\<And>i. i < length (slots ct) \<Longrightarrow> i \<noteq> unat n \<Longrightarrow> slots ct' ! i = slots ct ! i"
    "set (slots ct') \<subseteq> insert s (insert EMPTY (set (slots ct)))"
    "length (slots ct) \<le> length (slots ct')"
proof -
  let ?full = "next_general ct = length (slots ct)"
  let ?new = "min (length (slots ct) * 2) MAX_SLOTS"
  let ?g = "if ?full then slots ct @ replicate (?new - length (slots ct)) EMPTY else slots ct"
  from assms(1) have nf: "\<not> (?full \<and> length (slots ct) \<ge> MAX_SLOTS)"
    by (auto simp: install_general_def Let_def split: if_splits)
  have take: "take ?new (slots ct) = slots ct"
    using assms(2) by (simp add: table_ok_def)
  from assms(1) nf take have ct': "ct' = ct\<lparr>slots := ?g[next_general ct := s],
      next_general := next_general ct + 1\<rparr>" and n: "n = word_of_nat (next_general ct)"
    by (auto simp: install_general_def Let_def split: if_splits)
  have lg: "next_general ct < length ?g" "length ?g \<le> MAX_SLOTS" "length (slots ct) \<le> length ?g"
    using assms(2) nf by (auto simp: table_ok_def table_sizes)
  show un: "unat n = next_general ct"
    using n lg by (simp add: unat_word_of_nat_u32 table_sizes)
  show "next_general ct' = next_general ct + 1" "next_bootstrap ct' = next_bootstrap ct"
    by (simp_all add: ct')
  show "slots ct' ! unat n = s" "unat n < length (slots ct')" "length (slots ct) \<le> length (slots ct')"
    using lg un by (simp_all add: ct')
  show "slots ct' ! i = slots ct ! i" if "i < length (slots ct)" "i \<noteq> unat n" for i
    using that un by (simp add: ct' nth_append)
  show "set (slots ct') \<subseteq> insert s (insert EMPTY (set (slots ct)))"
    using set_update_subset_insert [of ?g "next_general ct" s] by (auto simp: ct' split: if_splits)
  have "?g ! i = EMPTY" if "i < length ?g"
      "next_bootstrap ct \<le> i \<and> i < RESERVED_SLOTS \<or> next_general ct \<le> i" for i
    using that assms(2) by (auto simp: table_ok_def nth_append)
  then show "table_ok ct'"
    using assms(2) lg by (auto simp: ct' table_ok_def nth_list_update)
qed

lemma install_bootstrap_OkD:
  assumes "install_bootstrap t ct c = (ct', Ok n)" "table_ok ct"
  shows "table_ok ct'" "unat n = next_bootstrap ct" "next_bootstrap ct < RESERVED_SLOTS"
    "next_general ct' = next_general ct" "next_bootstrap ct' = next_bootstrap ct + 1"
    "slots ct' = (slots ct)[unat n := slot c]" "is_live t c" "unat n < length (slots ct)"
proof -
  from assms(1) have *: "is_live t c" "next_bootstrap ct < RESERVED_SLOTS"
    "n = word_of_nat (next_bootstrap ct)"
    "ct' = ct\<lparr>slots := (slots ct)[next_bootstrap ct := slot c], next_bootstrap := next_bootstrap ct + 1\<rparr>"
    by (auto simp: install_bootstrap_def check_live_eq Let_def split: if_splits sum.splits)
  then show un: "unat n = next_bootstrap ct"
    by (simp add: unat_word_of_nat_u32 table_sizes)
  show "table_ok ct'" using assms(2) * by (auto simp: table_ok_def nth_list_update)
  show "is_live t c" "next_bootstrap ct < RESERVED_SLOTS" "next_general ct' = next_general ct"
    "next_bootstrap ct' = next_bootstrap ct + 1" "slots ct' = (slots ct)[unat n := slot c]"
    using * un by simp_all
  show "unat n < length (slots ct)" using assms(2) * un by (auto simp: table_ok_def)
qed

lemma lookup_OkD:
  assumes "lookup t ct p = Ok e"
  shows "unat (index p) < length (slots ct)" "slots ct ! unat (index p) = e" "e \<noteq> EMPTY"
    "type_tag p = type_tag e" "generation p = generation e"
    "current_epoch t (index e) = Some (generation e)" "rights p AND NOT (rights e) = 0"
  using assms by (auto simp: lookup_def nth_opt_def is_empty_iff split: if_splits option.splits)

lemma lookup_OkI:
  assumes "unat (index p) < length (slots ct)" "slots ct ! unat (index p) = e" "e \<noteq> EMPTY"
    "type_tag p = type_tag e" "generation p = generation e"
    "current_epoch t (index e) = Some (generation e)" "rights p AND NOT (rights e) = 0"
  shows "lookup t ct p = Ok e"
  using assms by (simp add: lookup_def nth_opt_def is_empty_iff)

lemma install_transfer_OkD:
  assumes "install_transfer ct g e = (ct', Ok n)"
  shows "rights g AND BITS Grant \<noteq> 0" "index g = index e" "type_tag g = type_tag e"
    "install_general ct e = (ct', Ok n)"
  using assms by (auto simp: install_transfer_def split: if_splits)

lemma transfer_OkD:
  assumes "transfer t g c ct = (ct', Ok n)"
  shows "is_live t g" "is_live t c" "index (slot g) = index (slot c)"
    "type_tag (slot c) = kind_tag (tag_T g)" "install_general ct (slot c) = (ct', Ok n)"
  using assms by (auto simp: transfer_def check_live_eq split: if_splits sum.splits)

end
