(* ===== verification/Capability_System.thy ===== *)
theory Capability_System
  imports Capabilities
begin

text \<open>
  The capability system as a whole: the object table, every typed capability some holder
  has been given, and every task's table, closed under the public operations of
  \<open>capabilities/src/lib.rs\<close>. Capabilities are \<open>Copy\<close>, so \<open>revoke(self)\<close> leaves copies
  behind and the set of held capabilities only grows. The properties are about all
  reachable states of this system.
\<close>

record sys =
  objects :: object_table
  held :: "cap set"
  tables :: "cap_table list"

definition init_sys :: sys where
  "init_sys = \<lparr>objects = [], held = {}, tables = []\<rparr>"

inductive cap_step :: "sys \<Rightarrow> sys \<Rightarrow> bool" where
  step_bootstrap:
    "bootstrap (objects s) k r = (t', c) \<Longrightarrow>
     cap_step s (s\<lparr>objects := t', held := insert c (held s)\<rparr>)"
| step_bootstrap_with:
    "creator \<in> held s \<Longrightarrow> right_R creator = Create \<Longrightarrow>
     bootstrap_with (objects s) creator k r = (t', Ok c) \<Longrightarrow>
     cap_step s (s\<lparr>objects := t', held := insert c (held s)\<rparr>)"
| step_derive:
    "c \<in> held s \<Longrightarrow> SubsetOf r2 (right_R c) \<Longrightarrow> derive (objects s) c r2 = Ok c' \<Longrightarrow>
     cap_step s (s\<lparr>held := insert c' (held s)\<rparr>)"
| step_revoke:
    "c \<in> held s \<Longrightarrow> cap_step s (s\<lparr>objects := revoke (objects s) c\<rparr>)"
| step_new_table:
    "cap_step s (s\<lparr>tables := tables s @ [new_table]\<rparr>)"
| step_install_bootstrap:
    "c \<in> held s \<Longrightarrow> i < length (tables s) \<Longrightarrow>
     install_bootstrap (objects s) (tables s ! i) c = (ct', Ok n) \<Longrightarrow>
     cap_step s (s\<lparr>tables := (tables s)[i := ct']\<rparr>)"
| step_transfer:
    "g \<in> held s \<Longrightarrow> right_R g = Grant \<Longrightarrow> c \<in> held s \<Longrightarrow> tag_T c = tag_T g \<Longrightarrow>
     i < length (tables s) \<Longrightarrow> transfer (objects s) g c (tables s ! i) = (ct', Ok n) \<Longrightarrow>
     cap_step s (s\<lparr>tables := (tables s)[i := ct']\<rparr>)"
| step_install_transfer:
    "i < length (tables s) \<Longrightarrow> lookup (objects s) (tables s ! i) p = Ok g \<Longrightarrow>
     lookup (objects s) (tables s ! i) q = Ok e \<Longrightarrow> j < length (tables s) \<Longrightarrow>
     install_transfer (tables s ! j) g e = (ct', Ok n) \<Longrightarrow>
     cap_step s (s\<lparr>tables := (tables s)[j := ct']\<rparr>)"

definition cap_reachable :: "sys \<Rightarrow> bool" where
  "cap_reachable s \<longleftrightarrow> cap_step\<^sup>*\<^sup>* init_sys s"

subsection \<open>The invariant\<close>

definition cap_ok :: "object_table \<Rightarrow> cap \<Rightarrow> bool" where
  "cap_ok t c \<longleftrightarrow> unat (index (slot c)) < length t
     \<and> kind (t ! unat (index (slot c))) = tag_T c
     \<and> type_tag (slot c) = kind_tag (tag_T c) \<and> rights (slot c) = BITS (right_R c)"

definition entry_ok :: "cap set \<Rightarrow> cap_slot \<Rightarrow> bool" where
  "entry_ok H e \<longleftrightarrow> e = EMPTY \<or> (\<exists>c \<in> H. slot c = e)"

definition sys_ok :: "sys \<Rightarrow> bool" where
  "sys_ok s \<longleftrightarrow> (\<forall>c \<in> held s. cap_ok (objects s) c)
     \<and> (\<forall>ct \<in> set (tables s). table_ok ct \<and> (\<forall>e \<in> set (slots ct). entry_ok (held s) e))"

lemma entry_ok_mono: "entry_ok H e \<Longrightarrow> H \<subseteq> H' \<Longrightarrow> entry_ok H' e"
  by (auto simp: entry_ok_def)

lemma cap_ok_append: "cap_ok t c \<Longrightarrow> cap_ok (t @ us) c"
  by (auto simp: cap_ok_def nth_append)

lemma cap_ok_revoke: "cap_ok (revoke t d) c \<longleftrightarrow> cap_ok t c"
  by (auto simp: cap_ok_def kind_revoke)

lemma sys_ok_init: "sys_ok init_sys"
  by (simp add: sys_ok_def init_sys_def)

text \<open>A minted capability names the fresh object, as long as the index did not wrap.\<close>

lemma bootstrap_mint:
  assumes "bootstrap t k r = (t', c)" "length t' \<le> 2 ^ 32"
  shows "t' = t @ [\<lparr>epoch = 1, kind = k\<rparr>]" "unat (index (slot c)) = length t"
    "cap_ok t' c" "right_R c = r" "tag_T c = k"
  using assms by (auto simp: bootstrap_def register_def cap_ok_def unat_word_of_nat_u32)

lemma bootstrap_with_mint:
  assumes "bootstrap_with t cr k r = (t', Ok c)"
  shows "bootstrap t k r = (t', c)" "is_live t cr"
  using assms
  by (auto simp: bootstrap_with_def bootstrap_def register_def check_live_eq
      split: if_splits sum.splits)

lemma derive_OkD:
  assumes "derive t c r = Ok c'"
  shows "is_live t c" "right_R c' = r" "tag_T c' = tag_T c" "index (slot c') = index (slot c)"
    "generation (slot c') = generation (slot c)" "cap_ok t c \<Longrightarrow> cap_ok t c'"
  using assms by (auto simp: derive_def check_live_eq cap_ok_def split: if_splits sum.splits)

lemma cap_step_objects_grow: "cap_step s s' \<Longrightarrow> length (objects s) \<le> length (objects s')"
  by (induction rule: cap_step.induct)
    (auto simp: bootstrap_def register_def dest!: bootstrap_with_mint(1))

lemma cap_step_held_grow: "cap_step s s' \<Longrightarrow> held s \<subseteq> held s'"
  by (induction rule: cap_step.induct) auto

lemma sys_ok_mint:
  assumes "sys_ok s" "bootstrap (objects s) k r = (t', c)" "length t' \<le> 2 ^ 32"
  shows "sys_ok (s\<lparr>objects := t', held := insert c (held s)\<rparr>)"
  using assms bootstrap_mint [OF assms(2,3)]
  by (auto simp: sys_ok_def cap_ok_append intro: entry_ok_mono)

lemma sys_ok_update_table:
  assumes "sys_ok s" "table_ok ct'" "\<And>e. e \<in> set (slots ct') \<Longrightarrow> entry_ok (held s) e"
  shows "sys_ok (s\<lparr>tables := (tables s)[i := ct']\<rparr>)"
  using assms set_update_subset_insert [of "tables s" i ct'] by (auto simp: sys_ok_def)

lemma sys_ok_install_general:
  assumes "sys_ok s" "i < length (tables s)" "install_general (tables s ! i) e = (ct', Ok n)"
    "entry_ok (held s) e"
  shows "sys_ok (s\<lparr>tables := (tables s)[i := ct']\<rparr>)"
proof (rule sys_ok_update_table [OF assms(1)])
  have ok: "table_ok (tables s ! i)" "\<forall>e \<in> set (slots (tables s ! i)). entry_ok (held s) e"
    using assms(1,2) by (auto simp: sys_ok_def)
  note D = install_general_OkD [OF assms(3) ok(1)]
  show "table_ok ct'" by (rule D(1))
  show "entry_ok (held s) x" if "x \<in> set (slots ct')" for x
    using that D(8) ok(2) assms(4) by (auto simp: entry_ok_def)
qed

lemma sys_ok_install_bootstrap:
  assumes "sys_ok s" "i < length (tables s)" "c \<in> held s"
    "install_bootstrap (objects s) (tables s ! i) c = (ct', Ok n)"
  shows "sys_ok (s\<lparr>tables := (tables s)[i := ct']\<rparr>)"
proof (rule sys_ok_update_table [OF assms(1)])
  have ok: "table_ok (tables s ! i)" "\<forall>e \<in> set (slots (tables s ! i)). entry_ok (held s) e"
    using assms(1,2) by (auto simp: sys_ok_def)
  note D = install_bootstrap_OkD [OF assms(4) ok(1)]
  show "table_ok ct'" by (rule D(1))
  show "entry_ok (held s) x" if "x \<in> set (slots ct')" for x
    using that ok(2) assms(3) set_update_subset_insert [of "slots (tables s ! i)" "unat n" "slot c"]
    by (auto simp: D(6) entry_ok_def)
qed

lemma sys_ok_step:
  "cap_step s s' \<Longrightarrow> sys_ok s \<Longrightarrow> length (objects s') \<le> 2 ^ 32 \<Longrightarrow> sys_ok s'"
proof (induction rule: cap_step.induct)
  case (step_bootstrap s k r t' c)
  then show ?case by (auto intro: sys_ok_mint)
next
  case (step_bootstrap_with creator s k r t' c)
  then show ?case by (auto intro: sys_ok_mint dest: bootstrap_with_mint)
next
  case (step_derive c s r2 c')
  then have "cap_ok (objects s) c'" by (auto simp: sys_ok_def dest: derive_OkD)
  with step_derive.prems show ?case by (auto simp: sys_ok_def intro: entry_ok_mono)
next
  case (step_revoke c s)
  then show ?case by (auto simp: sys_ok_def cap_ok_revoke)
next
  case (step_new_table s)
  then show ?case
    by (auto simp: sys_ok_def table_ok_new) (auto simp: new_table_def entry_ok_def)
next
  case (step_install_bootstrap c s i ct' n)
  then show ?case by (auto intro: sys_ok_install_bootstrap)
next
  case (step_transfer g s c i ct' n)
  then show ?case
    by (auto simp: entry_ok_def intro!: sys_ok_install_general dest: transfer_OkD)
next
  case (step_install_transfer i s p g q e j ct' n)
  have "e \<in> set (slots (tables s ! i))"
    using lookup_OkD(1,2) [OF step_install_transfer.hyps(3)] by auto
  then have "entry_ok (held s) e"
    using step_install_transfer.hyps(1) step_install_transfer.prems(1) by (auto simp: sys_ok_def)
  then show ?case
    using step_install_transfer by (auto intro!: sys_ok_install_general dest: install_transfer_OkD)
qed

lemma cap_steps_objects_grow: "cap_step\<^sup>*\<^sup>* s s' \<Longrightarrow> length (objects s) \<le> length (objects s')"
  by (induction rule: rtranclp_induct) (auto dest: cap_step_objects_grow)

lemma sys_ok_steps:
  "cap_step\<^sup>*\<^sup>* s s' \<Longrightarrow> sys_ok s \<Longrightarrow> length (objects s') \<le> 2 ^ 32 \<Longrightarrow> sys_ok s'"
proof (induction rule: rtranclp_induct)
  case (step y z)
  then show ?case using cap_step_objects_grow [of y z] sys_ok_step [of y z] by simp
qed simp

lemma reachable_sys_ok: "cap_reachable s \<Longrightarrow> length (objects s) \<le> 2 ^ 32 \<Longrightarrow> sys_ok s"
  unfolding cap_reachable_def by (rule sys_ok_steps) (auto simp: sys_ok_init)

lemma invoke_cap_ok:
  "cap_ok t c \<Longrightarrow> invoke t c op = (if is_live t c then op c else Err Revoked)"
  by (auto simp: invoke_def epoch_and_kind_def is_live_iff current_epoch_def cap_ok_def nth_opt_def)

text \<open>One step never adds authority over an object that already existed.\<close>

lemma step_authority:
  assumes "cap_step s s'" "length (objects s') \<le> 2 ^ 32" "c' \<in> held s'"
    "unat (index (slot c')) < length (objects s)"
  shows "\<exists>c \<in> held s. index (slot c) = index (slot c') \<and> SubsetOf (right_R c') (right_R c)"
  using assms
proof (induction rule: cap_step.induct)
  case (step_bootstrap s k r t' c)
  then show ?case using bootstrap_mint(2) [of "objects s" k r t' c] by auto
next
  case (step_bootstrap_with creator s k r t' c)
  then show ?case using bootstrap_mint(2) [of "objects s" k r t' c] bootstrap_with_mint(1) by auto
next
  case (step_derive c s r2 d)
  then show ?case using derive_OkD(2,4) [OF step_derive.hyps(3)] by auto
qed auto

lemma steps_authority:
  assumes "cap_step\<^sup>*\<^sup>* s s'" "length (objects s') \<le> 2 ^ 32" "c' \<in> held s'"
    "unat (index (slot c')) < length (objects s)"
  shows "\<exists>c \<in> held s. index (slot c) = index (slot c') \<and> SubsetOf (right_R c') (right_R c)"
  using assms
proof (induction arbitrary: c' rule: rtranclp_induct)
  case base
  then show ?case by auto
next
  case (step y z)
  have len: "length (objects y) \<le> length (objects z)" "length (objects s) \<le> length (objects y)"
    using step.hyps cap_step_objects_grow cap_steps_objects_grow by auto
  from step_authority [OF step.hyps(2) step.prems(1,2)] step.prems(3) len obtain d
    where d: "d \<in> held y" "index (slot d) = index (slot c')" "SubsetOf (right_R c') (right_R d)"
    by auto
  moreover from step.IH [of d] d step.prems len obtain c
    where "c \<in> held s" "index (slot c) = index (slot d)" "SubsetOf (right_R d) (right_R c)"
    by auto
  ultimately show ?case by (auto intro: SubsetOf_trans)
qed

subsection \<open>A concrete run\<close>

text \<open>Boot mints a creator capability for a task and a Grant capability for a ring.\<close>

definition boot_objects :: object_table where
  "boot_objects = [\<lparr>epoch = 1, kind = K_Task\<rparr>, \<lparr>epoch = 1, kind = K_Ring\<rparr>]"

definition boot_creator :: cap where
  "boot_creator = \<lparr>slot = \<lparr>generation = 1, index = 0, rights = 32, type_tag = 0x80\<rparr>,
     tag_T = K_Task, right_R = Create\<rparr>"

definition boot_grant :: cap where
  "boot_grant = \<lparr>slot = \<lparr>generation = 1, index = 1, rights = 4, type_tag = 0x40\<rparr>,
     tag_T = K_Ring, right_R = Grant\<rparr>"

definition boot_table :: cap_table where
  "boot_table = new_table\<lparr>slots := (slots new_table)[0 := slot boot_grant], next_bootstrap := 1\<rparr>"

definition boot_sys :: sys where
  "boot_sys = \<lparr>objects = boot_objects, held = {boot_grant, boot_creator}, tables = [boot_table]\<rparr>"

lemmas boot_defs = boot_sys_def boot_objects_def boot_creator_def boot_grant_def

lemma boot_reachable: "cap_reachable boot_sys"
proof -
  let ?s1 = "\<lparr>objects = [\<lparr>epoch = 1, kind = K_Task\<rparr>], held = {boot_creator}, tables = []\<rparr>"
  let ?s2 = "\<lparr>objects = boot_objects, held = {boot_grant, boot_creator}, tables = []\<rparr>"
  let ?s3 = "\<lparr>objects = boot_objects, held = {boot_grant, boot_creator}, tables = [new_table]\<rparr>"
  have 1: "cap_step init_sys ?s1"
    using step_bootstrap [of init_sys K_Task Create "[\<lparr>epoch = 1, kind = K_Task\<rparr>]" boot_creator]
    by (simp add: init_sys_def bootstrap_def register_def boot_creator_def)
  have 2: "cap_step ?s1 ?s2"
    using step_bootstrap_with [of boot_creator ?s1 K_Ring Grant boot_objects boot_grant]
    by (simp add: bootstrap_with_def register_def boot_defs check_live_def current_epoch_def nth_opt_def)
  have 3: "cap_step ?s2 ?s3" using step_new_table [of ?s2] by simp
  have 4: "cap_step ?s3 boot_sys"
    using step_install_bootstrap [of boot_grant ?s3 0 boot_table 0]
    by (simp add: install_bootstrap_def boot_defs boot_table_def check_live_def current_epoch_def
        nth_opt_def new_table_def table_sizes)
  from 1 2 3 4 show ?thesis unfolding cap_reachable_def
    by (meson rtranclp.rtrancl_into_rtrancl rtranclp.rtrancl_refl)
qed

subsection \<open>Properties\<close>

text \<open>
  C2. Invocation is exactly the epoch gate for honest capabilities: in every reachable
  state of the system (with no more than \<open>2^32\<close> registered objects, beyond which the
  32-bit object index wraps), invoking any capability that was handed out runs the
  operation if the capability is live and returns \<open>Revoked\<close> otherwise. The kind, type-tag
  and rights checks never reject a capability that the API produced.
\<close>

theorem invoke_reachable:
  assumes "cap_reachable s" and "length (objects s) \<le> 2 ^ 32" and "c \<in> held s"
  shows "invoke (objects s) c op = (if is_live (objects s) c then op c else Err Revoked)"
  using reachable_sys_ok [OF assms(1,2)] assms(3) by (intro invoke_cap_ok) (simp add: sys_ok_def)

theorem invoke_reachable_witness:
  "invoke (objects boot_sys) boot_grant NoopOp = Ok ()"
  using invoke_reachable [OF boot_reachable, of boot_grant NoopOp]
  by (simp add: boot_defs is_live_def check_live_def current_epoch_def nth_opt_def NoopOp_def)

text \<open>
  C3. No privilege escalation: along any run of the system, every right held over an object
  that already existed at the start is below a right that was already held over that object
  at the start, in the declared derivation order. Deriving, transferring, revoking and
  minting other objects never add authority; in particular mint authority (\<open>Create\<close>) over
  an object cannot be obtained from any other right over it.
\<close>

theorem no_privilege_escalation:
  assumes "cap_step\<^sup>*\<^sup>* s s'" and "length (objects s') \<le> 2 ^ 32"
    and "c' \<in> held s'" and "unat (index (slot c')) < length (objects s)"
  shows "\<exists>c \<in> held s. index (slot c) = index (slot c') \<and> SubsetOf (right_R c') (right_R c)"
  using assms by (rule steps_authority)

theorem no_privilege_escalation_witness:
  "\<exists>c \<in> held boot_sys. index (slot c) = index (slot boot_grant) \<and> SubsetOf Read (right_R c)"
proof -
  let ?d = "boot_grant\<lparr>slot := (slot boot_grant)\<lparr>rights := 1\<rparr>, right_R := Read\<rparr>"
  have "cap_step boot_sys (boot_sys\<lparr>held := insert ?d (held boot_sys)\<rparr>)"
    by (rule step_derive [of boot_grant _ Read])
      (simp_all add: derive_def boot_defs check_live_def current_epoch_def nth_opt_def)
  then show ?thesis
    using no_privilege_escalation [of boot_sys "boot_sys\<lparr>held := insert ?d (held boot_sys)\<rparr>" ?d]
    by (auto simp: boot_defs)
qed

text \<open>
  C4. A task can only present what it was given: when a slot presented at the task boundary
  resolves in a reachable state, the resolved entry is the slot of a capability that was
  handed out, that capability is live, it has the presented type tag, and the presented
  rights are among its rights. The resolved object never comes from the presented bytes.
\<close>

theorem lookup_provenance:
  assumes "cap_reachable s" and "length (objects s) \<le> 2 ^ 32" and "ct \<in> set (tables s)"
    and "lookup (objects s) ct p = Ok e"
  shows "\<exists>c \<in> held s. slot c = e \<and> is_live (objects s) c \<and> type_tag p = kind_tag (tag_T c)
    \<and> rights p AND NOT (BITS (right_R c)) = 0"
proof -
  note L = lookup_OkD [OF assms(4)]
  have ok: "sys_ok s" using assms by (blast intro: reachable_sys_ok)
  then have "entry_ok (held s) e" using L(1,2) assms(3) by (auto simp: sys_ok_def)
  then obtain c where c: "c \<in> held s" "slot c = e" using L(3) by (auto simp: entry_ok_def)
  then have "cap_ok (objects s) c" using ok by (auto simp: sys_ok_def)
  with c L show ?thesis by (auto simp: cap_ok_def is_live_iff intro!: bexI [of _ c])
qed

theorem lookup_provenance_witness:
  "\<exists>c \<in> held boot_sys. slot c = slot boot_grant \<and> is_live (objects boot_sys) c
    \<and> (0x40 :: u32) = kind_tag (tag_T c) \<and> (4 :: u32) AND NOT (BITS (right_R c)) = 0"
proof -
  have "lookup (objects boot_sys) boot_table
      \<lparr>generation = 1, index = 0, rights = 4, type_tag = 0x40\<rparr> = Ok (slot boot_grant)"
    by (simp add: lookup_def boot_defs boot_table_def new_table_def table_sizes nth_opt_def
        is_empty_def current_epoch_def)
  from lookup_provenance [OF boot_reachable _ _ this] show ?thesis
    by (simp add: boot_defs)
qed

text \<open>
  Revocation is global and selective: one \<open>revoke\<close> of any copy of a capability kills
  every live capability for that object, whoever holds it, and every table entry for it,
  and leaves the liveness of capabilities for other objects unchanged.
\<close>

theorem revoke_global:
  assumes "is_live t d"
  shows "(is_live (revoke t c) d \<longleftrightarrow> index (slot d) \<noteq> index (slot c))
    \<and> (index (slot d) = index (slot c) \<longrightarrow> (\<forall>ct p. lookup (revoke t c) ct p \<noteq> Ok (slot d)))"
  using assms lookup_OkD(6) [of "revoke t c" _ _ "slot d"]
  by (auto simp: is_live_iff current_epoch_revoke)

theorem revoke_global_witness:
  "\<not> is_live (revoke boot_objects boot_grant) boot_grant
   \<and> is_live (revoke boot_objects boot_grant) boot_creator"
  using revoke_global [of boot_objects boot_grant boot_grant]
    revoke_global [of boot_objects boot_creator boot_grant]
  by (simp add: boot_defs is_live_def check_live_def current_epoch_def nth_opt_def)

text \<open>
  C5. The exact reach of a revocation: since the epoch is a 32-bit counter that wraps, a
  capability revoked \<open>n\<close> times through the same object is live again exactly when \<open>n\<close> is
  a multiple of \<open>2^32\<close>; every smaller positive number of revocations keeps it dead.
  (\<open>revoke\<close> checks neither liveness nor rights, so any holder of a stale copy can perform
  them.)
\<close>

theorem revoke_until_wrap:
  assumes "is_live t c"
  shows "is_live (((\<lambda>t. revoke t c) ^^ n) t) c \<longleftrightarrow> 2 ^ 32 dvd n"
  using assms by (rule is_live_revoke_n)

theorem revoke_until_wrap_witness:
  "is_live (((\<lambda>t. revoke t boot_grant) ^^ (2 ^ 32)) boot_objects) boot_grant
   \<and> \<not> is_live (((\<lambda>t. revoke t boot_grant) ^^ 3) boot_objects) boot_grant"
proof -
  have live: "is_live boot_objects boot_grant"
    by (simp add: boot_defs is_live_def check_live_def current_epoch_def nth_opt_def)
  show ?thesis
    using revoke_until_wrap [OF live, of "2 ^ 32"] revoke_until_wrap [OF live, of 3] by simp
qed

end
