(* ===== verification/Buddy.thy ===== *)
theory Buddy
  imports Narf_Prelude
begin

text \<open>
  The physical frame allocator, \<open>memory/src/buddy.rs\<close>: one NUMA zone with a free list per
  mobility class and order. Frame numbers and counters are natural numbers; the sources
  keep them below \<open>2^52\<close> (physical addresses shifted by the page size), where \<open>u64\<close>
  arithmetic is exact, and the saturating additions are written out. The array
  \<open>free_lists[M][N]\<close> is a function of mobility class and order. Vec capacities and the
  feature-gated allocation audit are not part of the state.

  The abstraction of a zone is the multiset \<open>zfree\<close> of its free frames: every operation is
  specified by its effect on that multiset, and a frame occurring twice would be a frame
  handed out twice.
\<close>

subsection \<open>Constants and geometry\<close>

definition MAX_ORDER :: nat where "MAX_ORDER = 13"
definition NUM_ORDERS :: nat where "NUM_ORDERS = MAX_ORDER + 1"
definition PAGE_SIZE :: nat where "PAGE_SIZE = 4096"

datatype migrate_type = Unmovable | Movable

definition migrate_types :: "migrate_type list" where
  "migrate_types = [Unmovable, Movable]"

fun mt_index :: "migrate_type \<Rightarrow> nat" where
  "mt_index Unmovable = 0"
| "mt_index Movable = 1"

definition from_index :: "nat \<Rightarrow> migrate_type" where
  "from_index idx = (if idx = 1 then Movable else Unmovable)"

fun FALLBACK_ORDER :: "migrate_type \<Rightarrow> migrate_type list" where
  "FALLBACK_ORDER Unmovable = [Unmovable, Movable]"
| "FALLBACK_ORDER Movable = [Movable, Unmovable]"

definition order_bytes :: "nat \<Rightarrow> nat" where
  "order_bytes ord = PAGE_SIZE * 2 ^ ord"

definition order_frames :: "nat \<Rightarrow> nat" where
  "order_frames ord = 2 ^ ord"

definition buddy_of :: "nat \<Rightarrow> nat \<Rightarrow> nat" where
  "buddy_of frame_no ord = frame_no XOR 2 ^ ord"

subsection \<open>The zone\<close>

record buddy_zone =
  free_lists :: "migrate_type \<Rightarrow> nat \<Rightarrow> nat list"
  total_frames :: nat
  free_frames :: nat

definition new_zone :: buddy_zone where
  "new_zone = \<lparr>free_lists = (\<lambda>_ _. []), total_frames = 0, free_frames = 0\<rparr>"

definition set_list :: "migrate_type \<Rightarrow> nat \<Rightarrow> nat list \<Rightarrow> buddy_zone \<Rightarrow> buddy_zone" where
  "set_list mt ord xs z = z\<lparr>free_lists := (free_lists z)(mt := (free_lists z mt)(ord := xs))\<rparr>"

definition push :: "migrate_type \<Rightarrow> nat \<Rightarrow> nat \<Rightarrow> buddy_zone \<Rightarrow> buddy_zone" where
  "push mt ord f z = set_list mt ord (free_lists z mt ord @ [f]) z"

lemma free_lists_set_list [simp]:
  "free_lists (set_list mt ord xs z) mt' ord' =
     (if mt' = mt \<and> ord' = ord then xs else free_lists z mt' ord')"
  by (simp add: set_list_def)

lemma counters_set_list [simp]:
  "total_frames (set_list mt ord xs z) = total_frames z"
  "free_frames (set_list mt ord xs z) = free_frames z"
  by (simp_all add: set_list_def)

text \<open>The per-order capacity that \<open>reserve_growth_capacity\<close> reserves, and its bytes.\<close>

definition reserve_cap :: "buddy_zone \<Rightarrow> nat \<Rightarrow> nat" where
  "reserve_cap z ord = max (total_frames z div 2 ^ ord) 64 + 64"

definition reservation_bytes :: "buddy_zone \<Rightarrow> nat" where
  "reservation_bytes z =
     (if total_frames z = 0 then 0
      else fold (\<lambda>ord bytes. min (bytes + reserve_cap z ord * 8 * 2) (2 ^ 64 - 1)) [0..<NUM_ORDERS] 0)"

subsection \<open>Donation\<close>

text \<open>The inner loop: the largest order that is aligned at \<open>start\<close> and fits below \<open>end\<close>.\<close>

fun donate_order :: "nat \<Rightarrow> nat \<Rightarrow> nat \<Rightarrow> nat" where
  "donate_order start en 0 = 0"
| "donate_order start en (Suc ord) =
     (let block_frames = order_frames (Suc ord)
      in if start AND (block_frames - 1) = 0 \<and> start + block_frames \<le> en then Suc ord
         else donate_order start en ord)"

function donate_loop :: "migrate_type \<Rightarrow> nat \<Rightarrow> nat \<Rightarrow> buddy_zone \<Rightarrow> buddy_zone" where
  "donate_loop mt start en z =
     (if start < en
      then (let ord = donate_order start en MAX_ORDER
            in donate_loop mt (start + order_frames ord) en (push mt ord start z))
      else z)"
  by pat_completeness auto
termination
  by (relation "measure (\<lambda>(mt, start, en, z). en - start)")
    (auto simp: order_frames_def intro!: diff_less_mono2)

definition donate_as :: "nat \<Rightarrow> nat \<Rightarrow> migrate_type \<Rightarrow> buddy_zone \<Rightarrow> buddy_zone" where
  "donate_as first_frame frame_count mt z =
     donate_loop mt first_frame (first_frame + frame_count)
       (z\<lparr>total_frames := total_frames z + frame_count, free_frames := free_frames z + frame_count\<rparr>)"

definition donate :: "nat \<Rightarrow> nat \<Rightarrow> buddy_zone \<Rightarrow> buddy_zone" where
  "donate first_frame frame_count z = donate_as first_frame frame_count Movable z"

text \<open>
  The capacities of the free-list vectors are a separate argument \<open>caps\<close> of the two
  operations that read them. \<open>Vec::reserve_exact(additional)\<close> keeps a capacity that already
  covers \<open>len + additional\<close> and otherwise makes it \<open>len + additional\<close>.
\<close>

type_synonym capacities = "migrate_type \<Rightarrow> nat \<Rightarrow> nat"

definition reserve_exact :: "nat \<Rightarrow> nat \<Rightarrow> nat \<Rightarrow> nat" where
  "reserve_exact additional len cap = (if additional > cap - len then len + additional else cap)"

definition reserve_growth_capacity :: "buddy_zone \<Rightarrow> capacities \<Rightarrow> capacities" where
  "reserve_growth_capacity z caps =
     (if total_frames z = 0 then caps
      else (\<lambda>mt ord.
        if ord < NUM_ORDERS
        then (let need = reserve_cap z ord - caps mt ord
              in if need > 0 then reserve_exact need (length (free_lists z mt ord)) (caps mt ord)
                 else caps mt ord)
        else caps mt ord))"

function needed_loop :: "nat \<Rightarrow> nat \<Rightarrow> (nat \<Rightarrow> nat) \<Rightarrow> nat \<Rightarrow> nat" where
  "needed_loop start en needed =
     (if start < en
      then (let ord = donate_order start en MAX_ORDER
            in needed_loop (start + order_frames ord) en (needed(ord := needed ord + 1)))
      else needed)"
  by pat_completeness auto
termination
  by (relation "measure (\<lambda>(start, en, needed). en - start)")
    (auto simp: order_frames_def intro!: diff_less_mono2)

definition can_donate_without_growth :: "capacities \<Rightarrow> nat \<Rightarrow> nat \<Rightarrow> buddy_zone \<Rightarrow> bool" where
  "can_donate_without_growth caps first_frame frame_count z =
     (let needed = needed_loop first_frame (min (first_frame + frame_count) (2 ^ 64 - 1)) (\<lambda>_. 0)
      in list_all (\<lambda>ord. length (free_lists z Movable ord) + needed ord \<le> caps Movable ord) [0..<NUM_ORDERS])"

subsection \<open>Allocation\<close>

text \<open>The first non-empty list at or above the requested order, then the splits.\<close>

function found_order :: "buddy_zone \<Rightarrow> migrate_type \<Rightarrow> nat \<Rightarrow> nat" where
  "found_order z mt ord =
     (if ord \<le> MAX_ORDER then if free_lists z mt ord \<noteq> [] then ord else found_order z mt (Suc ord)
      else ord)"
  by pat_completeness auto
termination
  by (relation "measure (\<lambda>(z, mt, ord). Suc MAX_ORDER - ord)") auto

fun split_down :: "migrate_type \<Rightarrow> nat \<Rightarrow> nat \<Rightarrow> nat \<Rightarrow> buddy_zone \<Rightarrow> buddy_zone" where
  "split_down mt frame 0 ord z = z"
| "split_down mt frame (Suc cur) ord z =
     (if Suc cur > ord
      then split_down mt frame cur ord (push mt cur (frame + order_frames cur) z)
      else z)"

definition alloc_within ::
    "nat \<Rightarrow> migrate_type \<Rightarrow> migrate_type \<Rightarrow> buddy_zone \<Rightarrow> buddy_zone \<times> nat option" where
  "alloc_within ord src_mt dst_mt z =
     (let found = found_order z src_mt ord in
      if found > MAX_ORDER then (z, None)
      else
        (let frame = last (free_lists z src_mt found);
             z1 = set_list src_mt found (butlast (free_lists z src_mt found)) z;
             z2 = split_down dst_mt frame found ord z1
         in (z2\<lparr>free_frames := free_frames z2 - order_frames ord\<rparr>, Some frame)))"

fun alloc_fallback ::
    "nat \<Rightarrow> migrate_type list \<Rightarrow> migrate_type \<Rightarrow> buddy_zone \<Rightarrow> buddy_zone \<times> nat option" where
  "alloc_fallback ord [] mt z = (z, None)"
| "alloc_fallback ord (src # rest) mt z =
     (case alloc_within ord src mt z of
        (z', Some frame) \<Rightarrow> (z', Some frame)
      | (z', None) \<Rightarrow> alloc_fallback ord rest mt z')"

definition alloc_mt :: "nat \<Rightarrow> migrate_type \<Rightarrow> buddy_zone \<Rightarrow> buddy_zone \<times> nat option" where
  "alloc_mt ord mt z =
     (if ord > MAX_ORDER then (z, None) else alloc_fallback ord (FALLBACK_ORDER mt) mt z)"

definition alloc :: "nat \<Rightarrow> buddy_zone \<Rightarrow> buddy_zone \<times> nat option" where
  "alloc ord z = alloc_mt ord Unmovable z"

text \<open>Ceiling-constrained allocation.\<close>

definition find_below :: "nat \<Rightarrow> nat \<Rightarrow> migrate_type \<Rightarrow> buddy_zone \<Rightarrow> nat option" where
  "find_below ord max_frame_no_excl mt z =
     position (\<lambda>f. f + order_frames ord \<le> max_frame_no_excl) (free_lists z mt ord)"

text \<open>The exact order and then the higher ones: the source order that has a fitting block.\<close>

fun below_source :: "nat list \<Rightarrow> nat \<Rightarrow> migrate_type \<Rightarrow> buddy_zone \<Rightarrow> (nat \<times> nat) option" where
  "below_source [] ceil mt z = None"
| "below_source (src # rest) ceil mt z =
     (case find_below src ceil mt z of
        Some idx \<Rightarrow> Some (src, idx)
      | None \<Rightarrow> below_source rest ceil mt z)"

fun alloc_below_fallback ::
    "nat \<Rightarrow> nat \<Rightarrow> migrate_type list \<Rightarrow> migrate_type \<Rightarrow> buddy_zone \<Rightarrow> buddy_zone \<times> nat option" where
  "alloc_below_fallback ord ceil [] mt z = (z, None)"
| "alloc_below_fallback ord ceil (src_mt # rest) mt z =
     (case below_source [ord..<Suc MAX_ORDER] ceil src_mt z of
        Some (src, idx) \<Rightarrow>
          (let frame = free_lists z src_mt src ! idx;
               z1 = set_list src_mt src (swap_remove idx (free_lists z src_mt src)) z;
               z2 = split_down mt frame src ord z1
           in (z2\<lparr>free_frames := free_frames z2 - order_frames ord\<rparr>, Some frame))
      | None \<Rightarrow> alloc_below_fallback ord ceil rest mt z)"

definition alloc_below_mt ::
    "nat \<Rightarrow> nat \<Rightarrow> migrate_type \<Rightarrow> buddy_zone \<Rightarrow> buddy_zone \<times> nat option" where
  "alloc_below_mt ord ceil mt z =
     (if ord > MAX_ORDER then (z, None)
      else alloc_below_fallback ord ceil (FALLBACK_ORDER mt) mt z)"

definition alloc_below :: "nat \<Rightarrow> nat \<Rightarrow> buddy_zone \<Rightarrow> buddy_zone \<times> nat option" where
  "alloc_below ord ceil z = alloc_below_mt ord ceil Unmovable z"

subsection \<open>Freeing\<close>

text \<open>The coalescing loop: merge with the buddy while it is free in the same partition.\<close>

function coalesce :: "migrate_type \<Rightarrow> nat \<Rightarrow> nat \<Rightarrow> buddy_zone \<Rightarrow> buddy_zone" where
  "coalesce mt cur_frame cur_order z =
     (if cur_order < MAX_ORDER
      then (let buddy = buddy_of cur_frame cur_order
            in case position (\<lambda>f. f = buddy) (free_lists z mt cur_order) of
                 Some idx \<Rightarrow>
                   coalesce mt (min cur_frame buddy) (Suc cur_order)
                     (set_list mt cur_order (swap_remove idx (free_lists z mt cur_order)) z)
               | None \<Rightarrow> push mt cur_order cur_frame z)
      else push mt cur_order cur_frame z)"
  by pat_completeness auto
termination
  by (relation "measure (\<lambda>(mt, f, ord, z). MAX_ORDER - ord)") auto

definition free_inner :: "nat \<Rightarrow> nat \<Rightarrow> migrate_type \<Rightarrow> buddy_zone \<Rightarrow> buddy_zone" where
  "free_inner frame ord mt z =
     coalesce mt frame ord (z\<lparr>free_frames := free_frames z + order_frames ord\<rparr>)"

text \<open>The debug assertions on order and alignment are preconditions of the theorems.\<close>

definition free_mt :: "nat \<Rightarrow> nat \<Rightarrow> migrate_type \<Rightarrow> buddy_zone \<Rightarrow> buddy_zone" where
  "free_mt frame ord mt z = free_inner frame ord mt z"

definition free :: "nat \<Rightarrow> nat \<Rightarrow> buddy_zone \<Rightarrow> buddy_zone" where
  "free frame ord z = free_mt frame ord Unmovable z"

definition free_cached :: "nat \<Rightarrow> nat \<Rightarrow> buddy_zone \<Rightarrow> buddy_zone" where
  "free_cached frame ord z = free_inner frame ord Unmovable z"


subsection \<open>Statistics and diagnostics\<close>

definition free_frame_count :: "buddy_zone \<Rightarrow> nat" where
  "free_frame_count z = free_frames z"

definition free_block_count_mt :: "nat \<Rightarrow> migrate_type \<Rightarrow> buddy_zone \<Rightarrow> nat" where
  "free_block_count_mt ord mt z = (if ord < NUM_ORDERS then length (free_lists z mt ord) else 0)"

definition free_block_count :: "nat \<Rightarrow> buddy_zone \<Rightarrow> nat" where
  "free_block_count ord z = sum_list (map (\<lambda>mt. free_block_count_mt ord (from_index mt) z) [0..<2])"

text \<open>
  All free blocks as (start, order), in the flat (mobility, order, index) order that
  \<open>validate_no_overlap\<close> visits; the nested loops compare every block with every later one.
\<close>

definition list_blocks :: "nat \<Rightarrow> nat list \<Rightarrow> (nat \<times> nat) list" where
  "list_blocks ord xs = map (\<lambda>f. (f, ord)) xs"

definition blocks :: "buddy_zone \<Rightarrow> (nat \<times> nat) list" where
  "blocks z = concat (map (\<lambda>mt. concat (map (\<lambda>ord. list_blocks ord (free_lists z mt ord))
     [0..<NUM_ORDERS])) migrate_types)"

fun overlaps :: "nat \<times> nat \<Rightarrow> nat \<times> nat \<Rightarrow> bool" where
  "overlaps (sa, oa) (sb, ob) \<longleftrightarrow> sa < sb + order_frames ob \<and> sb < sa + order_frames oa"

fun first_overlap :: "(nat \<times> nat) list \<Rightarrow> (nat \<times> nat \<times> nat) option" where
  "first_overlap [] = None"
| "first_overlap (a # rest) =
     (case List.find (overlaps a) rest of
        Some b \<Rightarrow> Some (max (fst a) (fst b), snd a, snd b)
      | None \<Rightarrow> first_overlap rest)"

definition validate_no_overlap :: "buddy_zone \<Rightarrow> (unit, nat \<times> nat \<times> nat) result" where
  "validate_no_overlap z = (case first_overlap (blocks z) of None \<Rightarrow> Ok () | Some e \<Rightarrow> Err e)"

subsection \<open>Moving blocks between zones\<close>

function drain_loop ::
    "migrate_type \<Rightarrow> nat \<Rightarrow> (nat \<Rightarrow> bool) \<Rightarrow> nat \<Rightarrow> buddy_zone \<Rightarrow> buddy_zone \<Rightarrow> buddy_zone \<times> buddy_zone" where
  "drain_loop mt ord predicate i self dest =
     (if i < length (free_lists self mt ord)
      then (let frame = free_lists self mt ord ! i; block_frames = order_frames ord in
            if predicate frame
            then drain_loop mt ord predicate i
                   ((set_list mt ord (swap_remove i (free_lists self mt ord)) self)
                      \<lparr>free_frames := free_frames self - block_frames,
                       total_frames := total_frames self - block_frames\<rparr>)
                   ((push mt ord frame dest)
                      \<lparr>free_frames := free_frames dest + block_frames,
                       total_frames := total_frames dest + block_frames\<rparr>)
            else drain_loop mt ord predicate (Suc i) self dest)
      else (self, dest))"
  by pat_completeness auto
termination
  by (relation "measure (\<lambda>(mt, ord, predicate, i, self, dest). length (free_lists self mt ord) - i)") auto

definition drain_into :: "(nat \<Rightarrow> bool) \<Rightarrow> buddy_zone \<Rightarrow> buddy_zone \<Rightarrow> buddy_zone \<times> buddy_zone" where
  "drain_into predicate self dest =
     fold (\<lambda>mt. fold (\<lambda>ord (self, dest). drain_loop mt ord predicate 0 self dest) [0..<NUM_ORDERS])
       migrate_types (self, dest)"

subsection \<open>Removing a free range (memory hot-unplug)\<close>

definition sat64 :: "nat \<Rightarrow> nat" where
  "sat64 n = min n (2 ^ 64 - 1)"

definition covered :: "nat \<Rightarrow> nat \<Rightarrow> buddy_zone \<Rightarrow> nat" where
  "covered first_frame en z =
     fold (\<lambda>(block, ord) c.
         let overlap_lo = max block first_frame;
             overlap_hi = min (sat64 (block + order_frames ord)) en
         in if overlap_lo < overlap_hi then sat64 (c + (overlap_hi - overlap_lo)) else c)
       (blocks z) 0"

fun retain_outside_range :: "migrate_type \<Rightarrow> nat \<Rightarrow> nat \<Rightarrow> nat \<Rightarrow> nat \<Rightarrow> buddy_zone \<Rightarrow> buddy_zone" where
  "retain_outside_range mt block 0 remove_lo remove_hi z =
     (if block \<ge> remove_lo \<and> block + order_frames 0 \<le> remove_hi then z
      else push mt 0 block z)"
| "retain_outside_range mt block (Suc child_order) remove_lo remove_hi z =
     (let en = block + order_frames (Suc child_order) in
      if block \<ge> remove_lo \<and> en \<le> remove_hi then z
      else if en \<le> remove_lo \<or> block \<ge> remove_hi then push mt (Suc child_order) block z
      else retain_outside_range mt (block + order_frames child_order) child_order remove_lo remove_hi
             (retain_outside_range mt block child_order remove_lo remove_hi z))"

lemma retain_outside_higher:
  "ord < o' \<Longrightarrow> free_lists (retain_outside_range mt b ord lo hi z) mt' o' = free_lists z mt' o'"
  by (induction mt b ord lo hi z rule: retain_outside_range.induct) (auto simp: Let_def push_def set_list_def)

lemma retain_outside_same:
  "\<not> (b \<ge> hi \<or> b + order_frames ord \<le> lo) \<Longrightarrow>
   free_lists (retain_outside_range mt b ord lo hi z) mt' ord = free_lists z mt' ord"
  by (cases ord) (auto simp: Let_def retain_outside_higher order_frames_def)

function remove_loop :: "migrate_type \<Rightarrow> nat \<Rightarrow> nat \<Rightarrow> nat \<Rightarrow> nat \<Rightarrow> buddy_zone \<Rightarrow> buddy_zone" where
  "remove_loop mt ord lo hi index z =
     (if index < length (free_lists z mt ord)
      then (let block = free_lists z mt ord ! index in
            if block \<ge> hi \<or> block + order_frames ord \<le> lo
            then remove_loop mt ord lo hi (Suc index) z
            else remove_loop mt ord lo hi index
                   (retain_outside_range mt block ord lo hi
                      (set_list mt ord (swap_remove index (free_lists z mt ord)) z)))
      else z)"
  by pat_completeness auto
termination
  by (relation "measure (\<lambda>(mt, ord, lo, hi, index, z). length (free_lists z mt ord) - index)")
    (auto simp: retain_outside_same)

definition remove_free_range :: "nat \<Rightarrow> nat \<Rightarrow> buddy_zone \<Rightarrow> buddy_zone \<times> bool" where
  "remove_free_range first_frame frame_count z =
     (if frame_count = 0 then (z, False)
      else
        (let en = sat64 (first_frame + frame_count) in
         if en \<le> first_frame then (z, False)
         else if covered first_frame en z \<noteq> frame_count then (z, False)
         else
           (let z' = fold (\<lambda>mt. fold (\<lambda>ord. remove_loop mt ord first_frame en 0)
                       (rev [0..<NUM_ORDERS])) migrate_types z
            in (z'\<lparr>free_frames := free_frames z' - frame_count,
                   total_frames := total_frames z' - frame_count\<rparr>, True))))"

declare drain_loop.simps [simp del] remove_loop.simps [simp del]
declare donate_loop.simps [simp del] needed_loop.simps [simp del] found_order.simps [simp del] coalesce.simps [simp del]


subsection \<open>The abstraction: free frames as a multiset\<close>

definition blk :: "nat \<Rightarrow> nat \<Rightarrow> nat multiset" where
  "blk f ord = mset [f..<f + 2 ^ ord]"

definition lfree :: "nat \<Rightarrow> nat list \<Rightarrow> nat multiset" where
  "lfree ord xs = (\<Sum>f \<in># mset xs. blk f ord)"

definition zfree :: "buddy_zone \<Rightarrow> nat multiset" where
  "zfree z = (\<Sum>mt \<in> {Unmovable, Movable}. \<Sum>ord \<in> {..MAX_ORDER}. lfree ord (free_lists z mt ord))"

definition aligned :: "buddy_zone \<Rightarrow> bool" where
  "aligned z \<longleftrightarrow> (\<forall>mt ord. \<forall>f \<in> set (free_lists z mt ord). ord \<le> MAX_ORDER \<and> 2 ^ ord dvd f)"

definition zone_ok :: "buddy_zone \<Rightarrow> bool" where
  "zone_ok z \<longleftrightarrow> aligned z \<and> (\<forall>x. count (zfree z) x \<le> 1) \<and> free_frames z = size (zfree z)
     \<and> size (zfree z) \<le> total_frames z"

lemma size_blk [simp]: "size (blk f ord) = 2 ^ ord"
  by (simp add: blk_def)

lemma in_blk [simp]: "x \<in># blk f ord \<longleftrightarrow> f \<le> x \<and> x < f + 2 ^ ord"
  by (simp add: blk_def)

lemma count_blk: "count (blk f ord) x = (if f \<le> x \<and> x < f + 2 ^ ord then 1 else 0)"
  by (simp add: blk_def mset_upt count_mset_set')

lemma blk_Suc: "blk f (Suc ord) = blk f ord + blk (f + 2 ^ ord) ord"
proof -
  have "[f..<f + 2 ^ Suc ord] = [f..<f + 2 ^ ord] @ [f + 2 ^ ord..<(f + 2 ^ ord) + 2 ^ ord]"
    using upt_add_eq_append [of f "f + 2 ^ ord" "2 ^ ord"] by (simp add: mult_2 add.assoc)
  then show ?thesis by (simp add: blk_def)
qed

lemma lfree_simps [simp]:
  "lfree ord [] = {#}" "lfree ord (x # xs) = blk x ord + lfree ord xs"
  "lfree ord (xs @ ys) = lfree ord xs + lfree ord ys"
  by (simp_all add: lfree_def)

lemma lfree_swap_remove:
  "i < length xs \<Longrightarrow> lfree ord xs = lfree ord (swap_remove i xs) + blk (xs ! i) ord"
  using add_mset_swap_remove [of i xs, symmetric] by (simp add: lfree_def add.commute)

lemma lfree_butlast: "xs \<noteq> [] \<Longrightarrow> lfree ord xs = lfree ord (butlast xs) + blk (last xs) ord"
  using last_in_set_butlast_update [of xs] by (simp add: lfree_def add.commute)

lemma lfree_mem: "f \<in> set xs \<Longrightarrow> blk f ord \<subseteq># lfree ord xs"
  by (auto dest!: split_list)

lemma free_lists_push [simp]:
  "free_lists (push mt ord f z) mt' ord' =
     (if mt' = mt \<and> ord' = ord then free_lists z mt ord @ [f] else free_lists z mt' ord')"
  by (simp add: push_def)

lemma counters_push [simp]:
  "total_frames (push mt ord f z) = total_frames z" "free_frames (push mt ord f z) = free_frames z"
  by (simp_all add: push_def)

lemma zfree_counters [simp]:
  "zfree (z\<lparr>free_frames := n\<rparr>) = zfree z" "zfree (z\<lparr>total_frames := n\<rparr>) = zfree z"
  by (simp_all add: zfree_def)

lemma aligned_counters [simp]:
  "aligned (z\<lparr>free_frames := n\<rparr>) = aligned z" "aligned (z\<lparr>total_frames := n\<rparr>) = aligned z"
  by (simp_all add: aligned_def)

lemma zfree_set_list:
  assumes "ord \<le> MAX_ORDER"
  shows "zfree (set_list mt ord xs z) + lfree ord (free_lists z mt ord) = zfree z + lfree ord xs"
proof -
  let ?S = "\<lambda>z. \<lambda>mt. \<Sum>o' \<in> {..MAX_ORDER}. lfree o' (free_lists z mt o')"
  have same: "?S (set_list mt ord xs z) mt + lfree ord (free_lists z mt ord) = ?S z mt + lfree ord xs"
    using assms by (simp add: sum.remove [of "{..MAX_ORDER}" ord])
  have other: "?S (set_list mt ord xs z) mt' = ?S z mt'" if "mt' \<noteq> mt" for mt'
    using that by (intro sum.cong) auto
  show ?thesis
    using same other [of Unmovable] other [of Movable]
    by (cases mt) (simp_all add: zfree_def ac_simps)
qed

lemma zfree_push: "ord \<le> MAX_ORDER \<Longrightarrow> zfree (push mt ord f z) = zfree z + blk f ord"
  using zfree_set_list [of ord mt "free_lists z mt ord @ [f]" z]
  by (simp add: push_def)

lemma zfree_set_list_minus:
  assumes "ord \<le> MAX_ORDER" "lfree ord (free_lists z mt ord) = lfree ord xs + B"
  shows "zfree z = zfree (set_list mt ord xs z) + B"
  using zfree_set_list [OF assms(1), of mt xs z] assms(2)
  by (metis add.assoc add.commute add_left_cancel)

lemma aligned_push:
  "aligned z \<Longrightarrow> ord \<le> MAX_ORDER \<Longrightarrow> 2 ^ ord dvd f \<Longrightarrow> aligned (push mt ord f z)"
  by (auto simp: aligned_def push_def)

lemma aligned_set_list:
  "aligned z \<Longrightarrow> set xs \<subseteq> set (free_lists z mt ord) \<Longrightarrow> aligned (set_list mt ord xs z)"
  by (auto simp: aligned_def)

lemma alignedD: "aligned z \<Longrightarrow> f \<in> set (free_lists z mt ord) \<Longrightarrow> ord \<le> MAX_ORDER \<and> 2 ^ ord dvd f"
  by (auto simp: aligned_def)

lemma zfree_mem: "aligned z \<Longrightarrow> f \<in> set (free_lists z mt ord) \<Longrightarrow> blk f ord \<subseteq># zfree z"
proof -
  assume a: "aligned z" and f: "f \<in> set (free_lists z mt ord)"
  then have "ord \<le> MAX_ORDER" by (auto simp: aligned_def)
  moreover obtain B where B: "lfree ord (free_lists z mt ord) = blk f ord + B"
    using lfree_mem [OF f, of ord] by (metis subset_mset.le_iff_add)
  ultimately have "zfree z = zfree (set_list mt ord [] z) + (blk f ord + B)"
    by (intro zfree_set_list_minus) auto
  then show ?thesis by (metis add.commute add.assoc mset_subset_eq_add_left)
qed


subsection \<open>Alignment and buddies\<close>

lemma buddy_of_aligned:
  assumes "2 ^ ord dvd f"
  shows "buddy_of f ord = (if even (f div 2 ^ ord) then f + 2 ^ ord else f - 2 ^ ord)"
proof -
  from assms obtain q where q: "f = q * 2 ^ ord" by (metis dvd_def mult.commute)
  have "f XOR 2 ^ ord = push_bit ord (q XOR 1)"
    by (simp add: q push_bit_xor flip: push_bit_eq_mult)
  also have "q XOR 1 = (if even q then q + 1 else q - 1)"
    by (simp add: xor_Suc_0_eq)
  finally show ?thesis
    by (auto simp: buddy_of_def q push_bit_eq_mult algebra_simps)
qed

lemma buddy_merge:
  assumes "2 ^ ord dvd f"
  shows "blk f ord + blk (buddy_of f ord) ord = blk (min f (buddy_of f ord)) (Suc ord)"
    and "2 ^ Suc ord dvd min f (buddy_of f ord)"
proof -
  from assms obtain q where q: "f = q * 2 ^ ord" by (metis dvd_def mult.commute)
  have B: "buddy_of f ord = (if even q then f + 2 ^ ord else f - 2 ^ ord)"
    using buddy_of_aligned [OF assms] by (simp add: q)
  show "blk f ord + blk (buddy_of f ord) ord = blk (min f (buddy_of f ord)) (Suc ord)"
  proof (cases "even q")
    case True
    then show ?thesis by (simp add: B blk_Suc)
  next
    case False
    then have "2 ^ ord \<le> f" by (cases q) (auto simp: q)
    moreover from this have "f - 2 ^ ord < f"
      by (intro diff_less) (auto intro: less_le_trans [of _ "2 ^ ord"])
    ultimately show ?thesis using False by (simp add: B blk_Suc min_def add.commute)
  qed
  show "2 ^ Suc ord dvd min f (buddy_of f ord)"
  proof (cases "even q")
    case True
    then have "min f (buddy_of f ord) = f" by (simp add: B)
    with True show ?thesis by (simp add: q)
  next
    case False
    then obtain r where r: "q = Suc (2 * r)" by (metis oddE Suc_eq_plus1)
    then have "min f (buddy_of f ord) = 2 * r * 2 ^ ord" using False by (simp add: B) (simp add: q)
    then show ?thesis by simp
  qed
qed

lemma and_mask_dvd: "(start :: nat) AND (2 ^ ord - 1) = 0 \<longleftrightarrow> 2 ^ ord dvd start"
  by (simp only: dvd_eq_mod_eq_0 take_bit_eq_mask mask_eq_exp_minus_1 flip: take_bit_eq_mod)

lemmas and_mask_dvd' = and_mask_dvd [unfolded One_nat_def]

subsection \<open>Donation\<close>

lemma donate_order_fits:
  assumes "start < en"
  shows "2 ^ donate_order start en ord dvd start \<and> start + 2 ^ donate_order start en ord \<le> en
    \<and> donate_order start en ord \<le> ord"
  using assms by (induction ord) (auto simp: order_frames_def Let_def and_mask_dvd'
      simp del: power_Suc intro: le_SucI)

lemma donate_loop_spec:
  assumes "start \<le> en" "aligned z"
  shows "zfree (donate_loop mt start en z) = zfree z + mset [start..<en]
    \<and> aligned (donate_loop mt start en z)
    \<and> total_frames (donate_loop mt start en z) = total_frames z
    \<and> free_frames (donate_loop mt start en z) = free_frames z"
  using assms
proof (induction mt start en z rule: donate_loop.induct)
  case (1 mt start en z)
  show ?case
  proof (cases "start < en")
    case False
    with "1.prems" have "start = en" by simp
    with "1.prems" show ?thesis by (simp add: donate_loop.simps [of mt en en z])
  next
    case True
    let ?o = "donate_order start en MAX_ORDER"
    note fit = donate_order_fits [OF True, of MAX_ORDER]
    have al: "aligned (push mt ?o start z)" using fit "1.prems" by (intro aligned_push) auto
    have split: "[start..<en] = [start..<start + 2 ^ ?o] @ [start + 2 ^ ?o..<en]"
      using fit by (metis le_add1 le_add_diff_inverse upt_add_eq_append)
    have "blk start ?o + mset [start + 2 ^ ?o..<en] = mset [start..<en]"
      by (subst split) (simp add: blk_def)
    with "1.IH" [OF True refl] al fit show ?thesis
      by (simp add: donate_loop.simps [of mt start en z] Let_def True order_frames_def zfree_push
          add.assoc)
  qed
qed

subsection \<open>Splitting and allocation\<close>

lemma split_down_spec:
  assumes "ord \<le> cur" "cur \<le> MAX_ORDER" "2 ^ cur dvd f" "aligned z"
  shows "zfree (split_down mt f cur ord z) + blk f ord = zfree z + blk f cur
    \<and> aligned (split_down mt f cur ord z)
    \<and> total_frames (split_down mt f cur ord z) = total_frames z
    \<and> free_frames (split_down mt f cur ord z) = free_frames z"
  using assms
proof (induction cur arbitrary: z)
  case 0
  then show ?case by simp
next
  case (Suc cur)
  show ?case
  proof (cases "ord = Suc cur")
    case True
    with Suc.prems show ?thesis by simp
  next
    case False
    have dv: "2 ^ cur dvd f" "2 ^ cur dvd f + 2 ^ cur"
      using Suc.prems(3) by (auto elim: dvd_trans [rotated] intro: dvd_add)
    have "aligned (push mt cur (f + 2 ^ cur) z)"
      using Suc.prems dv by (intro aligned_push) auto
    with Suc.IH [of "push mt cur (f + 2 ^ cur) z"] Suc.prems False dv show ?thesis
      by (simp add: order_frames_def zfree_push blk_Suc ac_simps)
  qed
qed

lemma found_order_spec:
  "ord \<le> found_order z mt ord
   \<and> (found_order z mt ord \<le> MAX_ORDER \<longrightarrow> free_lists z mt (found_order z mt ord) \<noteq> [])
   \<and> (\<forall>o'. ord \<le> o' \<and> o' < found_order z mt ord \<and> o' \<le> MAX_ORDER \<longrightarrow> free_lists z mt o' = [])"
proof (induction z mt ord rule: found_order.induct)
  case (1 z mt ord)
  show ?case
  proof (cases "ord \<le> MAX_ORDER \<and> free_lists z mt ord = []")
    case False
    then show ?thesis by (auto simp: found_order.simps [of z mt ord])
  next
    case True
    with 1 have "Suc ord \<le> found_order z mt (Suc ord)" by blast
    moreover have "\<forall>o'. ord \<le> o' \<and> o' < found_order z mt (Suc ord) \<and> o' \<le> MAX_ORDER
        \<longrightarrow> free_lists z mt o' = []"
      using 1 True by (metis le_neq_implies_less Suc_leI)
    ultimately show ?thesis using 1 True by (auto simp: found_order.simps [of z mt ord])
  qed
qed

lemma alloc_within_None_iff:
  "snd (alloc_within ord src dst z) = None
     \<longleftrightarrow> (\<forall>o'. ord \<le> o' \<and> o' \<le> MAX_ORDER \<longrightarrow> free_lists z src o' = [])"
  using found_order_spec [of ord z src]
  by (auto simp: alloc_within_def Let_def)

lemma alloc_within_NoneD: "snd (alloc_within ord src dst z) = None \<Longrightarrow> alloc_within ord src dst z = (z, None)"
  by (auto simp: alloc_within_def Let_def split: if_splits)

text \<open>What a successful allocation of a block does to a zone.\<close>

definition alloc_result :: "nat \<Rightarrow> nat \<Rightarrow> buddy_zone \<Rightarrow> buddy_zone \<Rightarrow> bool" where
  "alloc_result ord f z z' \<longleftrightarrow> zfree z = zfree z' + blk f ord \<and> 2 ^ ord dvd f \<and> aligned z'
     \<and> total_frames z' = total_frames z \<and> free_frames z' = free_frames z - 2 ^ ord"

lemma alloc_result_split:
  assumes "aligned z" "f \<in> set (free_lists z src o')" "ord \<le> o'"
    "lfree o' (free_lists z src o') = lfree o' xs + blk f o'" "set xs \<subseteq> set (free_lists z src o')"
    "z2 = split_down dst f o' ord (set_list src o' xs z)"
  shows "alloc_result ord f z (z2\<lparr>free_frames := free_frames z2 - order_frames ord\<rparr>)"
proof -
  have d: "o' \<le> MAX_ORDER" "2 ^ o' dvd f" using alignedD [OF assms(1,2)] by auto
  have al: "aligned (set_list src o' xs z)" using assms(1,5) by (rule aligned_set_list)
  have "zfree z = zfree (set_list src o' xs z) + blk f o'"
    using d(1) assms(4) by (rule zfree_set_list_minus)
  moreover note split_down_spec [OF assms(3) d al, of dst]
  moreover have "2 ^ ord dvd f" using d(2) assms(3) by (meson dvd_trans le_imp_power_dvd)
  ultimately show ?thesis by (simp add: alloc_result_def assms(6) order_frames_def)
qed

lemma alloc_within_SomeD:
  assumes "alloc_within ord src dst z = (z', Some f)" "aligned z"
  shows "alloc_result ord f z z'"
proof -
  let ?o = "found_order z src ord" let ?xs = "free_lists z src (found_order z src ord)"
  from assms(1) have o: "?o \<le> MAX_ORDER" and f: "f = last ?xs"
    and z': "\<exists>z2. z2 = split_down dst f ?o ord (set_list src ?o (butlast ?xs) z)
        \<and> z' = z2\<lparr>free_frames := free_frames z2 - order_frames ord\<rparr>"
    by (auto simp: alloc_within_def Let_def split: if_splits)
  from o found_order_spec [of ord z src] have ne: "?xs \<noteq> []" "ord \<le> ?o" by auto
  from z' obtain z2 where z2: "z2 = split_down dst f ?o ord (set_list src ?o (butlast ?xs) z)"
    "z' = z2\<lparr>free_frames := free_frames z2 - order_frames ord\<rparr>" by blast
  from alloc_result_split [OF assms(2) _ ne(2) _ _ z2(1)] show ?thesis
    using ne f by (auto simp: z2(2) lfree_butlast dest: in_set_butlastD)
qed

lemma alloc_fallback_SomeD:
  "alloc_fallback ord srcs mt z = (z', Some f) \<Longrightarrow> aligned z \<Longrightarrow> alloc_result ord f z z'"
proof (induction srcs)
  case (Cons src srcs)
  show ?case
  proof (cases "snd (alloc_within ord src mt z)")
    case None
    from alloc_within_NoneD [OF this] Cons show ?thesis by simp
  next
    case (Some g)
    then have "alloc_within ord src mt z = (z', Some f)"
      using Cons.prems(1) by (auto split: prod.splits)
    then show ?thesis using Cons.prems(2) by (rule alloc_within_SomeD)
  qed
qed simp

lemma alloc_fallback_None_iff:
  "alloc_fallback ord srcs mt z = (z', None) \<longleftrightarrow> z' = z \<and> (\<forall>src \<in> set srcs. \<forall>o'. ord \<le> o' \<and> o' \<le> MAX_ORDER
     \<longrightarrow> free_lists z src o' = [])"
proof (induction srcs)
  case (Cons src srcs)
  show ?case
  proof (cases "snd (alloc_within ord src mt z)")
    case None
    from alloc_within_NoneD [OF this] None [unfolded alloc_within_None_iff] Cons show ?thesis
      by auto
  next
    case (Some g)
    then have "\<not> (\<forall>o'. ord \<le> o' \<and> o' \<le> MAX_ORDER \<longrightarrow> free_lists z src o' = [])"
      by (metis alloc_within_None_iff option.distinct(1))
    with Some show ?thesis by (auto split: prod.splits)
  qed
qed auto

lemma set_FALLBACK_ORDER [simp]: "set (FALLBACK_ORDER mt) = UNIV"
  by (cases mt) (auto, (metis migrate_type.exhaust)+)

lemma zone_ok_alloc: "zone_ok z \<Longrightarrow> alloc_result ord f z z' \<Longrightarrow> zone_ok z'"
  by (auto simp: zone_ok_def alloc_result_def) (metis add_leE)

lemma below_source_SomeD:
  "below_source ords ceil mt z = Some (src, idx) \<Longrightarrow> src \<in> set ords \<and> idx < length (free_lists z mt src)
     \<and> free_lists z mt src ! idx + 2 ^ src \<le> ceil"
  by (induction ords) (auto simp: find_below_def order_frames_def split: option.splits dest: position_SomeD)

lemma below_source_None_iff:
  "below_source ords ceil mt z = None
     \<longleftrightarrow> (\<forall>src \<in> set ords. \<forall>f \<in> set (free_lists z mt src). ceil < f + 2 ^ src)"
proof (induction ords)
  case (Cons a ords)
  have "find_below a ceil mt z = None \<longleftrightarrow> (\<forall>f \<in> set (free_lists z mt a). ceil < f + 2 ^ a)"
    by (simp add: find_below_def order_frames_def position_None_iff not_le)
  with Cons show ?case by (auto split: option.splits)
qed simp

lemma alloc_below_fallback_SomeD:
  "alloc_below_fallback ord ceil srcs mt z = (z', Some f) \<Longrightarrow> aligned z \<Longrightarrow>
   alloc_result ord f z z' \<and> f + 2 ^ ord \<le> ceil"
proof (induction srcs)
  case (Cons src_mt srcs)
  show ?case
  proof (cases "below_source [ord..<Suc MAX_ORDER] ceil src_mt z")
    case None
    with Cons show ?thesis by simp
  next
    case (Some p)
    obtain src idx where p: "p = (src, idx)" by (cases p)
    note D = below_source_SomeD [OF Some [unfolded p]]
    let ?xs = "free_lists z src_mt src"
    from Some p Cons.prems(1) obtain z2 where f: "f = ?xs ! idx"
      and z2: "z2 = split_down mt f src ord (set_list src_mt src (swap_remove idx ?xs) z)"
      "z' = z2\<lparr>free_frames := free_frames z2 - order_frames ord\<rparr>"
      by (auto simp: Let_def)
    have "alloc_result ord f z z'"
      using alloc_result_split [OF Cons.prems(2) _ _ _ _ z2(1)] D f
      by (auto simp: z2(2) lfree_swap_remove dest: subsetD [OF set_swap_remove_subset])
    moreover have "(2::nat) ^ ord \<le> 2 ^ src" using D by (intro power_increasing) auto
    then have "f + 2 ^ ord \<le> ceil" using D f by linarith
    ultimately show ?thesis by blast
  qed
qed simp


subsection \<open>Freeing\<close>

lemma coalesce_spec:
  assumes "2 ^ ord dvd f" "ord \<le> MAX_ORDER" "aligned z"
  shows "zfree (coalesce mt f ord z) = zfree z + blk f ord \<and> aligned (coalesce mt f ord z)
    \<and> total_frames (coalesce mt f ord z) = total_frames z
    \<and> free_frames (coalesce mt f ord z) = free_frames z"
  using assms
proof (induction mt f ord z rule: coalesce.induct)
  case (1 mt f ord z)
  let ?b = "buddy_of f ord" let ?xs = "free_lists z mt ord"
  show ?case
  proof (cases "ord < MAX_ORDER \<and> position (\<lambda>x. x = ?b) ?xs \<noteq> None")
    case False
    then have "coalesce mt f ord z = push mt ord f z"
      by (auto simp: coalesce.simps [of mt f ord z] Let_def)
    with "1.prems" show ?thesis by (simp add: zfree_push aligned_push)
  next
    case True
    then obtain i where i: "position (\<lambda>x. x = ?b) ?xs = Some i" by auto
    from position_eq_imp [OF i] have b: "i < length ?xs" "?xs ! i = ?b" by auto
    let ?z = "set_list mt ord (swap_remove i ?xs) z"
    have al: "aligned ?z"
      using "1.prems"(3) set_swap_remove_subset [OF b(1)] by (rule aligned_set_list)
    have fr: "zfree z = zfree ?z + blk ?b ord"
      using zfree_set_list_minus [of ord z mt "swap_remove i ?xs" "blk ?b ord"] "1.prems"(2)
        lfree_swap_remove [OF b(1), of ord] b(2) by simp
    have eq: "coalesce mt f ord z = coalesce mt (min f ?b) (Suc ord) ?z"
      using True i by (simp add: coalesce.simps [of mt f ord z] Let_def)
    from "1.IH" [of ?b i] True i buddy_merge [OF "1.prems"(1)] al
    have "zfree (coalesce mt (min f ?b) (Suc ord) ?z) = zfree ?z + blk (min f ?b) (Suc ord)
      \<and> aligned (coalesce mt (min f ?b) (Suc ord) ?z)
      \<and> total_frames (coalesce mt (min f ?b) (Suc ord) ?z) = total_frames z
      \<and> free_frames (coalesce mt (min f ?b) (Suc ord) ?z) = free_frames z"
      by simp
    then show ?thesis
      using fr buddy_merge(1) [OF "1.prems"(1)] by (simp add: eq ac_simps flip: buddy_merge(1))
  qed
qed

lemma free_mt_spec:
  assumes "2 ^ ord dvd f" "ord \<le> MAX_ORDER" "aligned z"
  shows "zfree (free_mt f ord mt z) = zfree z + blk f ord" "aligned (free_mt f ord mt z)"
    "total_frames (free_mt f ord mt z) = total_frames z"
    "free_frames (free_mt f ord mt z) = free_frames z + 2 ^ ord"
  using coalesce_spec [OF assms(1,2), of "z\<lparr>free_frames := free_frames z + order_frames ord\<rparr>" mt] assms(3)
  by (simp_all add: free_mt_def free_inner_def order_frames_def)

end
