(* ===== verification/Buddy_Spec.thy ===== *)
theory Buddy_Spec
  imports Buddy
begin

text \<open>
  What the frame allocator promises its clients. The locale \<open>frame_allocator\<close> is the
  interface a client relies on (allocation of naturally aligned blocks, freeing, the
  multiset of free frames); the client machine inside it allocates and frees in any order.
  The interpretation on \<open>memory/src/buddy.rs\<close> discharges the laws, and the properties below
  are about the concrete zone.
\<close>

subsection \<open>The interface\<close>

definition owned_frames :: "(nat \<times> nat) list \<Rightarrow> nat multiset" where
  "owned_frames bs = (\<Sum>(f, ord) \<leftarrow> bs. blk f ord)"

lemma owned_frames_simps [simp]:
  "owned_frames [] = {#}" "owned_frames ((f, ord) # bs) = blk f ord + owned_frames bs"
  by (simp_all add: owned_frames_def)

lemma owned_frames_remove1:
  "(f, ord) \<in> set bs \<Longrightarrow> owned_frames bs = blk f ord + owned_frames (remove1 (f, ord) bs)"
  by (induction bs) (auto simp: ac_simps)

datatype 'q request = Alloc 'q nat | Free 'q nat nat

text \<open>
  A client of an allocator: allocations are remembered, and only a block it owns is freed.
\<close>

fun client_step ::
    "('q \<Rightarrow> nat \<Rightarrow> 'z \<Rightarrow> 'z \<times> nat option) \<Rightarrow> ('q \<Rightarrow> nat \<Rightarrow> nat \<Rightarrow> 'z \<Rightarrow> 'z) \<Rightarrow>
     'z \<times> (nat \<times> nat) list \<Rightarrow> 'q request \<Rightarrow> 'z \<times> (nat \<times> nat) list" where
  "client_step al fr (z, owned) (Alloc q ord) =
     (case al q ord z of (z', Some f) \<Rightarrow> (z', (f, ord) # owned) | (z', None) \<Rightarrow> (z', owned))"
| "client_step al fr (z, owned) (Free q f ord) =
     (if (f, ord) \<in> set owned then (fr q f ord z, remove1 (f, ord) owned) else (z, owned))"

locale frame_allocator =
  fixes al :: "'q \<Rightarrow> nat \<Rightarrow> 'z \<Rightarrow> 'z \<times> nat option"
    and fr :: "'q \<Rightarrow> nat \<Rightarrow> nat \<Rightarrow> 'z \<Rightarrow> 'z"
    and frames :: "'z \<Rightarrow> nat multiset"
    and capacity :: "'z \<Rightarrow> nat"
    and ok :: "'z \<Rightarrow> bool"
    and max_order :: nat
  assumes alloc_Some: "ok z \<Longrightarrow> al q ord z = (z', Some f) \<Longrightarrow>
      ok z' \<and> frames z = frames z' + blk f ord \<and> 2 ^ ord dvd f \<and> ord \<le> max_order
      \<and> capacity z' = capacity z"
    and alloc_None: "al q ord z = (z', None) \<Longrightarrow> z' = z"
    and free_block: "ok z \<Longrightarrow> ord \<le> max_order \<Longrightarrow> 2 ^ ord dvd f \<Longrightarrow>
      (\<And>x. count (frames z + blk f ord) x \<le> 1) \<Longrightarrow> size (frames z) + 2 ^ ord \<le> capacity z \<Longrightarrow>
      ok (fr q f ord z) \<and> frames (fr q f ord z) = frames z + blk f ord
      \<and> capacity (fr q f ord z) = capacity z"
    and ok_count: "ok z \<Longrightarrow> count (frames z) x \<le> 1"
    and ok_size: "ok z \<Longrightarrow> size (frames z) \<le> capacity z"
begin

definition client_ok :: "nat multiset \<Rightarrow> nat \<Rightarrow> 'z \<times> (nat \<times> nat) list \<Rightarrow> bool" where
  "client_ok F c s \<longleftrightarrow> (case s of (z, owned) \<Rightarrow> ok z \<and> capacity z = c \<and> size F \<le> c
     \<and> frames z + owned_frames owned = F \<and> (\<forall>(f, ord) \<in> set owned. ord \<le> max_order \<and> 2 ^ ord dvd f))"

lemma client_step_ok:
  assumes "client_ok F c s" "\<And>x. count F x \<le> 1"
  shows "client_ok F c (client_step al fr s r)"
proof (cases r)
  case (Alloc q ord)
  obtain z owned where s: "s = (z, owned)" by (cases s)
  obtain z' res where a: "al q ord z = (z', res)" by (cases "al q ord z")
  show ?thesis
  proof (cases res)
    case None
    then show ?thesis using assms(1) alloc_None [of q ord z z'] a Alloc s by simp
  next
    case (Some f)
    with a alloc_Some [of z q ord z' f] assms(1) Alloc s show ?thesis
      by (auto simp: client_ok_def ac_simps)
  qed
next
  case (Free q f ord)
  obtain z owned where s: "s = (z, owned)" by (cases s)
  show ?thesis
  proof (cases "(f, ord) \<in> set owned")
    case False
    then show ?thesis using assms(1) Free s by simp
  next
    case True
    let ?o = "remove1 (f, ord) owned"
    have F: "F = (frames z + blk f ord) + owned_frames ?o"
      using assms(1) owned_frames_remove1 [OF True] s by (simp add: client_ok_def ac_simps)
    have c1: "count (frames z + blk f ord) x \<le> 1" for x
      using assms(2) [of x] by (simp add: F)
    have "size (frames z) + 2 ^ ord \<le> capacity z"
      using assms(1) s F by (auto simp: client_ok_def)
    with free_block [of z ord f q] c1 True assms(1) s F Free show ?thesis
      by (auto simp: client_ok_def ac_simps dest: notin_set_remove1 split: if_splits)
  qed
qed

lemma client_run_ok:
  assumes "client_ok F c s" "\<And>x. count F x \<le> 1"
  shows "client_ok F c (foldl (client_step al fr) s rs)"
  using assms by (induction rs arbitrary: s) (simp_all add: client_step_ok)

lemma client_run:
  assumes "ok z"
  shows "client_ok (frames z) (capacity z) (foldl (client_step al fr) (z, []) rs)"
  using assms ok_count [OF assms] by (intro client_run_ok) (simp_all add: client_ok_def ok_size)

end

subsection \<open>The zone implements the interface\<close>

text \<open>A request carries its mobility class and, for early boot, the frame ceiling.\<close>

definition zone_alloc ::
    "migrate_type \<times> nat option \<Rightarrow> nat \<Rightarrow> buddy_zone \<Rightarrow> buddy_zone \<times> nat option" where
  "zone_alloc q ord z =
     (case snd q of None \<Rightarrow> alloc_mt ord (fst q) z | Some ceil \<Rightarrow> alloc_below_mt ord ceil (fst q) z)"

definition zone_free :: "migrate_type \<times> nat option \<Rightarrow> nat \<Rightarrow> nat \<Rightarrow> buddy_zone \<Rightarrow> buddy_zone" where
  "zone_free q f ord z = free_mt f ord (fst q) z"

lemma alloc_below_fallback_None:
  "alloc_below_fallback ord ceil srcs mt z = (z', None) \<longleftrightarrow>
     z' = z \<and> (\<forall>src \<in> set srcs. \<forall>o' \<in> {ord..MAX_ORDER}. \<forall>f \<in> set (free_lists z src o'). ceil < f + 2 ^ o')"
proof (induction srcs)
  case (Cons src srcs)
  have "set [ord..<Suc MAX_ORDER] = {ord..MAX_ORDER}" by auto
  with Cons show ?case
    using below_source_None_iff [of "[ord..<Suc MAX_ORDER]" ceil src z]
    by (auto simp: Let_def split: option.splits prod.splits)
qed auto

lemma zone_alloc_SomeD:
  assumes "zone_alloc q ord z = (z', Some f)" "aligned z"
  shows "alloc_result ord f z z'" "ord \<le> MAX_ORDER"
  using assms alloc_below_fallback_SomeD [of ord _ _ _ z z' f] alloc_fallback_SomeD [of ord _ _ z z' f]
  by (auto simp: zone_alloc_def alloc_mt_def alloc_below_mt_def split: option.splits if_splits)

lemma zone_alloc_NoneD: "zone_alloc q ord z = (z', None) \<Longrightarrow> z' = z"
  by (auto simp: zone_alloc_def alloc_mt_def alloc_below_mt_def alloc_below_fallback_None
      alloc_fallback_None_iff split: option.splits if_splits)

lemma zone_ok_free:
  assumes "zone_ok z" "ord \<le> MAX_ORDER" "2 ^ ord dvd f" "\<And>x. count (zfree z + blk f ord) x \<le> 1"
    "size (zfree z) + 2 ^ ord \<le> total_frames z"
  shows "zone_ok (free_mt f ord mt z)"
  using assms free_mt_spec [OF assms(3,2), of z mt] by (auto simp: zone_ok_def)

interpretation zone: frame_allocator zone_alloc zone_free zfree total_frames zone_ok MAX_ORDER
proof (standard, goal_cases)
  case (1 z q ord z' f)
  then have "alloc_result ord f z z'" "ord \<le> MAX_ORDER"
    by (auto simp: zone_ok_def dest: zone_alloc_SomeD)
  with 1 show ?case by (auto simp: alloc_result_def intro: zone_ok_alloc)
next
  case (2 q ord z z')
  then show ?case by (rule zone_alloc_NoneD)
next
  case (3 z ord f q)
  then show ?case
    using free_mt_spec [of ord f z "fst q"] by (auto simp: zone_free_def zone_ok_def)
next
  case (4 z x)
  then show ?case by (simp add: zone_ok_def)
next
  case (5 z)
  then show ?case by (simp add: zone_ok_def)
qed

subsection \<open>Overlap diagnosis\<close>

lemma overlaps_iff:
  "overlaps a b \<longleftrightarrow> (\<exists>x. x \<in># blk (fst a) (snd a) \<and> x \<in># blk (fst b) (snd b))"
  by (cases a; cases b) (auto simp: order_frames_def intro!: exI [of _ "max (fst a) (fst b)"])

lemma count_add_blk_le:
  "(\<forall>x. count (blk f ord + M) x \<le> 1)
     \<longleftrightarrow> (\<forall>x. count M x \<le> 1) \<and> (\<forall>x. x \<in># blk f ord \<longrightarrow> x \<notin># M)"
proof -
  have "count (blk f ord + M) x \<le> 1 \<longleftrightarrow> count M x \<le> 1 \<and> (x \<in># blk f ord \<longrightarrow> x \<notin># M)" for x
    by (auto simp: count_blk not_in_iff)
  then show ?thesis by blast
qed

lemma in_owned_frames: "x \<in># owned_frames bs \<longleftrightarrow> (\<exists>b \<in> set bs. x \<in># blk (fst b) (snd b))"
  by (induction bs) auto

lemma first_overlap_None_iff:
  "first_overlap bs = None \<longleftrightarrow> (\<forall>x. count (owned_frames bs) x \<le> 1)"
proof (induction bs)
  case (Cons a bs)
  obtain sa oa where a: "a = (sa, oa)" by (cases a)
  have "List.find (overlaps a) bs = None \<longleftrightarrow> (\<forall>x. x \<in># blk sa oa \<longrightarrow> x \<notin># owned_frames bs)"
    unfolding find_None_iff overlaps_iff in_owned_frames a fst_conv snd_conv by blast
  with Cons count_add_blk_le [of sa oa "owned_frames bs"] show ?case
    by (auto simp: a split: option.splits)
qed simp

lemma owned_frames_append: "owned_frames (xs @ ys) = owned_frames xs + owned_frames ys"
  by (simp add: owned_frames_def)

lemma owned_frames_concat: "owned_frames (concat xss) = (\<Sum>xs \<leftarrow> xss. owned_frames xs)"
  by (induction xss) (auto simp: owned_frames_append)

lemma owned_frames_list_blocks: "owned_frames (list_blocks ord xs) = lfree ord xs"
  by (induction xs) (auto simp: list_blocks_def)

lemma owned_frames_blocks: "owned_frames (blocks z) = zfree z"
proof -
  have "set [0..<NUM_ORDERS] = {..MAX_ORDER}" by (auto simp: NUM_ORDERS_def)
  then have "(\<Sum>ord \<leftarrow> [0..<NUM_ORDERS]. lfree ord (free_lists z mt ord))
      = (\<Sum>ord \<in> {..MAX_ORDER}. lfree ord (free_lists z mt ord))" for mt
    using sum.distinct_set_conv_list [of "[0..<NUM_ORDERS]" "\<lambda>ord. lfree ord (free_lists z mt ord)"]
    by simp
  then show ?thesis
    by (simp add: blocks_def owned_frames_concat owned_frames_append o_def owned_frames_list_blocks
        migrate_types_def zfree_def)
qed


subsection \<open>Full coalescing\<close>

definition coalesced :: "buddy_zone \<Rightarrow> bool" where
  "coalesced z \<longleftrightarrow> (\<forall>mt ord f. ord < MAX_ORDER \<longrightarrow> f \<in> set (free_lists z mt ord) \<longrightarrow>
     buddy_of f ord \<notin> set (free_lists z mt ord))"

lemma coalesced_counters [simp]:
  "coalesced (z\<lparr>free_frames := n\<rparr>) = coalesced z" "coalesced (z\<lparr>total_frames := n\<rparr>) = coalesced z"
  by (simp_all add: coalesced_def)

lemma buddy_of_involutive [simp]: "buddy_of (buddy_of f ord) ord = f"
  by (simp add: buddy_of_def xor.assoc)

lemma coalesced_set_list:
  "coalesced z \<Longrightarrow> set xs \<subseteq> set (free_lists z mt ord) \<Longrightarrow> coalesced (set_list mt ord xs z)"
  by (auto simp: coalesced_def)

lemma coalesced_push:
  assumes "coalesced z" "ord < MAX_ORDER \<Longrightarrow> buddy_of f ord \<notin> insert f (set (free_lists z mt ord))"
  shows "coalesced (push mt ord f z)"
  using assms by (auto simp: coalesced_def push_def)

lemma buddy_of_neq: "buddy_of f ord \<noteq> f"
proof -
  have "bit (f XOR 2 ^ ord) ord \<noteq> bit f ord" by (simp add: bit_simps)
  then show ?thesis by (metis buddy_of_def)
qed

lemma coalesced_coalesce: "coalesced z \<Longrightarrow> coalesced (coalesce mt f ord z)"
proof (induction mt f ord z rule: coalesce.induct)
  case (1 mt f ord z)
  let ?b = "buddy_of f ord" let ?xs = "free_lists z mt ord"
  show ?case
  proof (cases "ord < MAX_ORDER \<and> position (\<lambda>x. x = ?b) ?xs \<noteq> None")
    case False
    then have "coalesce mt f ord z = push mt ord f z"
      by (auto simp: coalesce.simps [of mt f ord z] Let_def)
    moreover have "buddy_of f ord \<notin> insert f (set ?xs)" if "ord < MAX_ORDER"
      using False that buddy_of_neq [of f ord] by (auto simp: position_None_iff)
    ultimately show ?thesis using "1.prems" by (simp add: coalesced_push)
  next
    case True
    then obtain i where i: "position (\<lambda>x. x = ?b) ?xs = Some i" by auto
    then have "coalesced (set_list mt ord (swap_remove i ?xs) z)"
      using "1.prems" position_eq_imp [OF i] by (intro coalesced_set_list set_swap_remove_subset) auto
    with "1.IH" [of ?b i] True i show ?thesis
      by (simp add: coalesce.simps [of mt f ord z] Let_def)
  qed
qed

lemma coalesced_split_down:
  assumes "coalesced z" "aligned z" "f \<notin># zfree z" "cur \<le> MAX_ORDER" "2 ^ cur dvd f"
  shows "coalesced (split_down mt f cur ord z)"
  using assms
proof (induction cur arbitrary: z)
  case (Suc cur)
  have dv: "2 ^ cur dvd f" "2 ^ cur dvd f + 2 ^ cur" "even (f div 2 ^ cur)"
    using Suc.prems(5) by (auto elim: dvd_trans [rotated] intro: dvd_add simp: dvd_div_iff_mult
        elim!: dvdE)
  have bud: "buddy_of (f + 2 ^ cur) cur = f"
    using buddy_of_aligned [OF dv(1)] dv(3) by (metis buddy_of_involutive)
  have nin: "f \<notin> set (free_lists z mt cur)"
    using Suc.prems(2,3) mset_subset_eqD [OF zfree_mem, of z f mt cur f] by auto
  let ?z = "push mt cur (f + 2 ^ cur) z"
  have "coalesced ?z" using Suc.prems(1) nin by (intro coalesced_push) (auto simp: bud)
  moreover have "aligned ?z" using Suc.prems dv by (intro aligned_push) auto
  moreover have "f \<notin># zfree ?z" using Suc.prems by (simp add: zfree_push)
  ultimately show ?case using Suc.IH [of ?z] Suc.prems dv by (simp add: order_frames_def)
qed simp

lemma coalesced_take_block:
  assumes "zone_ok z" "coalesced z" "f \<in> set (free_lists z src o')"
    "lfree o' (free_lists z src o') = lfree o' xs + blk f o'" "set xs \<subseteq> set (free_lists z src o')"
  shows "coalesced (split_down dst f o' ord (set_list src o' xs z))"
proof (rule coalesced_split_down)
  have al: "aligned z" using assms(1) by (simp add: zone_ok_def)
  show o: "o' \<le> MAX_ORDER" "2 ^ o' dvd f" using alignedD [OF al assms(3)] by auto
  show "coalesced (set_list src o' xs z)" "aligned (set_list src o' xs z)"
    using assms(2,5) al by (auto intro: coalesced_set_list aligned_set_list)
  have "zfree z = zfree (set_list src o' xs z) + blk f o'"
    using o(1) assms(4) by (rule zfree_set_list_minus)
  then have "count (zfree (set_list src o' xs z)) f + 1 \<le> 1"
    using assms(1) by (metis (no_types, lifting) count_blk count_union le_refl less_add_same_cancel1 zone_ok_def zero_less_numeral zero_less_power)
  then show "f \<notin># zfree (set_list src o' xs z)" by (simp add: not_in_iff)
qed

subsection \<open>Draining\<close>

definition drain_inv :: "buddy_zone \<times> buddy_zone \<Rightarrow> bool" where
  "drain_inv s \<longleftrightarrow> aligned (fst s) \<and> aligned (snd s) \<and> free_frames (fst s) = size (zfree (fst s))
     \<and> size (zfree (fst s)) \<le> total_frames (fst s)"

text \<open>What draining may change: nothing is lost or invented, and only matching blocks move.\<close>

definition drain_rel :: "(nat \<Rightarrow> bool) \<Rightarrow> buddy_zone \<times> buddy_zone \<Rightarrow> buddy_zone \<times> buddy_zone \<Rightarrow> bool" where
  "drain_rel P s t \<longleftrightarrow> zfree (fst t) + zfree (snd t) = zfree (fst s) + zfree (snd s)
     \<and> total_frames (fst t) + total_frames (snd t) = total_frames (fst s) + total_frames (snd s)
     \<and> free_frames (fst t) + free_frames (snd t) = free_frames (fst s) + free_frames (snd s)
     \<and> (\<forall>mt ord. set (free_lists (fst t) mt ord) \<subseteq> set (free_lists (fst s) mt ord))
     \<and> (\<forall>mt ord. set (free_lists (snd t) mt ord) \<subseteq> set (free_lists (snd s) mt ord) \<union> Collect P)"

lemma drain_rel_refl: "drain_rel P s s"
  by (simp add: drain_rel_def)

lemma drain_rel_trans: "drain_rel P s t \<Longrightarrow> drain_rel P t u \<Longrightarrow> drain_rel P s u"
  unfolding drain_rel_def by (intro conjI) (simp, simp, simp, blast, blast)

lemma drain_move:
  assumes "drain_inv (self, dest)" "ord \<le> MAX_ORDER" "i < length (free_lists self mt ord)"
    "P (free_lists self mt ord ! i)"
    "s = (set_list mt ord (swap_remove i (free_lists self mt ord)) self)
       \<lparr>free_frames := free_frames self - order_frames ord, total_frames := total_frames self - order_frames ord\<rparr>"
    "d = (push mt ord (free_lists self mt ord ! i) dest)
       \<lparr>free_frames := free_frames dest + order_frames ord, total_frames := total_frames dest + order_frames ord\<rparr>"
  shows "drain_inv (s, d) \<and> drain_rel P (self, dest) (s, d)"
proof -
  let ?xs = "free_lists self mt ord"
  have al: "aligned self" "aligned dest" using assms(1) by (auto simp: drain_inv_def)
  have dv: "2 ^ ord dvd ?xs ! i" using alignedD [OF al(1), of "?xs ! i" mt ord] assms(3) by simp
  have as: "aligned s"
    using aligned_set_list [OF al(1) set_swap_remove_subset [OF assms(3)]] by (simp add: assms(5))
  have ad: "aligned d" using aligned_push [OF al(2) assms(2) dv] by (simp add: assms(6))
  have fs: "zfree self = zfree s + blk (?xs ! i) ord"
    using zfree_set_list_minus [OF assms(2) lfree_swap_remove [OF assms(3)]] by (simp add: assms(5))
  have fd: "zfree d = zfree dest + blk (?xs ! i) ord"
    using assms(2) by (simp add: assms(6) zfree_push)
  have sz: "size (zfree self) = size (zfree s) + 2 ^ ord" using fs by simp
  have lists: "set (free_lists s mt' o') \<subseteq> set (free_lists self mt' o')" for mt' o'
    using set_swap_remove_subset [OF assms(3)] by (simp add: assms(5))
  show ?thesis
    using assms(1,4) as ad sz lists
    by (simp add: drain_inv_def drain_rel_def fs fd) (auto simp: assms(5,6) order_frames_def)
qed

lemma drain_loop_spec:
  assumes "drain_inv (self, dest)" "ord \<le> MAX_ORDER"
    "\<forall>f \<in> set (take i (free_lists self mt ord)). \<not> P f"
  shows "drain_inv (drain_loop mt ord P i self dest)
    \<and> drain_rel P (self, dest) (drain_loop mt ord P i self dest)
    \<and> (\<forall>f \<in> set (free_lists (fst (drain_loop mt ord P i self dest)) mt ord). \<not> P f)"
  using assms
proof (induction mt ord P i self dest rule: drain_loop.induct)
  case (1 mt ord P i self dest)
  let ?xs = "free_lists self mt ord"
  show ?case
  proof (cases "i < length ?xs")
    case False
    then show ?thesis using "1.prems" drain_rel_refl by (simp add: drain_loop.simps [of mt ord P i self dest])
  next
    case True
    show ?thesis
    proof (cases "P (?xs ! i)")
      case False
      have "\<forall>f \<in> set (take (Suc i) ?xs). \<not> P f"
        using "1.prems"(3) False True by (simp add: take_Suc_conv_app_nth)
      with "1.IH"(2) [OF True refl refl False "1.prems"(1,2)] True False show ?thesis
        by (simp add: drain_loop.simps [of mt ord P i self dest] Let_def)
    next
      case P: True
      let ?s = "(set_list mt ord (swap_remove i ?xs) self)
          \<lparr>free_frames := free_frames self - order_frames ord, total_frames := total_frames self - order_frames ord\<rparr>"
      let ?d = "(push mt ord (?xs ! i) dest)
          \<lparr>free_frames := free_frames dest + order_frames ord, total_frames := total_frames dest + order_frames ord\<rparr>"
      have m: "drain_inv (?s, ?d)" "drain_rel P (self, dest) (?s, ?d)"
        using drain_move [where P = P, OF "1.prems"(1,2) True P refl refl] by blast+
      have tk: "\<forall>f \<in> set (take i (free_lists ?s mt ord)). \<not> P f"
        using "1.prems"(3) by (simp add: take_swap_remove [OF True])
      have eq: "drain_loop mt ord P i self dest = drain_loop mt ord P i ?s ?d"
        using True P by (simp add: drain_loop.simps [of mt ord P i self dest] Let_def)
      note ih = "1.IH"(1) [OF True refl refl P m(1) "1.prems"(2) tk]
      show ?thesis unfolding eq using ih m(2) drain_rel_trans by blast
    qed
  qed
qed

subsection \<open>Removing a range\<close>

abbreviation outside :: "nat \<Rightarrow> nat \<Rightarrow> nat multiset \<Rightarrow> nat multiset" where
  "outside lo hi M \<equiv> filter_mset (\<lambda>x. x < lo \<or> hi \<le> x) M"

lemma outside_blk_in: "lo \<le> b \<Longrightarrow> b + 2 ^ ord \<le> hi \<Longrightarrow> outside lo hi (blk b ord) = {#}"
  by (auto simp: filter_mset_eq_mempty_iff)

lemma outside_blk_out: "hi \<le> b \<or> b + 2 ^ ord \<le> lo \<Longrightarrow> outside lo hi (blk b ord) = blk b ord"
  by (auto simp: filter_mset_eq_conv)

lemma retain_spec:
  assumes "ord \<le> MAX_ORDER" "2 ^ ord dvd b" "aligned z" "lo < hi"
  shows "zfree (retain_outside_range mt b ord lo hi z) = zfree z + outside lo hi (blk b ord)
    \<and> aligned (retain_outside_range mt b ord lo hi z)
    \<and> total_frames (retain_outside_range mt b ord lo hi z) = total_frames z
    \<and> free_frames (retain_outside_range mt b ord lo hi z) = free_frames z
    \<and> (\<forall>mt' o' f. f \<in> set (free_lists (retain_outside_range mt b ord lo hi z) mt' o') \<longrightarrow>
          f \<in> set (free_lists z mt' o') \<or> hi \<le> f \<or> f + 2 ^ o' \<le> lo)"
  using assms
proof (induction ord arbitrary: b z)
  case 0
  show ?case
  proof (cases "lo \<le> b \<and> b < hi")
    case True
    then show ?thesis using 0 outside_blk_in [of lo b 0 hi] by (simp add: order_frames_def)
  next
    case False
    then show ?thesis using 0 outside_blk_out [of hi b 0 lo]
      by (auto simp: order_frames_def zfree_push aligned_push)
  qed
next
  case (Suc ord)
  let ?en = "b + 2 ^ Suc ord"
  consider (inside) "lo \<le> b" "?en \<le> hi" | (out) "\<not> (lo \<le> b \<and> ?en \<le> hi)" "?en \<le> lo \<or> hi \<le> b"
    | (split) "\<not> (lo \<le> b \<and> ?en \<le> hi)" "\<not> (?en \<le> lo \<or> hi \<le> b)" by blast
  then show ?case
  proof cases
    case inside
    then show ?thesis using Suc.prems outside_blk_in [of lo b "Suc ord" hi]
      by (simp add: order_frames_def Let_def)
  next
    case out
    then show ?thesis using Suc.prems outside_blk_out [of hi b "Suc ord" lo]
        aligned_push [OF Suc.prems(3,1,2), of mt]
      by (auto simp: order_frames_def Let_def zfree_push)
  next
    case split
    let ?z1 = "retain_outside_range mt b ord lo hi z"
    let ?z2 = "retain_outside_range mt (b + 2 ^ ord) ord lo hi ?z1"
    have dv: "2 ^ ord dvd b" "2 ^ ord dvd b + 2 ^ ord"
      using Suc.prems(2) by (auto elim: dvd_trans [rotated] intro: dvd_add)
    have o: "ord \<le> MAX_ORDER" using Suc.prems(1) by simp
    note I1 = Suc.IH [OF o dv(1) Suc.prems(3,4)]
    then have al: "aligned ?z1" by blast
    note I2 = Suc.IH [OF o dv(2) al Suc.prems(4)]
    have eq: "retain_outside_range mt b (Suc ord) lo hi z = ?z2"
      using split by (auto simp: Let_def order_frames_def)
    have B: "outside lo hi (blk b (Suc ord)) = outside lo hi (blk b ord) + outside lo hi (blk (b + 2 ^ ord) ord)"
      by (simp only: blk_Suc filter_union_mset)
    have "zfree ?z2 = zfree z + outside lo hi (blk b (Suc ord))"
      using I1 I2 unfolding B by (simp add: ac_simps)
    then show ?thesis unfolding eq using I1 I2 by metis
  qed
qed

definition list_outside :: "nat \<Rightarrow> nat \<Rightarrow> nat \<Rightarrow> nat list \<Rightarrow> bool" where
  "list_outside lo hi ord xs \<longleftrightarrow> (\<forall>f \<in> set xs. hi \<le> f \<or> f + 2 ^ ord \<le> lo)"

lemma remove_loop_spec:
  assumes "ord \<le> MAX_ORDER" "aligned z" "lo < hi" "list_outside lo hi ord (take i (free_lists z mt ord))"
  shows "outside lo hi (zfree (remove_loop mt ord lo hi i z)) = outside lo hi (zfree z)
    \<and> aligned (remove_loop mt ord lo hi i z)
    \<and> total_frames (remove_loop mt ord lo hi i z) = total_frames z
    \<and> free_frames (remove_loop mt ord lo hi i z) = free_frames z
    \<and> list_outside lo hi ord (free_lists (remove_loop mt ord lo hi i z) mt ord)
    \<and> (\<forall>mt' o'. list_outside lo hi o' (free_lists z mt' o') \<longrightarrow>
         list_outside lo hi o' (free_lists (remove_loop mt ord lo hi i z) mt' o'))"
  using assms
proof (induction mt ord lo hi i z rule: remove_loop.induct)
  case (1 mt ord lo hi i z)
  let ?xs = "free_lists z mt ord" let ?b = "free_lists z mt ord ! i"
  show ?case
  proof (cases "i < length ?xs")
    case False
    then show ?thesis using "1.prems" by (simp add: remove_loop.simps [of mt ord lo hi i z])
  next
    case True
    show ?thesis
    proof (cases "hi \<le> ?b \<or> ?b + order_frames ord \<le> lo")
      case out: True
      have "list_outside lo hi ord (take (Suc i) ?xs)"
        using "1.prems"(4) True out by (auto simp: list_outside_def take_Suc_conv_app_nth order_frames_def)
      with "1.IH"(1) [OF True refl out "1.prems"(1,2,3)] True out show ?thesis
        by (simp add: remove_loop.simps [of mt ord lo hi i z] Let_def)
    next
      case ov: False
      let ?s = "set_list mt ord (swap_remove i ?xs) z"
      let ?r = "retain_outside_range mt ?b ord lo hi ?s"
      have al: "aligned ?s" using "1.prems"(2) set_swap_remove_subset [OF True] by (rule aligned_set_list)
      have dv: "2 ^ ord dvd ?b" using alignedD [OF "1.prems"(2), of ?b mt ord] True by simp
      note R = retain_spec [OF "1.prems"(1) dv al "1.prems"(3), of mt]
      have fr: "zfree z = zfree ?s + blk ?b ord"
        using zfree_set_list_minus [OF "1.prems"(1) lfree_swap_remove [OF True]] by simp
      have tk: "take i (free_lists ?r mt ord) = take i ?xs"
        using retain_outside_same [OF ov, of mt ?s mt] by (simp add: take_swap_remove [OF True])
      have ih: "list_outside lo hi ord (take i (free_lists ?r mt ord))" using "1.prems"(4) tk by simp
      have keep: "list_outside lo hi o' (free_lists ?r mt' o')"
        if "list_outside lo hi o' (free_lists z mt' o')" for mt' o'
      proof -
        have "set (free_lists ?s mt' o') \<subseteq> set (free_lists z mt' o')"
          using set_swap_remove_subset [OF True] by simp
        with R that show ?thesis unfolding list_outside_def by blast
      qed
      have eq: "remove_loop mt ord lo hi i z = remove_loop mt ord lo hi i ?r"
        using True ov by (simp add: remove_loop.simps [of mt ord lo hi i z] Let_def)
      have out: "outside lo hi (zfree ?r) = outside lo hi (zfree z)"
        using R fr by (simp add: filter_filter_mset)
      from R have al': "aligned ?r" and ct: "total_frames ?r = total_frames z" "free_frames ?r = free_frames z"
        by auto
      note IH = "1.IH"(2) [OF True refl ov "1.prems"(1) al' "1.prems"(3) ih]
      show ?thesis unfolding eq using IH out keep ct by metis
    qed
  qed
qed


lemma remove_orders_spec:
  assumes "set ords \<subseteq> {..MAX_ORDER}" "aligned z" "lo < hi"
    "z' = fold (\<lambda>ord. remove_loop mt ord lo hi 0) ords z"
  shows "outside lo hi (zfree z') = outside lo hi (zfree z) \<and> aligned z'
    \<and> total_frames z' = total_frames z \<and> free_frames z' = free_frames z
    \<and> (\<forall>ord \<in> set ords. list_outside lo hi ord (free_lists z' mt ord))
    \<and> (\<forall>mt' o'. list_outside lo hi o' (free_lists z mt' o') \<longrightarrow> list_outside lo hi o' (free_lists z' mt' o'))"
  using assms
proof (induction ords arbitrary: z)
  case (Cons ord ords)
  let ?r = "remove_loop mt ord lo hi 0 z"
  have R: "outside lo hi (zfree ?r) = outside lo hi (zfree z)" "aligned ?r"
    "total_frames ?r = total_frames z" "free_frames ?r = free_frames z"
    "list_outside lo hi ord (free_lists ?r mt ord)"
    "list_outside lo hi o' (free_lists z mt' o') \<Longrightarrow> list_outside lo hi o' (free_lists ?r mt' o')"
    for mt' o'
    using remove_loop_spec [of ord z lo hi 0 mt] Cons.prems by (auto simp: list_outside_def)
  have "set ords \<subseteq> {..MAX_ORDER}" "z' = fold (\<lambda>ord. remove_loop mt ord lo hi 0) ords ?r"
    using Cons.prems by auto
  from Cons.IH [OF this(1) R(2) Cons.prems(3) this(2)] R show ?case by simp
qed simp

definition remove_all :: "nat \<Rightarrow> nat \<Rightarrow> buddy_zone \<Rightarrow> buddy_zone" where
  "remove_all lo hi z = fold (\<lambda>mt. fold (\<lambda>ord. remove_loop mt ord lo hi 0) (rev [0..<NUM_ORDERS]))
     migrate_types z"

lemma in_zfree:
  assumes "x \<in># zfree z"
  shows "\<exists>mt ord f. ord \<le> MAX_ORDER \<and> f \<in> set (free_lists z mt ord) \<and> f \<le> x \<and> x < f + 2 ^ ord"
proof -
  from assms have "\<exists>b \<in> set (blocks z). x \<in># blk (fst b) (snd b)"
    by (simp add: in_owned_frames flip: owned_frames_blocks)
  then show ?thesis
    by (auto simp: blocks_def list_blocks_def NUM_ORDERS_def) (meson less_imp_le le_refl)+
qed

lemma remove_all_spec:
  assumes "aligned z" "lo < hi"
  shows "zfree (remove_all lo hi z) = outside lo hi (zfree z)" "aligned (remove_all lo hi z)"
    "total_frames (remove_all lo hi z) = total_frames z"
    "free_frames (remove_all lo hi z) = free_frames z"
proof -
  let ?f = "\<lambda>mt. fold (\<lambda>ord. remove_loop mt ord lo hi 0) (rev [0..<NUM_ORDERS])"
  let ?z1 = "?f Unmovable z" let ?z2 = "?f Movable ?z1"
  have sub: "set (rev [0..<NUM_ORDERS]) = {..MAX_ORDER}" by (auto simp: NUM_ORDERS_def)
  note A = remove_orders_spec [OF equalityD1 [OF sub] assms refl, of Unmovable, unfolded sub]
  then have al: "aligned ?z1" by blast
  note B = remove_orders_spec [OF equalityD1 [OF sub] al assms(2) refl, of Movable, unfolded sub]
  have eq: "remove_all lo hi z = ?z2" by (simp add: remove_all_def migrate_types_def)
  have lists: "ord \<le> MAX_ORDER \<Longrightarrow> list_outside lo hi ord (free_lists ?z2 mt ord)" for mt ord
    using A B by (cases mt) simp_all
  have "outside lo hi (zfree ?z2) = zfree ?z2"
    using lists in_zfree [of _ ?z2] by (fastforce simp: filter_mset_eq_conv list_outside_def)
  with A B show "zfree (remove_all lo hi z) = outside lo hi (zfree z)" unfolding eq by simp
  show "aligned (remove_all lo hi z)" "total_frames (remove_all lo hi z) = total_frames z"
    "free_frames (remove_all lo hi z) = free_frames z"
    unfolding eq using A B by simp_all
qed

abbreviation inside :: "nat \<Rightarrow> nat \<Rightarrow> nat multiset \<Rightarrow> nat multiset" where
  "inside lo hi M \<equiv> filter_mset (\<lambda>x. lo \<le> x \<and> x < hi) M"

lemma size_inside_blk: "size (inside lo hi (blk b ord)) = min (b + 2 ^ ord) hi - max b lo"
proof -
  have "inside lo hi (blk b ord) = mset_set {max b lo..<min (b + 2 ^ ord) hi}"
    by (auto simp: blk_def mset_upt filter_mset_mset_set intro!: arg_cong [where f = mset_set])
  then show ?thesis by simp
qed

lemma covered_fold:
  assumes "c \<le> 2 ^ 64 - 1" "en \<le> 2 ^ 64 - 1"
  shows "fold (\<lambda>(block, ord) c.
      let overlap_lo = max block lo; overlap_hi = min (sat64 (block + order_frames ord)) en
      in if overlap_lo < overlap_hi then sat64 (c + (overlap_hi - overlap_lo)) else c) bs c
    = sat64 (c + size (inside lo en (owned_frames bs)))"
  using assms(1)
proof (induction bs arbitrary: c)
  case Nil
  then show ?case by (simp add: sat64_def)
next
  case (Cons a bs)
  obtain b ord where a: "a = (b, ord)" by (cases a)
  let ?n = "size (inside lo en (blk b ord))"
  have hi: "min (sat64 (b + order_frames ord)) en = min (b + 2 ^ ord) en"
    using assms(2) by (auto simp: sat64_def order_frames_def)
  have step: "(if max b lo < min (b + 2 ^ ord) en then sat64 (c + (min (b + 2 ^ ord) en - max b lo)) else c)
      = sat64 (c + ?n)"
    using Cons.prems unfolding size_inside_blk by (auto simp: sat64_def)
  have "sat64 (c + ?n) \<le> 2 ^ 64 - 1" by (simp add: sat64_def)
  note IH = Cons.IH [OF this, unfolded Let_def]
  have "sat64 (sat64 (c + ?n) + m) = sat64 (c + ?n + m)" for m
    by (auto simp: sat64_def)
  then show ?case
    by (simp only: fold_Cons o_apply a case_prod_conv Let_def hi step IH owned_frames_simps
        filter_union_mset size_union add.assoc)
qed

lemma covered_eq: "en \<le> 2 ^ 64 - 1 \<Longrightarrow> covered lo en z = sat64 (size (inside lo en (zfree z)))"
  unfolding covered_def by (subst covered_fold) (auto simp: owned_frames_blocks)

lemma inside_subset:
  assumes "\<forall>x. count M x \<le> 1"
  shows "inside lo hi M \<subseteq># mset [lo..<hi]"
  using assms by (intro mset_subset_eqI) (auto simp: mset_upt count_mset_set')

lemma inside_full_iff:
  assumes "\<forall>x. count M x \<le> 1" "lo \<le> hi"
  shows "size (inside lo hi M) = hi - lo \<longleftrightarrow> inside lo hi M = mset [lo..<hi]"
  using mset_subset_size [of "inside lo hi M" "mset [lo..<hi]"] inside_subset [OF assms(1), of lo hi]
  by (auto simp: subset_mset.order_iff_strict)

lemma drain_orders_spec:
  assumes "set ords \<subseteq> {..MAX_ORDER}" "drain_inv s"
    "t = fold (\<lambda>ord (self, dest). drain_loop mt ord P 0 self dest) ords s"
  shows "drain_inv t \<and> drain_rel P s t \<and> (\<forall>ord \<in> set ords. \<forall>f \<in> set (free_lists (fst t) mt ord). \<not> P f)"
  using assms
proof (induction ords arbitrary: s)
  case Nil
  then show ?case by (simp add: drain_rel_refl)
next
  case (Cons ord ords)
  obtain self dest where s: "s = (self, dest)" by (cases s)
  let ?r = "drain_loop mt ord P 0 self dest"
  have R: "drain_inv ?r" "drain_rel P s ?r" "\<forall>f \<in> set (free_lists (fst ?r) mt ord). \<not> P f"
    using drain_loop_spec [of self dest ord 0 mt P] Cons.prems s by auto
  have "set ords \<subseteq> {..MAX_ORDER}" "t = fold (\<lambda>ord (self, dest). drain_loop mt ord P 0 self dest) ords ?r"
    using Cons.prems s by auto
  note I = Cons.IH [OF this(1) R(1) this(2)]
  then have "set (free_lists (fst t) mt ord) \<subseteq> set (free_lists (fst ?r) mt ord)"
    unfolding drain_rel_def by blast
  with I R show ?case by (auto intro: drain_rel_trans)
qed

lemma drain_into_spec:
  assumes "drain_inv (self, dest)"
  shows "drain_inv (drain_into P self dest) \<and> drain_rel P (self, dest) (drain_into P self dest)
    \<and> (\<forall>mt. \<forall>ord \<le> MAX_ORDER. \<forall>f \<in> set (free_lists (fst (drain_into P self dest)) mt ord). \<not> P f)"
proof -
  let ?f = "\<lambda>mt. fold (\<lambda>ord (self, dest). drain_loop mt ord P 0 self dest) [0..<NUM_ORDERS]"
  let ?s = "?f Unmovable (self, dest)" let ?t = "?f Movable ?s"
  have sub: "set [0..<NUM_ORDERS] = {..MAX_ORDER}" by (auto simp: NUM_ORDERS_def)
  note A = drain_orders_spec [OF equalityD1 [OF sub] assms refl, of Unmovable P, unfolded sub]
  then have inv: "drain_inv ?s" by blast
  note B = drain_orders_spec [OF equalityD1 [OF sub] inv refl, of Movable P, unfolded sub]
  have eq: "drain_into P self dest = ?t" by (simp add: drain_into_def migrate_types_def)
  have "\<not> P f" if "ord \<le> MAX_ORDER" "f \<in> set (free_lists (fst ?t) mt ord)" for mt ord f
  proof (cases mt)
    case Unmovable
    moreover have "set (free_lists (fst ?t) Unmovable ord) \<subseteq> set (free_lists (fst ?s) Unmovable ord)"
      using B unfolding drain_rel_def by blast
    ultimately show ?thesis using A that by blast
  next
    case Movable
    then show ?thesis using B that by blast
  qed
  then show ?thesis unfolding eq using A B drain_rel_trans by blast
qed

lemma size_lfree: "size (lfree ord xs) = length xs * 2 ^ ord"
  by (induction xs) auto

lemma free_list_length:
  assumes "zone_ok z" "ord \<le> MAX_ORDER"
  shows "length (free_lists z mt ord) \<le> total_frames z div 2 ^ ord"
proof -
  have "lfree ord (free_lists z mt ord) \<subseteq># zfree z"
    using zfree_set_list_minus [of ord z mt "[]" "lfree ord (free_lists z mt ord)"] assms(2) by simp
  then have "length (free_lists z mt ord) * 2 ^ ord \<le> total_frames z"
    using size_mset_mono assms(1) by (fastforce simp: zone_ok_def size_lfree)
  then show ?thesis by (simp add: less_eq_div_iff_mult_less_eq)
qed


subsection \<open>Facts the properties share\<close>

lemma donate_as_spec:
  assumes "aligned z"
  shows "zfree (donate_as a n mt z) = zfree z + mset [a..<a + n]" "aligned (donate_as a n mt z)"
    "total_frames (donate_as a n mt z) = total_frames z + n"
    "free_frames (donate_as a n mt z) = free_frames z + n"
  using donate_loop_spec [of a "a + n" "z\<lparr>total_frames := total_frames z + n, free_frames := free_frames z + n\<rparr>" mt] assms
  by (simp_all add: donate_as_def)

lemma zone_ok_donate:
  assumes "zone_ok z" "\<And>x. a \<le> x \<Longrightarrow> x < a + n \<Longrightarrow> x \<notin># zfree z"
  shows "zone_ok (donate_as a n mt z)"
proof -
  have "count (zfree z + mset [a..<a + n]) x \<le> 1" for x
    using assms by (auto simp: zone_ok_def mset_upt count_mset_set' not_in_iff)
  then show ?thesis using assms(1) donate_as_spec [of z a n mt] by (simp add: zone_ok_def)
qed

lemma zone_ok_new [simp]: "zone_ok new_zone"
  by (simp add: zone_ok_def new_zone_def aligned_def zfree_def)

lemma zfree_new [simp]: "zfree new_zone = {#}" "total_frames new_zone = 0" "free_frames new_zone = 0"
  by (simp_all add: new_zone_def zfree_def)

lemma coalesced_new [simp]: "coalesced new_zone"
  by (simp add: new_zone_def coalesced_def)

lemma free_list_length_reserved:
  "zone_ok z \<Longrightarrow> ord \<le> MAX_ORDER \<Longrightarrow> length (free_lists z mt ord) < reserve_cap z ord"
  using free_list_length [of z ord mt] by (simp add: reserve_cap_def)

lemma coalesced_alloc_within:
  assumes "zone_ok z" "coalesced z"
  shows "coalesced (fst (alloc_within ord src dst z))"
proof (cases "found_order z src ord \<le> MAX_ORDER")
  case False
  then show ?thesis using assms by (simp add: alloc_within_def)
next
  case True
  then have ne: "free_lists z src (found_order z src ord) \<noteq> []" using found_order_spec by blast
  then have "set (butlast (free_lists z src (found_order z src ord))) \<subseteq> set (free_lists z src (found_order z src ord))"
    by (auto dest: in_set_butlastD)
  from coalesced_take_block [OF assms last_in_set [OF ne] lfree_butlast [OF ne] this] True
  show ?thesis by (simp add: alloc_within_def Let_def)
qed

lemma coalesced_alloc_fallback:
  "zone_ok z \<Longrightarrow> coalesced z \<Longrightarrow> coalesced (fst (alloc_fallback ord srcs mt z))"
proof (induction srcs)
  case (Cons src srcs)
  show ?case
  proof (cases "snd (alloc_within ord src mt z)")
    case None
    from alloc_within_NoneD [OF this] Cons show ?thesis by simp
  next
    case (Some f)
    with coalesced_alloc_within [OF Cons.prems, of ord src mt] show ?thesis by (auto split: prod.splits)
  qed
qed simp

lemma coalesced_alloc_below_fallback:
  "zone_ok z \<Longrightarrow> coalesced z \<Longrightarrow> coalesced (fst (alloc_below_fallback ord ceil srcs mt z))"
proof (induction srcs)
  case (Cons src_mt srcs)
  show ?case
  proof (cases "below_source [ord..<Suc MAX_ORDER] ceil src_mt z")
    case None
    with Cons show ?thesis by simp
  next
    case (Some p)
    obtain src idx where p: "p = (src, idx)" by (cases p)
    let ?xs = "free_lists z src_mt src"
    from below_source_SomeD [OF Some [unfolded p]] have i: "idx < length ?xs" by simp
    from coalesced_take_block [OF Cons.prems nth_mem [OF i] lfree_swap_remove [OF i] set_swap_remove_subset [OF i]]
      Some p show ?thesis by (simp add: Let_def)
  qed
qed simp

lemma coalesced_zone_alloc:
  "zone_ok z \<Longrightarrow> coalesced z \<Longrightarrow> coalesced (fst (zone_alloc q ord z))"
  by (auto simp: zone_alloc_def alloc_mt_def alloc_below_mt_def coalesced_alloc_fallback
      coalesced_alloc_below_fallback split: option.splits)

lemma coalesced_free_mt: "coalesced z \<Longrightarrow> coalesced (free_mt f ord mt z)"
  by (simp add: free_mt_def free_inner_def coalesced_coalesce)


subsection \<open>Vector capacities\<close>

lemma needed_loop_donate:
  "length (free_lists (donate_loop mt start en z) mt ord) + needed ord
     = length (free_lists z mt ord) + needed_loop start en needed ord"
proof (induction start en needed arbitrary: z rule: needed_loop.induct)
  case (1 start en needed)
  show ?case
  proof (cases "start < en")
    case False
    then show ?thesis
      by (simp add: donate_loop.simps [of mt start en z] needed_loop.simps [of start en needed])
  next
    case True
    let ?o = "donate_order start en MAX_ORDER"
    from 1 [OF True refl, of "push mt ?o start z"] True show ?thesis
      by (auto simp: donate_loop.simps [of mt start en z] needed_loop.simps [of start en needed] Let_def
          fun_upd_def split: if_splits)
  qed
qed

lemma reserve_growth_capacity_ge:
  assumes "total_frames z \<noteq> 0" "ord \<le> MAX_ORDER"
  shows "reserve_cap z ord - (caps mt ord - length (free_lists z mt ord))
     \<le> reserve_growth_capacity z caps mt ord"
  using assms by (auto simp: reserve_growth_capacity_def reserve_exact_def NUM_ORDERS_def Let_def)

text \<open>
  The amount asked of \<open>reserve_exact\<close> is computed from the capacity, but \<open>reserve_exact\<close>
  counts from the length: a list with spare capacity ends below the intended bound.
\<close>

lemma reserve_shortfall:
  "reserve_growth_capacity (new_zone\<lparr>total_frames := 4096\<rparr>) (\<lambda>_ _. 256) Movable 0 = 3904
   \<and> 3904 < total_frames (new_zone\<lparr>total_frames := 4096\<rparr>)"
  by (simp add: reserve_growth_capacity_def reserve_cap_def reserve_exact_def new_zone_def
      NUM_ORDERS_def MAX_ORDER_def)

lemma reserved_length:
  assumes "zone_ok z'" "total_frames z' = total_frames z" "ord \<le> MAX_ORDER"
    "caps mt ord \<le> length (free_lists z mt ord) + 64"
  shows "length (free_lists z' mt ord) \<le> reserve_growth_capacity z caps mt ord"
proof (cases "total_frames z = 0")
  case True
  then show ?thesis using free_list_length [OF assms(1,3), of mt] assms(2) by simp
next
  case False
  have "length (free_lists z' mt ord) \<le> total_frames z div 2 ^ ord"
    using free_list_length [OF assms(1,3), of mt] assms(2) by simp
  with reserve_growth_capacity_ge [OF False assms(3), of caps mt] assms(4) show ?thesis
    unfolding reserve_cap_def by linarith
qed


subsection \<open>Properties\<close>

text \<open>A zone of 16 frames, and the same zone with its first page handed out.\<close>

definition zone16 :: buddy_zone where "zone16 = donate 0 16 new_zone"

lemma zone16_ok [simp]: "zone_ok zone16"
  by (simp add: zone16_def donate_def zone_ok_donate)

lemma zfree_zone16 [simp]: "zfree zone16 = mset [0..<16]" "total_frames zone16 = 16"
  using donate_as_spec [of new_zone 0 16 Movable] zone_ok_new
  by (simp_all add: zone16_def donate_def zone_ok_def)

lemma donate_order_pos:
  "0 < ord \<Longrightarrow> donate_order start en ord =
     (if start AND (2 ^ ord - 1) = 0 \<and> start + 2 ^ ord \<le> en then ord else donate_order start en (ord - 1))"
  by (cases ord) (simp_all add: order_frames_def Let_def)

lemma zone16_lists: "free_lists zone16 mt ord = (if mt = Movable \<and> ord = 4 then [0] else [])"
proof -
  have "donate_order 0 16 MAX_ORDER = 4" by (simp add: MAX_ORDER_def donate_order_pos)
  then show ?thesis
    by (simp add: zone16_def donate_def donate_as_def donate_loop.simps [of _ 0] donate_loop.simps [of _ 16]
        order_frames_def Let_def new_zone_def)
qed

lemma zone16_coalesced [simp]: "coalesced zone16"
  by (simp add: coalesced_def zone16_lists buddy_of_neq)

text \<open>
  C6. No frame is ever owned twice. Whatever sequence of allocations (with or without a
  ceiling, any mobility class, any order) and frees of owned blocks a client issues, the
  zone stays well formed, every owned block is aligned to its size, the owned blocks are
  pairwise disjoint, and the owned frames and the free frames together are exactly the
  frames that were free at the start.
\<close>

theorem zone_client_safe:
  assumes "zone_ok z" "foldl (client_step zone_alloc zone_free) (z, []) rs = (z', owned)"
  shows "zone_ok z' \<and> zfree z' + owned_frames owned = zfree z \<and> first_overlap owned = None
    \<and> list_all (\<lambda>(f, ord). ord \<le> MAX_ORDER \<and> 2 ^ ord dvd f) owned"
proof -
  have run: "zone_ok z'" "zfree z' + owned_frames owned = zfree z"
    "\<forall>(f, ord) \<in> set owned. ord \<le> MAX_ORDER \<and> 2 ^ ord dvd f"
    using zone.client_run [OF assms(1), of rs] assms(2) by (auto simp: zone.client_ok_def)
  have "count (owned_frames owned) x \<le> 1" for x
  proof -
    have "count (zfree z' + owned_frames owned) x \<le> 1" using assms(1) run(2) by (simp add: zone_ok_def)
    then show ?thesis by simp
  qed
  then show ?thesis using run by (auto simp: first_overlap_None_iff list_all_iff)
qed

theorem zone_client_safe_witness:
  "\<exists>z' owned. foldl (client_step zone_alloc zone_free) (zone16, [])
       [Alloc (Unmovable, None) 1, Alloc (Movable, Some 8) 0, Free (Unmovable, None) 0 1] = (z', owned)
     \<and> zone_ok z' \<and> zfree z' + owned_frames owned = mset [0..<16]"
proof -
  obtain z' owned where r: "foldl (client_step zone_alloc zone_free) (zone16, [])
       [Alloc (Unmovable, None) 1, Alloc (Movable, Some 8) 0, Free (Unmovable, None) 0 1] = (z', owned)"
    by (rule prod.exhaust)
  show ?thesis using zone_client_safe [OF zone16_ok r] r by auto
qed

text \<open>
  C7. When allocation fails. \<open>alloc_mt\<close> returns \<open>None\<close> exactly when the order is out of range or no
  partition has a free block of that order or a larger one. The ceiling-constrained
  \<open>alloc_below_mt\<close> returns \<open>None\<close> exactly when the order is out of range or no whole free block of
  that order or a larger one ends at or below the ceiling: a larger block that crosses the ceiling
  is not split, even when its lower part would do, although the comment on the search says that
  it looks for a block whose lower half fits. A failed allocation leaves the zone unchanged.
\<close>

theorem alloc_fails_iff:
  "(alloc_mt ord mt z = (z', None)
      \<longleftrightarrow> z' = z \<and> (MAX_ORDER < ord \<or> (\<forall>src. \<forall>o' \<in> {ord..MAX_ORDER}. free_lists z src o' = [])))
   \<and> (alloc_below_mt ord ceil mt z = (z', None)
      \<longleftrightarrow> z' = z \<and> (MAX_ORDER < ord \<or>
            (\<forall>src. \<forall>o' \<in> {ord..MAX_ORDER}. \<forall>f \<in> set (free_lists z src o'). ceil < f + 2 ^ o')))"
  by (auto simp: alloc_mt_def alloc_below_mt_def alloc_fallback_None_iff alloc_below_fallback_None)

theorem alloc_fails_iff_witness:
  "alloc_mt 5 Unmovable zone16 = (zone16, None) \<and> alloc_mt 4 Unmovable zone16 \<noteq> (zone16, None)
   \<and> alloc_below_mt 0 8 Movable zone16 = (zone16, None)"
  using alloc_fails_iff [of 5 Unmovable zone16 zone16 8] alloc_fails_iff [of 4 Unmovable zone16 zone16 8]
    alloc_fails_iff [of 0 Unmovable zone16 zone16 8] alloc_fails_iff [of 0 Movable zone16 zone16 8]
  by (auto simp: zone16_lists MAX_ORDER_def)

text \<open>
  C8. A ceiling-constrained allocation returns an aligned block that lies below the
  ceiling, takes exactly that block out of the free frames and keeps the zone well formed.
\<close>

theorem alloc_below_ceiling:
  assumes "zone_ok z" "alloc_below_mt ord ceil mt z = (z', Some f)"
  shows "f + order_frames ord \<le> ceil \<and> 2 ^ ord dvd f \<and> zfree z = zfree z' + blk f ord
    \<and> free_frame_count z' + order_frames ord = free_frame_count z \<and> zone_ok z'"
proof -
  have al: "aligned z" using assms(1) by (simp add: zone_ok_def)
  have r: "alloc_result ord f z z'" "f + 2 ^ ord \<le> ceil"
    using assms(2) alloc_below_fallback_SomeD [OF _ al, of ord ceil _ mt z' f]
    by (auto simp: alloc_below_mt_def split: if_splits)
  have "zone_ok z'" using zone_ok_alloc [OF assms(1) r(1)] .
  with assms(1) r show ?thesis
    by (auto simp: alloc_result_def order_frames_def free_frame_count_def zone_ok_def)
qed

theorem alloc_below_ceiling_witness:
  "\<exists>z' f. alloc_below_mt 2 16 Movable zone16 = (z', Some f) \<and> f + order_frames 2 \<le> 16 \<and> zone_ok z'"
proof -
  have "\<exists>z'. alloc_below_mt 2 16 Movable zone16 = (z', Some 0)"
    by (simp add: alloc_below_mt_def MAX_ORDER_def find_below_def zone16_lists order_frames_def Let_def
        upt_rec)
  then show ?thesis using alloc_below_ceiling [OF zone16_ok, of 2 16 Movable] by blast
qed

text \<open>
  C9. Allocation, ceiling-constrained allocation and free keep buddies merged: if no free block
  has its buddy free in the same list, then neither an allocation nor a free of any block
  changes that.
\<close>

theorem zone_stays_coalesced:
  assumes "zone_ok z" "coalesced z"
  shows "coalesced (fst (alloc_mt ord mt z)) \<and> coalesced (fst (alloc_below_mt ord ceil mt z))
    \<and> coalesced (free_mt f ord mt z)"
  using coalesced_zone_alloc [OF assms, of "(mt, None)" ord] coalesced_zone_alloc [OF assms, of "(mt, Some ceil)" ord]
    coalesced_free_mt [OF assms(2)] by (simp add: zone_alloc_def)

theorem zone_stays_coalesced_witness:
  "coalesced (fst (alloc_mt 0 Unmovable zone16)) \<and> coalesced (free_mt 16 4 Movable zone16)"
  using zone_stays_coalesced [of zone16 0 Unmovable 16 16] zone_stays_coalesced [of zone16 4 Movable 16 16] by simp

text \<open>
  Donating a range that holds no free frame of the zone keeps the zone well formed and
  makes exactly the frames of the range free, as naturally aligned blocks.
\<close>

theorem donate_adds_range:
  assumes "zone_ok z" "\<And>x. first \<le> x \<Longrightarrow> x < first + count' \<Longrightarrow> x \<notin># zfree z"
  shows "zone_ok (donate_as first count' mt z)
    \<and> zfree (donate_as first count' mt z) = zfree z + mset [first..<first + count']
    \<and> free_frame_count (donate_as first count' mt z) = free_frame_count z + count'
    \<and> total_frames (donate_as first count' mt z) = total_frames z + count'"
proof (intro conjI)
  have al: "aligned z" using assms(1) by (simp add: zone_ok_def)
  note D = donate_as_spec [OF al, of first count' mt]
  show "zone_ok (donate_as first count' mt z)" using assms by (rule zone_ok_donate)
  show "zfree (donate_as first count' mt z) = zfree z + mset [first..<first + count']"
    "free_frame_count (donate_as first count' mt z) = free_frame_count z + count'"
    "total_frames (donate_as first count' mt z) = total_frames z + count'"
    using D by (simp_all add: free_frame_count_def)
qed

theorem donate_adds_range_witness:
  "zone_ok (donate_as 17 7 Unmovable zone16)
   \<and> zfree (donate_as 17 7 Unmovable zone16) = mset [0..<16] + mset [17..<24]"
  using donate_adds_range [OF zone16_ok, of 17 7 Unmovable] by simp

text \<open>
  The overlap check is exact: \<open>validate_no_overlap\<close> returns \<open>Ok\<close> if and only if no frame
  is in two free blocks.
\<close>

theorem validate_no_overlap_exact:
  "validate_no_overlap z = Ok () \<longleftrightarrow> (\<forall>x. count (zfree z) x \<le> 1)"
  using first_overlap_None_iff [of "blocks z"]
  by (auto simp: validate_no_overlap_def owned_frames_blocks split: option.splits)

text \<open>
  Hot-unplug removes a range if and only if every frame of it is free. When it does, the
  free frames are exactly the previous ones less the range, blocks that cross the boundary
  being split; otherwise the zone is unchanged.
\<close>

theorem remove_free_range_exact:
  assumes "zone_ok z" "0 < n" "first + n < 2 ^ 64" "remove_free_range first n z = (z', removed)"
  shows "(removed \<longleftrightarrow> mset [first..<first + n] \<subseteq># zfree z)
    \<and> (if removed then zone_ok z' \<and> zfree z = zfree z' + mset [first..<first + n]
         \<and> total_frames z' = total_frames z - n
       else z' = z)"
proof -
  let ?en = "first + n" let ?R = "mset [first..<first + n]"
  have al: "aligned z" and one: "\<forall>x. count (zfree z) x \<le> 1" using assms(1) by (auto simp: zone_ok_def)
  have en: "sat64 ?en = ?en" "?en \<le> 2 ^ 64 - 1" "first < ?en" using assms(2,3) by (auto simp: sat64_def)
  have sz: "size (inside first ?en (zfree z)) \<le> n"
    using size_mset_mono [OF inside_subset [OF one, of first ?en]] by simp
  then have cov: "covered first ?en z = size (inside first ?en (zfree z))"
    using covered_eq [OF en(2)] assms(3) by (simp add: sat64_def)
  have part: "zfree z = inside first ?en (zfree z) + outside first ?en (zfree z)"
    by (subst multiset_partition [of _ "\<lambda>x. first \<le> x \<and> x < first + n"]) (simp add: not_le not_less de_Morgan_conj)
  have full: "size (inside first ?en (zfree z)) = n \<longleftrightarrow> inside first ?en (zfree z) = ?R"
    using inside_full_iff [OF one, of first ?en] by simp
  have sub: "inside first ?en (zfree z) = ?R \<longleftrightarrow> ?R \<subseteq># zfree z"
  proof
    assume "?R \<subseteq># zfree z"
    then have "inside first ?en ?R \<subseteq># inside first ?en (zfree z)" by (rule multiset_filter_mono)
    moreover have "inside first ?en ?R = ?R" by (auto simp: filter_mset_eq_conv)
    ultimately show "inside first ?en (zfree z) = ?R"
      using inside_subset [OF one, of first ?en] by (metis subset_mset.antisym)
  next
    assume "inside first ?en (zfree z) = ?R"
    then show "?R \<subseteq># zfree z" by (metis multiset_filter_subset)
  qed
  have rm: "remove_free_range first n z = (if size (inside first ?en (zfree z)) = n
      then ((remove_all first ?en z)\<lparr>free_frames := free_frames (remove_all first ?en z) - n,
              total_frames := total_frames (remove_all first ?en z) - n\<rparr>, True)
      else (z, False))"
    using assms(2) en cov by (simp add: remove_free_range_def remove_all_def Let_def)
  show ?thesis
  proof (cases "size (inside first ?en (zfree z)) = n")
    case False
    then show ?thesis using rm full sub assms(4) by auto
  next
    case True
    note R = remove_all_spec [OF al en(3)]
    have eq: "zfree z = zfree (remove_all first ?en z) + ?R"
      using part True full R(1) by (simp add: add.commute)
    have "zone_ok ((remove_all first ?en z)\<lparr>free_frames := free_frames z - n, total_frames := total_frames z - n\<rparr>)"
      using R(2) assms(1) unfolding zone_ok_def eq by auto (metis add_leE)
    with True rm full sub eq R(3,4) assms(4) show ?thesis by auto
  qed
qed


theorem remove_free_range_exact_witness:
  "snd (remove_free_range 4 4 zone16) \<and> \<not> snd (remove_free_range 12 8 zone16)"
proof -
  have "mset [4..<8] \<subseteq># mset [0..<16::nat]"
    unfolding mset_upt by (rule subset_imp_msubset_mset_set) auto
  moreover have "\<not> mset [12..<20] \<subseteq># mset [0..<16::nat]"
    using mset_subset_eqD [of "mset [12..<20]" "mset [0..<16]" "19::nat"] by auto
  ultimately show ?thesis
    using remove_free_range_exact [OF zone16_ok, of 4 4] remove_free_range_exact [OF zone16_ok, of 8 12]
    by (auto split: prod.splits simp: prod_eq_iff)
qed

text \<open>
  Draining one zone into another (NUMA re-homing) loses and duplicates nothing: the free
  frames and both counters of the two zones together are unchanged, only blocks whose base
  satisfies the predicate move, and afterwards no such block is left in the source.
\<close>

theorem drain_into_conserves:
  assumes "zone_ok self" "aligned dest" "drain_into P self dest = (self', dest')"
  shows "zfree self' + zfree dest' = zfree self + zfree dest
    \<and> total_frames self' + total_frames dest' = total_frames self + total_frames dest
    \<and> free_frames self' + free_frames dest' = free_frames self + free_frames dest
    \<and> (\<forall>mt ord. set (free_lists dest' mt ord) \<subseteq> set (free_lists dest mt ord) \<union> Collect P)
    \<and> (\<forall>mt ord f. f \<in> set (free_lists self' mt ord) \<longrightarrow> \<not> P f)"
proof -
  have "drain_inv (self, dest)" using assms by (simp add: drain_inv_def zone_ok_def)
  from drain_into_spec [OF this, of P]
  have D: "drain_inv (self', dest')" "drain_rel P (self, dest) (self', dest')"
    "\<forall>mt. \<forall>ord \<le> MAX_ORDER. \<forall>f \<in> set (free_lists self' mt ord). \<not> P f"
    unfolding assms(3) by simp_all
  moreover from D(1) have "aligned self'" by (simp add: drain_inv_def)
  ultimately show ?thesis by (auto simp: drain_rel_def dest: alignedD)
qed

theorem drain_into_conserves_witness:
  "\<exists>self' dest'. drain_into (\<lambda>f. f < 8) zone16 new_zone = (self', dest')
     \<and> zfree self' + zfree dest' = mset [0..<16] \<and> total_frames self' + total_frames dest' = 16"
proof -
  obtain self' dest' where r: "drain_into (\<lambda>f. f < 8) zone16 new_zone = (self', dest')"
    by (rule prod.exhaust)
  have "aligned new_zone" using zone_ok_new by (simp add: zone_ok_def)
  from drain_into_conserves [OF zone16_ok this r] r show ?thesis by auto
qed

text \<open>
  After \<open>reserve_growth_capacity\<close>, no free list outgrows its reserved capacity under any
  client activity, provided no list had more than 64 unused slots when the reservation
  ran: the frame lock is never held across a vector growth.
\<close>

theorem reserved_capacity_suffices:
  assumes "zone_ok z" "ord \<le> MAX_ORDER"
    "caps mt ord \<le> length (free_lists z mt ord) + 64"
    "foldl (client_step zone_alloc zone_free) (z, []) rs = (z', owned)"
  shows "length (free_lists z' mt ord) \<le> reserve_growth_capacity z caps mt ord"
proof -
  have "zone_ok z'" "total_frames z' = total_frames z"
    using zone.client_run [OF assms(1), of rs] assms(4) by (auto simp: zone.client_ok_def)
  then show ?thesis using assms(2,3) by (rule reserved_length)
qed

theorem reserved_capacity_suffices_witness:
  "\<exists>z' owned. foldl (client_step zone_alloc zone_free) (zone16, []) [Alloc (Unmovable, None) 0] = (z', owned)
     \<and> length (free_lists z' Movable 0) \<le> reserve_growth_capacity zone16 (\<lambda>_ _. 4) Movable 0"
proof -
  obtain z' owned where r:
    "foldl (client_step zone_alloc zone_free) (zone16, []) [Alloc (Unmovable, None) 0] = (z', owned)"
    by (rule prod.exhaust)
  from reserved_capacity_suffices [OF zone16_ok _ _ r, of 0 "\<lambda>_ _. 4" Movable] r show ?thesis by auto
qed

text \<open>
  The hot-plug admission test is exact: \<open>can_donate_without_growth\<close> holds if and only if
  donating the range leaves every Movable list within its current capacity.
\<close>

theorem can_donate_without_growth_exact:
  assumes "first + n < 2 ^ 64"
  shows "can_donate_without_growth caps first n z \<longleftrightarrow>
    (\<forall>ord \<in> {0..MAX_ORDER}. length (free_lists (donate first n z) Movable ord) \<le> caps Movable ord)"
proof -
  let ?z = "z\<lparr>total_frames := total_frames z + n, free_frames := free_frames z + n\<rparr>"
  have "min (first + n) (2 ^ 64 - 1) = first + n" using assms by simp
  moreover have "length (free_lists (donate first n z) Movable ord)
      = length (free_lists z Movable ord) + needed_loop first (first + n) (\<lambda>_. 0) ord" for ord
    using needed_loop_donate [of Movable first "first + n" ?z ord "\<lambda>_. 0"]
    by (simp add: donate_def donate_as_def)
  moreover have "set [0..<NUM_ORDERS] = {0..MAX_ORDER}" by (auto simp: NUM_ORDERS_def)
  ultimately show ?thesis
    by (simp only: can_donate_without_growth_def Let_def list_all_iff)
qed

theorem can_donate_without_growth_exact_witness:
  "can_donate_without_growth (\<lambda>_ _. 1) 0 0 zone16 = (\<forall>ord \<in> {0..MAX_ORDER}.
     length (free_lists (donate 0 0 zone16) Movable ord) \<le> 1)"
  using can_donate_without_growth_exact [of 0 0 "\<lambda>_ _. 1" zone16] by simp

end
