(* ===== verification/Ring.thy ===== *)
theory Ring
  imports Narf_Prelude
begin

text \<open>
  The rings of \<open>ipc/src\<close>: the single-producer single-consumer ring \<open>Ring<T, N>\<close> of
  \<open>lib.rs\<close> (its transport implementation, the producer and consumer halves, the two futures
  and the destructors), the \<open>RingTransport\<close> seam of \<open>transport.rs\<close> as a locale, and the
  spin-locked \<open>VecRing\<close>. Here every call is one atomic step; the interleaving of the two halves
  is the subject of \<open>Ring_Concurrent\<close>.

  The const parameter \<open>N\<close> and the payload's \<open>Retag::retag\<close> are arguments. A slot is
  \<open>MaybeUninit<T>\<close>: \<open>None\<close> is uninitialised storage. \<open>assume_init\<close> of such a slot is undefined
  behaviour, which the operations report as an outer \<open>None\<close>. Wakers are numbers, and a
  call of \<open>wake\<close> is recorded in \<open>woken\<close>.
\<close>

subsection \<open>State\<close>

type_synonym waker = nat

record 't ring =
  head :: u64
  tail :: u64
  closed :: bool
  producer_waker :: "waker option"
  consumer_waker :: "waker option"
  slots :: "'t option list"
  woken :: "waker list"

definition POW2_GUARD :: "nat \<Rightarrow> bool" where
  "POW2_GUARD N \<longleftrightarrow> N > 0 \<and> N AND (N - 1) = 0"

definition MASK :: "nat \<Rightarrow> u64" where
  "MASK N = of_nat N - 1"

definition new_ring :: "nat \<Rightarrow> 't ring" where
  "new_ring N = \<lparr>head = 0, tail = 0, closed = False, producer_waker = None, consumer_waker = None,
     slots = replicate N None, woken = []\<rparr>"

definition slot_index :: "nat \<Rightarrow> u64 \<Rightarrow> nat" where
  "slot_index N i = unat (i AND MASK N)"

text \<open>\<open>if let Some(w) = self.consumer_waker.lock().take() { w.wake(); }\<close> and its mirror image.\<close>

definition wake_consumer :: "'t ring \<Rightarrow> 't ring" where
  "wake_consumer r =
     (case consumer_waker r of
        Some w \<Rightarrow> r\<lparr>consumer_waker := None, woken := woken r @ [w]\<rparr>
      | None \<Rightarrow> r)"

definition wake_producer :: "'t ring \<Rightarrow> 't ring" where
  "wake_producer r =
     (case producer_waker r of
        Some w \<Rightarrow> r\<lparr>producer_waker := None, woken := woken r @ [w]\<rparr>
      | None \<Rightarrow> r)"

subsection \<open>The transport implementation\<close>

definition try_push :: "nat \<Rightarrow> ('t \<Rightarrow> 't) \<Rightarrow> 't \<Rightarrow> 't ring \<Rightarrow> 't ring \<times> (unit, 't) result" where
  "try_push N retag val r =
     (if closed r then (r, Err val)
      else if head r - tail r \<ge> of_nat N then (r, Err val)
      else
        (let idx = slot_index N (head r);
             r1 = r\<lparr>slots := (slots r)[idx := Some (retag val)]\<rparr>;
             r2 = r1\<lparr>head := head r + 1\<rparr>
         in (wake_consumer r2, Ok ())))"

definition try_pop :: "nat \<Rightarrow> 't ring \<Rightarrow> ('t ring \<times> 't option) option" where
  "try_pop N r =
     (if head r = tail r then Some (r, None)
      else
        (let idx = slot_index N (tail r) in
         case slots r ! idx of
           None \<Rightarrow> None
         | Some msg \<Rightarrow>
             (let r1 = r\<lparr>slots := (slots r)[idx := None]\<rparr>;
                  r2 = r1\<lparr>tail := tail r + 1\<rparr>
              in Some (wake_producer r2, Some msg))))"

definition ring_len :: "'t ring \<Rightarrow> nat" where
  "ring_len r = unat (head r - tail r)"

definition ring_capacity :: "nat \<Rightarrow> 't ring \<Rightarrow> nat" where
  "ring_capacity N r = N"

text \<open>The destructor drops every undelivered payload; the result lists them in order.\<close>

function drop_loop :: "nat \<Rightarrow> u64 \<Rightarrow> u64 \<Rightarrow> 't option list \<Rightarrow> ('t option list \<times> 't list) option" where
  "drop_loop N i stop sl =
     (if i \<noteq> stop
      then (let idx = slot_index N i in
            case sl ! idx of
              None \<Rightarrow> None
            | Some msg \<Rightarrow> map_option (apsnd (Cons msg)) (drop_loop N (i + 1) stop (sl[idx := None])))
      else Some (sl, []))"
  by pat_completeness auto
termination
proof (relation "measure (\<lambda>(N, i, stop, sl). unat (stop - i))", simp, goal_cases)
  case (1 N i stop sl idx msg)
  then have "stop - i \<noteq> 0" by simp
  then have "unat (stop - i - 1) < unat (stop - i)" by (metis measure_unat)
  then show ?case by (simp add: diff_diff_eq)
qed

declare drop_loop.simps [simp del]

definition drop_ring :: "nat \<Rightarrow> 't ring \<Rightarrow> ('t ring \<times> 't list) option" where
  "drop_ring N r =
     (case drop_loop N (tail r) (head r) (slots r) of
        None \<Rightarrow> None
      | Some (sl, dropped) \<Rightarrow> Some (r\<lparr>slots := sl\<rparr>, dropped))"

subsection \<open>Producer and consumer halves\<close>

text \<open>\<open>channel\<close> writes each header field of the uninitialised allocation once.\<close>

definition channel :: "nat \<Rightarrow> 't ring option" where
  "channel N = (if POW2_GUARD N then Some (new_ring N) else None)"

datatype 't try_send_error = Full 't | Closed 't

definition try_send ::
    "nat \<Rightarrow> ('t \<Rightarrow> 't) \<Rightarrow> 't \<Rightarrow> 't ring \<Rightarrow> 't ring \<times> (unit, 't try_send_error) result" where
  "try_send N retag msg r =
     (if closed r then (r, Err (Closed msg))
      else if head r - tail r \<ge> of_nat N then (r, Err (Full msg))
      else
        (let idx = slot_index N (head r);
             r1 = r\<lparr>slots := (slots r)[idx := Some (retag msg)]\<rparr>;
             r2 = r1\<lparr>head := head r + 1\<rparr>
         in (wake_consumer r2, Ok ())))"

definition drop_producer :: "'t ring \<Rightarrow> 't ring" where
  "drop_producer r = wake_consumer (r\<lparr>closed := True\<rparr>)"

datatype 'a poll = Ready 'a | Pending

text \<open>
  \<open>SendFuture\<close> holds the message until it is in a slot. Polling it again after completion
  panics, which is the outer \<open>None\<close>.
\<close>

definition send_poll ::
    "nat \<Rightarrow> ('t \<Rightarrow> 't) \<Rightarrow> waker \<Rightarrow> 't option \<Rightarrow> 't ring \<Rightarrow>
     ('t option \<times> 't ring \<times> (unit, 't) result poll) option" where
  "send_poll N retag w slot r =
     (case slot of
        None \<Rightarrow> None
      | Some msg \<Rightarrow>
          (case try_send N retag msg r of
             (r1, Inr _) \<Rightarrow> Some (None, r1, Ready (Ok ()))
           | (r1, Inl (Closed m)) \<Rightarrow> Some (None, r1, Ready (Err m))
           | (r1, Inl (Full m)) \<Rightarrow>
               (case try_send N retag m (r1\<lparr>producer_waker := Some w\<rparr>) of
                  (r2, Inr _) \<Rightarrow> Some (None, r2\<lparr>producer_waker := None\<rparr>, Ready (Ok ()))
                | (r2, Inl (Closed m')) \<Rightarrow> Some (None, r2, Ready (Err m'))
                | (r2, Inl (Full m')) \<Rightarrow> Some (Some m', r2, Pending))))"

datatype recv_error = RecvClosed

definition try_recv :: "nat \<Rightarrow> 't ring \<Rightarrow> ('t ring \<times> ('t option, recv_error) result) option" where
  "try_recv N r =
     (if head r = tail r
      then Some (r, if closed r then Err RecvClosed else Ok None)
      else
        (let idx = slot_index N (tail r) in
         case slots r ! idx of
           None \<Rightarrow> None
         | Some msg \<Rightarrow>
             (let r1 = r\<lparr>slots := (slots r)[idx := None]\<rparr>;
                  r2 = r1\<lparr>tail := tail r + 1\<rparr>
              in Some (wake_producer r2, Ok (Some msg)))))"

definition drop_consumer :: "'t ring \<Rightarrow> 't ring" where
  "drop_consumer r = wake_producer (r\<lparr>closed := True\<rparr>)"

definition recv_poll :: "nat \<Rightarrow> waker \<Rightarrow> 't ring \<Rightarrow> ('t ring \<times> ('t, recv_error) result poll) option" where
  "recv_poll N w r =
     (case try_recv N r of
        None \<Rightarrow> None
      | Some (r1, Inr (Some msg)) \<Rightarrow> Some (r1, Ready (Ok msg))
      | Some (r1, Inl e) \<Rightarrow> Some (r1, Ready (Err e))
      | Some (r1, Inr None) \<Rightarrow>
          (case try_recv N (r1\<lparr>consumer_waker := Some w\<rparr>) of
             None \<Rightarrow> None
           | Some (r2, Inr (Some msg)) \<Rightarrow> Some (r2\<lparr>consumer_waker := None\<rparr>, Ready (Ok msg))
           | Some (r2, Inl e) \<Rightarrow> Some (r2, Ready (Err e))
           | Some (r2, Inr None) \<Rightarrow> Some (r2, Pending)))"

subsection \<open>The spin-locked baseline\<close>

record 't vec_ring =
  inner :: "'t list"
  cap :: nat

definition new_vec_ring :: "nat \<Rightarrow> 't vec_ring option" where
  "new_vec_ring c = (if c > 0 then Some \<lparr>inner = [], cap = c\<rparr> else None)"

definition vec_try_push :: "'t \<Rightarrow> 't vec_ring \<Rightarrow> 't vec_ring \<times> (unit, 't) result" where
  "vec_try_push val r =
     (if length (inner r) \<ge> cap r then (r, Err val) else (r\<lparr>inner := inner r @ [val]\<rparr>, Ok ()))"

definition vec_try_pop :: "'t vec_ring \<Rightarrow> 't vec_ring \<times> 't option" where
  "vec_try_pop r = (case inner r of [] \<Rightarrow> (r, None) | x # xs \<Rightarrow> (r\<lparr>inner := xs\<rparr>, Some x))"

definition vec_len :: "'t vec_ring \<Rightarrow> nat" where "vec_len r = length (inner r)"
definition vec_capacity :: "'t vec_ring \<Rightarrow> nat" where "vec_capacity r = cap r"

subsection \<open>Indices\<close>

definition pow2_cap :: "nat \<Rightarrow> bool" where
  "pow2_cap N \<longleftrightarrow> (\<exists>k < 64. N = 2 ^ k)"

lemma pow2_cap_pos: "pow2_cap N \<Longrightarrow> 0 < N"
  by (auto simp: pow2_cap_def)

lemma pow2_cap_less: "pow2_cap N \<Longrightarrow> N < 2 ^ 64"
  unfolding pow2_cap_def by (metis one_less_numeral_iff power_strict_increasing semiring_norm(76))

lemma slot_index_mod:
  assumes "pow2_cap N"
  shows "slot_index N i = unat i mod N"
proof -
  from assms obtain k where k: "k < 64" "N = 2 ^ k" by (auto simp: pow2_cap_def)
  have "MASK N = mask k" by (simp add: MASK_def k mask_eq_exp_minus_1)
  then show ?thesis
    by (simp only: slot_index_def k unsigned_take_bit_eq flip: take_bit_eq_mask)
      (simp add: take_bit_eq_mod)
qed

lemma slot_index_less: "pow2_cap N \<Longrightarrow> slot_index N i < N"
  using pow2_cap_pos by (simp add: slot_index_mod)

lemma slot_index_of_nat:
  assumes "pow2_cap N"
  shows "slot_index N (of_nat n) = n mod N"
proof -
  from assms obtain k where k: "k < 64" "N = 2 ^ k" by (auto simp: pow2_cap_def)
  have "N dvd 2 ^ 64" unfolding k(2) using k(1) by (intro le_imp_power_dvd) simp
  then show ?thesis using assms by (simp add: slot_index_mod unat_of_nat mod_mod_cancel)
qed

lemma slot_index_window: "pow2_cap N \<Longrightarrow> slot_index N (t + of_nat i) = (unat t + i) mod N"
  using slot_index_of_nat [of N "unat t + i"] by simp

lemma mod_window_le:
  fixes a N :: nat
  assumes "(a + i) mod N = (a + j) mod N" "i \<le> j" "j < N"
  shows "i = j"
proof -
  have "N dvd (a + j) - (a + i)" using assms by (subst mod_eq_dvd_iff_nat [symmetric]) auto
  then have "N dvd j - i" by simp
  moreover have "j - i < N" using assms(3) by simp
  ultimately have "j - i = 0" by (meson dvd_imp_le not_le neq0_conv)
  then show ?thesis using assms(2) by simp
qed

lemma mod_window_inj:
  fixes a N :: nat
  assumes "(a + i) mod N = (a + j) mod N" "i < N" "j < N"
  shows "i = j"
  using mod_window_le [of a i N j] mod_window_le [of a j N i] assms by (metis nat_le_linear)

lemma slot_window_eq_iff:
  "pow2_cap N \<Longrightarrow> i < N \<Longrightarrow> j < N \<Longrightarrow>
   slot_index N (t + of_nat i) = slot_index N (t + of_nat j) \<longleftrightarrow> i = j"
  using mod_window_inj [of "unat t" i N j] by (auto simp: slot_index_window)

lemma slot_window_surj:
  assumes "pow2_cap N" "k < N"
  shows "\<exists>i < N. slot_index N (t + of_nat i) = k"
proof -
  have inj: "inj_on (\<lambda>i. slot_index N (t + of_nat i)) {..<N}"
    using assms(1) by (auto simp: inj_on_def slot_window_eq_iff)
  have "(\<lambda>i. slot_index N (t + of_nat i)) ` {..<N} \<subseteq> {..<N}"
    using assms(1) slot_index_less by auto
  then have "(\<lambda>i. slot_index N (t + of_nat i)) ` {..<N} = {..<N}"
    using inj by (intro card_subset_eq) (auto simp: card_image)
  with assms(2) show ?thesis by (metis (no_types, lifting) imageE lessThan_iff)
qed

subsection \<open>The invariant and the queue a ring stands for\<close>

definition queue :: "nat \<Rightarrow> 't ring \<Rightarrow> 't list" where
  "queue N r = map (\<lambda>i. the (slots r ! slot_index N (tail r + of_nat i))) [0..<ring_len r]"

text \<open>Exactly the slots between \<open>tail\<close> and \<open>head\<close> are initialised.\<close>

definition ring_ok :: "nat \<Rightarrow> 't ring \<Rightarrow> bool" where
  "ring_ok N r \<longleftrightarrow> pow2_cap N \<and> length (slots r) = N \<and> ring_len r \<le> N
     \<and> (\<forall>i < N. slots r ! slot_index N (tail r + of_nat i) \<noteq> None \<longleftrightarrow> i < ring_len r)"

lemma length_queue [simp]: "length (queue N r) = ring_len r"
  by (simp add: queue_def)

lemma wake_simps [simp]:
  "head (wake_consumer r) = head r" "tail (wake_consumer r) = tail r"
  "slots (wake_consumer r) = slots r" "closed (wake_consumer r) = closed r"
  "producer_waker (wake_consumer r) = producer_waker r" "consumer_waker (wake_consumer r) = None"
  "head (wake_producer r) = head r" "tail (wake_producer r) = tail r"
  "slots (wake_producer r) = slots r" "closed (wake_producer r) = closed r"
  "producer_waker (wake_producer r) = None" "consumer_waker (wake_producer r) = consumer_waker r"
  by (simp_all add: wake_consumer_def wake_producer_def split: option.splits)

lemma ring_len_simps [simp]:
  "ring_len (wake_consumer r) = ring_len r" "ring_len (wake_producer r) = ring_len r"
  "ring_len (slots_update f r) = ring_len r" "ring_len (closed_update g r) = ring_len r"
  by (simp_all add: ring_len_def)

lemma queue_cong:
  "head r = head r' \<Longrightarrow> tail r = tail r' \<Longrightarrow> slots r = slots r' \<Longrightarrow> queue N r = queue N r'"
  by (simp add: queue_def ring_len_def)

lemma ring_ok_cong:
  "head r = head r' \<Longrightarrow> tail r = tail r' \<Longrightarrow> slots r = slots r' \<Longrightarrow> ring_ok N r = ring_ok N r'"
  by (simp add: ring_ok_def ring_len_def)

lemma not_full_iff:
  "pow2_cap N \<Longrightarrow> of_nat N \<le> head r - tail r \<longleftrightarrow> N \<le> ring_len r"
  using pow2_cap_less [of N] by (simp add: ring_len_def word_le_nat_alt unat_of_nat)

lemma and_pred_zero_pow2: "0 < (N::nat) \<Longrightarrow> N AND (N - 1) = 0 \<Longrightarrow> \<exists>k. N = 2 ^ k"
proof (induction N rule: less_induct)
  case (less N)
  show ?case
  proof (cases "odd N")
    case True
    then obtain m where m: "N = Suc (2 * m)" by (metis oddE Suc_eq_plus1)
    then have "2 * m = 0" using less.prems(2) by (simp add: and_nat_rec [of "Suc (2 * m)" "2 * m"])
    then show ?thesis using m by (intro exI [of _ 0]) simp
  next
    case False
    then obtain m where m: "N = 2 * m" by blast
    then have "m > 0" "m < N" using less.prems(1) by auto
    moreover have "(2 * m - Suc 0) div 2 = m - Suc 0" by simp
    then have "2 * m AND (2 * m - Suc 0) = 2 * (m AND (m - Suc 0))"
      using and_nat_rec [of "2 * m" "2 * m - Suc 0"] by simp
    then have "m AND (m - 1) = 0" using less.prems(2) m by simp
    ultimately obtain k where "m = 2 ^ k" using less.IH by blast
    then show ?thesis using m by (intro exI [of _ "Suc k"]) simp
  qed
qed

lemma POW2_GUARD_iff:
  assumes "N < 2 ^ 64"
  shows "POW2_GUARD N \<longleftrightarrow> pow2_cap N"
proof
  assume "POW2_GUARD N"
  then obtain k where k: "N = 2 ^ k" using and_pred_zero_pow2 by (auto simp: POW2_GUARD_def)
  have "k < 64"
  proof (rule ccontr)
    assume "\<not> k < 64"
    then have "(2::nat) ^ 64 \<le> 2 ^ k" by (intro power_increasing) auto
    then show False using assms k by simp
  qed
  then show "pow2_cap N" using k by (auto simp: pow2_cap_def)
next
  assume "pow2_cap N"
  then obtain k where k: "N = 2 ^ k" by (auto simp: pow2_cap_def)
  have "(2::nat) ^ k AND (2 ^ k - 1) = 0"
    using take_bit_eq_mask [of k "2 ^ k :: nat"] by (simp add: mask_eq_exp_minus_1)
  then show "POW2_GUARD N" using k by (simp add: POW2_GUARD_def)
qed


subsection \<open>What the operations do to the queue\<close>

lemma queue_new [simp]: "queue N (new_ring N) = []"
  by (simp add: queue_def ring_len_def new_ring_def)

lemma ring_ok_new: "pow2_cap N \<Longrightarrow> ring_ok N (new_ring N)"
  by (simp add: ring_ok_def ring_len_def new_ring_def slot_index_less)

lemma ring_len_push:
  "pow2_cap N \<Longrightarrow> ring_len r < N \<Longrightarrow> unat (head r + 1 - tail r) = Suc (ring_len r)"
proof -
  assume a: "pow2_cap N" "ring_len r < N"
  have "head r + 1 - tail r = of_nat (Suc (ring_len r))" by (simp add: ring_len_def)
  moreover have "Suc (ring_len r) < 2 ^ 64" using a pow2_cap_less [of N] by linarith
  ultimately show ?thesis by (simp only: unat_of_nat) (simp add: mod_less)
qed

lemma ring_len_pop: "head r \<noteq> tail r \<Longrightarrow> unat (head r - (tail r + 1)) = ring_len r - 1"
proof -
  assume "head r \<noteq> tail r"
  then have "1 \<le> unat (head r - tail r)" by (simp add: Suc_le_eq unat_gt_0)
  then have "unat (head r - tail r - 1) = unat (head r - tail r) - 1"
    by (subst unat_sub) (auto simp: word_le_nat_alt)
  then show ?thesis by (simp add: ring_len_def diff_diff_eq)
qed

lemma ring_len_pos: "head r \<noteq> tail r \<longleftrightarrow> 0 < ring_len r"
  by (simp add: ring_len_def unat_gt_0)

text \<open>Storing at the head index appends to the queue.\<close>

lemma ring_store:
  assumes ok: "ring_ok N r" and nf: "ring_len r < N"
    and r': "head r' = head r + 1" "tail r' = tail r"
      "slots r' = (slots r)[slot_index N (head r) := Some v]"
  shows "ring_ok N r'" "queue N r' = queue N r @ [v]"
proof -
  have p: "pow2_cap N" "length (slots r) = N" using ok by (auto simp: ring_ok_def)
  have len: "ring_len r' = Suc (ring_len r)"
    using ring_len_push [OF p(1) nf] r' by (simp add: ring_len_def)
  have hd: "slot_index N (head r) = slot_index N (tail r + of_nat (ring_len r))"
    by (simp add: ring_len_def)
  have sl: "slots r' ! slot_index N (tail r + of_nat i)
      = (if i = ring_len r then Some v else slots r ! slot_index N (tail r + of_nat i))" if "i < N" for i
    using that nf slot_window_eq_iff [OF p(1) nf that, of "tail r"] slot_index_less [OF p(1)] p(2)
    by (auto simp: r'(3) hd nth_list_update)
  show "ring_ok N r'"
    using ok nf sl len by (auto simp: ring_ok_def r') 
  have "queue N r' = map (\<lambda>i. the (slots r' ! slot_index N (tail r + of_nat i))) [0..<ring_len r] @ [v]"
    using sl nf by (simp add: queue_def len r'(2))
  also have "map (\<lambda>i. the (slots r' ! slot_index N (tail r + of_nat i))) [0..<ring_len r] = queue N r"
    using sl nf by (simp add: queue_def)
  finally show "queue N r' = queue N r @ [v]" .
qed

text \<open>Taking the slot at the tail index removes the front of the queue.\<close>

lemma ring_take:
  assumes ok: "ring_ok N r" and ne: "head r \<noteq> tail r"
    and r': "head r' = head r" "tail r' = tail r + 1"
      "slots r' = (slots r)[slot_index N (tail r) := None]"
  shows "ring_ok N r'" "slots r ! slot_index N (tail r) = Some (hd (queue N r))"
    "queue N r' = tl (queue N r)" "queue N r \<noteq> []"
proof -
  have p: "pow2_cap N" "length (slots r) = N" "0 < N" using ok pow2_cap_pos by (auto simp: ring_ok_def)
  have pos: "0 < ring_len r" using ne by (simp add: ring_len_pos)
  have len: "ring_len r' = ring_len r - 1" using ring_len_pop [OF ne] r' by (simp add: ring_len_def)
  have w: "tail r' + of_nat i = tail r + of_nat (Suc i)" for i using r'(2) by simp
  have q: "queue N r = the (slots r ! slot_index N (tail r))
      # map (\<lambda>i. the (slots r ! slot_index N (tail r + of_nat (Suc i)))) [0..<ring_len r - 1]"
  proof -
    have "[0..<ring_len r] = 0 # map Suc [0..<ring_len r - 1]"
      using pos by (simp add: map_Suc_upt upt_conv_Cons)
    then show ?thesis by (simp add: queue_def)
  qed
  have "\<forall>i < N. slots r ! slot_index N (tail r + of_nat i) \<noteq> None \<longleftrightarrow> i < ring_len r"
    using ok unfolding ring_ok_def by blast
  from spec [OF this, of 0] pos p(3) have "slots r ! slot_index N (tail r) \<noteq> None" by simp
  then show "slots r ! slot_index N (tail r) = Some (hd (queue N r))" by (auto simp: q)
  have sl: "slots r' ! slot_index N (tail r + of_nat (Suc i)) = slots r ! slot_index N (tail r + of_nat (Suc i))"
    if "Suc i < N" for i
    using that slot_window_eq_iff [OF p(1) that p(3), of "tail r"] by (auto simp: r'(3) nth_list_update)
  show "queue N r' = tl (queue N r)" "queue N r \<noteq> []"
    using sl ok by (auto simp: q queue_def [of N r'] len w ring_ok_def)
  show "ring_ok N r'"
    unfolding ring_ok_def
  proof (intro conjI allI impI)
    show "pow2_cap N" "length (slots r') = N" "ring_len r' \<le> N"
      using ok by (auto simp: ring_ok_def r' len)
    fix i assume i: "i < N"
    show "(slots r' ! slot_index N (tail r' + of_nat i) \<noteq> None) = (i < ring_len r')"
    proof (cases "Suc i = N")
      case True
      have "slot_index N (tail r' + of_nat i) = slot_index N (tail r)"
        using slot_index_window [OF p(1), of "tail r" "Suc i"] slot_index_mod [OF p(1)]
        unfolding w True by simp
      then show ?thesis
        using True slot_index_less [OF p(1)] p(2) ok pos by (auto simp: r'(3) len ring_ok_def)
    next
      case False
      then have "Suc i < N" using i by simp
      with sl [OF this] ok show ?thesis unfolding w len ring_ok_def by auto
    qed
  qed
qed


lemma try_send_closed: "closed r \<Longrightarrow> try_send N retag m r = (r, Err (Closed m))"
  by (simp add: try_send_def)

lemma try_send_full:
  "ring_ok N r \<Longrightarrow> \<not> closed r \<Longrightarrow> ring_len r = N \<Longrightarrow> try_send N retag m r = (r, Err (Full m))"
  using not_full_iff [of N r] by (simp add: try_send_def ring_ok_def)

lemma try_send_accept:
  assumes "ring_ok N r" "\<not> closed r" "ring_len r < N"
  shows "\<exists>r'. try_send N retag m r = (r', Ok ()) \<and> ring_ok N r' \<and> queue N r' = queue N r @ [retag m]
    \<and> closed r' = closed r \<and> consumer_waker r' = None
    \<and> woken r' = woken r @ (case consumer_waker r of None \<Rightarrow> [] | Some w \<Rightarrow> [w])"
proof -
  let ?r = "r\<lparr>slots := (slots r)[slot_index N (head r) := Some (retag m)], head := head r + 1\<rparr>"
  have "\<not> of_nat N \<le> head r - tail r"
    using assms not_full_iff [of N r] by (simp add: ring_ok_def)
  then have "try_send N retag m r = (wake_consumer ?r, Ok ())"
    using assms(2) by (simp add: try_send_def Let_def)
  moreover have "ring_ok N (wake_consumer ?r)" "queue N (wake_consumer ?r) = queue N r @ [retag m]"
    using ring_store [OF assms(1,3), of "wake_consumer ?r" "retag m"] by simp_all
  ultimately show ?thesis by (simp add: wake_consumer_def split: option.splits)
qed

text \<open>The transport's \<open>try_push\<close> and \<open>try_pop\<close> repeat the algorithm of the two halves.\<close>

definition send_value :: "(unit, 't try_send_error) result \<Rightarrow> (unit, 't) result" where
  "send_value res = (case res of Inr u \<Rightarrow> Inr u | Inl (Full m) \<Rightarrow> Inl m | Inl (Closed m) \<Rightarrow> Inl m)"

lemma try_push_eq: "try_push N retag m r = apsnd send_value (try_send N retag m r)"
  by (simp add: try_push_def try_send_def send_value_def Let_def)

lemma try_recv_empty:
  "head r = tail r \<Longrightarrow> try_recv N r = Some (r, if closed r then Err RecvClosed else Ok None)"
  by (simp add: try_recv_def)

lemma try_recv_take:
  assumes "ring_ok N r" "head r \<noteq> tail r"
  shows "\<exists>r'. try_recv N r = Some (r', Ok (Some (hd (queue N r)))) \<and> ring_ok N r'
    \<and> queue N r' = tl (queue N r) \<and> closed r' = closed r \<and> queue N r \<noteq> [] \<and> producer_waker r' = None
    \<and> woken r' = woken r @ (case producer_waker r of None \<Rightarrow> [] | Some w \<Rightarrow> [w])"
proof -
  let ?r = "r\<lparr>slots := (slots r)[slot_index N (tail r) := None], tail := tail r + 1\<rparr>"
  note T = ring_take [OF assms, of "wake_producer ?r"]
  have "slots r ! slot_index N (tail r) = Some (hd (queue N r))" using T by simp
  then have "try_recv N r = Some (wake_producer ?r, Ok (Some (hd (queue N r))))"
    using assms(2) by (simp add: try_recv_def Let_def)
  with T show ?thesis by (simp add: wake_producer_def split: option.splits)
qed

lemma try_pop_eq:
  "try_pop N r = map_option (apsnd (\<lambda>res. case res of Inr m \<Rightarrow> m | Inl _ \<Rightarrow> None)) (try_recv N r)"
  by (simp add: try_pop_def try_recv_def Let_def split: option.splits)

lemma queue_empty_iff: "queue N r = [] \<longleftrightarrow> head r = tail r"
  using ring_len_pos [of r] by (auto simp: queue_def)

lemma drop_loop_spec:
  assumes "ring_ok N r"
  shows "\<exists>sl. drop_loop N (tail r) (head r) (slots r) = Some (sl, queue N r) \<and> list_all (\<lambda>s. s = None) sl"
  using assms
proof (induction "ring_len r" arbitrary: r)
  case 0
  then have e: "head r = tail r" by (metis ring_len_pos less_irrefl)
  have p: "pow2_cap N" "length (slots r) = N" using "0.prems" by (auto simp: ring_ok_def)
  have "slots r ! k = None" if k: "k < N" for k
  proof -
    obtain i where "i < N" "slot_index N (tail r + of_nat i) = k" using slot_window_surj [OF p(1) k] by blast
    then show ?thesis using "0.prems" "0.hyps" by (auto simp: ring_ok_def)
  qed
  then have "list_all (\<lambda>s. s = None) (slots r)" using p(2) by (simp add: list_all_length)
  moreover have "queue N r = []" using e by (simp add: queue_empty_iff)
  ultimately show ?case using e by (simp add: drop_loop.simps [of N "tail r"])
next
  case (Suc n)
  then have ne: "head r \<noteq> tail r" by (metis ring_len_pos zero_less_Suc)
  let ?r = "r\<lparr>slots := (slots r)[slot_index N (tail r) := None], tail := tail r + 1\<rparr>"
  note T = ring_take [OF Suc.prems ne, of ?r]
  have "n = ring_len ?r" using ring_len_pop [OF ne] Suc.hyps(2) by (simp add: ring_len_def)
  from Suc.hyps(1) [OF this] T obtain sl where
    "drop_loop N (tail r + 1) (head r) ((slots r)[slot_index N (tail r) := None]) = Some (sl, tl (queue N r))"
    "list_all (\<lambda>s. s = None) sl" by auto
  then show ?case using T ne by (simp add: drop_loop.simps [of N "tail r"] Let_def)
qed

subsection \<open>The transport interface\<close>

datatype 'v transport_op = Push 'v | Pop

text \<open>
  A client of a transport: the values it got accepted and the values it received, in order.
  The outer \<open>None\<close> is undefined behaviour of the transport.
\<close>

fun transport_step ::
    "('v \<Rightarrow> 'r \<Rightarrow> 'r \<times> (unit, 'v) result) \<Rightarrow> ('r \<Rightarrow> ('r \<times> 'v option) option) \<Rightarrow>
     'v transport_op \<Rightarrow> 'r \<times> 'v list \<times> 'v list \<Rightarrow> ('r \<times> 'v list \<times> 'v list) option" where
  "transport_step psh pp (Push v) (r, acc, rcv) =
     (case psh v r of (r', Inr _) \<Rightarrow> Some (r', acc @ [v], rcv) | (r', Inl _) \<Rightarrow> Some (r', acc, rcv))"
| "transport_step psh pp Pop (r, acc, rcv) =
     (case pp r of
        None \<Rightarrow> None
      | Some (r', None) \<Rightarrow> Some (r', acc, rcv)
      | Some (r', Some v) \<Rightarrow> Some (r', acc, rcv @ [v]))"

fun transport_run ::
    "('v \<Rightarrow> 'r \<Rightarrow> 'r \<times> (unit, 'v) result) \<Rightarrow> ('r \<Rightarrow> ('r \<times> 'v option) option) \<Rightarrow>
     'v transport_op list \<Rightarrow> 'r \<times> 'v list \<times> 'v list \<Rightarrow> ('r \<times> 'v list \<times> 'v list) option" where
  "transport_run psh pp [] s = Some s"
| "transport_run psh pp (op # ops) s =
     (case transport_step psh pp op s of None \<Rightarrow> None | Some s' \<Rightarrow> transport_run psh pp ops s')"

locale ring_transport =
  fixes psh :: "'v \<Rightarrow> 'r \<Rightarrow> 'r \<times> (unit, 'v) result"
    and pp :: "'r \<Rightarrow> ('r \<times> 'v option) option"
    and len :: "'r \<Rightarrow> nat"
    and capa :: "'r \<Rightarrow> nat"
    and items :: "'r \<Rightarrow> 'v list"
    and opn :: "'r \<Rightarrow> bool"
    and tag :: "'v \<Rightarrow> 'v"
    and ok :: "'r \<Rightarrow> bool"
  assumes push_accept: "ok r \<Longrightarrow> opn r \<Longrightarrow> length (items r) < capa r \<Longrightarrow>
      \<exists>r'. psh v r = (r', Ok ()) \<and> ok r' \<and> items r' = items r @ [tag v]
        \<and> capa r' = capa r \<and> opn r' = opn r"
    and push_reject: "ok r \<Longrightarrow> \<not> (opn r \<and> length (items r) < capa r) \<Longrightarrow> psh v r = (r, Err v)"
    and pop_empty: "ok r \<Longrightarrow> items r = [] \<Longrightarrow> pp r = Some (r, None)"
    and pop_front: "ok r \<Longrightarrow> items r = x # xs \<Longrightarrow>
      \<exists>r'. pp r = Some (r', Some x) \<and> ok r' \<and> items r' = xs \<and> capa r' = capa r \<and> opn r' = opn r"
    and len_items: "ok r \<Longrightarrow> len r = length (items r)"
    and bounded: "ok r \<Longrightarrow> length (items r) \<le> capa r"
begin

definition fifo :: "'v list \<Rightarrow> 'r \<times> 'v list \<times> 'v list \<Rightarrow> bool" where
  "fifo init s \<longleftrightarrow> (case s of (r, acc, rcv) \<Rightarrow> ok r \<and> rcv @ items r = init @ map tag acc)"

lemma step_fifo:
  assumes "fifo init s"
  shows "\<exists>s'. transport_step psh pp op s = Some s' \<and> fifo init s'"
proof -
  obtain r acc rcv where s: "s = (r, acc, rcv)" by (cases s)
  have r: "ok r" "rcv @ items r = init @ map tag acc" using assms by (auto simp: s fifo_def)
  show ?thesis
  proof (cases op)
    case (Push v)
    show ?thesis
    proof (cases "opn r \<and> length (items r) < capa r")
      case True
      with push_accept [of r v] r obtain r' where
        "psh v r = (r', Ok ())" "ok r'" "items r' = items r @ [tag v]" by blast
      then show ?thesis using Push r by (simp add: s fifo_def)
    next
      case False
      then show ?thesis using Push r push_reject [of r v] by (simp add: s fifo_def)
    qed
  next
    case Pop
    show ?thesis
    proof (cases "items r")
      case Nil
      then show ?thesis using Pop r pop_empty [of r] by (simp add: s fifo_def)
    next
      case (Cons x xs)
      with pop_front [of r x xs] r obtain r' where "pp r = Some (r', Some x)" "ok r'" "items r' = xs" by blast
      then show ?thesis using Pop r Cons by (simp add: s fifo_def)
    qed
  qed
qed

lemma run_fifo: "fifo init s \<Longrightarrow> \<exists>s'. transport_run psh pp ops s = Some s' \<and> fifo init s'"
proof (induction ops arbitrary: s)
  case (Cons op ops)
  from step_fifo [OF Cons.prems] obtain s1 where "transport_step psh pp op s = Some s1" "fifo init s1" by blast
  with Cons.IH [of s1] show ?case by simp
qed simp

lemma run_from:
  assumes "ok r"
  shows "\<exists>r' acc rcv. transport_run psh pp ops (r, [], []) = Some (r', acc, rcv) \<and> ok r'
    \<and> rcv @ items r' = items r @ map tag acc \<and> len r' \<le> capa r'"
  using run_fifo [of "items r" "(r, [], [])" ops] assms len_items bounded by (auto simp: fifo_def)

end

text \<open>
  Two transports that have the same capacity, are both open and hold the same items up to a
  conversion of the values accept the same values, and deliver the same values up to that conversion.
\<close>

locale transport_pair =
  a: ring_transport psh pp len capa items opn tag ok +
  b: ring_transport psh' pp' len' capa' items' opn' tag' ok'
  for psh :: "'v \<Rightarrow> 'r \<Rightarrow> 'r \<times> (unit, 'v) result" and pp len capa items opn tag ok
    and psh' :: "'v \<Rightarrow> 's \<Rightarrow> 's \<times> (unit, 'v) result" and pp' len' capa' items' opn' tag' ok' +
  fixes conv :: "'v \<Rightarrow> 'v"
  assumes conv_tag: "tag v = conv (tag' v)"
begin

definition related :: "'r \<times> 'v list \<times> 'v list \<Rightarrow> 's \<times> 'v list \<times> 'v list \<Rightarrow> bool" where
  "related s t \<longleftrightarrow> fst (snd s) = fst (snd t) \<and> snd (snd s) = map conv (snd (snd t))
     \<and> ok (fst s) \<and> ok' (fst t) \<and> opn (fst s) = opn' (fst t)
     \<and> capa (fst s) = capa' (fst t) \<and> items (fst s) = map conv (items' (fst t))"

lemma step_related:
  assumes "related s t"
  shows "\<exists>s' t'. transport_step psh pp op s = Some s' \<and> transport_step psh' pp' op t = Some t' \<and> related s' t'"
proof -
  obtain r acc rcv where s: "s = (r, acc, rcv)" by (cases s)
  with assms obtain u rcv' where t: "t = (u, acc, rcv')" by (cases t) (auto simp: related_def)
  have R: "ok r" "ok' u" "opn r = opn' u" "capa r = capa' u" "items r = map conv (items' u)" "rcv = map conv rcv'"
    using assms by (auto simp: s t related_def)
  show ?thesis
  proof (cases op)
    case (Push v)
    show ?thesis
    proof (cases "opn r \<and> length (items r) < capa r")
      case True
      with a.push_accept [of r v] b.push_accept [of u v] R show ?thesis
        by (auto simp: Push s t related_def conv_tag)
    next
      case False
      with a.push_reject [of r v] b.push_reject [of u v] R show ?thesis
        by (auto simp: Push s t related_def)
    qed
  next
    case Pop
    show ?thesis
    proof (cases "items' u")
      case Nil
      with a.pop_empty [of r] b.pop_empty [of u] R show ?thesis by (auto simp: Pop s t related_def)
    next
      case (Cons x xs)
      with a.pop_front [of r "conv x" "map conv xs"] b.pop_front [of u x xs] R show ?thesis
        by (auto simp: Pop s t related_def)
    qed
  qed
qed

lemma run_related:
  "related s t \<Longrightarrow>
   \<exists>s' t'. transport_run psh pp ops s = Some s' \<and> transport_run psh' pp' ops t = Some t' \<and> related s' t'"
proof (induction ops arbitrary: s t)
  case (Cons op ops)
  from step_related [OF Cons.prems] obtain s1 t1 where
    "transport_step psh pp op s = Some s1" "transport_step psh' pp' op t = Some t1" "related s1 t1" by blast
  with Cons.IH [of s1 t1] show ?case by simp
qed simp

end

subsection \<open>The rings implement the transport\<close>

interpretation vec: ring_transport vec_try_push "\<lambda>r. Some (vec_try_pop r)" vec_len vec_capacity inner
    "\<lambda>_. True" "\<lambda>v. v" "\<lambda>r. length (inner r) \<le> cap r"
  by standard (auto simp: vec_try_push_def vec_try_pop_def vec_len_def vec_capacity_def)

interpretation spsc: ring_transport "try_push N retag" "try_pop N" ring_len "ring_capacity N" "queue N"
    "\<lambda>r. \<not> closed r" retag "ring_ok N"
proof (standard, goal_cases)
  case (1 r v)
  then have "ring_len r < N" by (simp add: ring_capacity_def)
  from try_send_accept [OF 1(1,2) this, of retag v] show ?case
    by (auto simp: try_push_eq send_value_def ring_capacity_def)
next
  case (2 r v)
  then show ?case
    using try_send_closed [of r N retag v] try_send_full [of N r retag v]
    by (cases "closed r") (auto simp: try_push_eq send_value_def ring_capacity_def ring_ok_def)
next
  case (3 r)
  then show ?case by (simp add: queue_empty_iff try_pop_def)
next
  case (4 r x xs)
  then have "head r \<noteq> tail r" by (metis queue_empty_iff list.distinct(1))
  from try_recv_take [OF 4(1) this] 4(2) show ?case by (auto simp: try_pop_eq ring_capacity_def)
next
  case (5 r)
  then show ?case by simp
next
  case (6 r)
  then show ?case by (simp add: ring_ok_def ring_capacity_def)
qed


interpretation spsc_vec: transport_pair "try_push N retag" "try_pop N" ring_len "ring_capacity N" "queue N"
    "\<lambda>r. \<not> closed r" retag "ring_ok N" vec_try_push "\<lambda>r. Some (vec_try_pop r)" vec_len vec_capacity inner
    "\<lambda>_. True" "\<lambda>v. v" "\<lambda>r. length (inner r) \<le> cap r" retag
  by unfold_locales simp

subsection \<open>Properties\<close>

text \<open>
  C26. The ring is a bounded FIFO and memory safe. From any well-formed ring, every sequence of
  pushes and pops runs without reading an uninitialised slot; the values received followed
  by the values still queued are exactly the initial queue followed by the accepted values
  (retagged), in order; and the ring never holds more than \<open>N\<close> messages.
\<close>

theorem spsc_fifo:
  assumes "ring_ok N r"
  shows "\<exists>r' accepted received.
    transport_run (try_push N retag) (try_pop N) ops (r, [], []) = Some (r', accepted, received)
    \<and> ring_ok N r' \<and> received @ queue N r' = queue N r @ map retag accepted \<and> ring_len r' \<le> N"
  using spsc.run_from [OF assms, of retag ops] by (simp add: ring_capacity_def)

lemma pow2_cap_4: "pow2_cap 4"
  unfolding pow2_cap_def by (rule exI [of _ 2]) simp

theorem spsc_fifo_witness:
  "\<exists>r' accepted received. transport_run (try_push 4 (\<lambda>v. v + 1)) (try_pop 4)
     [Push 7, Push 8, Pop, Push (9::nat)] (new_ring 4, [], []) = Some (r', accepted, received)
     \<and> received @ queue 4 r' = map (\<lambda>v. v + 1) accepted"
  using spsc_fifo [OF ring_ok_new [OF pow2_cap_4], of "\<lambda>v. v + 1" "[Push 7, Push 8, Pop, Push (9::nat)]"]
  by auto

text \<open>
  C27. The lock-free ring and the spin-locked \<open>VecRing\<close> behind the \<open>RingTransport\<close> seam, for every
  retagging function. Started empty with the same capacity, every sequence of pushes and pops gets
  the same values accepted by both. \<open>VecRing::try_push\<close> stores a value as it is, while the
  lock-free ring stores it retagged: what the ring delivers, and what it still holds, is the image
  under the retagging of what \<open>VecRing\<close> delivers and holds. For a message
  type whose retagging is the identity the two are therefore interchangeable.
\<close>

theorem spsc_equiv_vec_ring:
  assumes "pow2_cap N" "new_vec_ring N = Some v"
  shows "\<exists>r' v' accepted received.
    transport_run (try_push N retag) (try_pop N) ops (new_ring N, [], []) = Some (r', accepted, map retag received)
    \<and> transport_run vec_try_push (\<lambda>r. Some (vec_try_pop r)) ops (v, [], []) = Some (v', accepted, received)
    \<and> queue N r' = map retag (inner v')"
proof -
  have v: "inner v = []" "cap v = N" using assms(2) by (auto simp: new_vec_ring_def split: if_splits)
  have "spsc_vec.related N retag (new_ring N, [], []) (v, [], [])"
    using ring_ok_new [OF assms(1)] v
    by (simp add: spsc_vec.related_def ring_capacity_def vec_capacity_def) (simp add: new_ring_def)
  from spsc_vec.run_related [OF this, of ops] show ?thesis by (fastforce simp: spsc_vec.related_def)
qed

theorem spsc_equiv_vec_ring_witness:
  "\<exists>r' v' received. transport_run vec_try_push (\<lambda>r. Some (vec_try_pop r)) [Push 7, Pop, Push (8 :: nat)]
       (\<lparr>inner = [], cap = 4\<rparr>, [], []) = Some (v', [7, 8], received) \<and> received = [7]
     \<and> transport_run (try_push 4 (\<lambda>m. m + 1)) (try_pop 4) [Push 7, Pop, Push (8 :: nat)] (new_ring 4, [], [])
       = Some (r', [7, 8], [8]) \<and> queue 4 r' = [9]"
  using spsc_equiv_vec_ring [OF pow2_cap_4, of "\<lparr>inner = [], cap = 4\<rparr>" "\<lambda>m. m + 1" "[Push 7, Pop, Push (8 :: nat)]"]
  by (auto simp: new_vec_ring_def vec_try_push_def vec_try_pop_def)

text \<open>
  Dropping the ring drops every undelivered message exactly once, oldest first, and
  leaves no slot initialised; the destructor's loop ends and reads no uninitialised slot.
\<close>

theorem drop_ring_complete:
  assumes "ring_ok N r"
  shows "\<exists>r'. drop_ring N r = Some (r', queue N r) \<and> list_all (\<lambda>s. s = None) (slots r')"
  using drop_loop_spec [OF assms] by (auto simp: drop_ring_def)

theorem drop_ring_complete_witness:
  "\<exists>r'. drop_ring 4 (fst (try_send 4 (\<lambda>v. v) (5::nat) (new_ring 4))) = Some (r', [5])"
proof -
  have "\<not> closed (new_ring 4)" "ring_len (new_ring 4) < 4" by (simp_all add: new_ring_def ring_len_def)
  from try_send_accept [OF ring_ok_new [OF pow2_cap_4] this, of "\<lambda>v. v" "5::nat"]
  obtain r where "try_send 4 (\<lambda>v. v) (5::nat) (new_ring 4) = (r, Ok ())" "ring_ok 4 r" "queue 4 r = [5]" by auto
  with drop_ring_complete [of 4 r] show ?thesis by auto
qed

text \<open>
  Polling the futures never loses a message. A send future that completes has
  appended its message or handed it back because the ring is closed; one that stays pending keeps the
  message, leaves the queue unchanged and has its waker registered on a full open ring. A
  receive future completes with the oldest message, or with \<open>Closed\<close> when the ring is drained and
  closed; one that stays pending has its waker registered on an empty open ring.
\<close>

theorem poll_behaviour:
  assumes "ring_ok N r"
  shows "(case send_poll N retag w (Some m) r of
       None \<Rightarrow> False
     | Some (slot, r', Ready (Inr _)) \<Rightarrow> slot = None \<and> queue N r' = queue N r @ [retag m] \<and> ring_ok N r'
     | Some (slot, r', Ready (Inl m')) \<Rightarrow> m' = m \<and> closed r \<and> r' = r
     | Some (slot, r', Pending) \<Rightarrow> slot = Some m \<and> queue N r' = queue N r \<and> ring_len r' = N
         \<and> producer_waker r' = Some w \<and> \<not> closed r' \<and> ring_ok N r')
   \<and> (case recv_poll N w r of
       None \<Rightarrow> False
     | Some (r', Ready (Inr x)) \<Rightarrow> queue N r = x # queue N r' \<and> ring_ok N r'
     | Some (r', Ready (Inl _)) \<Rightarrow> queue N r = [] \<and> closed r \<and> r' = r
     | Some (r', Pending) \<Rightarrow> queue N r' = [] \<and> queue N r = [] \<and> consumer_waker r' = Some w
         \<and> \<not> closed r' \<and> ring_ok N r')"
proof (intro conjI, goal_cases)
  case 1
  have le: "ring_len r \<le> N" using assms by (simp add: ring_ok_def)
  let ?w = "r\<lparr>producer_waker := Some w\<rparr>"
  have w: "ring_ok N ?w" "queue N ?w = queue N r" "ring_len ?w = ring_len r"
    using assms ring_ok_cong [of ?w r] queue_cong [of ?w r] by (auto simp: ring_len_def)
  consider "closed r" | "\<not> closed r" "ring_len r < N" | "\<not> closed r" "ring_len r = N" using le by linarith
  then show ?case
  proof cases
    case 1
    then show ?thesis by (simp add: send_poll_def try_send_closed)
  next
    case 2
    from try_send_accept [OF assms 2, of retag m] show ?thesis by (auto simp: send_poll_def)
  next
    case 3
    then have "try_send N retag m r = (r, Err (Full m))" "try_send N retag m ?w = (?w, Err (Full m))"
      using try_send_full [OF assms] try_send_full [OF w(1)] w(3) by auto
    with 3 w show ?thesis by (simp add: send_poll_def)
  qed
next
  case 2
  let ?w = "r\<lparr>consumer_waker := Some w\<rparr>"
  have w: "ring_ok N ?w" "queue N ?w = queue N r"
    using assms ring_ok_cong [of ?w r] queue_cong [of ?w r] by auto
  show ?case
  proof (cases "head r = tail r")
    case True
    then have "queue N r = []" by (simp add: queue_empty_iff)
    with True w show ?thesis by (auto simp: recv_poll_def try_recv_empty)
  next
    case False
    from try_recv_take [OF assms False] show ?thesis by (auto simp: recv_poll_def)
  qed
qed

theorem poll_behaviour_witness:
  "case recv_poll 4 (1::nat) (new_ring 4 :: bool ring) of
     Some (r', Pending) \<Rightarrow> queue 4 r' = [] \<and> consumer_waker r' = Some 1
   | Some (r', Ready (Inr x)) \<Rightarrow> queue 4 (new_ring 4) = x # queue 4 r'
   | Some (r', Ready (Inl _)) \<Rightarrow> closed (new_ring 4 :: bool ring)
   | None \<Rightarrow> False"
  using poll_behaviour [OF ring_ok_new [OF pow2_cap_4], where retag = "\<lambda>b. b" and w = 1 and m = True]
  by (auto split: option.splits poll.splits sum.splits prod.splits)

end
