(* ===== verification/Ring_Concurrent.thy ===== *)
theory Ring_Concurrent
  imports Ring
begin

text \<open>
  The two halves of \<open>Ring<T, N>\<close> running concurrently. Every atomic access of
  \<open>Producer::try_send\<close>, \<open>SendFuture::poll\<close>, \<open>Consumer::try_recv\<close>, \<open>RecvFuture::poll\<close> and the two
  \<open>Drop\<close> implementations (\<open>ipc/src/lib.rs\<close>) is a step of its own, and the steps of the halves
  interleave in any order. The atomics are sequentially consistent; the acquire and release
  orderings of the source are what makes slot contents follow the indices.

  The lists \<open>sent\<close> (published payloads) and \<open>rcvd\<close> (delivered payloads) are ghost state. A
  poll starts by clearing the executor's wake flag of its waker in \<open>woken\<close>.
\<close>

subsection \<open>Program counters\<close>

text \<open>A plain call, or the first or second attempt of a poll.\<close>

datatype ctx = Plain | First | Second

datatype 't ppc =
    P_Idle | P_Start ctx 't | P_Open ctx 't | P_Head ctx 't u64 | P_Slot ctx 't u64
  | P_Publish ctx 't u64 | P_Wake ctx | P_Clear | P_Full ctx 't | P_Pending 't | P_DropWake | P_Dropped

datatype 't cpc =
    C_Idle | C_Start ctx | C_Tail ctx u64 | C_Empty ctx | C_Read ctx u64 | C_Store ctx 't u64
  | C_Wake ctx | C_Clear | C_Install | C_Pending | C_Closed | C_DropWake | C_Dropped | C_UB

record 't mach =
  rng :: "'t ring"
  ppc :: "'t ppc"
  cpc :: "'t cpc"
  sent :: "'t list"
  rcvd :: "'t list"

definition init_mach :: "nat \<Rightarrow> 't mach" where
  "init_mach N = \<lparr>rng = new_ring N, ppc = P_Idle, cpc = C_Idle, sent = [], rcvd = []\<rparr>"

definition unwake :: "waker \<Rightarrow> 't ring \<Rightarrow> 't ring" where
  "unwake w r = r\<lparr>woken := removeAll w (woken r)\<rparr>"

subsection \<open>Steps of the producer half\<close>

inductive p_step :: "nat \<Rightarrow> ('t \<Rightarrow> 't) \<Rightarrow> waker \<Rightarrow> 't mach \<Rightarrow> 't mach \<Rightarrow> bool"
  for N :: nat and retag :: "'t \<Rightarrow> 't" and wp :: waker where
  p_call: "ppc s = P_Idle \<Longrightarrow> p_step N retag wp s (s\<lparr>ppc := P_Start Plain m\<rparr>)"
| p_poll: "ppc s = P_Idle \<or> ppc s = P_Pending m \<Longrightarrow>
    p_step N retag wp s (s\<lparr>ppc := P_Start First m, rng := unwake wp (rng s)\<rparr>)"
| p_cancel: "ppc s = P_Pending m \<Longrightarrow> p_step N retag wp s (s\<lparr>ppc := P_Idle\<rparr>)"
| p_closed: "ppc s = P_Start c m \<Longrightarrow> closed (rng s) \<Longrightarrow> p_step N retag wp s (s\<lparr>ppc := P_Idle\<rparr>)"
| p_open: "ppc s = P_Start c m \<Longrightarrow> \<not> closed (rng s) \<Longrightarrow> p_step N retag wp s (s\<lparr>ppc := P_Open c m\<rparr>)"
| p_head: "ppc s = P_Open c m \<Longrightarrow> p_step N retag wp s (s\<lparr>ppc := P_Head c m (head (rng s))\<rparr>)"
| p_full: "ppc s = P_Head c m h \<Longrightarrow> of_nat N \<le> h - tail (rng s) \<Longrightarrow>
    p_step N retag wp s (s\<lparr>ppc := P_Full c m\<rparr>)"
| p_free: "ppc s = P_Head c m h \<Longrightarrow> \<not> of_nat N \<le> h - tail (rng s) \<Longrightarrow>
    p_step N retag wp s (s\<lparr>ppc := P_Slot c m h\<rparr>)"
| p_write: "ppc s = P_Slot c m h \<Longrightarrow>
    p_step N retag wp s (s\<lparr>ppc := P_Publish c (retag m) h,
      rng := (rng s)\<lparr>slots := (slots (rng s))[slot_index N h := Some (retag m)]\<rparr>\<rparr>)"
| p_publish: "ppc s = P_Publish c m h \<Longrightarrow>
    p_step N retag wp s (s\<lparr>ppc := P_Wake c, rng := (rng s)\<lparr>head := h + 1\<rparr>, sent := sent s @ [m]\<rparr>)"
| p_wake: "ppc s = P_Wake c \<Longrightarrow>
    p_step N retag wp s (s\<lparr>ppc := (if c = Second then P_Clear else P_Idle), rng := wake_consumer (rng s)\<rparr>)"
| p_clear: "ppc s = P_Clear \<Longrightarrow>
    p_step N retag wp s (s\<lparr>ppc := P_Idle, rng := (rng s)\<lparr>producer_waker := None\<rparr>\<rparr>)"
| p_full_plain: "ppc s = P_Full Plain m \<Longrightarrow> p_step N retag wp s (s\<lparr>ppc := P_Idle\<rparr>)"
| p_install: "ppc s = P_Full First m \<Longrightarrow>
    p_step N retag wp s (s\<lparr>ppc := P_Start Second m, rng := (rng s)\<lparr>producer_waker := Some wp\<rparr>\<rparr>)"
| p_pend: "ppc s = P_Full Second m \<Longrightarrow> p_step N retag wp s (s\<lparr>ppc := P_Pending m\<rparr>)"
| p_drop: "ppc s = P_Idle \<Longrightarrow>
    p_step N retag wp s (s\<lparr>ppc := P_DropWake, rng := (rng s)\<lparr>closed := True\<rparr>\<rparr>)"
| p_drop_wake: "ppc s = P_DropWake \<Longrightarrow>
    p_step N retag wp s (s\<lparr>ppc := P_Dropped, rng := wake_consumer (rng s)\<rparr>)"

subsection \<open>Steps of the consumer half\<close>

inductive c_step :: "nat \<Rightarrow> waker \<Rightarrow> 't mach \<Rightarrow> 't mach \<Rightarrow> bool"
  for N :: nat and wc :: waker where
  c_call: "cpc s = C_Idle \<or> cpc s = C_Closed \<Longrightarrow> c_step N wc s (s\<lparr>cpc := C_Start Plain\<rparr>)"
| c_poll: "cpc s = C_Idle \<or> cpc s = C_Closed \<or> cpc s = C_Pending \<Longrightarrow>
    c_step N wc s (s\<lparr>cpc := C_Start First, rng := unwake wc (rng s)\<rparr>)"
| c_cancel: "cpc s = C_Pending \<Longrightarrow> c_step N wc s (s\<lparr>cpc := C_Idle\<rparr>)"
| c_tail: "cpc s = C_Start c \<Longrightarrow> c_step N wc s (s\<lparr>cpc := C_Tail c (tail (rng s))\<rparr>)"
| c_empty: "cpc s = C_Tail c t \<Longrightarrow> head (rng s) = t \<Longrightarrow> c_step N wc s (s\<lparr>cpc := C_Empty c\<rparr>)"
| c_some: "cpc s = C_Tail c t \<Longrightarrow> head (rng s) \<noteq> t \<Longrightarrow> c_step N wc s (s\<lparr>cpc := C_Read c t\<rparr>)"
| c_read: "cpc s = C_Read c t \<Longrightarrow> slots (rng s) ! slot_index N t = Some m \<Longrightarrow>
    c_step N wc s (s\<lparr>cpc := C_Store c m t,
      rng := (rng s)\<lparr>slots := (slots (rng s))[slot_index N t := None]\<rparr>\<rparr>)"
| c_ub: "cpc s = C_Read c t \<Longrightarrow> slots (rng s) ! slot_index N t = None \<Longrightarrow>
    c_step N wc s (s\<lparr>cpc := C_UB\<rparr>)"
| c_store: "cpc s = C_Store c m t \<Longrightarrow>
    c_step N wc s (s\<lparr>cpc := C_Wake c, rng := (rng s)\<lparr>tail := t + 1\<rparr>, rcvd := rcvd s @ [m]\<rparr>)"
| c_wake: "cpc s = C_Wake c \<Longrightarrow>
    c_step N wc s (s\<lparr>cpc := (if c = Second then C_Clear else C_Idle), rng := wake_producer (rng s)\<rparr>)"
| c_clear: "cpc s = C_Clear \<Longrightarrow>
    c_step N wc s (s\<lparr>cpc := C_Idle, rng := (rng s)\<lparr>consumer_waker := None\<rparr>\<rparr>)"
| c_closed: "cpc s = C_Empty c \<Longrightarrow> closed (rng s) \<Longrightarrow> c_step N wc s (s\<lparr>cpc := C_Closed\<rparr>)"
| c_none: "cpc s = C_Empty c \<Longrightarrow> \<not> closed (rng s) \<Longrightarrow>
    c_step N wc s (s\<lparr>cpc := (case c of Plain \<Rightarrow> C_Idle | First \<Rightarrow> C_Install | Second \<Rightarrow> C_Pending)\<rparr>)"
| c_install: "cpc s = C_Install \<Longrightarrow>
    c_step N wc s (s\<lparr>cpc := C_Start Second, rng := (rng s)\<lparr>consumer_waker := Some wc\<rparr>\<rparr>)"
| c_drop: "cpc s = C_Idle \<or> cpc s = C_Closed \<Longrightarrow>
    c_step N wc s (s\<lparr>cpc := C_DropWake, rng := (rng s)\<lparr>closed := True\<rparr>\<rparr>)"
| c_drop_wake: "cpc s = C_DropWake \<Longrightarrow>
    c_step N wc s (s\<lparr>cpc := C_Dropped, rng := wake_producer (rng s)\<rparr>)"

inductive mach_reachable :: "nat \<Rightarrow> ('t \<Rightarrow> 't) \<Rightarrow> waker \<Rightarrow> waker \<Rightarrow> 't mach \<Rightarrow> bool"
  for N :: nat and retag :: "'t \<Rightarrow> 't" and wp wc :: waker where
  start: "mach_reachable N retag wp wc (init_mach N)"
| producer: "mach_reachable N retag wp wc s \<Longrightarrow> p_step N retag wp s s' \<Longrightarrow> mach_reachable N retag wp wc s'"
| consumer: "mach_reachable N retag wp wc s \<Longrightarrow> c_step N wc s s' \<Longrightarrow> mach_reachable N retag wp wc s'"

subsection \<open>Slots and indices\<close>

fun publishing :: "'t ppc \<Rightarrow> 't option" where
  "publishing (P_Publish c m h) = Some m"
| "publishing _ = None"

fun held :: "'t cpc \<Rightarrow> 't option" where
  "held (C_Store c m t) = Some m"
| "held _ = None"

text \<open>What slot \<open>j mod N\<close> holds, for a message number \<open>j\<close> in the window of \<open>N\<close> from the tail.\<close>

definition expected :: "'t mach \<Rightarrow> nat \<Rightarrow> 't option" where
  "expected s j =
     (if j < length (sent s) then if j = length (rcvd s) \<and> held (cpc s) \<noteq> None then None else Some (sent s ! j)
      else if j = length (sent s) then publishing (ppc s) else None)"

definition window_ok :: "nat \<Rightarrow> 't mach \<Rightarrow> bool" where
  "window_ok N s \<longleftrightarrow> pow2_cap N \<and> length (slots (rng s)) = N
     \<and> head (rng s) = of_nat (length (sent s)) \<and> tail (rng s) = of_nat (length (rcvd s))
     \<and> length (rcvd s) \<le> length (sent s) \<and> length (sent s) \<le> length (rcvd s) + N
     \<and> rcvd s = take (length (rcvd s)) (sent s)
     \<and> (\<forall>j. length (rcvd s) \<le> j \<and> j < length (rcvd s) + N \<longrightarrow> slots (rng s) ! (j mod N) = expected s j)"

fun ppc_ok :: "nat \<Rightarrow> 't mach \<Rightarrow> 't ppc \<Rightarrow> bool" where
  "ppc_ok N s (P_Head c m h) \<longleftrightarrow> h = of_nat (length (sent s))"
| "ppc_ok N s (P_Slot c m h) \<longleftrightarrow> h = of_nat (length (sent s)) \<and> length (sent s) < length (rcvd s) + N"
| "ppc_ok N s (P_Publish c m h) \<longleftrightarrow> h = of_nat (length (sent s)) \<and> length (sent s) < length (rcvd s) + N"
| "ppc_ok N s _ \<longleftrightarrow> True"

fun cpc_ok :: "'t mach \<Rightarrow> 't cpc \<Rightarrow> bool" where
  "cpc_ok s (C_Tail c t) \<longleftrightarrow> t = of_nat (length (rcvd s))"
| "cpc_ok s (C_Read c t) \<longleftrightarrow> t = of_nat (length (rcvd s)) \<and> length (rcvd s) < length (sent s)"
| "cpc_ok s (C_Store c m t) \<longleftrightarrow> t = of_nat (length (rcvd s)) \<and> length (rcvd s) < length (sent s)
     \<and> m = sent s ! length (rcvd s)"
| "cpc_ok s C_UB \<longleftrightarrow> False"
| "cpc_ok s _ \<longleftrightarrow> True"

definition mach_ok :: "nat \<Rightarrow> 't mach \<Rightarrow> bool" where
  "mach_ok N s \<longleftrightarrow> window_ok N s \<and> ppc_ok N s (ppc s) \<and> cpc_ok s (cpc s)"

lemma window_index_neq:
  fixes a N :: nat
  assumes "j mod N = a mod N" "t \<le> j" "j < t + N" "t \<le> a" "a < t + N"
  shows "j = a"
proof -
  have "j - t = a - t" using mod_window_inj [of t "j - t" N "a - t"] assms by simp
  then show ?thesis using assms by simp
qed

lemma of_nat_len_eq_iff:
  assumes "pow2_cap N" "a \<le> b" "b \<le> a + N"
  shows "(of_nat b :: u64) = of_nat a \<longleftrightarrow> b = a"
proof
  assume "(of_nat b :: u64) = of_nat a"
  then have "(of_nat (b - a) :: u64) = 0" using assms(2) by (simp add: of_nat_diff)
  moreover have "b - a < 2 ^ 64" using assms pow2_cap_less [of N] by linarith
  ultimately have "\<not> 0 < b - a" using nat_dvd_not_less [of "b - a" "2 ^ 64"] by (auto simp: word_of_nat_eq_0_iff)
  then show "b = a" using assms(2) by simp
qed simp

lemma of_nat_full_iff:
  assumes "pow2_cap N" "a \<le> b" "b \<le> a + N"
  shows "(of_nat N :: u64) \<le> of_nat b - of_nat a \<longleftrightarrow> a + N \<le> b"
proof -
  have eq: "(of_nat b - of_nat a :: u64) = of_nat (b - a)" using assms(2) by (simp add: of_nat_diff)
  have "b - a < 2 ^ 64" "N < 2 ^ 64" using assms pow2_cap_less [of N] by linarith+
  then have "unat (of_nat (b - a) :: u64) = b - a" "unat (of_nat N :: u64) = N"
    by (simp_all only: unat_of_nat) (simp_all add: mod_less)
  then show ?thesis unfolding eq word_le_nat_alt using assms(2) by auto
qed


subsection \<open>Every step keeps the invariant\<close>

lemma mach_ok_init: "pow2_cap N \<Longrightarrow> mach_ok N (init_mach N)"
  by (auto simp: mach_ok_def window_ok_def init_mach_def new_ring_def expected_def pow2_cap_pos)

text \<open>Steps that touch neither indices, slots nor ghost lists.\<close>

lemma window_ok_cong:
  assumes "window_ok N s" "sent s' = sent s" "rcvd s' = rcvd s" "publishing (ppc s') = publishing (ppc s)"
    "held (cpc s') = None \<longleftrightarrow> held (cpc s) = None" "head (rng s') = head (rng s)"
    "tail (rng s') = tail (rng s)" "slots (rng s') = slots (rng s)"
  shows "window_ok N s'"
proof -
  have "expected s' j = expected s j" for j using assms by (auto simp: expected_def)
  then show ?thesis using assms(1,2,3,6,7,8) by (simp add: window_ok_def)
qed

lemma ppc_ok_cong: "sent s' = sent s \<Longrightarrow> rcvd s' = rcvd s \<Longrightarrow> ppc_ok N s' p = ppc_ok N s p"
  by (cases p) auto

lemma ppc_ok_rcvd:
  "ppc_ok N s p \<Longrightarrow> sent s' = sent s \<Longrightarrow> length (rcvd s) \<le> length (rcvd s') \<Longrightarrow> ppc_ok N s' p"
  by (cases p) auto

lemma cpc_ok_cong: "sent s' = sent s \<Longrightarrow> rcvd s' = rcvd s \<Longrightarrow> cpc_ok s' p = cpc_ok s p"
  by (cases p) auto

lemma cpc_ok_sent: "cpc_ok s p \<Longrightarrow> sent s' = sent s @ xs \<Longrightarrow> rcvd s' = rcvd s \<Longrightarrow> cpc_ok s' p"
  by (cases p) (auto simp: nth_append)

lemma mach_ok_write:
  assumes "mach_ok N s" "ppc s = P_Slot c m h"
  shows "mach_ok N (s\<lparr>ppc := P_Publish c v h, rng := (rng s)\<lparr>slots := (slots (rng s))[slot_index N h := Some v]\<rparr>\<rparr>)"
    (is "mach_ok N ?s")
proof -
  have W: "window_ok N s" and h: "h = of_nat (length (sent s))" "length (sent s) < length (rcvd s) + N"
    and C: "cpc_ok s (cpc s)" using assms by (auto simp: mach_ok_def)
  then have p: "pow2_cap N" "0 < N" using pow2_cap_pos by (auto simp: window_ok_def)
  have "window_ok N ?s"
    unfolding window_ok_def
  proof (intro conjI allI impI)
    fix j assume j: "length (rcvd ?s) \<le> j \<and> j < length (rcvd ?s) + N"
    have "slots (rng s) ! (j mod N) = expected s j" using W j by (simp add: window_ok_def)
    moreover have "j mod N = length (sent s) mod N \<longleftrightarrow> j = length (sent s)"
      using window_index_neq [of j N "length (sent s)" "length (rcvd s)"] j h W by (auto simp: window_ok_def)
    moreover have "expected ?s j = (if j = length (sent s) then Some v else expected s j)"
      using assms(2) by (auto simp: expected_def)
    moreover have "length (slots (rng s)) = N" using W by (simp add: window_ok_def)
    ultimately show "slots (rng ?s) ! (j mod N) = expected ?s j"
      using p by (auto simp: h slot_index_of_nat nth_list_update)
  qed (use W in \<open>auto simp: window_ok_def\<close>)
  moreover have "cpc_ok ?s (cpc ?s)" using C cpc_ok_cong [of ?s s "cpc s"] by simp
  ultimately show ?thesis using h by (simp add: mach_ok_def)
qed

lemma mach_ok_publish:
  assumes "mach_ok N s" "ppc s = P_Publish c m h"
  shows "mach_ok N (s\<lparr>ppc := P_Wake c, rng := (rng s)\<lparr>head := h + 1\<rparr>, sent := sent s @ [m]\<rparr>)"
    (is "mach_ok N ?s")
proof -
  have W: "window_ok N s" and h: "h = of_nat (length (sent s))" "length (sent s) < length (rcvd s) + N"
    and C: "cpc_ok s (cpc s)" using assms by (auto simp: mach_ok_def)
  have ex: "expected ?s j = expected s j" for j
    using assms(2) C by (cases "cpc s") (auto simp: expected_def nth_append less_Suc_eq)
  have "window_ok N ?s"
    unfolding window_ok_def ex using W h by (auto simp: window_ok_def add.commute)
  moreover have "cpc_ok ?s (cpc s)" using C by (rule cpc_ok_sent) simp_all
  ultimately show ?thesis by (simp add: mach_ok_def)
qed

lemma mach_ok_read:
  assumes "mach_ok N s" "cpc s = C_Read c t"
  shows "slots (rng s) ! slot_index N t = Some (sent s ! length (rcvd s))"
    and "mach_ok N (s\<lparr>cpc := C_Store c (sent s ! length (rcvd s)) t,
      rng := (rng s)\<lparr>slots := (slots (rng s))[slot_index N t := None]\<rparr>\<rparr>)" (is "mach_ok N ?s")
proof -
  have W: "window_ok N s" and t: "t = of_nat (length (rcvd s))" "length (rcvd s) < length (sent s)"
    and P: "ppc_ok N s (ppc s)" using assms by (auto simp: mach_ok_def)
  then have p: "pow2_cap N" "0 < N" using pow2_cap_pos by (auto simp: window_ok_def)
  show "slots (rng s) ! slot_index N t = Some (sent s ! length (rcvd s))"
    using W t p assms(2) by (simp add: slot_index_of_nat window_ok_def expected_def)
  have "window_ok N ?s"
    unfolding window_ok_def
  proof (intro conjI allI impI)
    fix j assume j: "length (rcvd ?s) \<le> j \<and> j < length (rcvd ?s) + N"
    have "slots (rng s) ! (j mod N) = expected s j" using W j by (simp add: window_ok_def)
    moreover have "j mod N = length (rcvd s) mod N \<longleftrightarrow> j = length (rcvd s)"
      using window_index_neq [of j N "length (rcvd s)" "length (rcvd s)"] j p by auto
    moreover have "expected ?s j = (if j = length (rcvd s) then None else expected s j)"
      using assms(2) t by (simp add: expected_def)
    moreover have "length (slots (rng s)) = N" using W by (simp add: window_ok_def)
    ultimately show "slots (rng ?s) ! (j mod N) = expected ?s j"
      using p by (auto simp: t slot_index_of_nat nth_list_update)
  qed (use W in \<open>auto simp: window_ok_def\<close>)
  moreover have "ppc_ok N ?s (ppc ?s)" using P ppc_ok_cong [of ?s s] by simp
  ultimately show "mach_ok N ?s" using t by (simp add: mach_ok_def)
qed

lemma mach_ok_store:
  assumes "mach_ok N s" "cpc s = C_Store c m t"
  shows "mach_ok N (s\<lparr>cpc := C_Wake c, rng := (rng s)\<lparr>tail := t + 1\<rparr>, rcvd := rcvd s @ [m]\<rparr>)"
    (is "mach_ok N ?s")
proof -
  have W: "window_ok N s" and t: "t = of_nat (length (rcvd s))" "length (rcvd s) < length (sent s)"
    "m = sent s ! length (rcvd s)" and P: "ppc_ok N s (ppc s)"
    using assms by (auto simp: mach_ok_def)
  then have p: "pow2_cap N" "0 < N" using pow2_cap_pos by (auto simp: window_ok_def)
  have "window_ok N ?s"
    unfolding window_ok_def
  proof (intro conjI allI impI)
    show "rcvd ?s = take (length (rcvd ?s)) (sent ?s)"
      using W t by (simp add: window_ok_def take_Suc_conv_app_nth)
    fix j assume j: "length (rcvd ?s) \<le> j \<and> j < length (rcvd ?s) + N"
    show "slots (rng ?s) ! (j mod N) = expected ?s j"
    proof (cases "j = length (rcvd s) + N")
      case True
      have "publishing (ppc s) = None" if "j = length (sent s)"
        using P True that by (cases "ppc s") auto
      then have "expected ?s j = None" using True W by (auto simp: expected_def window_ok_def)
      moreover have "expected s (length (rcvd s)) = None" using t assms(2) by (simp add: expected_def)
      then have "slots (rng s) ! (length (rcvd s) mod N) = None" using W p by (simp add: window_ok_def)
      ultimately show ?thesis by (simp add: True)
    next
      case False
      then have "slots (rng s) ! (j mod N) = expected s j" using W j by (simp add: window_ok_def)
      moreover have "expected ?s j = expected s j" using j by (simp add: expected_def)
      ultimately show ?thesis by simp
    qed
  qed (use W t in \<open>auto simp: window_ok_def\<close>)
  moreover have "ppc_ok N ?s (ppc ?s)" using ppc_ok_rcvd [OF P, of ?s] by simp
  ultimately show ?thesis by (simp add: mach_ok_def)
qed

lemma mach_ok_cong:
  assumes "mach_ok N s" "sent s' = sent s" "rcvd s' = rcvd s" "publishing (ppc s') = publishing (ppc s)"
    "held (cpc s') = None \<longleftrightarrow> held (cpc s) = None" "head (rng s') = head (rng s)"
    "tail (rng s') = tail (rng s)" "slots (rng s') = slots (rng s)"
    "ppc_ok N s (ppc s')" "cpc_ok s (cpc s')"
  shows "mach_ok N s'"
  using window_ok_cong [of N s s'] ppc_ok_cong [of s' s N "ppc s'"] cpc_ok_cong [of s' s "cpc s'"] assms
  by (simp add: mach_ok_def)

lemma mach_okD: "mach_ok N s \<Longrightarrow> window_ok N s \<and> ppc_ok N s (ppc s) \<and> cpc_ok s (cpc s)"
  by (simp add: mach_ok_def)

lemma p_step_ok:
  assumes "p_step N retag wp s s'" "mach_ok N s"
  shows "mach_ok N s'"
  using assms(1)
proof cases
  case (p_free c m h)
  moreover have "\<not> length (rcvd s) + N \<le> length (sent s)"
    using p_free mach_okD [OF assms(2)] of_nat_full_iff [of N "length (rcvd s)" "length (sent s)"]
    by (auto simp: window_ok_def)
  ultimately show ?thesis
    using mach_okD [OF assms(2)] by (intro mach_ok_cong [OF assms(2)]) auto
next
  case (p_head c m)
  then show ?thesis
    using mach_okD [OF assms(2)] by (intro mach_ok_cong [OF assms(2)]) (auto simp: window_ok_def)
next
  case (p_write c m h)
  then show ?thesis using mach_ok_write [OF assms(2)] by blast
next
  case (p_publish c m h)
  then show ?thesis using mach_ok_publish [OF assms(2)] by blast
qed (use mach_okD [OF assms(2)] in \<open>auto simp: unwake_def intro!: mach_ok_cong [OF assms(2)]\<close>)

lemma c_step_ok:
  assumes "c_step N wc s s'" "mach_ok N s"
  shows "mach_ok N s'"
  using assms(1)
proof cases
  case (c_tail c)
  then show ?thesis
    using mach_okD [OF assms(2)] by (intro mach_ok_cong [OF assms(2)]) (auto simp: window_ok_def)
next
  case (c_some c t)
  moreover have "length (rcvd s) \<noteq> length (sent s)"
    using c_some mach_okD [OF assms(2)] by (auto simp: window_ok_def)
  ultimately show ?thesis
    using mach_okD [OF assms(2)] by (intro mach_ok_cong [OF assms(2)]) (auto simp: window_ok_def)
next
  case (c_read c t m)
  then show ?thesis using mach_ok_read [OF assms(2) c_read(2)] by simp
next
  case (c_ub c t)
  then show ?thesis using mach_ok_read [OF assms(2) c_ub(2)] by simp
next
  case (c_store c m t)
  then show ?thesis using mach_ok_store [OF assms(2)] by blast
next
  case (c_none c)
  then show ?thesis
    using mach_okD [OF assms(2)] by (intro mach_ok_cong [OF assms(2)]) (auto split: ctx.splits)
qed (use mach_okD [OF assms(2)] in \<open>auto simp: unwake_def intro!: mach_ok_cong [OF assms(2)]\<close>)

lemma mach_reachable_ok: "mach_reachable N retag wp wc s \<Longrightarrow> pow2_cap N \<Longrightarrow> mach_ok N s"
  by (induction rule: mach_reachable.induct) (auto intro: mach_ok_init p_step_ok c_step_ok)


subsection \<open>Wakers\<close>

fun waking :: "'t ppc \<Rightarrow> bool" where
  "waking (P_Wake c) = True"
| "waking _ = False"

fun cwaking :: "'t cpc \<Rightarrow> bool" where
  "cwaking (C_Wake c) = True"
| "cwaking _ = False"

text \<open>
  From the installation of its waker on, a waiting half has been woken, or its waker is in
  place and whatever it waits for has not happened or its partner is about to wake it.
\<close>

fun c_stage :: "'t cpc \<Rightarrow> nat" where
  "c_stage (C_Start c) = (if c = Second then 1 else 0)"
| "c_stage (C_Tail c t) = (if c = Second then 1 else 0)"
| "c_stage (C_Empty c) = (if c = Second then 2 else 0)"
| "c_stage C_Pending = 3"
| "c_stage _ = 0"

definition c_wait_ok :: "waker \<Rightarrow> 't mach \<Rightarrow> bool" where
  "c_wait_ok wc s \<longleftrightarrow> c_stage (cpc s) = 0 \<or> wc \<in> set (woken (rng s))
     \<or> consumer_waker (rng s) = Some wc
       \<and> (c_stage (cpc s) \<ge> 2 \<longrightarrow> length (sent s) = length (rcvd s) \<or> waking (ppc s))
       \<and> (c_stage (cpc s) \<ge> 3 \<longrightarrow> closed (rng s) \<longrightarrow> ppc s = P_DropWake)"

fun p_stage :: "'t ppc \<Rightarrow> nat" where
  "p_stage (P_Start c m) = (if c = Second then 1 else 0)"
| "p_stage (P_Open c m) = (if c = Second then 2 else 0)"
| "p_stage (P_Head c m h) = (if c = Second then 2 else 0)"
| "p_stage (P_Full c m) = (if c = Second then 3 else 0)"
| "p_stage (P_Pending m) = 3"
| "p_stage _ = 0"

definition p_wait_ok :: "nat \<Rightarrow> waker \<Rightarrow> 't mach \<Rightarrow> bool" where
  "p_wait_ok N wp s \<longleftrightarrow> p_stage (ppc s) = 0 \<or> wp \<in> set (woken (rng s))
     \<or> producer_waker (rng s) = Some wp
       \<and> (p_stage (ppc s) \<ge> 2 \<longrightarrow> closed (rng s) \<longrightarrow> cpc s = C_DropWake)
       \<and> (p_stage (ppc s) \<ge> 3 \<longrightarrow> length (sent s) = length (rcvd s) + N \<or> cwaking (cpc s))"

lemma woken_wake [simp]:
  "set (woken (wake_consumer r)) = set (woken r) \<union> set_option (consumer_waker r)"
  "set (woken (wake_producer r)) = set (woken r) \<union> set_option (producer_waker r)"
  by (auto simp: wake_consumer_def wake_producer_def split: option.splits)

lemma unwake_simps [simp]:
  "set (woken (unwake w r)) = set (woken r) - {w}" "consumer_waker (unwake w r) = consumer_waker r"
  "producer_waker (unwake w r) = producer_waker r" "closed (unwake w r) = closed r"
  by (auto simp: unwake_def)

lemma p_step_c_wait:
  assumes "p_step N retag wp s s'" "c_wait_ok wc s" "wp \<noteq> wc"
  shows "c_wait_ok wc s'"
  using assms by cases (auto simp: c_wait_ok_def split: if_splits)

lemma c_step_p_wait:
  assumes "c_step N wc s s'" "p_wait_ok N wp s" "wp \<noteq> wc"
  shows "p_wait_ok N wp s'"
  using assms by cases (auto simp: p_wait_ok_def split: if_splits ctx.splits)

lemma c_step_c_wait:
  assumes "c_step N wc s s'" "c_wait_ok wc s" "mach_ok N s"
  shows "c_wait_ok wc s'"
  using assms(1)
proof cases
  case (c_empty c t)
  then have "length (sent s) = length (rcvd s)"
    using mach_okD [OF assms(3)] of_nat_len_eq_iff [of N "length (rcvd s)" "length (sent s)"]
    by (auto simp: window_ok_def)
  then show ?thesis using c_empty assms(2) by (auto simp: c_wait_ok_def)
qed (use assms(2) in \<open>auto simp: c_wait_ok_def split: if_splits ctx.splits\<close>)

lemma p_step_p_wait:
  assumes "p_step N retag wp s s'" "p_wait_ok N wp s" "mach_ok N s"
  shows "p_wait_ok N wp s'"
  using assms(1)
proof cases
  case (p_full c m h)
  then have "length (sent s) = length (rcvd s) + N"
    using mach_okD [OF assms(3)] of_nat_full_iff [of N "length (rcvd s)" "length (sent s)"]
    by (auto simp: window_ok_def)
  then show ?thesis using p_full assms(2) by (auto simp: p_wait_ok_def)
qed (use assms(2) in \<open>auto simp: p_wait_ok_def split: if_splits\<close>)

lemma mach_reachable_wait:
  "mach_reachable N retag wp wc s \<Longrightarrow> pow2_cap N \<Longrightarrow> wp \<noteq> wc \<Longrightarrow> c_wait_ok wc s \<and> p_wait_ok N wp s"
proof (induction rule: mach_reachable.induct)
  case start
  then show ?case by (simp add: init_mach_def c_wait_ok_def p_wait_ok_def)
next
  case (producer s s')
  then show ?case
    using mach_reachable_ok [of N retag wp wc s] p_step_c_wait p_step_p_wait by blast
next
  case (consumer s s')
  then show ?case
    using mach_reachable_ok [of N retag wp wc s] c_step_c_wait c_step_p_wait by blast
qed

subsection \<open>A call without interference is the sequential operation\<close>

text \<open>
  A half is in a call from the first step of the call until it is back between calls. A call path
  starts the call with the given program counter and lets that half run alone; a call run is a call
  path to the end of the call.
\<close>

fun p_busy :: "'t ppc \<Rightarrow> bool" where
  "p_busy P_Idle = False"
| "p_busy (P_Pending m) = False"
| "p_busy P_Dropped = False"
| "p_busy _ = True"

fun c_busy :: "'t cpc \<Rightarrow> bool" where
  "c_busy C_Idle = False"
| "c_busy C_Pending = False"
| "c_busy C_Closed = False"
| "c_busy C_Dropped = False"
| "c_busy C_UB = False"
| "c_busy _ = True"

definition p_to :: "nat \<Rightarrow> ('t \<Rightarrow> 't) \<Rightarrow> waker \<Rightarrow> ('t ppc \<Rightarrow> bool) \<Rightarrow> 't mach \<Rightarrow> 't mach \<Rightarrow> bool" where
  "p_to N retag wp Q s s' \<longleftrightarrow> (\<lambda>a b. p_busy (ppc a) \<and> p_step N retag wp a b)\<^sup>*\<^sup>* s s' \<and> Q (ppc s')"

definition c_to :: "nat \<Rightarrow> waker \<Rightarrow> ('t cpc \<Rightarrow> bool) \<Rightarrow> 't mach \<Rightarrow> 't mach \<Rightarrow> bool" where
  "c_to N wc Q s s' \<longleftrightarrow> (\<lambda>a b. c_busy (cpc a) \<and> c_step N wc a b)\<^sup>*\<^sup>* s s' \<and> Q (cpc s')"

definition p_call_path :: "nat \<Rightarrow> ('t \<Rightarrow> 't) \<Rightarrow> waker \<Rightarrow> 't ppc \<Rightarrow> ('t ppc \<Rightarrow> bool) \<Rightarrow> 't mach \<Rightarrow> 't mach \<Rightarrow> bool" where
  "p_call_path N retag wp pc Q s s' \<longleftrightarrow> (\<exists>a. p_step N retag wp s a \<and> ppc a = pc \<and> p_to N retag wp Q a s')"

definition c_call_path :: "nat \<Rightarrow> waker \<Rightarrow> 't cpc \<Rightarrow> ('t cpc \<Rightarrow> bool) \<Rightarrow> 't mach \<Rightarrow> 't mach \<Rightarrow> bool" where
  "c_call_path N wc pc Q s s' \<longleftrightarrow> (\<exists>a. c_step N wc s a \<and> cpc a = pc \<and> c_to N wc Q a s')"

definition p_call_run :: "nat \<Rightarrow> ('t \<Rightarrow> 't) \<Rightarrow> waker \<Rightarrow> 't ppc \<Rightarrow> 't mach \<Rightarrow> 't mach \<Rightarrow> bool" where
  "p_call_run N retag wp pc = p_call_path N retag wp pc (\<lambda>q. \<not> p_busy q)"

definition c_call_run :: "nat \<Rightarrow> waker \<Rightarrow> 't cpc \<Rightarrow> 't mach \<Rightarrow> 't mach \<Rightarrow> bool" where
  "c_call_run N wc pc = c_call_path N wc pc (\<lambda>q. \<not> c_busy q)"

lemma p_to_unfold:
  "p_to N retag wp Q s s' \<longleftrightarrow>
     Q (ppc s) \<and> s' = s \<or> p_busy (ppc s) \<and> (\<exists>b. p_step N retag wp s b \<and> p_to N retag wp Q b s')"
  unfolding p_to_def by (blast elim: converse_rtranclpE intro: converse_rtranclp_into_rtranclp)

lemma c_to_unfold:
  "c_to N wc Q s s' \<longleftrightarrow> Q (cpc s) \<and> s' = s \<or> c_busy (cpc s) \<and> (\<exists>b. c_step N wc s b \<and> c_to N wc Q b s')"
  unfolding c_to_def by (blast elim: converse_rtranclpE intro: converse_rtranclp_into_rtranclp)

lemma p_to_step:
  assumes "p_step N retag wp s = (=) f" "p_busy (ppc s)"
  shows "p_to N retag wp Q s s' \<longleftrightarrow> Q (ppc s) \<and> s' = s \<or> p_to N retag wp Q f s'"
  using assms by (subst p_to_unfold) simp

lemma c_to_step:
  assumes "c_step N wc s = (=) f" "c_busy (cpc s)"
  shows "c_to N wc Q s s' \<longleftrightarrow> Q (cpc s) \<and> s' = s \<or> c_to N wc Q f s'"
  using assms by (subst c_to_unfold) simp

lemma p_to_stop: "\<not> p_busy (ppc s) \<Longrightarrow> p_to N retag wp Q s s' \<longleftrightarrow> Q (ppc s) \<and> s' = s"
  by (subst p_to_unfold) simp

lemma c_to_stop: "\<not> c_busy (cpc s) \<Longrightarrow> c_to N wc Q s s' \<longleftrightarrow> Q (cpc s) \<and> s' = s"
  by (subst c_to_unfold) simp

text \<open>Inside a call the next step is determined by the program counter.\<close>

lemma p_step_at:
  "ppc s = P_Start c m \<Longrightarrow> p_step N retag wp s = (=) (s\<lparr>ppc := if closed (rng s) then P_Idle else P_Open c m\<rparr>)"
  "ppc s = P_Open c m \<Longrightarrow> p_step N retag wp s = (=) (s\<lparr>ppc := P_Head c m (head (rng s))\<rparr>)"
  "ppc s = P_Head c m h \<Longrightarrow> p_step N retag wp s = (=) (s\<lparr>ppc := if of_nat N \<le> h - tail (rng s) then P_Full c m else P_Slot c m h\<rparr>)"
  "ppc s = P_Slot c m h \<Longrightarrow> p_step N retag wp s = (=) (s\<lparr>ppc := P_Publish c (retag m) h,
     rng := (rng s)\<lparr>slots := (slots (rng s))[slot_index N h := Some (retag m)]\<rparr>\<rparr>)"
  "ppc s = P_Publish c m h \<Longrightarrow> p_step N retag wp s = (=) (s\<lparr>ppc := P_Wake c, rng := (rng s)\<lparr>head := h + 1\<rparr>, sent := sent s @ [m]\<rparr>)"
  "ppc s = P_Wake c \<Longrightarrow> p_step N retag wp s = (=) (s\<lparr>ppc := (if c = Second then P_Clear else P_Idle), rng := wake_consumer (rng s)\<rparr>)"
  "ppc s = P_Clear \<Longrightarrow> p_step N retag wp s = (=) (s\<lparr>ppc := P_Idle, rng := (rng s)\<lparr>producer_waker := None\<rparr>\<rparr>)"
  "ppc s = P_Full c m \<Longrightarrow> p_step N retag wp s = (=) ((case c of Plain \<Rightarrow> s\<lparr>ppc := P_Idle\<rparr>
     | First \<Rightarrow> s\<lparr>ppc := P_Start Second m, rng := (rng s)\<lparr>producer_waker := Some wp\<rparr>\<rparr>
     | Second \<Rightarrow> s\<lparr>ppc := P_Pending m\<rparr>))"
  by (rule ext, subst p_step.simps; cases c; auto)+

lemma c_step_at:
  "cpc s = C_Start c \<Longrightarrow> c_step N wc s = (=) (s\<lparr>cpc := C_Tail c (tail (rng s))\<rparr>)"
  "cpc s = C_Tail c t \<Longrightarrow> c_step N wc s = (=) (s\<lparr>cpc := if head (rng s) = t then C_Empty c else C_Read c t\<rparr>)"
  "cpc s = C_Read c t \<Longrightarrow> c_step N wc s = (=) ((case slots (rng s) ! slot_index N t of
     None \<Rightarrow> s\<lparr>cpc := C_UB\<rparr>
   | Some m \<Rightarrow> s\<lparr>cpc := C_Store c m t, rng := (rng s)\<lparr>slots := (slots (rng s))[slot_index N t := None]\<rparr>\<rparr>))"
  "cpc s = C_Store c m t \<Longrightarrow> c_step N wc s = (=) (s\<lparr>cpc := C_Wake c, rng := (rng s)\<lparr>tail := t + 1\<rparr>, rcvd := rcvd s @ [m]\<rparr>)"
  "cpc s = C_Wake c \<Longrightarrow> c_step N wc s = (=) (s\<lparr>cpc := (if c = Second then C_Clear else C_Idle), rng := wake_producer (rng s)\<rparr>)"
  "cpc s = C_Clear \<Longrightarrow> c_step N wc s = (=) (s\<lparr>cpc := C_Idle, rng := (rng s)\<lparr>consumer_waker := None\<rparr>\<rparr>)"
  "cpc s = C_Empty c \<Longrightarrow> c_step N wc s = (=) (s\<lparr>cpc := if closed (rng s) then C_Closed
     else case c of Plain \<Rightarrow> C_Idle | First \<Rightarrow> C_Install | Second \<Rightarrow> C_Pending\<rparr>)"
  "cpc s = C_Install \<Longrightarrow> c_step N wc s = (=) (s\<lparr>cpc := C_Start Second, rng := (rng s)\<lparr>consumer_waker := Some wc\<rparr>\<rparr>)"
  by (rule ext, subst c_step.simps; cases c; auto split: option.splits)+

lemmas p_to_at = p_step_at [THEN p_to_step]
lemmas c_to_at = c_step_at [THEN c_to_step]

lemma p_start_step:
  "ppc s = P_Idle \<Longrightarrow> p_step N retag wp s a \<and> ppc a = P_Start Plain m \<longleftrightarrow> a = s\<lparr>ppc := P_Start Plain m\<rparr>"
  "ppc s = P_Idle \<or> ppc s = P_Pending m \<Longrightarrow> p_step N retag wp s a \<and> ppc a = P_Start First m \<longleftrightarrow>
     a = s\<lparr>ppc := P_Start First m, rng := unwake wp (rng s)\<rparr>"
  by (subst p_step.simps; auto)+

lemma c_start_step:
  "cpc s = C_Idle \<or> cpc s = C_Closed \<Longrightarrow> c_step N wc s a \<and> cpc a = C_Start Plain \<longleftrightarrow> a = s\<lparr>cpc := C_Start Plain\<rparr>"
  "cpc s = C_Idle \<or> cpc s = C_Closed \<or> cpc s = C_Pending \<Longrightarrow> c_step N wc s a \<and> cpc a = C_Start First \<longleftrightarrow>
     a = s\<lparr>cpc := C_Start First, rng := unwake wc (rng s)\<rparr>"
  by (subst c_step.simps; auto)+

lemma p_call_from:
  "ppc s = P_Idle \<Longrightarrow>
     p_call_path N retag wp (P_Start Plain m) Q s s' = p_to N retag wp Q (s\<lparr>ppc := P_Start Plain m\<rparr>) s'"
  "ppc s = P_Idle \<or> ppc s = P_Pending m \<Longrightarrow> p_call_path N retag wp (P_Start First m) Q s s'
     = p_to N retag wp Q (s\<lparr>ppc := P_Start First m, rng := unwake wp (rng s)\<rparr>) s'"
  unfolding p_call_path_def conj_assoc [symmetric] by (simp_all only: p_start_step simp_thms)

lemma c_call_from:
  "cpc s = C_Idle \<or> cpc s = C_Closed \<Longrightarrow>
     c_call_path N wc (C_Start Plain) Q s s' = c_to N wc Q (s\<lparr>cpc := C_Start Plain\<rparr>) s'"
  "cpc s = C_Idle \<or> cpc s = C_Closed \<or> cpc s = C_Pending \<Longrightarrow> c_call_path N wc (C_Start First) Q s s'
     = c_to N wc Q (s\<lparr>cpc := C_Start First, rng := unwake wc (rng s)\<rparr>) s'"
  unfolding c_call_path_def conj_assoc [symmetric] by (simp_all only: c_start_step simp_thms)

text \<open>One attempt of a call, by its outcome.\<close>

lemma send_attempt:
  assumes "ppc s = P_Start c m"
  shows "p_to N retag wp (\<lambda>q. \<not> p_busy q) s s' \<longleftrightarrow>
    (case try_send N retag m (rng s) of
       (r', Inr _) \<Rightarrow> p_to N retag wp (\<lambda>q. \<not> p_busy q)
         (s\<lparr>sent := sent s @ [retag m], ppc := (if c = Second then P_Clear else P_Idle), rng := r'\<rparr>) s'
     | (r', Inl (Closed _)) \<Rightarrow> s' = s\<lparr>ppc := P_Idle\<rparr>
     | (r', Inl (Full _)) \<Rightarrow> p_to N retag wp (\<lambda>q. \<not> p_busy q) (s\<lparr>ppc := P_Full c m\<rparr>) s')"
proof -
  consider "closed (rng s)" | "\<not> closed (rng s)" "of_nat N \<le> head (rng s) - tail (rng s)"
    | "\<not> closed (rng s)" "\<not> of_nat N \<le> head (rng s) - tail (rng s)" by blast
  then show ?thesis
  proof cases
    case 3
    let ?r = "(rng s)\<lparr>slots := (slots (rng s))[slot_index N (head (rng s)) := Some (retag m)], head := head (rng s) + 1\<rparr>"
    have "p_to N retag wp (\<lambda>q. \<not> p_busy q) s s' \<longleftrightarrow> p_to N retag wp (\<lambda>q. \<not> p_busy q)
        (s\<lparr>ppc := P_Wake c, rng := ?r, sent := sent s @ [retag m]\<rparr>) s'"
      using 3 assms by (simp add: p_to_at(1-5))
    then show ?thesis using 3 by (simp add: p_to_at(6) try_send_def Let_def)
  qed (simp_all add: assms p_to_at(1-3) p_to_stop try_send_def)
qed

lemma recv_attempt:
  assumes "cpc s = C_Start c"
  shows "c_to N wc (\<lambda>q. \<not> c_busy q) s s' \<longleftrightarrow>
    (case try_recv N (rng s) of
       None \<Rightarrow> s' = s\<lparr>cpc := C_UB\<rparr>
     | Some (r', Inr (Some v)) \<Rightarrow> c_to N wc (\<lambda>q. \<not> c_busy q)
         (s\<lparr>rcvd := rcvd s @ [v], cpc := (if c = Second then C_Clear else C_Idle), rng := r'\<rparr>) s'
     | Some (r', Inr None) \<Rightarrow> c_to N wc (\<lambda>q. \<not> c_busy q)
         (s\<lparr>cpc := (case c of Plain \<Rightarrow> C_Idle | First \<Rightarrow> C_Install | Second \<Rightarrow> C_Pending)\<rparr>) s'
     | Some (r', Inl e) \<Rightarrow> s' = s\<lparr>cpc := C_Closed\<rparr>)"
proof (cases "head (rng s) = tail (rng s)")
  case True
  then show ?thesis by (simp add: assms c_to_at(1,2,7) c_to_stop try_recv_def)
next
  case False
  have "c_to N wc (\<lambda>q. \<not> c_busy q) s s' \<longleftrightarrow> c_to N wc (\<lambda>q. \<not> c_busy q) (s\<lparr>cpc := C_Read c (tail (rng s))\<rparr>) s'"
    using False by (simp add: assms c_to_at(1,2))
  then show ?thesis
    using False by (cases "slots (rng s) ! slot_index N (tail (rng s))")
      (simp_all add: c_to_at(3-5) c_to_stop try_recv_def Let_def)
qed

lemma try_send_cases:
  obtains (Ok) r' where "try_send N retag m r = (r', Ok ())"
  | (Closed) "try_send N retag m r = (r, Err (Closed m))"
  | (Full) "try_send N retag m r = (r, Err (Full m))"
      "\<And>w. try_send N retag m (r\<lparr>producer_waker := w\<rparr>) = (r\<lparr>producer_waker := w\<rparr>, Err (Full m))"
  by (cases "closed r"; cases "of_nat N \<le> head r - tail r") (auto simp: try_send_def Let_def)

lemma try_recv_cases:
  obtains (UB) "try_recv N r = None"
  | (Some) r' v where "try_recv N r = Some (r', Ok (Some v))"
  | (Closed) "try_recv N r = Some (r, Err RecvClosed)"
  | (Empty) "try_recv N r = Some (r, Ok None)"
      "\<And>w. try_recv N (r\<lparr>consumer_waker := w\<rparr>) = Some (r\<lparr>consumer_waker := w\<rparr>, Ok None)"
  by (cases "head r = tail r"; cases "closed r"; cases "slots r ! slot_index N (tail r)")
    (auto simp: try_recv_def Let_def)

lemma try_send_run:
  assumes "ppc s = P_Idle"
  shows "p_call_run N retag wp (P_Start Plain m) s s' \<longleftrightarrow> s' = s\<lparr>rng := fst (try_send N retag m (rng s)),
     sent := sent s @ (if snd (try_send N retag m (rng s)) = Ok () then [retag m] else [])\<rparr>"
proof -
  have i: "s\<lparr>ppc := P_Idle\<rparr> = s" using assms by (cases s) simp
  have "p_call_run N retag wp (P_Start Plain m) s s' \<longleftrightarrow>
      p_to N retag wp (\<lambda>q. \<not> p_busy q) (s\<lparr>ppc := P_Start Plain m\<rparr>) s'"
    by (simp add: p_call_run_def p_call_from(1) [OF assms])
  also have "\<dots> \<longleftrightarrow> s' = (s\<lparr>ppc := P_Idle\<rparr>)\<lparr>rng := fst (try_send N retag m (rng s)),
     sent := sent s @ (if snd (try_send N retag m (rng s)) = Ok () then [retag m] else [])\<rparr>"
    by (rule try_send_cases [of N retag m "rng s"]) (cases s, simp add: send_attempt p_to_at(8) p_to_stop)+
  finally show ?thesis by (simp only: i)
qed

lemma try_send_full_path:
  assumes "ppc s = P_Idle"
  shows "p_call_path N retag wp (P_Start Plain m) (\<lambda>q. q = P_Full Plain m) s s' \<longleftrightarrow>
     snd (try_send N retag m (rng s)) = Err (Full m) \<and> s' = s\<lparr>ppc := P_Full Plain m\<rparr>"
  using assms
  by (auto simp: p_call_from p_to_at p_to_stop try_send_def Let_def)

lemma send_poll_run:
  assumes "ppc s = P_Idle \<or> ppc s = P_Pending m"
  shows "p_call_run N retag wp (P_Start First m) s s' \<longleftrightarrow>
    (\<exists>slot r' res. send_poll N retag wp (Some m) (unwake wp (rng s)) = Some (slot, r', res)
       \<and> s' = s\<lparr>ppc := if res = Pending then P_Pending m else P_Idle, rng := r',
             sent := sent s @ (if res = Ready (Ok ()) then [retag m] else [])\<rparr>)"
  unfolding p_call_run_def p_call_from(2) [OF assms]
  by (rule try_send_cases [of N retag m "unwake wp (rng s)"])
    (cases s, simp add: send_attempt p_to_at(8) p_to_stop send_poll_def)+

lemma try_recv_run:
  assumes "cpc s = C_Idle \<or> cpc s = C_Closed"
  shows "c_call_run N wc (C_Start Plain) s s' \<longleftrightarrow> s' = (case try_recv N (rng s) of
      None \<Rightarrow> s\<lparr>cpc := C_UB\<rparr>
    | Some (r', Inl e) \<Rightarrow> s\<lparr>rng := r', cpc := C_Closed\<rparr>
    | Some (r', Inr x) \<Rightarrow> s\<lparr>rng := r', cpc := C_Idle, rcvd := rcvd s @ (case x of None \<Rightarrow> [] | Some v \<Rightarrow> [v])\<rparr>)"
  unfolding c_call_run_def c_call_from(1) [OF assms]
  by (rule try_recv_cases [of N "rng s"]) (cases s, simp add: recv_attempt c_to_stop)+

lemma recv_poll_run:
  assumes "cpc s = C_Idle \<or> cpc s = C_Closed \<or> cpc s = C_Pending"
  shows "c_call_run N wc (C_Start First) s s' \<longleftrightarrow> s' = (case recv_poll N wc (unwake wc (rng s)) of
      None \<Rightarrow> s\<lparr>rng := unwake wc (rng s), cpc := C_UB\<rparr>
    | Some (r', Pending) \<Rightarrow> s\<lparr>rng := r', cpc := C_Pending\<rparr>
    | Some (r', Ready (Inl e)) \<Rightarrow> s\<lparr>rng := r', cpc := C_Closed\<rparr>
    | Some (r', Ready (Inr v)) \<Rightarrow> s\<lparr>rng := r', cpc := C_Idle, rcvd := rcvd s @ [v]\<rparr>)"
  unfolding c_call_run_def c_call_from(2) [OF assms]
  by (rule try_recv_cases [of N "unwake wc (rng s)"])
    (cases s, simp add: recv_attempt c_to_at(8) c_to_stop recv_poll_def)+

lemma try_send_steps:
  assumes "ppc s = P_Idle"
  shows "(p_step N retag wp)\<^sup>*\<^sup>* s (s\<lparr>rng := fst (try_send N retag m (rng s)),
    sent := sent s @ (if snd (try_send N retag m (rng s)) = Ok () then [retag m] else [])\<rparr>)"
proof -
  obtain a where "p_step N retag wp s a" "(\<lambda>a b. p_busy (ppc a) \<and> p_step N retag wp a b)\<^sup>*\<^sup>* a
      (s\<lparr>rng := fst (try_send N retag m (rng s)),
         sent := sent s @ (if snd (try_send N retag m (rng s)) = Ok () then [retag m] else [])\<rparr>)"
    using try_send_run [OF assms, THEN iffD2, OF refl, of N retag wp m]
    unfolding p_call_run_def p_call_path_def p_to_def by blast
  then show ?thesis by (blast intro: converse_rtranclp_into_rtranclp rtranclp_mono [THEN predicate2D, rotated])
qed

subsection \<open>Properties\<close>

text \<open>Between the steps that move a payload the ring is a well-formed sequential ring.\<close>

lemma quiescent_ring:
  assumes "mach_ok N s" "publishing (ppc s) = None" "held (cpc s) = None"
  shows "ring_ok N (rng s)" "queue N (rng s) = drop (length (rcvd s)) (sent s)"
proof -
  let ?t = "length (rcvd s)" let ?h = "length (sent s)"
  have W: "window_ok N s" using assms(1) by (simp add: mach_ok_def)
  then have p: "pow2_cap N" "?t \<le> ?h" "?h \<le> ?t + N" "length (slots (rng s)) = N" by (auto simp: window_ok_def)
  have "head (rng s) - tail (rng s) = of_nat (?h - ?t)" using W p by (simp add: window_ok_def of_nat_diff)
  moreover have "?h - ?t < 2 ^ 64" using p pow2_cap_less [of N] by linarith
  ultimately have len: "ring_len (rng s) = ?h - ?t"
    by (simp only: ring_len_def unat_of_nat) (simp add: mod_less)
  have sl: "slots (rng s) ! slot_index N (tail (rng s) + of_nat i) = (if i < ?h - ?t then Some (sent s ! (?t + i)) else None)"
    if "i < N" for i
  proof -
    have "tail (rng s) + of_nat i = of_nat (?t + i)" using W by (simp add: window_ok_def)
    then have "slot_index N (tail (rng s) + of_nat i) = (?t + i) mod N"
      using slot_index_of_nat [OF p(1)] by metis
    moreover have "slots (rng s) ! ((?t + i) mod N) = expected s (?t + i)"
      using W that by (simp add: window_ok_def)
    ultimately show ?thesis using assms(2,3) by (auto simp: expected_def)
  qed
  show "ring_ok N (rng s)" using p len sl by (simp add: ring_ok_def)
  show "queue N (rng s) = drop ?t (sent s)"
    using p len sl by (intro nth_equalityI) (auto simp: queue_def)
qed

text \<open>
  C28. The ring is safe under every interleaving of its two halves. In every reachable state no
  uninitialised slot has been read, the slot the producer is about to write is not the slot
  the consumer is about to read, the messages received are a prefix of the messages
  published, at most \<open>N\<close> messages are in flight, and whenever neither half is in the middle of
  moving a payload the ring is well formed and its queue is exactly what was published and not
  yet received.
\<close>

theorem spsc_concurrent_safe:
  assumes "mach_reachable N retag wp wc s" "pow2_cap N"
  shows "cpc s \<noteq> C_UB
    \<and> (\<forall>c m h c' t. ppc s = P_Slot c m h \<and> cpc s = C_Read c' t \<longrightarrow> slot_index N h \<noteq> slot_index N t)
    \<and> rcvd s = take (length (rcvd s)) (sent s) \<and> length (sent s) \<le> length (rcvd s) + N
    \<and> (publishing (ppc s) = None \<and> held (cpc s) = None \<longrightarrow>
        ring_ok N (rng s) \<and> rcvd s @ queue N (rng s) = sent s)"
proof (intro conjI allI impI)
  have ok: "mach_ok N s" using assms by (rule mach_reachable_ok)
  note D = mach_okD [OF ok]
  show "cpc s \<noteq> C_UB" using D by auto
  show pre: "rcvd s = take (length (rcvd s)) (sent s)" and "length (sent s) \<le> length (rcvd s) + N"
    using D unfolding window_ok_def by blast+
  fix c m h c' t assume pc: "ppc s = P_Slot c m h \<and> cpc s = C_Read c' t"
  with D have "h = of_nat (length (sent s))" "t = of_nat (length (rcvd s))"
    "length (rcvd s) < length (sent s)" "length (sent s) < length (rcvd s) + N" by auto
  then show "slot_index N h \<noteq> slot_index N t"
    using window_index_neq [of "length (sent s)" N "length (rcvd s)" "length (rcvd s)"] assms(2)
    by (auto simp: slot_index_of_nat)
next
  have ok: "mach_ok N s" using assms by (rule mach_reachable_ok)
  assume q: "publishing (ppc s) = None \<and> held (cpc s) = None"
  note Q = quiescent_ring [OF ok conjunct1 [OF q] conjunct2 [OF q]]
  show "ring_ok N (rng s)" by (rule Q)
  have "rcvd s = take (length (rcvd s)) (sent s)" using ok by (simp add: mach_ok_def window_ok_def)
  then show "rcvd s @ queue N (rng s) = sent s" unfolding Q(2) by (metis append_take_drop_id)
qed

theorem spsc_concurrent_safe_witness:
  "rcvd (init_mach 4 :: nat mach) @ queue 4 (rng (init_mach 4 :: nat mach)) = sent (init_mach 4)"
  using spsc_concurrent_safe [OF mach_reachable.start [of 4 "\<lambda>v::nat. v" 0 1] pow2_cap_4]
  by (simp add: init_mach_def)

text \<open>
  C29. No wake-up is lost. If the receive future is parked while a message is available or
  the ring is closed, its waker has been woken or the producer is at the step that wakes it; if
  the send future is parked while a slot is free or the ring is closed, its waker has been
  woken or the consumer is at the step that wakes it.
\<close>

theorem spsc_no_lost_wakeup:
  assumes "mach_reachable N retag wp wc s" "pow2_cap N" "wp \<noteq> wc"
  shows "(cpc s = C_Pending \<and> (length (rcvd s) < length (sent s) \<or> closed (rng s)) \<longrightarrow>
       wc \<in> set (woken (rng s)) \<or> consumer_waker (rng s) = Some wc \<and> (waking (ppc s) \<or> ppc s = P_DropWake))
    \<and> (\<forall>m. ppc s = P_Pending m \<and> (length (sent s) < length (rcvd s) + N \<or> closed (rng s)) \<longrightarrow>
       wp \<in> set (woken (rng s)) \<or> producer_waker (rng s) = Some wp \<and> (cwaking (cpc s) \<or> cpc s = C_DropWake))"
  using mach_reachable_wait [OF assms] by (auto simp: c_wait_ok_def p_wait_ok_def)


text \<open>A run in which the receive future parks and the producer then publishes.\<close>

lemma parked_run:
  "\<exists>s. mach_reachable 4 (\<lambda>v::nat. v) 0 1 s \<and> cpc s = C_Pending \<and> ppc s = P_Wake Plain
     \<and> length (rcvd s) < length (sent s)"
proof -
  let ?i = "init_mach 4 :: nat mach" let ?r = "unwake 1 (new_ring 4) :: nat ring"
  let ?w = "?r\<lparr>consumer_waker := Some 1\<rparr>"
  note P = mach_reachable.producer [of 4 "\<lambda>v. v" 0 1] and C = mach_reachable.consumer [of 4 "\<lambda>v. v" 0 1]
  note I = init_mach_def new_ring_def unwake_def
  from C [OF mach_reachable.start c_poll] have "mach_reachable 4 (\<lambda>v. v) 0 1 (?i\<lparr>cpc := C_Start First, rng := ?r\<rparr>)"
    by (simp add: init_mach_def)
  from C [OF this c_tail [of _ First]] have "mach_reachable 4 (\<lambda>v. v) 0 1 (?i\<lparr>cpc := C_Tail First 0, rng := ?r\<rparr>)"
    by (simp add: I)
  from C [OF this c_empty [of _ First 0]] have "mach_reachable 4 (\<lambda>v. v) 0 1 (?i\<lparr>cpc := C_Empty First, rng := ?r\<rparr>)"
    by (simp add: I)
  from C [OF this c_none [of _ First]] have "mach_reachable 4 (\<lambda>v. v) 0 1 (?i\<lparr>cpc := C_Install, rng := ?r\<rparr>)"
    by (simp add: I)
  from C [OF this c_install] have "mach_reachable 4 (\<lambda>v. v) 0 1 (?i\<lparr>cpc := C_Start Second, rng := ?w\<rparr>)"
    by (simp add: I)
  from C [OF this c_tail [of _ Second]] have "mach_reachable 4 (\<lambda>v. v) 0 1 (?i\<lparr>cpc := C_Tail Second 0, rng := ?w\<rparr>)"
    by (simp add: I)
  from C [OF this c_empty [of _ Second 0]] have "mach_reachable 4 (\<lambda>v. v) 0 1 (?i\<lparr>cpc := C_Empty Second, rng := ?w\<rparr>)"
    by (simp add: I)
  from C [OF this c_none [of _ Second]] have "mach_reachable 4 (\<lambda>v. v) 0 1 (?i\<lparr>cpc := C_Pending, rng := ?w\<rparr>)"
    by (simp add: I)
  from P [OF this p_call [of _ _ _ _ 7]]
  have "mach_reachable 4 (\<lambda>v. v) 0 1 (?i\<lparr>cpc := C_Pending, rng := ?w, ppc := P_Start Plain 7\<rparr>)"
    by (simp add: I)
  from P [OF this p_open [of _ Plain 7]]
  have "mach_reachable 4 (\<lambda>v. v) 0 1 (?i\<lparr>cpc := C_Pending, rng := ?w, ppc := P_Open Plain 7\<rparr>)"
    by (simp add: I)
  from P [OF this p_head [of _ Plain 7]]
  have "mach_reachable 4 (\<lambda>v. v) 0 1 (?i\<lparr>cpc := C_Pending, rng := ?w, ppc := P_Head Plain 7 0\<rparr>)"
    by (simp add: I)
  from P [OF this p_free [of _ Plain 7 0]]
  have "mach_reachable 4 (\<lambda>v. v) 0 1 (?i\<lparr>cpc := C_Pending, rng := ?w, ppc := P_Slot Plain 7 0\<rparr>)"
    by (simp add: I)
  from P [OF this p_write [of _ Plain 7 0]]
  have "\<exists>s. mach_reachable 4 (\<lambda>v::nat. v) 0 1 s \<and> ppc s = P_Publish Plain 7 0 \<and> cpc s = C_Pending \<and> rcvd s = []"
    by (force simp: I)
  then obtain s where s: "mach_reachable 4 (\<lambda>v::nat. v) 0 1 s" "ppc s = P_Publish Plain 7 0" "cpc s = C_Pending"
    "rcvd s = []" by blast
  from P [OF s(1) p_publish [OF s(2)]] s show ?thesis by force
qed

theorem spsc_no_lost_wakeup_witness:
  "\<exists>s. mach_reachable 4 (\<lambda>v::nat. v) 0 1 s \<and> cpc s = C_Pending \<and> length (rcvd s) < length (sent s)
     \<and> (1 \<in> set (woken (rng s)) \<or> consumer_waker (rng s) = Some 1)"
proof -
  obtain s where s: "mach_reachable 4 (\<lambda>v::nat. v) 0 1 s" "cpc s = C_Pending" "length (rcvd s) < length (sent s)"
    using parked_run by blast
  from spsc_no_lost_wakeup [OF s(1) pow2_cap_4] s show ?thesis by auto
qed

text \<open>
  C30. \<open>Closed\<close> can be reported before the ring is drained. The consumer loads the indices
  and then the \<open>closed\<close> flag; a producer that sends and drops in between makes \<open>try_recv\<close> return
  \<open>Closed\<close> although a message is queued, contrary to its documentation. The state below is
  reachable: nothing has been received, a message has been published, and \<open>Closed\<close> was
  reported.
\<close>

theorem spsc_closed_before_drained:
  "\<exists>s. mach_reachable 4 (\<lambda>v::nat. v) 0 1 s \<and> cpc s = C_Closed \<and> rcvd s = [] \<and> sent s = [7]
     \<and> queue 4 (rng s) = [7]"
proof -
  let ?i = "init_mach 4 :: nat mach"
  note P = mach_reachable.producer [of 4 "\<lambda>v. v" 0 1] and C = mach_reachable.consumer [of 4 "\<lambda>v. v" 0 1]
  note I = init_mach_def new_ring_def
  from C [OF mach_reachable.start c_call] have "mach_reachable 4 (\<lambda>v. v) 0 1 (?i\<lparr>cpc := C_Start Plain\<rparr>)"
    by (simp add: init_mach_def)
  from C [OF this c_tail [of _ Plain]] have "mach_reachable 4 (\<lambda>v. v) 0 1 (?i\<lparr>cpc := C_Tail Plain 0\<rparr>)"
    by (simp add: I)
  from C [OF this c_empty [of _ Plain 0]] have "mach_reachable 4 (\<lambda>v. v) 0 1 (?i\<lparr>cpc := C_Empty Plain\<rparr>)"
    by (simp add: I)
  note base = this
  have r: "mach_reachable 4 (\<lambda>v. v) 0 1 u" if "(p_step 4 (\<lambda>v. v) 0)\<^sup>*\<^sup>* (?i\<lparr>cpc := C_Empty Plain\<rparr>) u" for u
    using that by (induction rule: rtranclp_induct) (rule base, rule mach_reachable.producer)
  let ?sr = "try_send 4 (\<lambda>v. v) 7 (new_ring 4 :: nat ring)"
  have "\<not> closed (new_ring 4 :: nat ring)" "ring_len (new_ring 4 :: nat ring) < 4"
    by (simp_all add: new_ring_def ring_len_def)
  from try_send_accept [OF ring_ok_new [OF pow2_cap_4] this, of "\<lambda>v. v" 7]
  have sr: "snd ?sr = Ok ()" "queue 4 (fst ?sr) = [7]" by auto
  have "mach_reachable 4 (\<lambda>v. v) 0 1 (?i\<lparr>cpc := C_Empty Plain, rng := fst ?sr, sent := [7]\<rparr>)"
    using r [OF try_send_steps [of _ 4 "\<lambda>v. v" 0 7]] sr by (simp add: init_mach_def)
  from P [OF this p_drop]
  have "mach_reachable 4 (\<lambda>v. v) 0 1 (?i\<lparr>cpc := C_Empty Plain, sent := [7], ppc := P_DropWake,
      rng := (fst ?sr)\<lparr>closed := True\<rparr>\<rparr>)" by (simp add: init_mach_def)
  from C [OF this c_closed [of _ Plain]]
  have "mach_reachable 4 (\<lambda>v. v) 0 1 (?i\<lparr>sent := [7], ppc := P_DropWake, rng := (fst ?sr)\<lparr>closed := True\<rparr>,
      cpc := C_Closed\<rparr>)" by (simp add: init_mach_def)
  then show ?thesis
    using sr(2) queue_cong [of "fst ?sr" "(fst ?sr)\<lparr>closed := True\<rparr>" 4]
    by (intro exI conjI) (assumption, simp_all add: init_mach_def)
qed


text \<open>
  C31. Calls that are not interleaved with the other half are exactly the sequential operations. From
  an idle producer, a plain call has one outcome: the state \<open>try_send\<close> leaves, with the message
  published if and only if it was accepted, and the call meets the full branch exactly when
  \<open>try_send\<close> reports \<open>Full\<close>. A poll of a send future, fresh or pending, has one outcome: the ring
  \<open>send_poll\<close> leaves, with the future pending or done as it says. From an idle consumer, a plain
  call ends as \<open>try_recv\<close> does on every branch (a message, nothing, \<open>Closed\<close>, an uninitialised
  slot), and a poll of a receive future as \<open>recv_poll\<close> does.
\<close>

theorem steps_refine_calls:
  "(ppc s = P_Idle \<longrightarrow>
      (\<forall>s'. p_call_run N retag wp (P_Start Plain m) s s' \<longleftrightarrow> s' = s\<lparr>rng := fst (try_send N retag m (rng s)),
         sent := sent s @ (if snd (try_send N retag m (rng s)) = Ok () then [retag m] else [])\<rparr>)
      \<and> (\<forall>s'. p_call_path N retag wp (P_Start Plain m) (\<lambda>q. q = P_Full Plain m) s s' \<longleftrightarrow>
         snd (try_send N retag m (rng s)) = Err (Full m) \<and> s' = s\<lparr>ppc := P_Full Plain m\<rparr>))
   \<and> (ppc s = P_Idle \<or> ppc s = P_Pending m \<longrightarrow>
      (\<forall>s'. p_call_run N retag wp (P_Start First m) s s' \<longleftrightarrow>
         (\<exists>slot r' res. send_poll N retag wp (Some m) (unwake wp (rng s)) = Some (slot, r', res)
           \<and> s' = s\<lparr>ppc := if res = Pending then P_Pending m else P_Idle, rng := r',
                 sent := sent s @ (if res = Ready (Ok ()) then [retag m] else [])\<rparr>)))
   \<and> (cpc s = C_Idle \<or> cpc s = C_Closed \<longrightarrow>
      (\<forall>s'. c_call_run N wc (C_Start Plain) s s' \<longleftrightarrow> s' = (case try_recv N (rng s) of
           None \<Rightarrow> s\<lparr>cpc := C_UB\<rparr>
         | Some (r', Inl e) \<Rightarrow> s\<lparr>rng := r', cpc := C_Closed\<rparr>
         | Some (r', Inr x) \<Rightarrow> s\<lparr>rng := r', cpc := C_Idle, rcvd := rcvd s @ (case x of None \<Rightarrow> [] | Some v \<Rightarrow> [v])\<rparr>)))
   \<and> (cpc s = C_Idle \<or> cpc s = C_Closed \<or> cpc s = C_Pending \<longrightarrow>
      (\<forall>s'. c_call_run N wc (C_Start First) s s' \<longleftrightarrow> s' = (case recv_poll N wc (unwake wc (rng s)) of
           None \<Rightarrow> s\<lparr>rng := unwake wc (rng s), cpc := C_UB\<rparr>
         | Some (r', Pending) \<Rightarrow> s\<lparr>rng := r', cpc := C_Pending\<rparr>
         | Some (r', Ready (Inl e)) \<Rightarrow> s\<lparr>rng := r', cpc := C_Closed\<rparr>
         | Some (r', Ready (Inr v)) \<Rightarrow> s\<lparr>rng := r', cpc := C_Idle, rcvd := rcvd s @ [v]\<rparr>)))"
  by (intro conjI impI allI)
    (rule try_send_run try_send_full_path send_poll_run try_recv_run recv_poll_run; assumption)+

theorem steps_refine_calls_witness:
  "p_call_run 4 Suc 0 (P_Start Plain 7) (init_mach 4) ((init_mach 4)
     \<lparr>rng := (new_ring 4)\<lparr>slots := [Some 8, None, None, None], head := 1\<rparr>, sent := [8]\<rparr>)
   \<and> \<not> p_call_run 4 Suc 0 (P_Start Plain 7) (init_mach 4) (init_mach 4)"
proof -
  have t: "try_send 4 Suc 7 (new_ring 4)
      = ((new_ring 4)\<lparr>slots := [Some 8, None, None, None], head := 1\<rparr>, Ok ())"
    by code_simp
  have i: "ppc (init_mach 4) = P_Idle" "rng (init_mach 4) = new_ring 4" "sent (init_mach 4) = []"
    by (simp_all add: init_mach_def)
  have "p_call_run 4 Suc 0 (P_Start Plain 7) (init_mach 4) s' \<longleftrightarrow>
      s' = (init_mach 4)\<lparr>rng := (new_ring 4)\<lparr>slots := [Some 8, None, None, None], head := 1\<rparr>, sent := [8]\<rparr>" for s'
    using steps_refine_calls [of "init_mach 4" 4 Suc 0 7] by (simp add: i t)
  then show ?thesis by (simp add: init_mach_def)
qed

end
