(* ===== verification/Budget.thy ===== *)
theory Budget
  imports Narf_Prelude
begin

text \<open>
  CPU budgets and their accounting, \<open>scheduler/src/budget.rs\<close>. Cycle counts are 64-bit
  words with the saturating arithmetic of the source. The properties bound the runtime a task
  can consume over any sequence of dispatches, show that the policy's read-only \<open>view\<close> is
  exactly what \<open>prepare\<close> commits, and say when a donation can be reverted.
\<close>

subsection \<open>Contracts\<close>

datatype overrun_policy = Throttle | Demote | Kill | Ignore

datatype exhaustion_policy = Strict | IdleBorrow

record period_budget =
  runtime_cycles :: u64
  period_cycles :: u64
  max_borrow_cycles :: u64
  exhaustion :: exhaustion_policy

definition strict :: "u64 \<Rightarrow> u64 \<Rightarrow> period_budget" where
  "strict runtime period =
     \<lparr>runtime_cycles = runtime, period_cycles = period, max_borrow_cycles = 0, exhaustion = Strict\<rparr>"

definition idle_borrow :: "u64 \<Rightarrow> u64 \<Rightarrow> u64 \<Rightarrow> period_budget" where
  "idle_borrow runtime period max_borrow =
     \<lparr>runtime_cycles = runtime, period_cycles = period, max_borrow_cycles = max_borrow,
      exhaustion = IdleBorrow\<rparr>"

definition period_is_valid :: "period_budget \<Rightarrow> bool" where
  "period_is_valid p \<longleftrightarrow> runtime_cycles p > 0 \<and> period_cycles p > 0
     \<and> runtime_cycles p \<le> period_cycles p
     \<and> (exhaustion p = IdleBorrow \<or> max_borrow_cycles p = 0)"

datatype budget_eligibility = Eligible | Borrowable | Throttled

record budget_view =
  eligibility :: budget_eligibility
  remaining_cycles :: u64
  view_replenish_at :: "u64 option"
  view_borrowed :: u64
  view_debt :: u64

record resource_budget =
  share_ppm :: u32
  burst_cycles :: u64
  deadline_cycles :: "u64 option"
  policy :: overrun_policy
  period :: "period_budget option"

definition unthrottled :: resource_budget where
  "unthrottled = \<lparr>share_ppm = 1000000, burst_cycles = - 1, deadline_cycles = None, policy = Ignore,
     period = None\<rparr>"

definition fair_share :: "u32 \<Rightarrow> u64 \<Rightarrow> resource_budget" where
  "fair_share ppm burst = \<lparr>share_ppm = ppm, burst_cycles = burst, deadline_cycles = None,
     policy = Throttle, period = None\<rparr>"

definition with_period :: "period_budget \<Rightarrow> resource_budget \<Rightarrow> resource_budget" where
  "with_period p b = b\<lparr>period := Some p\<rparr>"

definition budget_is_valid :: "resource_budget \<Rightarrow> bool" where
  "budget_is_valid b \<longleftrightarrow> share_ppm b \<le> 1000000
     \<and> (case period b of Some p \<Rightarrow> period_is_valid p | None \<Rightarrow> True)"

subsection \<open>The account\<close>

record budget_account =
  cycles_spent :: u64
  overruns :: u64
  polls :: u64
  donated_in :: u64
  donated_out :: u64
  period_start_cycles :: u64
  replenish_at_cycles :: u64
  runtime_remaining_cycles :: u64
  borrowed_cycles :: u64
  debt_cycles :: u64

definition new_account :: budget_account where
  "new_account = \<lparr>cycles_spent = 0, overruns = 0, polls = 0, donated_in = 0, donated_out = 0,
     period_start_cycles = 0, replenish_at_cycles = 0, runtime_remaining_cycles = 0,
     borrowed_cycles = 0, debt_cycles = 0\<rparr>"

datatype charge_outcome = Continue | ThrottleTask | DemoteTask | KillTask | PeriodExhausted

text \<open>\<open>checked_div(..).unwrap_or(0)\<close> is 0 for a zero divisor, as word division is.\<close>

definition account_view :: "u64 \<Rightarrow> resource_budget \<Rightarrow> budget_account \<Rightarrow> budget_view" where
  "account_view now budget a =
     (case period budget of
        None \<Rightarrow> \<lparr>eligibility = Eligible, remaining_cycles = - 1, view_replenish_at = None,
                  view_borrowed = 0, view_debt = debt_cycles a\<rparr>
      | Some p \<Rightarrow>
          (let uninitialised = replenish_at_cycles a = 0;
               due = \<not> uninitialised \<and> now \<ge> replenish_at_cycles a;
               (remaining, replenish_at, borrowed, debt) =
                 (if uninitialised
                  then (runtime_cycles p, saturating_add now (period_cycles p), 0, debt_cycles a)
                  else if due
                  then
                    (let periods = saturating_add
                           (saturating_sub now (replenish_at_cycles a) div period_cycles p) 1;
                         prior_capacity = saturating_mul (runtime_cycles p) (saturating_sub periods 1);
                         debt_at_current = saturating_sub (debt_cycles a) prior_capacity;
                         payment = min (runtime_cycles p) debt_at_current
                     in (runtime_cycles p - payment,
                         saturating_add (replenish_at_cycles a) (saturating_mul (period_cycles p) periods),
                         0, debt_at_current - payment))
                  else (runtime_remaining_cycles a, replenish_at_cycles a, borrowed_cycles a,
                        debt_cycles a));
               eligibility' =
                 (if remaining > 0 then Eligible
                  else if exhaustion p = IdleBorrow \<and> borrowed < max_borrow_cycles p then Borrowable
                  else Throttled)
           in \<lparr>eligibility = eligibility', remaining_cycles = remaining,
               view_replenish_at = Some replenish_at, view_borrowed = borrowed, view_debt = debt\<rparr>))"

definition prepare :: "u64 \<Rightarrow> resource_budget \<Rightarrow> budget_account \<Rightarrow> budget_account \<times> budget_view" where
  "prepare now budget a =
     (let view = account_view now budget a in
      case period budget of
        None \<Rightarrow> (a, view)
      | Some p \<Rightarrow>
          (let replenish_at = (case view_replenish_at view of Some r \<Rightarrow> r | None \<Rightarrow> 0) in
           if replenish_at_cycles a = 0 \<or> now \<ge> replenish_at_cycles a
           then (a\<lparr>period_start_cycles := saturating_sub replenish_at (period_cycles p),
                   replenish_at_cycles := replenish_at,
                   runtime_remaining_cycles := remaining_cycles view,
                   borrowed_cycles := view_borrowed view,
                   debt_cycles := view_debt view\<rparr>, view)
           else (a, view)))"

definition charge_period ::
    "u64 \<Rightarrow> resource_budget \<Rightarrow> bool \<Rightarrow> budget_account \<Rightarrow> budget_account \<times> charge_outcome" where
  "charge_period cycles budget allow_borrow a =
     (case period budget of
        None \<Rightarrow> (a, Continue)
      | Some p \<Rightarrow>
          (let regular = min cycles (runtime_remaining_cycles a);
               a1 = a\<lparr>runtime_remaining_cycles := runtime_remaining_cycles a - regular\<rparr>;
               excess = cycles - regular
           in
           if excess = 0 then (a1, Continue)
           else if allow_borrow \<and> exhaustion p = IdleBorrow
           then
             (let available = saturating_sub (max_borrow_cycles p) (borrowed_cycles a1);
                  borrowed = min excess available;
                  a2 = a1\<lparr>borrowed_cycles := saturating_add (borrowed_cycles a1) borrowed,
                          debt_cycles := saturating_add (debt_cycles a1) borrowed\<rparr>
              in
              if borrowed = excess then (a2, Continue)
              else (a2\<lparr>debt_cycles := saturating_add (debt_cycles a2) (saturating_sub excess borrowed)\<rparr>,
                    PeriodExhausted))
           else (a1\<lparr>debt_cycles := saturating_add (debt_cycles a1) excess\<rparr>, PeriodExhausted)))"

definition charge :: "u64 \<Rightarrow> resource_budget \<Rightarrow> budget_account \<Rightarrow> budget_account \<times> charge_outcome" where
  "charge cycles budget a =
     (let a1 = a\<lparr>polls := saturating_add (polls a) 1,
                 cycles_spent := saturating_add (cycles_spent a) cycles\<rparr>;
          over = cycles > burst_cycles budget;
          a2 = (if over then a1\<lparr>overruns := saturating_add (overruns a1) 1\<rparr> else a1)
      in
      if \<not> over then (a2, Continue)
      else
        (a2, case policy budget of
               Ignore \<Rightarrow> Continue
             | Throttle \<Rightarrow> ThrottleTask
             | Demote \<Rightarrow> DemoteTask
             | Kill \<Rightarrow> KillTask))"

definition add_credit :: "u64 \<Rightarrow> budget_account \<Rightarrow> budget_account" where
  "add_credit cycles a =
     a\<lparr>donated_in := saturating_add (donated_in a) cycles,
       cycles_spent := saturating_sub (cycles_spent a) cycles\<rparr>"

definition add_debit :: "u64 \<Rightarrow> budget_account \<Rightarrow> budget_account" where
  "add_debit cycles a =
     a\<lparr>donated_out := saturating_add (donated_out a) cycles,
       cycles_spent := saturating_add (cycles_spent a) cycles\<rparr>"

definition revert_credit :: "u64 \<Rightarrow> budget_account \<Rightarrow> budget_account" where
  "revert_credit cycles a =
     a\<lparr>donated_in := saturating_sub (donated_in a) cycles,
       cycles_spent := saturating_add (cycles_spent a) cycles\<rparr>"

definition revert_debit :: "u64 \<Rightarrow> budget_account \<Rightarrow> budget_account" where
  "revert_debit cycles a =
     a\<lparr>donated_out := saturating_sub (donated_out a) cycles,
       cycles_spent := saturating_sub (cycles_spent a) cycles\<rparr>"


subsection \<open>Replenishment\<close>

lemma unat_u64_le: "unat (w :: u64) \<le> 2 ^ 64 - 1"
  using unat_less_u64 [of w] by simp

definition elapsed_periods :: "u64 \<Rightarrow> period_budget \<Rightarrow> budget_account \<Rightarrow> nat" where
  "elapsed_periods now p a = (unat now - unat (replenish_at_cycles a)) div unat (period_cycles p) + 1"

lemma elapsed_periods_bounds:
  assumes "0 < unat (period_cycles p)" "replenish_at_cycles a \<le> now"
  shows "unat now < unat (replenish_at_cycles a) + unat (period_cycles p) * elapsed_periods now p a"
    "unat (replenish_at_cycles a) + unat (period_cycles p) * elapsed_periods now p a
       \<le> unat now + unat (period_cycles p)"
proof -
  let ?d = "unat now - unat (replenish_at_cycles a)" and ?T = "unat (period_cycles p)"
  have le: "unat (replenish_at_cycles a) \<le> unat now" using assms(2) by (simp add: word_le_nat_alt)
  have "?d < ?T * (?d div ?T + 1)" using dividend_less_div_times [of ?T ?d] assms(1) by (simp add: mult.commute)
  then show "unat now < unat (replenish_at_cycles a) + ?T * elapsed_periods now p a"
    using le by (simp add: elapsed_periods_def)
  have "?T * (?d div ?T) \<le> ?d" by (simp add: mult.commute)
  then have "unat (replenish_at_cycles a) + ?T * (?d div ?T) \<le> unat now" using le by linarith
  then show "unat (replenish_at_cycles a) + ?T * elapsed_periods now p a \<le> unat now + ?T"
    by (simp add: elapsed_periods_def)
qed

text \<open>What \<open>prepare\<close> does when a replenishment is due, in natural numbers.\<close>

lemma prepare_due:
  assumes p: "period b = Some p" "0 < unat (period_cycles p)"
    and due: "replenish_at_cycles a \<noteq> 0" "replenish_at_cycles a \<le> now"
    and room: "unat now + unat (period_cycles p) < 2 ^ 64"
  defines "k \<equiv> elapsed_periods now p a" and "a' \<equiv> fst (prepare now b a)"
  shows "unat (replenish_at_cycles a') = unat (replenish_at_cycles a) + unat (period_cycles p) * k"
    "unat (runtime_remaining_cycles a') + unat (debt_cycles a)
       \<le> unat (debt_cycles a') + unat (runtime_cycles p) * k"
    "unat (debt_cycles a') \<le> unat (debt_cycles a)" "borrowed_cycles a' = 0"
proof -
  let ?R = "unat (runtime_cycles p)" and ?T = "unat (period_cycles p)" and ?D = "unat (debt_cycles a)"
  define periods where "periods = saturating_add (saturating_sub now (replenish_at_cycles a) div period_cycles p) 1"
  define dc where "dc = saturating_sub (debt_cycles a) (saturating_mul (runtime_cycles p) (saturating_sub periods 1))"
  have B: "unat (replenish_at_cycles a) + ?T * k \<le> unat now + ?T"
    using elapsed_periods_bounds [OF p(2) due(2)] by (simp add: k_def)
  have kT: "k \<le> ?T * k" using p(2) by simp
  have k0: "0 < k" by (simp add: k_def elapsed_periods_def)
  have pk: "unat periods = k"
    using B kT room by (simp add: periods_def k_def elapsed_periods_def sat_unat unat_div)
  have tk: "unat (saturating_mul (period_cycles p) periods) = ?T * k"
    using B room by (simp add: sat_unat pk)
  have view: "remaining_cycles (account_view now b a) = runtime_cycles p - min (runtime_cycles p) dc"
      "view_replenish_at (account_view now b a)
         = Some (saturating_add (replenish_at_cycles a) (saturating_mul (period_cycles p) periods))"
      "view_borrowed (account_view now b a) = 0"
      "view_debt (account_view now b a) = dc - min (runtime_cycles p) dc"
    using p(1) due by (simp_all add: account_view_def Let_def periods_def dc_def)
  have a': "replenish_at_cycles a' = saturating_add (replenish_at_cycles a) (saturating_mul (period_cycles p) periods)"
    "runtime_remaining_cycles a' = runtime_cycles p - min (runtime_cycles p) dc"
    "debt_cycles a' = dc - min (runtime_cycles p) dc" "borrowed_cycles a' = 0"
    using p(1) due by (simp_all add: a'_def prepare_def Let_def view)
  show "borrowed_cycles a' = 0" by (rule a')
  show "unat (replenish_at_cycles a') = unat (replenish_at_cycles a) + ?T * k"
    using B room by (simp add: a' sat_unat pk)
  have dc: "unat dc = ?D - min (?R * (k - 1)) (2 ^ 64 - 1)" by (simp add: dc_def sat_unat pk)
  have rem: "unat (runtime_remaining_cycles a') = ?R - min ?R (unat dc)"
    "unat (debt_cycles a') = unat dc - min ?R (unat dc)"
    unfolding a' by (subst unat_sub; simp add: sat_unat)+
  have "?D \<le> unat dc + ?R * (k - 1)" using dc unat_u64_le [of "debt_cycles a"] by linarith
  moreover have "?R * k = ?R * (k - 1) + ?R" using k0 by (cases k) auto
  ultimately show "unat (runtime_remaining_cycles a') + ?D \<le> unat (debt_cycles a') + ?R * k"
    unfolding rem by linarith
  show "unat (debt_cycles a') \<le> ?D" unfolding rem using dc by linarith
qed

lemma prepare_first:
  assumes "period b = Some p" "replenish_at_cycles a = 0"
    "unat now + unat (period_cycles p) < 2 ^ 64"
  shows "unat (replenish_at_cycles (fst (prepare now b a))) = unat now + unat (period_cycles p)"
    "runtime_remaining_cycles (fst (prepare now b a)) = runtime_cycles p"
    "debt_cycles (fst (prepare now b a)) = debt_cycles a"
    "borrowed_cycles (fst (prepare now b a)) = 0"
  using assms by (simp_all add: prepare_def account_view_def Let_def sat_unat)

lemma prepare_not_due:
  "replenish_at_cycles a \<noteq> 0 \<Longrightarrow> now < replenish_at_cycles a \<Longrightarrow> fst (prepare now b a) = a"
  by (simp add: prepare_def Let_def split: option.splits)

text \<open>Charging moves exactly the charged cycles: what is not taken from the runtime is debt.\<close>

lemma unat_sub_min: "unat (c - min c r) = unat (c :: u64) - min (unat c) (unat r)"
  "unat (r - min c r) = unat r - min (unat c) (unat r)"
  by (subst unat_sub; simp add: sat_unat)+

text \<open>The fields \<open>charge_period\<close> writes, with the excess \<open>e\<close> over the remaining runtime.\<close>

lemma charge_period_fields:
  fixes c :: u64 and allow :: bool and a :: budget_account
  assumes "period b = Some p"
  defines "a' \<equiv> fst (charge_period c b allow a)"
    and "e \<equiv> c - min c (runtime_remaining_cycles a)"
    and "v \<equiv> saturating_sub (max_borrow_cycles p) (borrowed_cycles a)"
  shows "runtime_remaining_cycles a' = runtime_remaining_cycles a - min c (runtime_remaining_cycles a)"
    "replenish_at_cycles a' = replenish_at_cycles a"
    "borrowed_cycles a' = (if e \<noteq> 0 \<and> allow \<and> exhaustion p = IdleBorrow
       then saturating_add (borrowed_cycles a) (min e v) else borrowed_cycles a)"
    "debt_cycles a' = (if e = 0 then debt_cycles a
       else if \<not> (allow \<and> exhaustion p = IdleBorrow) then saturating_add (debt_cycles a) e
       else if min e v = e then saturating_add (debt_cycles a) (min e v)
       else saturating_add (saturating_add (debt_cycles a) (min e v)) (saturating_sub e (min e v)))"
  unfolding a'_def charge_period_def Let_def e_def [symmetric] assms(1) option.case
  by (simp_all add: v_def [symmetric])

lemma sat_add_exact: "unat (d :: u64) + unat e < 2 ^ 64 \<Longrightarrow> unat (saturating_add d e) = unat d + unat e"
  by (simp add: saturating_add_exact unat_word_ariths)

lemma sat_add_split:
  assumes "unat (d :: u64) + unat e < 2 ^ 64"
  shows "unat (saturating_add (saturating_add d (min e v)) (saturating_sub e (min e v))) = unat d + unat e"
proof -
  have "unat (saturating_add d (min e v)) = unat d + min (unat e) (unat v)"
    using assms by (subst sat_add_exact) (auto simp: unat_min)
  moreover have "unat (saturating_sub e (min e v)) = unat e - min (unat e) (unat v)" by (simp add: sat_unat)
  ultimately show ?thesis using assms by (subst sat_add_exact) auto
qed

lemma charge_period_debt:
  assumes "period b = Some p" "unat (debt_cycles a) + unat c < 2 ^ 64"
  shows "unat (debt_cycles (fst (charge_period c b allow a)))
    = unat (debt_cycles a) + (unat c - min (unat c) (unat (runtime_remaining_cycles a)))"
proof -
  define e where "e = c - min c (runtime_remaining_cycles a)"
  have e: "unat e = unat c - min (unat c) (unat (runtime_remaining_cycles a))"
    unfolding e_def by (rule unat_sub_min)
  then have lt: "unat (debt_cycles a) + unat e < 2 ^ 64" using assms(2) by linarith
  have "unat (debt_cycles (fst (charge_period c b allow a))) = unat (debt_cycles a) + unat e"
    unfolding charge_period_fields(4) [OF assms(1), where c = c and a = a and allow = allow, folded e_def]
    using sat_add_exact [OF lt] sat_add_split [OF lt] by simp
  then show ?thesis by (simp only: e)
qed

lemma charge_period_remaining:
  assumes "period b = Some p"
  shows "unat (runtime_remaining_cycles (fst (charge_period c b allow a)))
    = unat (runtime_remaining_cycles a) - min (unat c) (unat (runtime_remaining_cycles a))"
  unfolding charge_period_fields(1) [OF assms] by (rule unat_sub_min)

lemma charge_period_borrowed:
  assumes "period b = Some p" "borrowed_cycles a \<le> max_borrow_cycles p"
  shows "borrowed_cycles (fst (charge_period c b allow a)) \<le> max_borrow_cycles p"
proof -
  have "unat (borrowed_cycles a) \<le> unat (max_borrow_cycles p)" using assms(2) by (simp add: word_le_nat_alt)
  then have "unat (saturating_add (borrowed_cycles a) (min e (saturating_sub (max_borrow_cycles p) (borrowed_cycles a))))
      \<le> unat (max_borrow_cycles p)" for e
    unfolding sat_unat by linarith
  then show ?thesis using assms(2) unfolding charge_period_fields(3) [OF assms(1)] by (simp add: word_le_nat_alt)
qed

subsection \<open>Bandwidth\<close>

text \<open>
  A task's history: dispatches, at which the core prepares the account, and charges of
  measured runtime. The second component of the state sums the charged cycles.
\<close>

datatype budget_event = Dispatch u64 | Consume u64 bool

fun budget_step :: "resource_budget \<Rightarrow> budget_event \<Rightarrow> budget_account \<times> nat \<Rightarrow> budget_account \<times> nat" where
  "budget_step b (Dispatch now) (a, used) = (fst (prepare now b a), used)"
| "budget_step b (Consume c allow) (a, used) = (fst (charge_period c b allow a), used + unat c)"

definition bandwidth_ok :: "period_budget \<Rightarrow> nat \<Rightarrow> nat \<Rightarrow> budget_account \<times> nat \<Rightarrow> bool" where
  "bandwidth_ok p t0 tmax s \<longleftrightarrow> (case s of (a, used) \<Rightarrow>
     (\<exists>k. unat (replenish_at_cycles a) = t0 + unat (period_cycles p) * k \<and> 0 < k
        \<and> unat (replenish_at_cycles a) \<le> tmax + unat (period_cycles p)
        \<and> used + unat (runtime_remaining_cycles a) \<le> unat (runtime_cycles p) * k + unat (debt_cycles a))
     \<and> unat (debt_cycles a) \<le> used \<and> borrowed_cycles a \<le> max_borrow_cycles p)"

lemma bandwidth_dispatch:
  assumes "period b = Some p" "period_is_valid p" "bandwidth_ok p t0 tmax (a, used)"
    "unat now \<le> tmax" "tmax + unat (period_cycles p) < 2 ^ 64"
  shows "bandwidth_ok p t0 tmax (fst (prepare now b a), used)"
proof (cases "now < replenish_at_cycles a")
  case True
  then have "replenish_at_cycles a \<noteq> 0" by auto
  with True assms(3) show ?thesis by (simp add: prepare_not_due)
next
  case False
  let ?T = "unat (period_cycles p)" and ?R = "unat (runtime_cycles p)" and ?j = "elapsed_periods now p a"
  have T: "0 < ?T" using assms(2) by (simp add: period_is_valid_def word_less_nat_alt)
  from assms(3) obtain k where k: "unat (replenish_at_cycles a) = t0 + ?T * k" "0 < k"
    "used + unat (runtime_remaining_cycles a) \<le> ?R * k + unat (debt_cycles a)"
    and dl: "unat (debt_cycles a) \<le> used" unfolding bandwidth_ok_def prod.case by blast
  have "0 < unat (replenish_at_cycles a)" using k(1,2) T by simp
  then have nz: "replenish_at_cycles a \<noteq> 0" by auto
  have due: "replenish_at_cycles a \<le> now" using False by simp
  have room: "unat now + ?T < 2 ^ 64" using assms(4,5) by linarith
  note P = prepare_due [OF assms(1) T nz due room]
  have "t0 + ?T * k + ?T * ?j = t0 + ?T * (k + ?j)" by (simp add: distrib_left)
  moreover have "unat (replenish_at_cycles (fst (prepare now b a))) \<le> tmax + ?T"
    using P(1) elapsed_periods_bounds(2) [OF T due] assms(4) by linarith
  moreover have "used + unat (runtime_remaining_cycles (fst (prepare now b a)))
      \<le> ?R * (k + ?j) + unat (debt_cycles (fst (prepare now b a)))"
    using P(2) k(3) unfolding distrib_left by linarith
  ultimately show ?thesis
    using P(1,3,4) k(1,2) dl unfolding bandwidth_ok_def prod.case
    by (intro conjI exI [of _ "k + ?j"]) auto
qed

lemma bandwidth_consume:
  assumes "period b = Some p" "bandwidth_ok p t0 tmax (a, used)" "used + unat c < 2 ^ 64"
  shows "bandwidth_ok p t0 tmax (fst (charge_period c b allow a), used + unat c)"
proof -
  from assms(2) obtain k where k: "unat (replenish_at_cycles a) = t0 + unat (period_cycles p) * k" "0 < k"
    "unat (replenish_at_cycles a) \<le> tmax + unat (period_cycles p)"
    "used + unat (runtime_remaining_cycles a) \<le> unat (runtime_cycles p) * k + unat (debt_cycles a)"
    and dl: "unat (debt_cycles a) \<le> used" "borrowed_cycles a \<le> max_borrow_cycles p"
    unfolding bandwidth_ok_def prod.case by blast
  have D: "unat (debt_cycles (fst (charge_period c b allow a)))
      = unat (debt_cycles a) + (unat c - min (unat c) (unat (runtime_remaining_cycles a)))"
    using assms(1,3) dl by (intro charge_period_debt) auto
  note R = charge_period_remaining [OF assms(1), of c allow a]
  have "used + unat c + unat (runtime_remaining_cycles (fst (charge_period c b allow a)))
      \<le> unat (runtime_cycles p) * k + unat (debt_cycles (fst (charge_period c b allow a)))"
    using k(4) unfolding D R by linarith
  then show ?thesis
    using k dl D charge_period_fields(2) [OF assms(1), of c allow a]
      charge_period_borrowed [OF assms(1) dl(2), of c allow]
    unfolding bandwidth_ok_def prod.case by (intro conjI exI [of _ k]) auto
qed


fun event_time_ok :: "nat \<Rightarrow> budget_event \<Rightarrow> bool" where
  "event_time_ok tmax (Dispatch now) \<longleftrightarrow> unat now \<le> tmax"
| "event_time_ok tmax (Consume c allow) \<longleftrightarrow> True"

lemma budget_step_used: "snd s \<le> snd (budget_step b ev s)"
  by (cases ev; cases s) auto

lemma budget_run_used: "snd s \<le> snd (fold (budget_step b) evs s)"
proof (induction evs arbitrary: s)
  case (Cons ev evs)
  from le_trans [OF budget_step_used Cons.IH] show ?case by simp
qed simp

lemma bandwidth_run:
  assumes "period b = Some p" "period_is_valid p" "tmax + unat (period_cycles p) < 2 ^ 64"
    "list_all (event_time_ok tmax) evs" "bandwidth_ok p t0 tmax s" "snd (fold (budget_step b) evs s) < 2 ^ 64"
  shows "bandwidth_ok p t0 tmax (fold (budget_step b) evs s)"
  using assms(4-)
proof (induction evs arbitrary: s)
  case (Cons ev evs)
  obtain a used where s: "s = (a, used)" by (cases s)
  have lt: "snd (budget_step b ev s) < 2 ^ 64"
    using Cons.prems(3) budget_run_used [of "budget_step b ev s" b evs] by simp
  have "bandwidth_ok p t0 tmax (budget_step b ev s)"
    using Cons.prems(1,2) lt assms(1-3) bandwidth_dispatch [OF assms(1,2), of t0 tmax a used]
      bandwidth_consume [OF assms(1), of t0 tmax a used] by (cases ev) (simp_all add: s)
  then show ?case using Cons.IH Cons.prems by simp
qed simp

lemma bandwidth_first:
  assumes "period b = Some p" "period_is_valid p" "replenish_at_cycles a = 0"
    "unat t0 \<le> tmax" "tmax + unat (period_cycles p) < 2 ^ 64"
  shows "bandwidth_ok p (unat t0) tmax (fst (prepare t0 b (a\<lparr>debt_cycles := 0\<rparr>)), 0)"
proof -
  have "unat t0 + unat (period_cycles p) < 2 ^ 64" using assms(4,5) by linarith
  with prepare_first [OF assms(1), of "a\<lparr>debt_cycles := 0\<rparr>" t0] assms(3,4) show ?thesis
    unfolding bandwidth_ok_def prod.case by (intro conjI exI [of _ 1]) simp_all
qed

lemma periods_le_div:
  fixes t0 T k tmax :: nat
  assumes "0 < T" "t0 + T * k \<le> tmax + T" "0 < k"
  shows "k \<le> (tmax - t0) div T + 1"
proof -
  have "T * (k - 1) \<le> tmax - t0" using assms by (cases k) auto
  then have "k - 1 \<le> (tmax - t0) div T" using assms(1) by (simp add: less_eq_div_iff_mult_less_eq mult.commute)
  then show ?thesis by simp
qed

subsection \<open>Properties\<close>

text \<open>
  C32. No runtime is minted. Take a fresh account with a valid period contract, first
  dispatched at \<open>t0\<close>, and any later sequence of dispatches (at times up to \<open>tmax\<close>, in any order)
  and charges. The cycles consumed in total are at most the runtime of the periods that
  have begun, plus the debt still recorded on the account; and borrowing within a period
  never exceeds its limit.
\<close>

theorem bandwidth_bound:
  assumes "period b = Some p" "period_is_valid p" "unat t0 \<le> tmax" "tmax + unat (period_cycles p) < 2 ^ 64"
    "list_all (event_time_ok tmax) evs"
    "fold (budget_step b) (Dispatch t0 # evs) (new_account, 0) = (a, used)" "used < 2 ^ 64"
  shows "used \<le> unat (runtime_cycles p) * ((tmax - unat t0) div unat (period_cycles p) + 1)
            + unat (debt_cycles a)
    \<and> borrowed_cycles a \<le> max_borrow_cycles p"
proof -
  let ?T = "unat (period_cycles p)" and ?R = "unat (runtime_cycles p)"
  have T: "0 < ?T" using assms(2) by (simp add: period_is_valid_def word_less_nat_alt)
  have new: "new_account\<lparr>debt_cycles := 0\<rparr> = new_account" "replenish_at_cycles new_account = 0"
    by (simp_all add: new_account_def)
  from bandwidth_first [OF assms(1,2) new(2) assms(3,4)]
  have "bandwidth_ok p (unat t0) tmax (fold (budget_step b) evs (fst (prepare t0 b new_account), 0))"
    using assms(6,7) by (intro bandwidth_run [OF assms(1,2,4,5)]) (simp_all add: new)
  then have "bandwidth_ok p (unat t0) tmax (a, used)" using assms(6) by simp
  then obtain k where k: "unat t0 + ?T * k \<le> tmax + ?T" "0 < k"
    "used + unat (runtime_remaining_cycles a) \<le> ?R * k + unat (debt_cycles a)"
    and b: "borrowed_cycles a \<le> max_borrow_cycles p"
    unfolding bandwidth_ok_def prod.case by metis
  have "?R * k \<le> ?R * ((tmax - unat t0) div ?T + 1)"
    using periods_le_div [OF T k(1,2)] by (rule mult_le_mono2)
  then show ?thesis using k(3) b by linarith
qed

theorem bandwidth_bound_witness:
  "\<exists>a used. fold (budget_step (with_period (strict 100 1000) unthrottled))
     [Dispatch 50, Consume 100 False, Dispatch 1060, Consume 30 False] (new_account, 0) = (a, used)
     \<and> used \<le> 100 * ((1060 - 50) div 1000 + 1) + unat (debt_cycles a)"
proof -
  let ?b = "with_period (strict 100 1000) unthrottled"
  let ?evs = "[Consume 100 False, Dispatch 1060, Consume 30 False]"
  obtain a used where r: "fold (budget_step ?b) (Dispatch 50 # ?evs) (new_account, 0) = (a, used)"
    by (rule prod.exhaust)
  then have "used = 130" by simp
  with bandwidth_bound [of ?b "strict 100 1000" 50 1060 ?evs, OF _ _ _ _ _ r] r show ?thesis
    by (simp add: with_period_def strict_def period_is_valid_def)
qed

lemma account_view_shape:
  assumes "period b = Some p"
  shows "\<exists>r. view_replenish_at (account_view now b a) = Some r"
    "eligibility (account_view now b a) = (if remaining_cycles (account_view now b a) > 0 then Eligible
       else if exhaustion p = IdleBorrow \<and> view_borrowed (account_view now b a) < max_borrow_cycles p
       then Borrowable else Throttled)"
  using assms by (simp_all add: account_view_def Let_def split: prod.split)

text \<open>
  The policy sees what the core will commit: after \<open>prepare\<close> at time \<open>now\<close>, the account's
  view at \<open>now\<close> is the view that was computed before it, and preparing again changes nothing.
\<close>

theorem prepare_commits_view:
  assumes "budget_is_valid b" "case period b of None \<Rightarrow> True | Some p \<Rightarrow> unat now + unat (period_cycles p) < 2 ^ 64"
    "prepare now b a = (a', v)"
  shows "v = account_view now b a \<and> account_view now b a' = v \<and> prepare now b a' = (a', v)"
proof (cases "period b")
  case None
  then show ?thesis using assms(3) by (auto simp: prepare_def account_view_def Let_def)
next
  case (Some p)
  have v: "v = account_view now b a" using assms(3) Some by (auto simp: prepare_def Let_def split: if_splits)
  have T: "0 < unat (period_cycles p)" and room: "unat now + unat (period_cycles p) < 2 ^ 64"
    using assms(1,2) Some by (auto simp: budget_is_valid_def period_is_valid_def word_less_nat_alt)
  show ?thesis
  proof (cases "replenish_at_cycles a = 0 \<or> replenish_at_cycles a \<le> now")
    case False
    then have "a' = a" using prepare_not_due [of a now b] assms(3) by (simp add: not_le)
    then show ?thesis using assms(3) v by simp
  next
    case True
    have "unat now < unat (replenish_at_cycles a')"
    proof (cases "replenish_at_cycles a = 0")
      case z: True
      then show ?thesis using prepare_first(1) [OF Some z room] assms(3) T by simp
    next
      case nz: False
      with True have d: "replenish_at_cycles a \<le> now" by simp
      show ?thesis
        using prepare_due(1) [OF Some T nz d room] elapsed_periods_bounds(1) [OF T d] assms(3) by simp
    qed
    then have lt: "now < replenish_at_cycles a'" and nz: "replenish_at_cycles a' \<noteq> 0"
      by (auto simp: word_less_nat_alt)
    have f: "view_replenish_at v = Some (replenish_at_cycles a')" "remaining_cycles v = runtime_remaining_cycles a'"
      "view_borrowed v = borrowed_cycles a'" "view_debt v = debt_cycles a'"
      "eligibility v = (if remaining_cycles v > 0 then Eligible
         else if exhaustion p = IdleBorrow \<and> view_borrowed v < max_borrow_cycles p then Borrowable else Throttled)"
      using assms(3) True Some account_view_shape [OF Some, of now a] unfolding v
      by (auto simp: prepare_def Let_def)
    have "account_view now b a' = v"
      using lt [unfolded not_le [symmetric]] nz Some f
      by (intro budget_view.equality) (simp_all add: account_view_def Let_def)
    moreover have "fst (prepare now b a') = a'" using prepare_not_due [OF nz lt] .
    moreover have "snd (prepare now b a') = account_view now b a'"
      using Some by (simp add: prepare_def Let_def)
    ultimately show ?thesis using v by (simp add: prod_eq_iff)
  qed
qed

theorem prepare_commits_view_witness:
  "account_view 50 (with_period (strict 100 1000) unthrottled)
     (fst (prepare 50 (with_period (strict 100 1000) unthrottled) new_account))
   = account_view 50 (with_period (strict 100 1000) unthrottled) new_account"
  using prepare_commits_view [of "with_period (strict 100 1000) unthrottled" 50 new_account
      "fst (prepare 50 (with_period (strict 100 1000) unthrottled) new_account)"
      "snd (prepare 50 (with_period (strict 100 1000) unthrottled) new_account)"]
  by (simp add: with_period_def strict_def budget_is_valid_def period_is_valid_def unthrottled_def)

text \<open>
  C33. Reverting a donation restores the account exactly, provided no counter saturates: the
  debit side when the totals stay below the word size, and the credit side only when
  the donee had spent at least the donated cycles.
\<close>

theorem donation_reverts:
  assumes "unat (donated_in a) + unat c < 2 ^ 64" "unat (donated_out a) + unat c < 2 ^ 64"
    "unat (cycles_spent a) + unat c < 2 ^ 64"
  shows "revert_debit c (add_debit c a) = a \<and> (revert_credit c (add_credit c a) = a \<longleftrightarrow> c \<le> cycles_spent a)"
proof -
  have e: "saturating_sub (saturating_add x c) c = x" if "unat x + unat c < 2 ^ 64" for x :: u64
    using that sat_add_exact [OF that] by (simp add: word_unat_eq_iff sat_unat)
  have s: "saturating_add (saturating_sub x c) c = x \<longleftrightarrow> c \<le> x" for x :: u64
  proof
    assume "saturating_add (saturating_sub x c) c = x"
    moreover have "unat (saturating_add (saturating_sub x c) c) = min (unat x - unat c + unat c) (2 ^ 64 - 1)"
      by (simp add: sat_unat)
    ultimately have "min (unat x - unat c + unat c) (2 ^ 64 - 1) = unat x" by simp
    then have "unat c \<le> unat x" using unat_u64_le [of c] by linarith
    then show "c \<le> x" by (simp add: word_le_nat_alt)
  next
    assume "c \<le> x"
    then have "unat (saturating_sub x c) + unat c < 2 ^ 64"
      using unat_less_u64 [of x] by (simp add: sat_unat word_le_nat_alt)
    from sat_add_exact [OF this] \<open>c \<le> x\<close> show "saturating_add (saturating_sub x c) c = x"
      by (simp add: word_unat_eq_iff sat_unat word_le_nat_alt)
  qed
  show ?thesis using assms
    by (cases a) (auto simp: revert_debit_def add_debit_def revert_credit_def add_credit_def e s)
qed


theorem donation_reverts_witness:
  "revert_credit 10 (add_credit 10 (new_account\<lparr>cycles_spent := 50\<rparr>)) = new_account\<lparr>cycles_spent := 50\<rparr>
   \<and> revert_credit 10 (add_credit 10 new_account) \<noteq> new_account"
  using donation_reverts [of "new_account\<lparr>cycles_spent := 50\<rparr>" 10] donation_reverts [of new_account 10]
  by (simp add: new_account_def)

text \<open>
  Burst accounting on every branch: each poll is counted and its cycles added; an overrun is
  counted exactly when the cycles exceed the burst, and only then does the outcome follow the
  overrun policy.
\<close>

theorem charge_outcome_exact:
  assumes "charge c b a = (a', out)"
  shows "polls a' = saturating_add (polls a) 1 \<and> cycles_spent a' = saturating_add (cycles_spent a) c
    \<and> overruns a' = (if burst_cycles b < c then saturating_add (overruns a) 1 else overruns a)
    \<and> (out = Continue \<longleftrightarrow> c \<le> burst_cycles b \<or> policy b = Ignore)
    \<and> (out = ThrottleTask \<longleftrightarrow> burst_cycles b < c \<and> policy b = Throttle)
    \<and> (out = DemoteTask \<longleftrightarrow> burst_cycles b < c \<and> policy b = Demote)
    \<and> (out = KillTask \<longleftrightarrow> burst_cycles b < c \<and> policy b = Kill)
    \<and> out \<noteq> PeriodExhausted"
  using assms by (cases "policy b") (auto simp: charge_def Let_def not_less split: if_splits)

theorem charge_outcome_exact_witness:
  "snd (charge 200 (fair_share 500000 100) new_account) = ThrottleTask"
  using charge_outcome_exact [of 200 "fair_share 500000 100" new_account
      "fst (charge 200 (fair_share 500000 100) new_account)" "snd (charge 200 (fair_share 500000 100) new_account)"]
  by (simp add: fair_share_def)

end
