(* ===== verification/Sched_Policy.thy ===== *)
theory Sched_Policy
  imports Budget
begin

text \<open>
  The scheduling policies of \<open>scheduler/src\<close>: classes and priorities (\<open>priority.rs\<close>), CPU sets
  (\<open>affinity.rs\<close>), the default EEVDF-lite policy (\<open>eevdf.rs\<close>), the class, priority and FIFO
  policies and the idle-sibling search (\<open>policy.rs\<close>). A policy is a pure function of the run
  queue: a list of rows in queue order. Every pick is the same loop, a scan that keeps the
  best candidate so far under a policy-specific order; the locale \<open>pick_order\<close> states what the loop
  needs of that order and what it then returns.

  Nice priorities, real-time order numbers and NUMA nodes are only compared, so they are
  integers and natural numbers; virtual times are 64-bit words.
\<close>

subsection \<open>Classes and CPU sets\<close>

datatype sched_class = Idle | Batch | Default | Interactive | Realtime

fun rank :: "sched_class \<Rightarrow> nat" where
  "rank Idle = 0"
| "rank Batch = 1"
| "rank Default = 2"
| "rank Interactive = 3"
| "rank Realtime = 4"

definition from_rank :: "nat \<Rightarrow> sched_class" where
  "from_rank r =
     (if r = 0 then Idle else if r = 1 then Batch else if r = 3 then Interactive
      else if r = 4 then Realtime else Default)"

lemma rank_inj [simp]: "rank a = rank b \<longleftrightarrow> a = b"
  by (cases a; cases b) auto

type_synonym cpu_set = u64

definition cpu_bit :: "nat \<Rightarrow> u64" where
  "cpu_bit cpu = push_bit (cpu mod 64) 1"

definition cpuset_single :: "nat \<Rightarrow> cpu_set" where
  "cpuset_single cpu = cpu_bit cpu"

definition cpuset_intersection :: "cpu_set \<Rightarrow> cpu_set \<Rightarrow> cpu_set" where
  "cpuset_intersection a b = a AND b"

definition cpuset_contains :: "cpu_set \<Rightarrow> nat \<Rightarrow> bool" where
  "cpuset_contains s cpu \<longleftrightarrow> s AND cpu_bit cpu \<noteq> 0"

definition cpuset_insert :: "nat \<Rightarrow> cpu_set \<Rightarrow> cpu_set" where
  "cpuset_insert cpu s = s OR cpu_bit cpu"

definition cpuset_is_empty :: "cpu_set \<Rightarrow> bool" where
  "cpuset_is_empty s \<longleftrightarrow> s = 0"

subsection \<open>Queue rows\<close>

datatype wake_reason = BlockingIo

text \<open>
  The EEVDF policy scans the lean projection \<open>SchedRow\<close> of a queued slot. The class, priority and
  FIFO policies scan \<open>TaskMeta\<close>, which has the same decision fields and, for the real-time
  tie-break, the deadline and the arrival order.
\<close>

record sched_row =
  row_wake_reason :: "wake_reason option"
  row_handle :: nat
  row_class :: sched_class
  row_priority :: int
  row_eligibility :: budget_eligibility
  row_runnable :: bool
  row_addr_space :: bool
  row_vruntime :: u64

record task_meta = sched_row +
  row_deadline :: "u64 option"
  row_rt_order :: int

text \<open>
  The selection loop shared by the policies: skip rows that are not candidates, and replace
  the best row so far when the new row's key is better.
\<close>

fun scan_best ::
    "('r \<Rightarrow> bool) \<Rightarrow> ('r \<Rightarrow> 'k) \<Rightarrow> ('k \<Rightarrow> 'k \<Rightarrow> bool) \<Rightarrow> 'r list \<Rightarrow> ('r \<times> 'k) option \<Rightarrow> ('r \<times> 'k) option" where
  "scan_best cand key better [] best = best"
| "scan_best cand key better (row # rows) best =
     (if \<not> cand row then scan_best cand key better rows best
      else
        (let take = (case best of None \<Rightarrow> True | Some (_, bkey) \<Rightarrow> better (key row) bkey)
         in scan_best cand key better rows (if take then Some (row, key row) else best)))"

definition front :: "'a sched_row_scheme list \<Rightarrow> nat option" where
  "front rows = (case rows of [] \<Rightarrow> None | row # _ \<Rightarrow> Some (row_handle row))"

definition or_else :: "'a option \<Rightarrow> 'a option \<Rightarrow> 'a option" where
  "or_else a b = (case a of None \<Rightarrow> b | Some x \<Rightarrow> Some x)"

subsection \<open>The EEVDF-lite policy\<close>

definition DEFAULT_SLICE_CYCLES :: u64 where "DEFAULT_SLICE_CYCLES = 33000000"
definition EEVDF_BASE_SLICE :: u64 where "EEVDF_BASE_SLICE = DEFAULT_SLICE_CYCLES div 16"
definition WAKE_PROTECT_SLICE :: u64 where "WAKE_PROTECT_SLICE = DEFAULT_SLICE_CYCLES div 32"

definition v_eff :: "u64 \<Rightarrow> u64 \<Rightarrow> u64" where
  "v_eff vruntime vfloor = max vruntime (saturating_sub vfloor EEVDF_BASE_SLICE)"

definition d_eff :: "u64 \<Rightarrow> u64 \<Rightarrow> u64" where
  "d_eff vruntime vfloor = saturating_add (v_eff vruntime vfloor) EEVDF_BASE_SLICE"

fun tier :: "budget_eligibility \<Rightarrow> nat" where
  "tier Eligible = 2"
| "tier Borrowable = 1"
| "tier Throttled = 0"

record pick_key =
  key_tier :: nat
  key_class :: sched_class
  key_deadline :: u64
  key_prio :: int

definition better_pick :: "pick_key \<Rightarrow> pick_key \<Rightarrow> bool" where
  "better_pick a b =
     (if key_tier a \<noteq> key_tier b then key_tier a > key_tier b
      else if rank (key_class a) \<noteq> rank (key_class b) then rank (key_class a) > rank (key_class b)
      else if key_deadline a \<noteq> key_deadline b then key_deadline a < key_deadline b
      else key_prio a < key_prio b)"

definition eevdf_should_preempt :: "sched_class \<Rightarrow> u64 \<Rightarrow> sched_class \<Rightarrow> u64 \<Rightarrow> bool" where
  "eevdf_should_preempt runner_class runner_now wakee_class wakee_d_eff =
     (if rank wakee_class \<noteq> rank runner_class then rank wakee_class > rank runner_class
      else wakee_d_eff < runner_now)"

definition candidate :: "'a sched_row_scheme \<Rightarrow> bool" where
  "candidate row \<longleftrightarrow> row_runnable row \<and> row_eligibility row \<noteq> Throttled"

definition eevdf_key :: "u64 \<Rightarrow> sched_row \<Rightarrow> pick_key" where
  "eevdf_key vfloor row =
     \<lparr>key_tier = tier (row_eligibility row), key_class = row_class row,
      key_deadline = d_eff (row_vruntime row) vfloor, key_prio = row_priority row\<rparr>"

definition eevdf_pick_next :: "u64 \<Rightarrow> sched_row list \<Rightarrow> nat option" where
  "eevdf_pick_next vfloor queue =
     or_else (map_option (\<lambda>(row, _). row_handle row)
                (scan_best candidate (eevdf_key vfloor) better_pick queue None))
       (front queue)"

text \<open>The wake-up scan orders by class rank and then by raw virtual deadline.\<close>

fun wake_better :: "sched_class \<times> u64 \<Rightarrow> sched_class \<times> u64 \<Rightarrow> bool" where
  "wake_better (c, d) (bc, bd) \<longleftrightarrow> rank c > rank bc \<or> (rank c = rank bc \<and> d < bd)"

record current_task =
  cur_id :: nat
  cur_class :: sched_class
  cur_vruntime :: u64

definition wake_key :: "sched_row \<Rightarrow> sched_class \<times> u64" where
  "wake_key row = (row_class row, saturating_add (row_vruntime row) EEVDF_BASE_SLICE)"

definition wakeup_preempt :: "current_task \<Rightarrow> u64 \<Rightarrow> sched_row list \<Rightarrow> bool" where
  "wakeup_preempt current elapsed queue =
     (case scan_best (\<lambda>row. candidate row \<and> row_handle row \<noteq> cur_id current) wake_key wake_better queue None of
        None \<Rightarrow> False
      | Some (_, wclass, wd) \<Rightarrow>
          if rank wclass > rank (cur_class current) then True
          else if rank wclass < rank (cur_class current) then False
          else if elapsed < WAKE_PROTECT_SLICE then False
          else eevdf_should_preempt (cur_class current) (saturating_add (cur_vruntime current) elapsed)
                 wclass wd)"

subsection \<open>The class, priority and FIFO policies\<close>

definition class_better :: "task_meta \<Rightarrow> task_meta \<Rightarrow> bool" where
  "class_better meta current =
     (if row_eligibility meta \<noteq> row_eligibility current
      then tier (row_eligibility meta) > tier (row_eligibility current)
      else if rank (row_class meta) \<noteq> rank (row_class current)
      then rank (row_class meta) > rank (row_class current)
      else if row_priority meta \<noteq> row_priority current then row_priority meta < row_priority current
      else if row_class meta = Realtime
      then (case (row_deadline meta, row_deadline current) of
              (Some cand, Some incumbent) \<Rightarrow> cand < incumbent
            | (Some _, None) \<Rightarrow> True
            | (None, Some _) \<Rightarrow> False
            | (None, None) \<Rightarrow> row_rt_order meta < row_rt_order current)
      else False)"

definition class_pick_next :: "task_meta list \<Rightarrow> nat option" where
  "class_pick_next queue =
     map_option (\<lambda>(row, _). row_handle row) (scan_best candidate (\<lambda>row. row) class_better queue None)"

definition priority_better :: "task_meta \<Rightarrow> task_meta \<Rightarrow> bool" where
  "priority_better meta current \<longleftrightarrow>
     (row_eligibility meta = Eligible \<and> row_eligibility current = Borrowable)
     \<or> (row_eligibility meta = row_eligibility current \<and> row_priority meta < row_priority current)"

definition priority_pick_next :: "task_meta list \<Rightarrow> nat option" where
  "priority_pick_next queue =
     map_option (\<lambda>(row, _). row_handle row) (scan_best candidate (\<lambda>row. row) priority_better queue None)"

definition fifo_pick_next :: "task_meta list \<Rightarrow> nat option" where
  "fifo_pick_next queue =
     or_else (map_option row_handle
       (List.find (\<lambda>row. row_runnable row \<and> row_eligibility row = Eligible) queue))
       (or_else (map_option row_handle
          (List.find (\<lambda>row. row_runnable row \<and> row_eligibility row = Borrowable) queue))
          (front queue))"

subsection \<open>Wake-time CPU selection\<close>

definition MAX_CPUS :: nat where "MAX_CPUS = 64"

text \<open>The ACPI node of a CPU is a parameter; CPUs are scanned outward from \<open>prev_cpu\<close>.\<close>

definition same_node :: "(nat \<Rightarrow> nat option) \<Rightarrow> nat \<Rightarrow> nat \<Rightarrow> bool" where
  "same_node cpu_node prev_cpu c \<longleftrightarrow> cpu_node prev_cpu = None \<or> cpu_node c = cpu_node prev_cpu"

definition sibling_scan :: "nat \<Rightarrow> (nat \<Rightarrow> bool) \<Rightarrow> nat option" where
  "sibling_scan prev_cpu ok = List.find ok (map (\<lambda>i. (prev_cpu + i) mod MAX_CPUS) [1..<MAX_CPUS])"

definition select_idle_sibling ::
    "(nat \<Rightarrow> nat option) \<Rightarrow> nat \<Rightarrow> nat \<Rightarrow> (nat \<Rightarrow> bool) \<Rightarrow> (nat \<Rightarrow> bool) \<Rightarrow> (nat \<Rightarrow> bool) \<Rightarrow> nat option" where
  "select_idle_sibling cpu_node prev_cpu waker_cpu is_online is_idle allowed =
     (if waker_cpu \<noteq> prev_cpu \<and> is_online waker_cpu \<and> is_idle waker_cpu
         \<and> same_node cpu_node prev_cpu waker_cpu \<and> allowed waker_cpu
      then Some waker_cpu
      else
        or_else
          (if cpu_node prev_cpu \<noteq> None
           then sibling_scan prev_cpu (\<lambda>c. is_online c \<and> is_idle c \<and> same_node cpu_node prev_cpu c \<and> allowed c)
           else None)
          (sibling_scan prev_cpu (\<lambda>c. is_online c \<and> is_idle c \<and> allowed c)))"

subsection \<open>The selection loop\<close>

locale pick_order =
  fixes better :: "'k \<Rightarrow> 'k \<Rightarrow> bool"
  assumes asym: "better a b \<Longrightarrow> \<not> better b a"
    and neg_trans: "\<not> better a b \<Longrightarrow> \<not> better b c \<Longrightarrow> \<not> better a c"
begin

text \<open>
  The row picked after scanning a prefix: a candidate, no candidate is better, and it is
  strictly better than every candidate before it, so equals keep queue order.
\<close>

definition picked :: "('r \<Rightarrow> bool) \<Rightarrow> ('r \<Rightarrow> 'k) \<Rightarrow> 'r list \<Rightarrow> 'r \<Rightarrow> bool" where
  "picked cand key rows r \<longleftrightarrow> (\<exists>i < length rows. rows ! i = r \<and> cand r
     \<and> (\<forall>j < length rows. cand (rows ! j) \<longrightarrow> \<not> better (key (rows ! j)) (key r))
     \<and> (\<forall>j < i. cand (rows ! j) \<longrightarrow> better (key r) (key (rows ! j))))"

definition scanned :: "('r \<Rightarrow> bool) \<Rightarrow> ('r \<Rightarrow> 'k) \<Rightarrow> 'r list \<Rightarrow> ('r \<times> 'k) option \<Rightarrow> bool" where
  "scanned cand key rows best \<longleftrightarrow> (case best of
      None \<Rightarrow> \<not> list_ex cand rows
    | Some (r, k) \<Rightarrow> k = key r \<and> picked cand key rows r)"

lemma picked_skip: "picked cand key rows r \<Longrightarrow> \<not> cand x \<Longrightarrow> picked cand key (rows @ [x]) r"
  unfolding picked_def by (auto simp: nth_append less_Suc_eq)

lemma picked_keep:
  "picked cand key rows r \<Longrightarrow> \<not> better (key x) (key r) \<Longrightarrow> picked cand key (rows @ [x]) r"
  unfolding picked_def by (auto simp: nth_append less_Suc_eq)

lemma irrefl: "\<not> better a a"
  using asym by blast

lemma picked_replace:
  assumes "picked cand key rows r" "better (key x) (key r)" "cand x"
  shows "picked cand key (rows @ [x]) x"
proof -
  have b: "better (key x) (key (rows ! j))" if "j < length rows" "cand (rows ! j)" for j
    using assms that neg_trans unfolding picked_def by blast
  then have "\<not> better (key (rows ! j)) (key x)" if "j < length rows" "cand (rows ! j)" for j
    using that asym by blast
  then show ?thesis
    unfolding picked_def using b assms(3) irrefl
    by (intro exI [of _ "length rows"]) (auto simp: nth_append less_Suc_eq)
qed

lemma picked_first: "\<not> list_ex cand rows \<Longrightarrow> cand x \<Longrightarrow> picked cand key (rows @ [x]) x"
  unfolding picked_def
  by (intro exI [of _ "length rows"]) (auto simp: nth_append less_Suc_eq list_ex_length irrefl)

lemma scan_best_scanned:
  "scanned cand key done best \<Longrightarrow> scanned cand key (done @ rows) (scan_best cand key better rows best)"
proof (induction rows arbitrary: "done" best)
  case (Cons x rows)
  let ?b = "if \<not> cand x then best
      else if (case best of None \<Rightarrow> True | Some (_, bkey) \<Rightarrow> better (key x) bkey) then Some (x, key x) else best"
  have "scanned cand key (done @ [x]) ?b"
    using Cons.prems picked_first [of cand "done" x key] picked_skip [of cand key "done" _ x]
      picked_keep [of cand key "done" _ x] picked_replace [of cand key "done" _ x]
    by (cases best) (auto simp: scanned_def)
  from Cons.IH [OF this] show ?case by (auto simp: Let_def)
qed simp

lemma scan_best_None: "scan_best cand key better rows None = None \<longleftrightarrow> \<not> list_ex cand rows"
  using scan_best_scanned [of cand key "[]" None rows]
  by (auto simp: scanned_def picked_def list_ex_length split: option.splits)

lemma scan_best_Some:
  "scan_best cand key better rows None = Some (r, k) \<Longrightarrow> k = key r \<and> picked cand key rows r"
  using scan_best_scanned [of cand key "[]" None rows] by (simp add: scanned_def)

end


interpretation eevdf: pick_order better_pick
  by standard (auto simp: better_pick_def split: if_splits)

interpretation wake: pick_order wake_better
proof (standard, goal_cases)
  case (1 a b)
  then show ?case by (cases a; cases b) auto
next
  case (2 a b c)
  then show ?case by (cases a; cases b; cases c) auto
qed

lemma tier_inj [simp]: "tier a = tier b \<longleftrightarrow> a = b"
  by (cases a; cases b) auto

text \<open>The real-time tie-break of the class policy, as an order on deadline and arrival.\<close>

fun rt_before :: "u64 option \<times> int \<Rightarrow> u64 option \<times> int \<Rightarrow> bool" where
  "rt_before (Some d, _) (Some e, _) \<longleftrightarrow> d < e"
| "rt_before (Some _, _) (None, _) \<longleftrightarrow> True"
| "rt_before (None, _) (Some _, _) \<longleftrightarrow> False"
| "rt_before (None, o1) (None, o2) \<longleftrightarrow> o1 < o2"

lemma rt_before_asym: "rt_before a b \<Longrightarrow> \<not> rt_before b a"
  by (induction a b rule: rt_before.induct) auto

lemma rt_before_neg_trans: "\<not> rt_before a b \<Longrightarrow> \<not> rt_before b c \<Longrightarrow> \<not> rt_before a c"
  by (cases a; cases b; cases c; cases "fst a"; cases "fst b"; cases "fst c") auto

lemma class_better_eq:
  "class_better a b \<longleftrightarrow>
     tier (row_eligibility a) > tier (row_eligibility b)
     \<or> row_eligibility a = row_eligibility b \<and> (rank (row_class a) > rank (row_class b)
       \<or> row_class a = row_class b \<and> (row_priority a < row_priority b
         \<or> row_priority a = row_priority b \<and> row_class a = Realtime
           \<and> rt_before (row_deadline a, row_rt_order a) (row_deadline b, row_rt_order b)))"
  by (cases "row_deadline a"; cases "row_deadline b") (auto simp: class_better_def)

interpretation class_order: pick_order class_better
proof (standard, goal_cases)
  case (1 a b)
  then show ?case unfolding class_better_eq by (auto dest: rt_before_asym)
next
  case (2 a b c)
  then show ?case unfolding class_better_eq
    using rt_before_neg_trans [of "(row_deadline a, row_rt_order a)" "(row_deadline b, row_rt_order b)"
        "(row_deadline c, row_rt_order c)"] by force
qed

text \<open>
  The priority policy's comparison is an order only between candidates; there it is the
  lexicographic order on tier and priority.
\<close>

definition tier_prio_better :: "task_meta \<Rightarrow> task_meta \<Rightarrow> bool" where
  "tier_prio_better a b \<longleftrightarrow> tier (row_eligibility a) > tier (row_eligibility b)
     \<or> row_eligibility a = row_eligibility b \<and> row_priority a < row_priority b"

interpretation priority_order: pick_order tier_prio_better
  by standard (auto simp: tier_prio_better_def)

lemma scan_best_cong:
  assumes "\<And>a b. cand a \<Longrightarrow> cand b \<Longrightarrow> better a b = better' a b" "\<forall>(r, k) \<in> set_option best. cand k"
  shows "scan_best cand (\<lambda>r. r) better rows best = scan_best cand (\<lambda>r. r) better' rows best"
  using assms(2) by (induction rows arbitrary: best) (auto simp: Let_def assms(1) split: option.splits)

lemma priority_scan_eq:
  "scan_best candidate (\<lambda>r. r) priority_better rows None = scan_best candidate (\<lambda>r. r) tier_prio_better rows None"
proof (rule scan_best_cong)
  fix a b :: task_meta assume "candidate a" "candidate b"
  then show "priority_better a b = tier_prio_better a b"
    by (cases "row_eligibility a"; cases "row_eligibility b")
      (auto simp: candidate_def priority_better_def tier_prio_better_def)
qed simp

lemma priority_better_imp: "priority_better a b \<Longrightarrow> tier_prio_better a b"
  by (auto simp: priority_better_def tier_prio_better_def)

subsection \<open>Properties\<close>

lemma or_else_None [simp]: "or_else None b = b" "or_else (Some x) b = Some x"
  by (simp_all add: or_else_def)

lemma EEVDF_BASE_SLICE_val: "EEVDF_BASE_SLICE = 2062500"
  by (simp add: EEVDF_BASE_SLICE_def DEFAULT_SLICE_CYCLES_def)

text \<open>
  What the EEVDF policy promises, on the raw fields of the rows. A row can be dispatched when it is
  runnable and its budget is eligible or borrowable. Its virtual deadline is one base slice
  (2062500 cycles) after its virtual runtime, which counts as no earlier than one base slice before
  the floor; both ends saturate at 64 bits. Of two rows with their queue positions, the one served
  first has the better budget, then the higher class, then the earlier virtual deadline, then
  the lower nice value, then the earlier position.
\<close>

definition dispatchable :: "sched_row \<Rightarrow> bool" where
  "dispatchable r \<longleftrightarrow> row_runnable r \<and> (row_eligibility r = Eligible \<or> row_eligibility r = Borrowable)"

definition virtual_deadline :: "u64 \<Rightarrow> sched_row \<Rightarrow> nat" where
  "virtual_deadline vfloor r =
     min (max (unat (row_vruntime r)) (unat vfloor - 2062500) + 2062500) (2 ^ 64 - 1)"

definition class_above :: "sched_class \<Rightarrow> sched_class list" where
  "class_above c =
     (case c of Idle \<Rightarrow> [Batch, Default, Interactive, Realtime] | Batch \<Rightarrow> [Default, Interactive, Realtime]
      | Default \<Rightarrow> [Interactive, Realtime] | Interactive \<Rightarrow> [Realtime] | Realtime \<Rightarrow> [])"

definition served_before :: "u64 \<Rightarrow> sched_row \<times> nat \<Rightarrow> sched_row \<times> nat \<Rightarrow> bool" where
  "served_before vfloor = (\<lambda>(p, i) (q, j).
     row_eligibility p = Eligible \<and> row_eligibility q = Borrowable
     \<or> row_eligibility p = row_eligibility q \<and>
       (row_class p \<in> set (class_above (row_class q))
        \<or> row_class p = row_class q \<and>
          (virtual_deadline vfloor p < virtual_deadline vfloor q
           \<or> virtual_deadline vfloor p = virtual_deadline vfloor q \<and>
             (row_priority p < row_priority q \<or> row_priority p = row_priority q \<and> i < j))))"

lemma candidate_dispatchable: "candidate r \<longleftrightarrow> dispatchable r"
  by (cases "row_eligibility r") (auto simp: candidate_def dispatchable_def)

lemma d_eff_virtual_deadline: "unat (d_eff (row_vruntime r) vfloor) = virtual_deadline vfloor r"
  by (simp add: d_eff_def v_eff_def sat_unat virtual_deadline_def EEVDF_BASE_SLICE_val min.commute)

lemma rank_class_above: "rank a > rank b \<longleftrightarrow> a \<in> set (class_above b)"
  by (cases a; cases b) (auto simp: class_above_def)

lemma rank_total: "a \<noteq> b \<Longrightarrow> \<not> rank a < rank b \<Longrightarrow> rank b < rank a"
  by (metis linorder_neqE_nat rank_inj)

lemma better_pick_served_before:
  assumes "dispatchable p" "dispatchable q"
  shows "better_pick (eevdf_key vfloor p) (eevdf_key vfloor q) \<and> i \<noteq> j
     \<or> \<not> better_pick (eevdf_key vfloor q) (eevdf_key vfloor p) \<and> i < j \<Longrightarrow> served_before vfloor (p, i) (q, j)"
  using assms
  by (cases "row_eligibility p"; cases "row_eligibility q")
    (auto simp: better_pick_def eevdf_key_def dispatchable_def served_before_def rank_class_above [symmetric]
      d_eff_virtual_deadline [symmetric] word_less_nat_alt word_unat_eq_iff
      split: if_splits dest: rank_total)

text \<open>
  C34. The EEVDF pick, decided on the raw fields of the rows. When some row is runnable and not
  throttled, the policy returns such a row that is served before every other one: better budget
  tier, then higher class, then earlier virtual deadline, then lower nice value, then the
  earlier queue position. When there is none it returns the front of the queue.
\<close>

theorem eevdf_pick_optimal:
  "(if \<exists>r \<in> set queue. dispatchable r
    then \<exists>i < length queue. eevdf_pick_next vfloor queue = Some (row_handle (queue ! i)) \<and> dispatchable (queue ! i)
      \<and> (\<forall>j < length queue. j \<noteq> i \<and> dispatchable (queue ! j) \<longrightarrow>
           served_before vfloor (queue ! i, i) (queue ! j, j))
    else eevdf_pick_next vfloor queue = (case queue of [] \<Rightarrow> None | r # _ \<Rightarrow> Some (row_handle r)))"
proof (cases "scan_best candidate (eevdf_key vfloor) better_pick queue None")
  case None
  then show ?thesis using eevdf.scan_best_None [of candidate "eevdf_key vfloor" queue]
    by (auto simp: eevdf_pick_next_def candidate_dispatchable list_ex_iff front_def)
next
  case (Some p)
  obtain r k where p: "p = (r, k)" by (cases p)
  then have ex: "\<exists>r \<in> set queue. dispatchable r"
    using Some eevdf.scan_best_None [of candidate "eevdf_key vfloor" queue]
    by (auto simp: candidate_dispatchable list_ex_iff)
  have pick: "eevdf_pick_next vfloor queue = Some (row_handle r)" using Some p by (simp add: eevdf_pick_next_def)
  obtain i where i: "i < length queue" "queue ! i = r" "dispatchable r"
      "\<And>j. j < length queue \<Longrightarrow> dispatchable (queue ! j) \<Longrightarrow>
         \<not> better_pick (eevdf_key vfloor (queue ! j)) (eevdf_key vfloor r)"
      "\<And>j. j < i \<Longrightarrow> dispatchable (queue ! j) \<Longrightarrow>
         better_pick (eevdf_key vfloor r) (eevdf_key vfloor (queue ! j))"
    using eevdf.scan_best_Some [OF Some [unfolded p]] unfolding eevdf.picked_def candidate_dispatchable by metis
  have "served_before vfloor (r, i) (queue ! j, j)"
    if "j < length queue" "j \<noteq> i" "dispatchable (queue ! j)" for j
  proof (rule better_pick_served_before [OF i(3) that(3)])
    show "better_pick (eevdf_key vfloor r) (eevdf_key vfloor (queue ! j)) \<and> i \<noteq> j
       \<or> \<not> better_pick (eevdf_key vfloor (queue ! j)) (eevdf_key vfloor r) \<and> i < j"
      using i(4) [OF that(1,3)] i(5) [OF _ that(3)] that(2) by (cases "j < i") auto
  qed
  with ex pick i show ?thesis by auto
qed

text \<open>Two waiting rows for the concrete runs below.\<close>

definition row_a :: sched_row where
  "row_a = \<lparr>row_wake_reason = None, row_handle = 1, row_class = Default, row_priority = 0,
     row_eligibility = Eligible, row_runnable = True, row_addr_space = False, row_vruntime = 5000000\<rparr>"

definition row_b :: sched_row where
  "row_b = row_a\<lparr>row_handle := 2, row_vruntime := 100\<rparr>"

theorem eevdf_pick_optimal_witness: "eevdf_pick_next 0 [row_a, row_b] = Some 2"
proof -
  have d: "dispatchable row_a" "dispatchable row_b" by (simp_all add: row_a_def row_b_def dispatchable_def)
  have "\<not> served_before 0 (row_a, 0) (row_b, 1)"
    by (simp add: served_before_def virtual_deadline_def row_a_def row_b_def class_above_def)
  moreover obtain i where i: "i < Suc (Suc 0)" "eevdf_pick_next 0 [row_a, row_b] = Some (row_handle ([row_a, row_b] ! i))"
      "\<forall>j < Suc (Suc 0). j \<noteq> i \<and> dispatchable ([row_a, row_b] ! j) \<longrightarrow>
         served_before 0 ([row_a, row_b] ! i, i) ([row_a, row_b] ! j, j)"
    using eevdf_pick_optimal [of "[row_a, row_b]" 0] d by auto
  ultimately have "i = 1" using d by (cases i) auto
  with i(2) show ?thesis by (simp add: row_b_def)
qed

text \<open>
  Strict class scheduling. The class policy returns nothing exactly when no row is a candidate,
  and otherwise the first of the best candidates: no candidate has a better budget tier,
  then a higher class, then a lower priority number, then (real-time only) an earlier
  deadline or arrival. The priority policy is optimal in the same sense for tier and priority.
\<close>

theorem class_pick_optimal:
  "(class_pick_next queue = None \<longleftrightarrow> \<not> list_ex candidate queue)
   \<and> (\<forall>h. class_pick_next queue = Some h \<longrightarrow> (\<exists>i < length queue. row_handle (queue ! i) = h
        \<and> candidate (queue ! i)
        \<and> (\<forall>j < length queue. candidate (queue ! j) \<longrightarrow> \<not> class_better (queue ! j) (queue ! i))
        \<and> (\<forall>j < i. candidate (queue ! j) \<longrightarrow> class_better (queue ! i) (queue ! j))))
   \<and> (\<forall>h. priority_pick_next queue = Some h \<longrightarrow> (\<exists>i < length queue. row_handle (queue ! i) = h
        \<and> candidate (queue ! i)
        \<and> (\<forall>j < length queue. candidate (queue ! j) \<longrightarrow> \<not> priority_better (queue ! j) (queue ! i))))"
proof (intro conjI allI impI)
  show "class_pick_next queue = None \<longleftrightarrow> \<not> list_ex candidate queue"
    using class_order.scan_best_None [of candidate "\<lambda>r. r" queue] by (simp add: class_pick_next_def)
next
  fix h assume "class_pick_next queue = Some h"
  then obtain r k where r: "scan_best candidate (\<lambda>r. r) class_better queue None = Some (r, k)" "h = row_handle r"
    by (auto simp: class_pick_next_def)
  then show "\<exists>i < length queue. row_handle (queue ! i) = h \<and> candidate (queue ! i)
        \<and> (\<forall>j < length queue. candidate (queue ! j) \<longrightarrow> \<not> class_better (queue ! j) (queue ! i))
        \<and> (\<forall>j < i. candidate (queue ! j) \<longrightarrow> class_better (queue ! i) (queue ! j))"
    using class_order.scan_best_Some [OF r(1)] unfolding class_order.picked_def by auto
next
  fix h assume "priority_pick_next queue = Some h"
  then obtain r k where r: "scan_best candidate (\<lambda>r. r) tier_prio_better queue None = Some (r, k)" "h = row_handle r"
    by (auto simp: priority_pick_next_def priority_scan_eq)
  then have "\<exists>i < length queue. row_handle (queue ! i) = h \<and> candidate (queue ! i)
        \<and> (\<forall>j < length queue. candidate (queue ! j) \<longrightarrow> \<not> tier_prio_better (queue ! j) (queue ! i))"
    using priority_order.scan_best_Some [OF r(1)] unfolding priority_order.picked_def by auto
  then show "\<exists>i < length queue. row_handle (queue ! i) = h \<and> candidate (queue ! i)
        \<and> (\<forall>j < length queue. candidate (queue ! j) \<longrightarrow> \<not> priority_better (queue ! j) (queue ! i))"
    using priority_better_imp by blast
qed

definition meta_a :: task_meta where
  "meta_a = sched_row.extend row_a \<lparr>row_deadline = None, row_rt_order = 0\<rparr>"

theorem class_pick_optimal_witness:
  "class_pick_next [meta_a\<lparr>row_runnable := False\<rparr>] = None \<and> class_pick_next [meta_a] \<noteq> None"
  using class_pick_optimal [of "[meta_a\<lparr>row_runnable := False\<rparr>]"] class_pick_optimal [of "[meta_a]"]
  by (simp add: candidate_def meta_a_def row_a_def sched_row.defs)

text \<open>
  C35. Wake-up preemption, decided exactly. With the waiters being the candidates other than the
  runner, the runner is preempted if and only if some waiter has a higher class, or no
  waiter has a higher class, the runner has used up its protected window, and some waiter of its class
  has a virtual deadline before the runner's virtual clock.
\<close>

theorem wakeup_preempt_exact:
  "wakeup_preempt cur elapsed queue \<longleftrightarrow>
    (\<exists>r \<in> set queue. candidate r \<and> row_handle r \<noteq> cur_id cur \<and>
      (rank (row_class r) > rank (cur_class cur)
       \<or> (\<forall>q \<in> set queue. candidate q \<and> row_handle q \<noteq> cur_id cur \<longrightarrow> rank (row_class q) \<le> rank (cur_class cur))
         \<and> row_class r = cur_class cur \<and> WAKE_PROTECT_SLICE \<le> elapsed
         \<and> saturating_add (row_vruntime r) EEVDF_BASE_SLICE < saturating_add (cur_vruntime cur) elapsed))"
proof -
  let ?w = "\<lambda>r. candidate r \<and> row_handle r \<noteq> cur_id cur"
  show ?thesis
  proof (cases "scan_best ?w wake_key wake_better queue None")
    case None
    then have "\<forall>r \<in> set queue. \<not> ?w r" using wake.scan_best_None [of ?w wake_key queue] by (simp add: list_ex_iff)
    then show ?thesis using None by (auto simp: wakeup_preempt_def)
  next
    case (Some p)
    obtain b k where p: "p = (b, k)" by (cases p)
    then have k: "k = wake_key b" and pk: "wake.picked ?w wake_key queue b"
      using wake.scan_best_Some [OF Some [unfolded p]] by simp_all
    then have b: "b \<in> set queue" "?w b" and best: "\<And>r. r \<in> set queue \<Longrightarrow> ?w r \<Longrightarrow> \<not> wake_better (wake_key r) (wake_key b)"
      unfolding wake.picked_def by (auto simp: in_set_conv_nth)
    have top: "rank (row_class r) < rank (row_class b) \<or> row_class r = row_class b
        \<and> saturating_add (row_vruntime b) EEVDF_BASE_SLICE \<le> saturating_add (row_vruntime r) EEVDF_BASE_SLICE"
      if "r \<in> set queue" "?w r" for r
      using best [OF that] by (auto simp: wake_key_def not_less)
    have "wakeup_preempt cur elapsed queue \<longleftrightarrow> rank (row_class b) > rank (cur_class cur)
        \<or> row_class b = cur_class cur \<and> WAKE_PROTECT_SLICE \<le> elapsed
          \<and> saturating_add (row_vruntime b) EEVDF_BASE_SLICE < saturating_add (cur_vruntime cur) elapsed"
      using Some p k by (auto simp: wakeup_preempt_def wake_key_def eevdf_should_preempt_def not_less)
    then have eq: "wakeup_preempt cur elapsed queue \<longleftrightarrow> rank (row_class b) > rank (cur_class cur)
        \<or> row_class b = cur_class cur \<and> WAKE_PROTECT_SLICE \<le> elapsed
          \<and> saturating_add (row_vruntime b) EEVDF_BASE_SLICE < saturating_add (cur_vruntime cur) elapsed" .
    consider "rank (row_class b) > rank (cur_class cur)" | "row_class b = cur_class cur"
      | "rank (row_class b) < rank (cur_class cur)" using rank_inj nat_neq_iff by metis
    then show ?thesis
    proof cases
      case 1
      then show ?thesis using eq b by blast
    next
      case 2
      then have "rank (row_class q) \<le> rank (cur_class cur)" if "q \<in> set queue" "?w q" for q
        using top [OF that] by auto
      then have le: "\<forall>q \<in> set queue. ?w q \<longrightarrow> rank (row_class q) \<le> rank (cur_class cur)" by blast
      show ?thesis
      proof
        assume "wakeup_preempt cur elapsed queue"
        with 2 eq le b show "\<exists>r \<in> set queue. candidate r \<and> row_handle r \<noteq> cur_id cur \<and>
            (rank (row_class r) > rank (cur_class cur)
             \<or> (\<forall>q \<in> set queue. ?w q \<longrightarrow> rank (row_class q) \<le> rank (cur_class cur))
               \<and> row_class r = cur_class cur \<and> WAKE_PROTECT_SLICE \<le> elapsed
               \<and> saturating_add (row_vruntime r) EEVDF_BASE_SLICE < saturating_add (cur_vruntime cur) elapsed)"
          by (intro bexI [of _ b]) auto
      next
        assume "\<exists>r \<in> set queue. candidate r \<and> row_handle r \<noteq> cur_id cur \<and>
            (rank (row_class r) > rank (cur_class cur)
             \<or> (\<forall>q \<in> set queue. ?w q \<longrightarrow> rank (row_class q) \<le> rank (cur_class cur))
               \<and> row_class r = cur_class cur \<and> WAKE_PROTECT_SLICE \<le> elapsed
               \<and> saturating_add (row_vruntime r) EEVDF_BASE_SLICE < saturating_add (cur_vruntime cur) elapsed)"
        then obtain r where r: "r \<in> set queue" "?w r" "WAKE_PROTECT_SLICE \<le> elapsed"
          "saturating_add (row_vruntime r) EEVDF_BASE_SLICE < saturating_add (cur_vruntime cur) elapsed"
          "row_class r = cur_class cur" using le by (meson not_le)
        from top [OF r(1,2)] r 2 show "wakeup_preempt cur elapsed queue"
          unfolding eq by auto
      qed
    next
      case 3
      then have "rank (row_class q) < rank (cur_class cur)" if "q \<in> set queue" "?w q" for q
        using top [OF that] by auto
      with 3 eq show ?thesis by (metis less_asym less_irrefl)
    qed
  qed
qed


theorem wakeup_preempt_exact_witness:
  "\<not> wakeup_preempt \<lparr>cur_id = 9, cur_class = Interactive, cur_vruntime = 0\<rparr> 0 [row_a, row_b]
   \<and> wakeup_preempt \<lparr>cur_id = 9, cur_class = Batch, cur_vruntime = 0\<rparr> 0 [row_a, row_b]"
  using wakeup_preempt_exact [of "\<lparr>cur_id = 9, cur_class = Interactive, cur_vruntime = 0\<rparr>" 0 "[row_a, row_b]"]
    wakeup_preempt_exact [of "\<lparr>cur_id = 9, cur_class = Batch, cur_vruntime = 0\<rparr>" 0 "[row_a, row_b]"]
  by (simp add: row_a_def row_b_def candidate_def)

text \<open>
  A sleeper's credit is bounded: however long a task has slept, its virtual deadline is
  not before the CPU's virtual-time floor (for a floor of at least one base slice), and the
  deadline is monotone in both its arguments.
\<close>

theorem sleeper_credit_bounded:
  assumes "EEVDF_BASE_SLICE \<le> vfloor" "v \<le> v'" "vfloor \<le> vfloor'"
  shows "vfloor \<le> d_eff v vfloor \<and> d_eff v vfloor \<le> d_eff v' vfloor'"
proof
  have "unat (d_eff v vfloor) \<ge> unat vfloor"
    using assms(1) unat_less_u64 [of vfloor]
    by (simp add: d_eff_def v_eff_def sat_unat word_le_nat_alt EEVDF_BASE_SLICE_val)
  then show "vfloor \<le> d_eff v vfloor" by (simp add: word_le_nat_alt)
  have "unat v \<le> unat v'" "unat vfloor \<le> unat vfloor'" using assms by (simp_all add: word_le_nat_alt)
  then have "unat (d_eff v vfloor) \<le> unat (d_eff v' vfloor')"
    unfolding d_eff_def v_eff_def sat_unat by linarith
  then show "d_eff v vfloor \<le> d_eff v' vfloor'" by (simp add: word_le_nat_alt)
qed

theorem sleeper_credit_bounded_witness: "(10000000 :: u64) \<le> d_eff 0 10000000"
  using sleeper_credit_bounded [of 10000000 0 0 10000000] by (simp add: EEVDF_BASE_SLICE_val)

lemma sibling_scan_set:
  assumes "prev < MAX_CPUS"
  shows "set (map (\<lambda>i. (prev + i) mod MAX_CPUS) [1..<MAX_CPUS]) = {c. c < MAX_CPUS \<and> c \<noteq> prev}"
proof (intro set_eqI iffI)
  fix c assume "c \<in> set (map (\<lambda>i. (prev + i) mod MAX_CPUS) [1..<MAX_CPUS])"
  then obtain i where "1 \<le> i" "i < MAX_CPUS" "c = (prev + i) mod MAX_CPUS" by auto
  then show "c \<in> {c. c < MAX_CPUS \<and> c \<noteq> prev}"
    using assms by (auto simp: mod_if MAX_CPUS_def split: if_splits)
next
  fix c assume c: "c \<in> {c. c < MAX_CPUS \<and> c \<noteq> prev}"
  let ?i = "if prev < c then c - prev else c + MAX_CPUS - prev"
  have i: "?i \<in> set [1..<MAX_CPUS]" using c assms by auto
  have "c = (prev + ?i) mod MAX_CPUS" using c assms by auto
  then have "c \<in> (\<lambda>i. (prev + i) mod MAX_CPUS) ` set [1..<MAX_CPUS]" using i by (rule image_eqI)
  then show "c \<in> set (map (\<lambda>i. (prev + i) mod MAX_CPUS) [1..<MAX_CPUS])" by (simp only: set_map)
qed


lemma find_Some_set: "List.find P xs = Some x \<Longrightarrow> x \<in> set xs \<and> P x"
  by (auto simp: find_Some_iff)

lemma sibling_scan_Some:
  assumes "prev < MAX_CPUS" "sibling_scan prev P = Some c"
  shows "c < MAX_CPUS \<and> c \<noteq> prev \<and> P c"
  using find_Some_set [OF assms(2) [unfolded sibling_scan_def]] unfolding sibling_scan_set [OF assms(1)] by blast

lemma sibling_scan_None:
  "prev < MAX_CPUS \<Longrightarrow> sibling_scan prev P = None \<longleftrightarrow> (\<forall>c < MAX_CPUS. c \<noteq> prev \<longrightarrow> \<not> P c)"
  unfolding sibling_scan_def find_None_iff sibling_scan_set by auto

text \<open>
  Idle-sibling selection is sound and complete: a selected CPU is online, idle, permitted and not
  the previous CPU; nothing is selected exactly when no other CPU is online, idle and permitted;
  and with a known node, a remote CPU is selected only when no node-local one would do.
\<close>

theorem select_idle_sibling_exact:
  assumes "prev < MAX_CPUS" "waker < MAX_CPUS"
  shows "(case select_idle_sibling cpu_node prev waker is_online is_idle allowed of
      None \<Rightarrow> \<forall>c < MAX_CPUS. c \<noteq> prev \<longrightarrow> \<not> (is_online c \<and> is_idle c \<and> allowed c)
    | Some c \<Rightarrow> c < MAX_CPUS \<and> c \<noteq> prev \<and> is_online c \<and> is_idle c \<and> allowed c
        \<and> (same_node cpu_node prev c
           \<or> (\<forall>d < MAX_CPUS. d \<noteq> prev \<longrightarrow> same_node cpu_node prev d \<longrightarrow> \<not> (is_online d \<and> is_idle d \<and> allowed d))))"
proof -
  let ?P = "\<lambda>c. is_online c \<and> is_idle c \<and> same_node cpu_node prev c \<and> allowed c"
  let ?Q = "\<lambda>c. is_online c \<and> is_idle c \<and> allowed c"
  have Q: "case sibling_scan prev ?Q of None \<Rightarrow> \<forall>c < MAX_CPUS. c \<noteq> prev \<longrightarrow> \<not> ?Q c
      | Some c \<Rightarrow> c < MAX_CPUS \<and> c \<noteq> prev \<and> ?Q c"
  proof (cases "sibling_scan prev ?Q")
    case None
    then have "\<forall>c < MAX_CPUS. c \<noteq> prev \<longrightarrow> \<not> ?Q c" by (rule sibling_scan_None [OF assms(1), THEN iffD1])
    then show ?thesis unfolding None option.case .
  next
    case (Some c)
    from sibling_scan_Some [OF assms(1) Some] show ?thesis unfolding Some option.case .
  qed
  show ?thesis
  proof (cases "waker \<noteq> prev \<and> is_online waker \<and> is_idle waker \<and> same_node cpu_node prev waker \<and> allowed waker")
    case True
    then show ?thesis using assms by (simp add: select_idle_sibling_def)
  next
    case W: False
    show ?thesis
    proof (cases "cpu_node prev")
      case None
      then have "same_node cpu_node prev c" for c by (simp add: same_node_def)
      moreover have "select_idle_sibling cpu_node prev waker is_online is_idle allowed = sibling_scan prev ?Q"
        using W None by (auto simp: select_idle_sibling_def)
      ultimately show ?thesis using Q by (auto split: option.splits)
    next
      case (Some node)
      show ?thesis
      proof (cases "sibling_scan prev ?P")
        case None
        then have "select_idle_sibling cpu_node prev waker is_online is_idle allowed = sibling_scan prev ?Q"
          using W by (auto simp: select_idle_sibling_def)
        moreover have "\<forall>d < MAX_CPUS. d \<noteq> prev \<longrightarrow> same_node cpu_node prev d \<longrightarrow> \<not> ?Q d"
          using None sibling_scan_None [OF assms(1), of ?P] by blast
        ultimately show ?thesis using Q by (auto split: option.splits)
      next
        case (Some c)
        with \<open>cpu_node prev = Some node\<close> W sibling_scan_Some [OF assms(1) Some]
        show ?thesis by (auto simp: select_idle_sibling_def)
      qed
    qed
  qed
qed

theorem select_idle_sibling_exact_witness:
  "select_idle_sibling (\<lambda>_. None) 3 3 (\<lambda>_. True) (\<lambda>c. c = 3) (\<lambda>_. True) = None"
  using select_idle_sibling_exact [where prev = 3 and waker = 3 and cpu_node = "\<lambda>_. None"
      and is_online = "\<lambda>_. True" and is_idle = "\<lambda>c. c = 3" and allowed = "\<lambda>_. True"]
  by (auto simp: MAX_CPUS_def split: option.splits)

lemma bit_cpu_bit: "bit (cpu_bit cpu) n \<longleftrightarrow> n = cpu mod 64"
  by (auto simp: cpu_bit_def bit_simps)

lemma cpuset_contains_bit: "cpuset_contains s cpu \<longleftrightarrow> bit s (cpu mod 64)"
proof -
  have "s AND cpu_bit cpu \<noteq> 0 \<longleftrightarrow> (\<exists>n. bit (s AND cpu_bit cpu) n)" by (metis bit_0_eq bot2E bit_eqI bot_apply)
  then show ?thesis by (auto simp: cpuset_contains_def bit_simps bit_cpu_bit)
qed

text \<open>
  CPU sets are sets of CPU numbers below 64: membership after insertion, in a singleton and in an
  intersection is what set theory says, and a set is empty exactly when it contains no CPU. A
  class survives the round trip through its published rank.
\<close>

theorem cpuset_laws:
  assumes "a < 64" "b < 64"
  shows "cpuset_contains (cpuset_insert a s) b = (b = a \<or> cpuset_contains s b)
    \<and> cpuset_contains (cpuset_single a) b = (b = a)
    \<and> cpuset_contains (cpuset_intersection s t) b = (cpuset_contains s b \<and> cpuset_contains t b)
    \<and> (cpuset_is_empty s \<longleftrightarrow> (\<forall>c < 64. \<not> cpuset_contains s c)) \<and> from_rank (rank k) = k"
proof -
  have "s = 0 \<longleftrightarrow> (\<forall>c < 64. \<not> bit s c)" by (auto intro: bit_word_eqI)
  moreover have "from_rank (rank k) = k" by (cases k) (auto simp: from_rank_def)
  ultimately show ?thesis
    using assms by (auto simp: cpuset_contains_bit cpuset_insert_def cpuset_single_def cpuset_intersection_def
        cpuset_is_empty_def bit_simps bit_cpu_bit)
qed

theorem cpuset_laws_witness: "cpuset_contains (cpuset_insert 5 0) 5 \<and> \<not> cpuset_contains (cpuset_single 5) 6"
  using cpuset_laws [of 5 5 0] cpuset_laws [of 5 6 0] by simp

end
