(* ===== verification/Admission.thy ===== *)
theory Admission
  imports Budget Capabilities
begin

text \<open>
  Real-time bandwidth admission, \<open>scheduler/src/admission.rs\<close>: three levels of atomic
  counters (per CPU, system wide, per authority domain) and a reservation that holds a share of each.
  \<open>reserve\<close> is modelled twice: as the sequential function of the source, and as a step relation in
  which every atomic update of every concurrent caller is a step of its own, so that the bound
  is shown for all interleavings. The authority check is \<open>check_live\<close> of
  \<open>Capabilities\<close>; the object table is a parameter of each check, since a revocation may come
  between the two. The set of online CPUs (\<open>narf_lib::smp\<close>) is a parameter too.
\<close>

subsection \<open>State and operations\<close>

definition RT_CPU_LIMIT_PPM :: u64 where "RT_CPU_LIMIT_PPM = 950000"
definition ADMISSION_DOMAINS :: nat where "ADMISSION_DOMAINS = 256"
definition PERCPU_MAX_CPUS :: nat where "PERCPU_MAX_CPUS = 64"

record reserved =
  cpu_reserved_ppm :: "nat \<Rightarrow> u64"
  system_reserved_ppm :: u64
  domain_reserved_ppm :: "nat \<Rightarrow> u64"

definition no_reservations :: reserved where
  "no_reservations = \<lparr>cpu_reserved_ppm = (\<lambda>_. 0), system_reserved_ppm = 0, domain_reserved_ppm = (\<lambda>_. 0)\<rparr>"

datatype admission_error =
    AuthorityRevoked | InvalidContract | CpuOffline | CpuBandwidthExceeded
  | SystemBandwidthExceeded | DomainBandwidthExceeded

text \<open>The update function of \<open>fetch_update\<close>; \<open>None\<close> leaves the cell as it is.\<close>

definition add_bounded :: "u64 \<Rightarrow> u64 \<Rightarrow> u64 \<Rightarrow> u64 option" where
  "add_bounded current amount limit =
     (case checked_add current amount of
        Some nxt \<Rightarrow> if nxt \<le> limit then Some nxt else None
      | None \<Rightarrow> None)"

definition utilization_ppm :: "resource_budget \<Rightarrow> u64 option" where
  "utilization_ppm budget =
     (case period budget of
        None \<Rightarrow> None
      | Some p \<Rightarrow>
          if \<not> period_is_valid p \<or> exhaustion p \<noteq> Strict \<or> deadline_cycles budget = None then None
          else
            (let numerator = saturating_mul (ucast (runtime_cycles p) :: u128) 1000000;
                 denominator = (ucast (period_cycles p) :: u128);
                 rounded_up = saturating_add numerator (saturating_sub denominator 1) div denominator
             in if denominator = 0 then None
                else if unat rounded_up < 2 ^ 64 \<and> (ucast rounded_up :: u64) > 0
                then Some (ucast rounded_up) else None))"

record reservation =
  res_cpu :: nat
  res_domain :: nat
  res_ppm :: u64

definition online_count :: "u64 \<Rightarrow> u32" where
  "online_count bitmap = of_nat (length (filter (bit bitmap) [0..<64]))"

definition system_limit :: "u64 \<Rightarrow> u64" where
  "system_limit bitmap = saturating_mul RT_CPU_LIMIT_PPM (ucast (max (online_count bitmap) 1))"

definition is_online :: "u64 \<Rightarrow> nat \<Rightarrow> bool" where
  "is_online bitmap cpu \<longleftrightarrow> cpu < PERCPU_MAX_CPUS \<and> bit bitmap cpu"

definition drop_reservation :: "reservation \<Rightarrow> reserved \<Rightarrow> reserved" where
  "drop_reservation res s =
     s\<lparr>cpu_reserved_ppm := (cpu_reserved_ppm s)(res_cpu res := cpu_reserved_ppm s (res_cpu res) - res_ppm res),
       system_reserved_ppm := system_reserved_ppm s - res_ppm res,
       domain_reserved_ppm := (domain_reserved_ppm s)
         (res_domain res := domain_reserved_ppm s (res_domain res) - res_ppm res)\<rparr>"

text \<open>The object tables at the two authority checks are \<open>t1\<close> and \<open>t2\<close>.\<close>

definition reserve ::
    "object_table \<Rightarrow> object_table \<Rightarrow> u64 \<Rightarrow> cap \<Rightarrow> nat \<Rightarrow> resource_budget \<Rightarrow> reserved \<Rightarrow>
     reserved \<times> (reservation, admission_error) result" where
  "reserve t1 t2 online authority cpu budget s =
     (case check_live t1 authority of
        Inl _ \<Rightarrow> (s, Err AuthorityRevoked)
      | Inr _ \<Rightarrow>
      (case utilization_ppm budget of
         None \<Rightarrow> (s, Err InvalidContract)
       | Some ppm \<Rightarrow>
           if cpu \<ge> PERCPU_MAX_CPUS \<or> \<not> is_online online cpu then (s, Err CpuOffline)
           else
             (let domain = unat (index (slot authority)) mod ADMISSION_DOMAINS in
              case add_bounded (domain_reserved_ppm s domain) ppm RT_CPU_LIMIT_PPM of
                None \<Rightarrow> (s, Err DomainBandwidthExceeded)
              | Some d \<Rightarrow>
                  (let s1 = s\<lparr>domain_reserved_ppm := (domain_reserved_ppm s)(domain := d)\<rparr> in
                   case add_bounded (system_reserved_ppm s1) ppm (system_limit online) of
                     None \<Rightarrow>
                       (s1\<lparr>domain_reserved_ppm := (domain_reserved_ppm s1)
                             (domain := domain_reserved_ppm s1 domain - ppm)\<rparr>,
                        Err SystemBandwidthExceeded)
                   | Some y \<Rightarrow>
                       (let s2 = s1\<lparr>system_reserved_ppm := y\<rparr> in
                        case add_bounded (cpu_reserved_ppm s2 cpu) ppm RT_CPU_LIMIT_PPM of
                          None \<Rightarrow>
                            (s2\<lparr>system_reserved_ppm := system_reserved_ppm s2 - ppm,
                                domain_reserved_ppm := (domain_reserved_ppm s2)
                                  (domain := domain_reserved_ppm s2 domain - ppm)\<rparr>,
                             Err CpuBandwidthExceeded)
                        | Some c \<Rightarrow>
                            (let s3 = s2\<lparr>cpu_reserved_ppm := (cpu_reserved_ppm s2)(cpu := c)\<rparr>;
                                 res = \<lparr>res_cpu = cpu, res_domain = domain, res_ppm = ppm\<rparr>
                             in case check_live t2 authority of
                                  Inl _ \<Rightarrow> (drop_reservation res s3, Err AuthorityRevoked)
                                | Inr _ \<Rightarrow> (s3, Ok res)))))))"

lemma add_bounded_Some:
  "add_bounded v a l = Some n \<longleftrightarrow> unat v + unat a < 2 ^ 64 \<and> n = v + a \<and> n \<le> l"
  by (auto simp: add_bounded_def checked_add_def split: option.splits if_splits)

lemma add_bounded_unat: "add_bounded v a l = Some n \<Longrightarrow> unat n = unat v + unat a \<and> n - a = v \<and> n \<le> l"
  by (auto simp: add_bounded_Some unat_word_ariths)

subsection \<open>Utilisation\<close>

lemma unat_ucast_128 [simp]: "unat (ucast (w :: u64) :: u128) = unat w"
  using unat_less_u64 [of w] by (simp add: unsigned_ucast_eq take_bit_nat_eq_self)

text \<open>The admitted share is the contract's utilisation in parts per million, rounded up.\<close>

lemma utilization_ppm_bounds:
  assumes "utilization_ppm b = Some ppm" "period b = Some p"
  shows "unat (runtime_cycles p) * 1000000 \<le> unat ppm * unat (period_cycles p)"
    "(unat ppm - 1) * unat (period_cycles p) < unat (runtime_cycles p) * 1000000"
    "0 < unat ppm" "unat ppm \<le> 1000000" "period_is_valid p"
proof -
  let ?R = "unat (runtime_cycles p)" and ?T = "unat (period_cycles p)"
  define q where "q = saturating_add (saturating_mul (ucast (runtime_cycles p) :: u128) 1000000)
      (saturating_sub (ucast (period_cycles p)) 1) div ucast (period_cycles p)"
  have v: "period_is_valid p" "unat q < 2 ^ 64" "ppm = ucast q" "0 < ppm"
    using assms by (auto simp: utilization_ppm_def Let_def q_def split: if_splits)
  then have T: "0 < ?T" "?R \<le> ?T" "0 < ?R" by (auto simp: period_is_valid_def word_less_nat_alt word_le_nat_alt)
  have "?R * 1000000 < 2 ^ 127" "?T < 2 ^ 64" using unat_less_u64 [of "runtime_cycles p"] unat_less_u64 [of "period_cycles p"] by auto
  then have q: "unat q = (?R * 1000000 + (?T - 1)) div ?T"
    using T by (simp add: q_def unat_div sat_unat)
  have ppm: "unat ppm = unat q" using v(2) by (simp add: v(3) unsigned_ucast_eq take_bit_nat_eq_self)
  show "period_is_valid p" by (rule v)
  show "0 < unat ppm" using v(4) by (simp add: word_less_nat_alt)
  show "?R * 1000000 \<le> unat ppm * ?T"
  proof -
    have "?R * 1000000 + (?T - 1) < (unat q + 1) * ?T"
      unfolding q using dividend_less_div_times [OF T(1)] by (simp add: add.commute)
    then show ?thesis using T by (simp add: ppm)
  qed
  show "(unat ppm - 1) * ?T < ?R * 1000000"
  proof -
    have "unat q * ?T \<le> ?R * 1000000 + (?T - 1)" unfolding q by (simp add: div_times_less_eq_dividend)
    then have "unat q * ?T - ?T < ?R * 1000000" using T \<open>0 < unat ppm\<close> ppm by linarith
    then show ?thesis by (simp add: ppm diff_mult_distrib)
  qed
  have "?R * 1000000 + (?T - 1) < (1000000 + 1) * ?T" using T by simp
  then have "unat q < 1000000 + 1" unfolding q by (simp add: div_less_iff_less_mult T)
  then show "unat ppm \<le> 1000000" by (simp add: ppm)
qed


subsection \<open>Concurrent callers\<close>

text \<open>
  What a caller holds while it reserves or releases: the domain share; domain and system; all
  three, before the second authority check; a granted reservation; and, on the way back,
  system and domain, then domain only.
\<close>

datatype stage = HDom | HSys | HAll | Granted | RSys | RDom

fun holds_cpu :: "stage \<Rightarrow> bool" where
  "holds_cpu st \<longleftrightarrow> st = HAll \<or> st = Granted"

fun holds_sys :: "stage \<Rightarrow> bool" where
  "holds_sys st \<longleftrightarrow> st \<noteq> HDom \<and> st \<noteq> RDom"

type_synonym adm_state = "reserved \<times> (reservation \<times> stage) multiset"

definition part :: "(reservation \<times> stage \<Rightarrow> bool) \<Rightarrow> (reservation \<times> stage) multiset \<Rightarrow> nat" where
  "part P M = (\<Sum>x \<in># filter_mset P M. unat (res_ppm (fst x)))"

definition set_domain :: "nat \<Rightarrow> u64 \<Rightarrow> reserved \<Rightarrow> reserved" where
  "set_domain d v s = s\<lparr>domain_reserved_ppm := (domain_reserved_ppm s)(d := v)\<rparr>"

definition set_cpu :: "nat \<Rightarrow> u64 \<Rightarrow> reserved \<Rightarrow> reserved" where
  "set_cpu c v s = s\<lparr>cpu_reserved_ppm := (cpu_reserved_ppm s)(c := v)\<rparr>"

text \<open>
  Each rule is one atomic update. The online set, and with it the system limit, may be different at every
  step; a failed bounded addition turns the caller around.
\<close>

inductive adm_step :: "adm_state \<Rightarrow> adm_state \<Rightarrow> bool" where
  take_domain: "utilization_ppm b = Some (res_ppm r) \<Longrightarrow>
    add_bounded (domain_reserved_ppm s (res_domain r)) (res_ppm r) RT_CPU_LIMIT_PPM = Some v \<Longrightarrow>
    adm_step (s, M) (set_domain (res_domain r) v s, add_mset (r, HDom) M)"
| take_system: "add_bounded (system_reserved_ppm s) (res_ppm r) (system_limit online) = Some v \<Longrightarrow>
    adm_step (s, add_mset (r, HDom) M) (s\<lparr>system_reserved_ppm := v\<rparr>, add_mset (r, HSys) M)"
| fail_system: "add_bounded (system_reserved_ppm s) (res_ppm r) (system_limit online) = None \<Longrightarrow>
    adm_step (s, add_mset (r, HDom) M) (s, add_mset (r, RDom) M)"
| take_cpu: "add_bounded (cpu_reserved_ppm s (res_cpu r)) (res_ppm r) RT_CPU_LIMIT_PPM = Some v \<Longrightarrow>
    adm_step (s, add_mset (r, HSys) M) (set_cpu (res_cpu r) v s, add_mset (r, HAll) M)"
| fail_cpu: "add_bounded (cpu_reserved_ppm s (res_cpu r)) (res_ppm r) RT_CPU_LIMIT_PPM = None \<Longrightarrow>
    adm_step (s, add_mset (r, HSys) M) (s, add_mset (r, RSys) M)"
| grant: "check_live t authority = Ok () \<Longrightarrow> adm_step (s, add_mset (r, HAll) M) (s, add_mset (r, Granted) M)"
| release_cpu: "st = HAll \<or> st = Granted \<Longrightarrow>
    adm_step (s, add_mset (r, st) M)
      (set_cpu (res_cpu r) (cpu_reserved_ppm s (res_cpu r) - res_ppm r) s, add_mset (r, RSys) M)"
| release_system: "adm_step (s, add_mset (r, RSys) M)
      (s\<lparr>system_reserved_ppm := system_reserved_ppm s - res_ppm r\<rparr>, add_mset (r, RDom) M)"
| release_domain: "adm_step (s, add_mset (r, RDom) M)
      (set_domain (res_domain r) (domain_reserved_ppm s (res_domain r) - res_ppm r) s, M)"

definition adm_reachable :: "adm_state \<Rightarrow> bool" where
  "adm_reachable s \<longleftrightarrow> adm_step\<^sup>*\<^sup>* (no_reservations, {#}) s"

definition adm_ok :: "adm_state \<Rightarrow> bool" where
  "adm_ok sm \<longleftrightarrow> (case sm of (s, M) \<Rightarrow>
     (\<forall>c. unat (cpu_reserved_ppm s c) = part (\<lambda>(r, st). res_cpu r = c \<and> holds_cpu st) M)
     \<and> unat (system_reserved_ppm s) = part (\<lambda>(r, st). holds_sys st) M
     \<and> (\<forall>d. unat (domain_reserved_ppm s d) = part (\<lambda>(r, st). res_domain r = d) M)
     \<and> (\<forall>c. cpu_reserved_ppm s c \<le> RT_CPU_LIMIT_PPM) \<and> (\<forall>d. domain_reserved_ppm s d \<le> RT_CPU_LIMIT_PPM))"

lemma part_add [simp]:
  "part P (add_mset x M) = (if P x then unat (res_ppm (fst x)) else 0) + part P M"
  by (simp add: part_def)

lemma part_empty [simp]: "part P {#} = 0"
  by (simp add: part_def)

lemma unat_release: "unat (v :: u64) = unat a + n \<Longrightarrow> unat (v - a) = n"
  by (subst unat_sub) (simp_all add: word_le_nat_alt)

lemma release_le: "unat (v :: u64) = unat a + n \<Longrightarrow> v \<le> l \<Longrightarrow> v - a \<le> l"
  using unat_release [of v a n] by (simp add: word_le_nat_alt)

lemma adm_step_ok: "adm_step x y \<Longrightarrow> adm_ok x \<Longrightarrow> adm_ok y"
proof (induction rule: adm_step.induct)
  case (take_domain b r s v M)
  then show ?case
    using add_bounded_unat [OF take_domain(2)] by (auto simp: adm_ok_def set_domain_def)
next
  case (take_system s r online v M)
  then show ?case
    using add_bounded_unat [OF take_system(1)] by (auto simp: adm_ok_def)
next
  case (take_cpu s r v M)
  then show ?case
    using add_bounded_unat [OF take_cpu(1)] by (auto simp: adm_ok_def set_cpu_def)
next
  case (release_cpu st s r M)
  then show ?case
    by (auto simp: adm_ok_def set_cpu_def intro: unat_release release_le)
next
  case (release_system s r M)
  then show ?case by (auto simp: adm_ok_def intro: unat_release)
next
  case (release_domain s r M)
  then show ?case by (auto simp: adm_ok_def set_domain_def intro: unat_release release_le)
qed (auto simp: adm_ok_def)

lemma adm_reachable_ok: "adm_reachable s \<Longrightarrow> adm_ok s"
  unfolding adm_reachable_def
proof (induction rule: rtranclp_induct)
  case base
  then show ?case by (simp add: adm_ok_def no_reservations_def)
next
  case (step y z)
  then show ?case by (blast intro: adm_step_ok)
qed


lemma part_mono: "(\<And>x. P x \<Longrightarrow> Q x) \<Longrightarrow> part P M \<le> part Q M"
  by (induction M) auto

subsection \<open>Properties\<close>

text \<open>
  C36. No interleaving overcommits. Whatever the order in which concurrent callers reserve, fail,
  roll back and drop, the granted reservations of a CPU never exceed 95 percent of it, nor
  those of an authority domain, and every counter is exactly the sum of the shares
  currently held against it, so no share is leaked or released twice.
\<close>

theorem admission_never_overcommits:
  assumes "adm_reachable (s, M)"
  shows "part (\<lambda>(r, st). res_cpu r = c \<and> st = Granted) M \<le> 950000
    \<and> part (\<lambda>(r, st). res_domain r = d \<and> st = Granted) M \<le> 950000
    \<and> unat (cpu_reserved_ppm s c) = part (\<lambda>(r, st). res_cpu r = c \<and> holds_cpu st) M
    \<and> unat (system_reserved_ppm s) = part (\<lambda>(r, st). holds_sys st) M
    \<and> unat (domain_reserved_ppm s d) = part (\<lambda>(r, st). res_domain r = d) M"
proof -
  have ok: "adm_ok (s, M)" using assms by (rule adm_reachable_ok)
  have "part (\<lambda>(r, st). res_cpu r = c \<and> st = Granted) M \<le> part (\<lambda>(r, st). res_cpu r = c \<and> holds_cpu st) M"
    "part (\<lambda>(r, st). res_domain r = d \<and> st = Granted) M \<le> part (\<lambda>(r, st). res_domain r = d) M"
    by (auto intro!: part_mono)
  moreover have "unat (cpu_reserved_ppm s c) \<le> 950000" "unat (domain_reserved_ppm s d) \<le> 950000"
    using ok by (auto simp: adm_ok_def RT_CPU_LIMIT_PPM_def word_le_nat_alt)
  moreover have "unat (cpu_reserved_ppm s c) = part (\<lambda>(r, st). res_cpu r = c \<and> holds_cpu st) M"
    "unat (system_reserved_ppm s) = part (\<lambda>(r, st). holds_sys st) M"
    "unat (domain_reserved_ppm s d) = part (\<lambda>(r, st). res_domain r = d) M"
    using ok unfolding adm_ok_def prod.case by blast+
  ultimately show ?thesis by linarith
qed

definition rt_budget :: resource_budget where
  "rt_budget = \<lparr>share_ppm = 0, burst_cycles = 0, deadline_cycles = Some 1000, policy = Throttle,
     period = Some (strict 250 1000)\<rparr>"

lemma utilization_rt_budget: "utilization_ppm rt_budget = Some 250000"
  by (simp add: utilization_ppm_def rt_budget_def strict_def period_is_valid_def Let_def saturating_mul_def
      saturating_add_def saturating_sub_def)

theorem admission_never_overcommits_witness:
  "\<exists>s. adm_reachable (s, {#(\<lparr>res_cpu = 1, res_domain = 0, res_ppm = 250000\<rparr>, HDom)#})
     \<and> unat (domain_reserved_ppm s 0) = 250000"
proof -
  let ?r = "\<lparr>res_cpu = 1, res_domain = 0, res_ppm = 250000\<rparr>"
  have "adm_step (no_reservations, {#}) (set_domain 0 250000 no_reservations, {#(?r, HDom)#})"
    using take_domain [of rt_budget ?r no_reservations 250000 "{#}"] utilization_rt_budget
    by (simp add: no_reservations_def add_bounded_def checked_add_def RT_CPU_LIMIT_PPM_def)
  then have "adm_reachable (set_domain 0 250000 no_reservations, {#(?r, HDom)#})"
    unfolding adm_reachable_def by (rule r_into_rtranclp)
  with admission_never_overcommits [OF this, of 0 0] show ?thesis by auto
qed

text \<open>
  A reservation succeeds only under live authority and within every limit. On success the authority was
  live at both checks, the CPU is online, each of the three counters grew by exactly the
  admitted share and stays within its limit, that share covers the contract's utilisation,
  and dropping the reservation restores the counters. On failure the counters are unchanged.
\<close>

theorem reserve_exact:
  assumes "reserve t1 t2 online authority cpu budget s = (s', out)"
  shows "case out of
      Inl e \<Rightarrow> s' = s
    | Inr res \<Rightarrow> is_live t1 authority \<and> is_live t2 authority \<and> is_online online cpu
        \<and> res_cpu res = cpu \<and> res_domain res = unat (index (slot authority)) mod ADMISSION_DOMAINS
        \<and> utilization_ppm budget = Some (res_ppm res)
        \<and> unat (cpu_reserved_ppm s' cpu) = unat (cpu_reserved_ppm s cpu) + unat (res_ppm res)
        \<and> unat (system_reserved_ppm s') = unat (system_reserved_ppm s) + unat (res_ppm res)
        \<and> unat (domain_reserved_ppm s' (res_domain res))
            = unat (domain_reserved_ppm s (res_domain res)) + unat (res_ppm res)
        \<and> cpu_reserved_ppm s' cpu \<le> RT_CPU_LIMIT_PPM \<and> system_reserved_ppm s' \<le> system_limit online
        \<and> domain_reserved_ppm s' (res_domain res) \<le> RT_CPU_LIMIT_PPM
        \<and> (case period budget of Some p \<Rightarrow>
              unat (runtime_cycles p) * 1000000 \<le> unat (res_ppm res) * unat (period_cycles p) | None \<Rightarrow> False)
        \<and> drop_reservation res s' = s"
proof (cases out)
  case (Inl e)
  then show ?thesis
    using assms by (auto simp: reserve_def Let_def drop_reservation_def split: sum.splits option.splits if_splits
        dest!: add_bounded_unat)
next
  case (Inr res)
  obtain ppm d y c where r: "is_live t1 authority" "is_live t2 authority" "is_online online cpu"
    "utilization_ppm budget = Some ppm" "res_cpu res = cpu" "res_ppm res = ppm"
    "res_domain res = unat (index (slot authority)) mod ADMISSION_DOMAINS"
    "add_bounded (domain_reserved_ppm s (res_domain res)) ppm RT_CPU_LIMIT_PPM = Some d"
    "add_bounded (system_reserved_ppm s) ppm (system_limit online) = Some y"
    "add_bounded (cpu_reserved_ppm s cpu) ppm RT_CPU_LIMIT_PPM = Some c"
    "s' = s\<lparr>domain_reserved_ppm := (domain_reserved_ppm s)(res_domain res := d), system_reserved_ppm := y,
       cpu_reserved_ppm := (cpu_reserved_ppm s)(cpu := c)\<rparr>"
    using assms Inr
    by (auto simp: reserve_def is_live_def Let_def split: sum.splits option.splits if_splits)
  note A = add_bounded_unat [OF r(8)] add_bounded_unat [OF r(9)] add_bounded_unat [OF r(10)]
  obtain p where p: "period budget = Some p" using r(4) by (auto simp: utilization_ppm_def split: option.splits)
  have "unat (runtime_cycles p) * 1000000 \<le> unat ppm * unat (period_cycles p)"
    using utilization_ppm_bounds(1) [OF r(4) p] .
  moreover have "drop_reservation res s' = s"
    using A by (simp add: drop_reservation_def r(5,6,11))
  ultimately show ?thesis using r A by (simp add: Inr p)
qed

definition rt_authority :: cap where
  "rt_authority = \<lparr>slot = \<lparr>generation = 1, index = 0, rights = 8, type_tag = 131\<rparr>, tag_T = K_CpuBudget,
     right_R = Spend\<rparr>"

lemma reserve_rt_budget:
  "\<exists>s' res. reserve [\<lparr>epoch = 1, kind = K_CpuBudget\<rparr>] [\<lparr>epoch = 1, kind = K_CpuBudget\<rparr>] 3 rt_authority 1
     rt_budget no_reservations = (s', Ok res)"
proof -
  have l: "check_live [\<lparr>epoch = 1, kind = K_CpuBudget\<rparr>] rt_authority = Ok ()"
    by (simp add: check_live_def current_epoch_def rt_authority_def nth_opt_def)
  have "online_count 3 = 2" by code_simp
  then have sl: "system_limit 3 = 1900000"
    by (simp add: system_limit_def RT_CPU_LIMIT_PPM_def saturating_mul_def)
  have "bit (3 :: u64) 1" by simp
  then show ?thesis
    using l sl utilization_rt_budget
    by (simp add: reserve_def is_online_def PERCPU_MAX_CPUS_def no_reservations_def add_bounded_def
        checked_add_def RT_CPU_LIMIT_PPM_def Let_def)
qed

theorem reserve_exact_witness:
  "\<exists>s' res. reserve [\<lparr>epoch = 1, kind = K_CpuBudget\<rparr>] [\<lparr>epoch = 1, kind = K_CpuBudget\<rparr>] 3 rt_authority 1
     rt_budget no_reservations = (s', Ok res) \<and> cpu_reserved_ppm s' 1 \<le> RT_CPU_LIMIT_PPM
     \<and> drop_reservation res s' = no_reservations"
proof -
  obtain s' res where r: "reserve [\<lparr>epoch = 1, kind = K_CpuBudget\<rparr>] [\<lparr>epoch = 1, kind = K_CpuBudget\<rparr>] 3
      rt_authority 1 rt_budget no_reservations = (s', Ok res)" using reserve_rt_budget by blast
  from reserve_exact [OF r] r show ?thesis by auto
qed

end
