(* ===== verification/Timer_Wheel.thy ===== *)
theory Timer_Wheel
  imports Narf_Prelude
begin

text \<open>
  The timer wheel, \<open>time/src/timer_wheel.rs\<close>, and the per-CPU deferred-wake queue it
  drains into, \<open>lib/src/deferred_wake.rs\<close>. The wheel is a fixed array of optional slots, the next
  generation number, the cached minimum deadline with its sequence counter, and the
  hardware arm callback, whose calls are logged in \<open>armed\<close>. Wakers are numbers; a waker that is
  called is logged in \<open>called\<close>, and whatever the woken task does to the wheel (it may
  register again) is a parameter of \<open>fire_due\<close>.

  Operations run under the wheel's lock, so each is atomic here. The invariant is that the
  cached minimum is never later than the earliest deadline; between calls it is exact.
\<close>

subsection \<open>State\<close>

type_synonym task_waker = nat

definition MAX_SLEEPERS :: nat where "MAX_SLEEPERS = 1024"

record timer_slot =
  deadline :: u64
  slot_waker :: task_waker
  gen :: u32

record wheel =
  tslots :: "timer_slot option list"
  next_gen :: u32
  next_deadline :: u64
  next_valid :: bool
  next_seq :: u64
  arm_cb :: bool
  armed :: "u64 list"
  called :: "task_waker list"

definition new_wheel :: wheel where
  "new_wheel = \<lparr>tslots = replicate MAX_SLEEPERS None, next_gen = 1, next_deadline = - 1, next_valid = False,
     next_seq = 0, arm_cb = False, armed = [], called = []\<rparr>"

definition min_opt :: "u64 list \<Rightarrow> u64 option" where
  "min_opt xs = (case xs of [] \<Rightarrow> None | x # ys \<Rightarrow> Some (fold min ys x))"

definition live_slots :: "timer_slot option list \<Rightarrow> timer_slot list" where
  "live_slots ss = List.map_filter (\<lambda>s. s) ss"

definition min_deadline :: "wheel \<Rightarrow> u64 option" where
  "min_deadline w = min_opt (map deadline (live_slots (tslots w)))"

text \<open>The cached pair, read while no publication is in progress.\<close>

definition cached_min :: "wheel \<Rightarrow> u64 option" where
  "cached_min w = (if next_valid w then Some (next_deadline w) else None)"

definition cached_min_write_begin :: "wheel \<Rightarrow> wheel" where
  "cached_min_write_begin w = w\<lparr>next_seq := next_seq w + 1\<rparr>"

definition cached_min_write_end :: "u64 option \<Rightarrow> wheel \<Rightarrow> wheel" where
  "cached_min_write_end m w =
     (let w1 = (case m of
                  Some d \<Rightarrow> w\<lparr>next_deadline := d, next_valid := True\<rparr>
                | None \<Rightarrow> w\<lparr>next_valid := False\<rparr>)
      in w1\<lparr>next_seq := next_seq w1 + 1\<rparr>)"

definition publish_cached_min :: "u64 option \<Rightarrow> wheel \<Rightarrow> wheel" where
  "publish_cached_min m w = cached_min_write_end m (cached_min_write_begin w)"

definition publish_min_locked :: "wheel \<Rightarrow> wheel" where
  "publish_min_locked w = publish_cached_min (min_deadline w) w"

datatype wheel_error = WheelFull

record sleep_handle =
  h_index :: nat
  h_gen :: u32

definition set_arm_callback :: "wheel \<Rightarrow> wheel" where
  "set_arm_callback w = w\<lparr>arm_cb := True\<rparr>"

definition clear_arm_callback :: "wheel \<Rightarrow> wheel" where
  "clear_arm_callback w = w\<lparr>arm_cb := False\<rparr>"

definition invoke_arm :: "u64 \<Rightarrow> wheel \<Rightarrow> wheel" where
  "invoke_arm d w = (if arm_cb w then w\<lparr>armed := armed w @ [d]\<rparr> else w)"

subsection \<open>Registration\<close>

definition set_slot :: "nat \<Rightarrow> timer_slot option \<Rightarrow> wheel \<Rightarrow> wheel" where
  "set_slot i s w = w\<lparr>tslots := (tslots w)[i := s]\<rparr>"

definition register :: "u64 \<Rightarrow> task_waker \<Rightarrow> wheel \<Rightarrow> wheel \<times> (sleep_handle, wheel_error) result" where
  "register d wk w =
     (let prev_min = cached_min w in
      case position (\<lambda>s. s = None) (tslots w) of
        None \<Rightarrow> (w, Err WheelFull)
      | Some idx \<Rightarrow>
          (let g = next_gen w;
               w1 = w\<lparr>next_gen := max (next_gen w + 1) 1\<rparr>;
               w2 = cached_min_write_begin w1;
               w3 = set_slot idx (Some \<lparr>deadline = d, slot_waker = wk, gen = g\<rparr>) w2;
               new_min = (case prev_min of None \<Rightarrow> d | Some p \<Rightarrow> min p d);
               w4 = cached_min_write_end (Some new_min) w3;
               arm = (case prev_min of None \<Rightarrow> Some new_min | Some p \<Rightarrow> if new_min < p then Some new_min else None)
           in (case arm of Some m \<Rightarrow> invoke_arm m w4 | None \<Rightarrow> w4, Ok \<lparr>h_index = idx, h_gen = g\<rparr>)))"

definition cancel :: "sleep_handle \<Rightarrow> wheel \<Rightarrow> wheel" where
  "cancel h w =
     (if h_index h \<ge> MAX_SLEEPERS then w
      else
        (case tslots w ! h_index h of
           None \<Rightarrow> w
         | Some s \<Rightarrow>
             if gen s = h_gen h
             then (let w1 = set_slot (h_index h) None w
                   in if cached_min w1 = Some (deadline s) then publish_min_locked w1 else w1)
             else w))"

definition refresh_waker :: "sleep_handle \<Rightarrow> task_waker \<Rightarrow> wheel \<Rightarrow> wheel \<times> bool" where
  "refresh_waker h wk w =
     (if h_index h \<ge> MAX_SLEEPERS then (w, False)
      else
        (case tslots w ! h_index h of
           None \<Rightarrow> (w, False)
         | Some s \<Rightarrow>
             if gen s = h_gen h
             then (set_slot (h_index h) (Some (s\<lparr>slot_waker := wk\<rparr>)) w, True)
             else (w, False)))"

definition refresh_waker_at :: "sleep_handle \<Rightarrow> u64 \<Rightarrow> task_waker \<Rightarrow> wheel \<Rightarrow> wheel \<times> bool" where
  "refresh_waker_at h d wk w =
     (if h_index h \<ge> MAX_SLEEPERS then (w, False)
      else
        (let prev_min = cached_min w in
         case tslots w ! h_index h of
           None \<Rightarrow> (w, False)
         | Some s \<Rightarrow>
             if gen s = h_gen h
             then
               (let old = deadline s;
                    w1 = cached_min_write_begin w;
                    w2 = set_slot (h_index h) (Some (s\<lparr>deadline := d, slot_waker := wk\<rparr>)) w1;
                    new_min = (if prev_min = Some old \<and> d > old then the (min_deadline w2)
                               else (case prev_min of None \<Rightarrow> d | Some p \<Rightarrow> min p d));
                    w3 = cached_min_write_end (Some new_min) w2;
                    arm = (case prev_min of
                             None \<Rightarrow> Some new_min
                           | Some p \<Rightarrow> if new_min < p then Some new_min else None)
                in (case arm of Some m \<Rightarrow> invoke_arm m w3 | None \<Rightarrow> w3, True))
             else (w, False)))"

subsection \<open>Firing\<close>

definition due_at :: "u64 \<Rightarrow> timer_slot option \<Rightarrow> bool" where
  "due_at now s \<longleftrightarrow> (case s of Some t \<Rightarrow> deadline t \<le> now | None \<Rightarrow> False)"

definition BATCH :: nat where "BATCH = 16"

text \<open>One locked pass: collect up to \<open>BATCH\<close> due wakers from the cursor on.\<close>

function batch_loop :: "u64 \<Rightarrow> nat \<Rightarrow> task_waker list \<Rightarrow> wheel \<Rightarrow> nat \<times> task_waker list \<times> wheel" where
  "batch_loop now cursor batch w =
     (if cursor < MAX_SLEEPERS \<and> length batch < BATCH
      then
        (if due_at now (tslots w ! cursor)
         then batch_loop now (Suc cursor) (batch @ [slot_waker (the (tslots w ! cursor))]) (set_slot cursor None w)
         else batch_loop now (Suc cursor) batch w)
      else (cursor, batch, w))"
  by pat_completeness auto
termination
  by (relation "measure (\<lambda>(now, cursor, batch, w). MAX_SLEEPERS - cursor)") auto

declare batch_loop.simps [simp del]

lemma batch_loop_cursor: "cursor \<le> fst (batch_loop now cursor batch w)"
proof (induction now cursor batch w rule: batch_loop.induct)
  case (1 now cursor batch w)
  then show ?case by (subst batch_loop.simps) (auto intro: Suc_leD)
qed

lemma batch_loop_progress:
  "cursor < MAX_SLEEPERS \<Longrightarrow> cursor < fst (batch_loop now cursor [] w)"
  using batch_loop_cursor [of "Suc cursor"]
  by (subst batch_loop.simps) (auto simp: BATCH_def Suc_le_eq)

lemma batch_loop_advance:
  "(c, b, u) = batch_loop now cursor [] w \<Longrightarrow> cursor < MAX_SLEEPERS \<Longrightarrow> cursor < c"
  using batch_loop_progress [of cursor now w] by (metis fst_conv)

text \<open>Waking a task runs arbitrary code, which may touch the wheel: \<open>hook\<close>.\<close>

definition wake_all :: "(task_waker \<Rightarrow> wheel \<Rightarrow> wheel) \<Rightarrow> task_waker list \<Rightarrow> wheel \<Rightarrow> wheel" where
  "wake_all hook wks w = fold (\<lambda>wk u. hook wk (u\<lparr>called := called u @ [wk]\<rparr>)) wks w"

function fire_loop :: "(task_waker \<Rightarrow> wheel \<Rightarrow> wheel) \<Rightarrow> u64 \<Rightarrow> nat \<Rightarrow> nat \<Rightarrow> wheel \<Rightarrow> nat \<times> wheel" where
  "fire_loop hook now cursor n w =
     (if cursor < MAX_SLEEPERS
      then (case batch_loop now cursor [] w of
              (cursor', batch, w1) \<Rightarrow> fire_loop hook now cursor' (n + length batch) (wake_all hook batch w1))
      else (n, w))"
  by pat_completeness auto
termination
  by (relation "measure (\<lambda>(hook, now, cursor, n, w). MAX_SLEEPERS - cursor)")
    (auto intro: diff_less_mono2 dest: batch_loop_advance)

declare fire_loop.simps [simp del]

definition fire_due :: "(task_waker \<Rightarrow> wheel \<Rightarrow> wheel) \<Rightarrow> u64 \<Rightarrow> wheel \<Rightarrow> wheel \<times> nat" where
  "fire_due hook now w =
     (if (case cached_min w of None \<Rightarrow> True | Some d \<Rightarrow> d > now) then (w, 0)
      else (case fire_loop hook now 0 0 w of (n, w1) \<Rightarrow> (publish_min_locked w1, n)))"

definition take_due_into :: "u64 \<Rightarrow> task_waker option list \<Rightarrow> wheel \<Rightarrow> task_waker option list \<times> wheel \<times> nat" where
  "take_due_into now out w =
     (map2 (\<lambda>s o'. if due_at now s then map_option slot_waker s else o') (tslots w) out,
      publish_min_locked (w\<lparr>tslots := map (\<lambda>s. if due_at now s then None else s) (tslots w)\<rparr>),
      length (filter (due_at now) (tslots w)))"

definition take_due :: "u64 \<Rightarrow> wheel \<Rightarrow> task_waker option list \<times> wheel \<times> nat" where
  "take_due now w = take_due_into now (replicate MAX_SLEEPERS None) w"

definition occupied :: "wheel \<Rightarrow> nat" where
  "occupied w = length (filter (\<lambda>s. s \<noteq> None) (tslots w))"

definition next_deadline_cycles :: "wheel \<Rightarrow> u64 option" where
  "next_deadline_cycles w = cached_min w"

subsection \<open>The deferred-wake queue\<close>

definition MAX_PENDING :: nat where "MAX_PENDING = 64"

record wake_queue =
  pending :: "task_waker option list"
  queued_count :: nat
  overflowed_count :: nat
  drained_count :: nat

definition new_queue :: wake_queue where
  "new_queue = \<lparr>pending = replicate MAX_PENDING None, queued_count = 0, overflowed_count = 0, drained_count = 0\<rparr>"

definition try_push_one :: "task_waker \<Rightarrow> wake_queue \<Rightarrow> wake_queue \<times> (unit, task_waker) result" where
  "try_push_one wk q =
     (case position (\<lambda>s. s = None) (pending q) of
        Some i \<Rightarrow> (q\<lparr>pending := (pending q)[i := Some wk], queued_count := queued_count q + 1\<rparr>, Ok ())
      | None \<Rightarrow> (q\<lparr>overflowed_count := overflowed_count q + 1\<rparr>, Err wk))"

definition push_pending_iter :: "task_waker list \<Rightarrow> wake_queue \<Rightarrow> wake_queue" where
  "push_pending_iter wks q =
     fold (\<lambda>wk q. case position (\<lambda>s. s = None) (pending q) of
         Some i \<Rightarrow> q\<lparr>pending := (pending q)[i := Some wk], queued_count := queued_count q + 1\<rparr>
       | None \<Rightarrow> q\<lparr>overflowed_count := overflowed_count q + 1\<rparr>) wks q"

definition push_pending :: "task_waker option list \<Rightarrow> wake_queue \<Rightarrow> wake_queue" where
  "push_pending wks q = push_pending_iter (List.map_filter (\<lambda>x. x) wks) q"

definition has_pending_local :: "wake_queue \<Rightarrow> bool" where
  "has_pending_local q = list_ex (\<lambda>s. s \<noteq> None) (pending q)"

definition drain_and_wake :: "wake_queue \<Rightarrow> wake_queue \<times> task_waker list" where
  "drain_and_wake q =
     (let taken = List.map_filter (\<lambda>x. x) (pending q)
      in (q\<lparr>pending := map (\<lambda>_. None) (pending q), drained_count := drained_count q + length taken\<rparr>, taken))"

text \<open>The IRQ-context drain; a full queue restores the slot and ends the loop.\<close>

function wheel_drain_loop :: "u64 \<Rightarrow> nat \<Rightarrow> wheel \<Rightarrow> wake_queue \<Rightarrow> wheel \<times> wake_queue" where
  "wheel_drain_loop now i w q =
     (if i < MAX_SLEEPERS
      then
        (if due_at now (tslots w ! i)
         then
           (let s = the (tslots w ! i); w1 = set_slot i None w in
            case try_push_one (slot_waker s) q of
              (q1, Inr _) \<Rightarrow> wheel_drain_loop now (Suc i) w1 q1
            | (q1, Inl wk) \<Rightarrow>
                (set_slot i (Some \<lparr>deadline = deadline s, slot_waker = wk, gen = gen s\<rparr>) w1, q1))
         else wheel_drain_loop now (Suc i) w q)
      else (w, q))"
  by pat_completeness auto
termination
  by (relation "measure (\<lambda>(now, i, w, q). MAX_SLEEPERS - i)") auto

declare wheel_drain_loop.simps [simp del]

definition drain_due_to_deferred :: "u64 \<Rightarrow> wheel \<Rightarrow> wake_queue \<Rightarrow> wheel \<times> wake_queue" where
  "drain_due_to_deferred now w q =
     (if (case cached_min w of None \<Rightarrow> True | Some d \<Rightarrow> d > now) then (w, q)
      else (case wheel_drain_loop now 0 w q of (w1, q1) \<Rightarrow> (publish_min_locked w1, q1)))"


subsection \<open>The cached minimum\<close>

lemma fold_min: "fold min xs (x :: u64) \<in> insert x (set xs) \<and> (\<forall>y \<in> insert x (set xs). fold min xs x \<le> y)"
proof (induction xs arbitrary: x)
  case (Cons a xs)
  from Cons [of "min a x"] show ?case by (auto simp: min_def split: if_splits)
qed simp

lemma min_opt_None: "min_opt xs = None \<longleftrightarrow> xs = []"
  by (simp add: min_opt_def split: list.splits)

lemma min_opt_Some: "min_opt xs = Some m \<longleftrightarrow> m \<in> set xs \<and> (\<forall>x \<in> set xs. m \<le> x)"
proof (cases xs)
  case (Cons y ys)
  show ?thesis using fold_min [of ys y] by (auto simp: min_opt_def Cons intro: antisym)
qed (simp add: min_opt_def)

lemma set_live_slots: "set (live_slots ss) = {s. Some s \<in> set ss}"
  by (force simp: live_slots_def map_filter_def image_iff)

definition cache_le :: "wheel \<Rightarrow> bool" where
  "cache_le w \<longleftrightarrow> (\<forall>s. Some s \<in> set (tslots w) \<longrightarrow> (\<exists>c. cached_min w = Some c \<and> c \<le> deadline s))"

definition cache_exact :: "wheel \<Rightarrow> bool" where
  "cache_exact w \<longleftrightarrow> cached_min w = min_deadline w"

lemma cache_exact_iff:
  "cache_exact w \<longleftrightarrow> cache_le w \<and> (\<forall>c. cached_min w = Some c \<longrightarrow> (\<exists>s. Some s \<in> set (tslots w) \<and> deadline s = c))"
proof (cases "cached_min w")
  case None
  have "live_slots (tslots w) = [] \<longleftrightarrow> (\<forall>s. Some s \<notin> set (tslots w))"
    using set_live_slots [of "tslots w"] by (metis (no_types, lifting) emptyE empty_Collect_eq set_empty)
  then show ?thesis
    using None min_opt_None [of "map deadline (live_slots (tslots w))"]
    by (auto simp: cache_exact_def min_deadline_def cache_le_def)
next
  case (Some c)
  have "cache_exact w \<longleftrightarrow> min_opt (map deadline (live_slots (tslots w))) = Some c"
    using Some by (auto simp: cache_exact_def min_deadline_def)
  also have "\<dots> \<longleftrightarrow> (\<exists>s. Some s \<in> set (tslots w) \<and> deadline s = c) \<and> (\<forall>s. Some s \<in> set (tslots w) \<longrightarrow> c \<le> deadline s)"
    unfolding min_opt_Some by (auto simp: set_live_slots)
  finally show ?thesis using Some by (auto simp: cache_le_def)
qed

lemma cached_min_end [simp]: "cached_min (cached_min_write_end m w) = m"
  by (simp add: cached_min_def cached_min_write_end_def Let_def split: option.splits)

lemma tslots_simps [simp]:
  "tslots (cached_min_write_begin w) = tslots w" "tslots (cached_min_write_end m w) = tslots w"
  "tslots (publish_min_locked w) = tslots w" "tslots (invoke_arm d w) = tslots w"
  "tslots (set_slot i x w) = (tslots w)[i := x]"
  by (simp_all add: cached_min_write_begin_def cached_min_write_end_def publish_min_locked_def
      publish_cached_min_def invoke_arm_def set_slot_def Let_def split: option.splits)

lemma cached_min_simps [simp]:
  "cached_min (set_slot i x w) = cached_min w" "cached_min (invoke_arm d w) = cached_min w"
  "cached_min (publish_min_locked w) = min_deadline w"
  by (simp_all add: cached_min_def set_slot_def invoke_arm_def publish_min_locked_def publish_cached_min_def
      cached_min_write_end_def cached_min_write_begin_def Let_def split: option.splits)

lemma called_simps [simp]:
  "called (cached_min_write_begin w) = called w" "called (cached_min_write_end m w) = called w"
  "called (publish_min_locked w) = called w" "called (invoke_arm d w) = called w" "called (set_slot i x w) = called w"
  by (simp_all add: cached_min_write_begin_def cached_min_write_end_def publish_min_locked_def
      publish_cached_min_def invoke_arm_def set_slot_def Let_def split: option.splits)

lemma called_update [simp]: "cached_min (called_update f w) = cached_min w" "tslots (called_update f w) = tslots w"
  by (simp_all add: cached_min_def)

lemma cache_exact_publish [simp]: "cache_exact (publish_min_locked w)"
  by (simp add: cache_exact_def min_deadline_def)

text \<open>Membership after an update of one slot.\<close>

lemma mem_list_update:
  "i < length xs \<Longrightarrow> y \<in> set (xs[i := x]) \<longleftrightarrow> y = x \<or> (\<exists>j < length xs. j \<noteq> i \<and> xs ! j = y)"
  by (auto simp: in_set_conv_nth nth_list_update)

lemma mem_update_None:
  "i < length xs \<Longrightarrow> xs ! i = None \<Longrightarrow> Some s \<in> set (xs[i := x]) \<longleftrightarrow> Some s = x \<or> Some s \<in> set xs"
  unfolding mem_list_update by (auto simp: in_set_conv_nth)

lemma register_Ok:
  assumes "register d wk w = (w', Ok h)"
  shows "h_index h < length (tslots w)" "tslots w ! h_index h = None" "h_gen h = next_gen w"
    "tslots w' = (tslots w)[h_index h := Some \<lparr>deadline = d, slot_waker = wk, gen = next_gen w\<rparr>]"
    "cached_min w' = Some (case cached_min w of None \<Rightarrow> d | Some p \<Rightarrow> min p d)"
    "called w' = called w"
  using assms
  by (auto simp: register_def Let_def set_slot_def cached_min_write_begin_def split: option.splits if_splits
      dest: position_SomeD)

lemma register_Err: "register d wk w = (w', Err e) \<Longrightarrow> w' = w \<and> (\<forall>s \<in> set (tslots w). s \<noteq> None)"
  by (auto simp: register_def Let_def position_None_iff split: option.splits)

lemma register_cache:
  assumes "register d wk w = (w', out)"
  shows "cache_le w \<Longrightarrow> cache_le w'" "cache_exact w \<Longrightarrow> cache_exact w'" "length (tslots w') = length (tslots w)"
proof -
  have "(cache_le w \<longrightarrow> cache_le w') \<and> (cache_exact w \<longrightarrow> cache_exact w') \<and> length (tslots w') = length (tslots w)"
  proof (cases out)
    case (Inl e)
    then show ?thesis using register_Err assms by blast
  next
    case (Inr h)
    note R = register_Ok [OF assms [unfolded Inr]]
    have mem: "Some s \<in> set (tslots w') \<longleftrightarrow>
        s = \<lparr>deadline = d, slot_waker = wk, gen = next_gen w\<rparr> \<or> Some s \<in> set (tslots w)" for s
      using mem_update_None [OF R(1,2)] R(4) by simp
    show ?thesis
      unfolding cache_exact_iff cache_le_def mem R(5) by (auto simp: R(4) min_def split: option.splits)
  qed
  then show "cache_le w \<Longrightarrow> cache_le w'" "cache_exact w \<Longrightarrow> cache_exact w'" "length (tslots w') = length (tslots w)"
    by blast+
qed


definition handle_live :: "sleep_handle \<Rightarrow> wheel \<Rightarrow> bool" where
  "handle_live h w \<longleftrightarrow> h_index h < MAX_SLEEPERS
     \<and> (case tslots w ! h_index h of None \<Rightarrow> False | Some s \<Rightarrow> gen s = h_gen h)"

lemma cancel_stale: "\<not> handle_live h w \<Longrightarrow> cancel h w = w"
  by (auto simp: handle_live_def cancel_def split: option.splits)

lemma cancel_live:
  "handle_live h w \<Longrightarrow> tslots (cancel h w) = (tslots w)[h_index h := None] \<and> called (cancel h w) = called w"
  by (auto simp: handle_live_def cancel_def Let_def split: option.splits)

lemma cancel_cache:
  assumes "length (tslots w) = MAX_SLEEPERS"
  shows "cache_le w \<Longrightarrow> cache_le (cancel h w)" "cache_exact w \<Longrightarrow> cache_exact (cancel h w)"
proof -
  have "(cache_le w \<longrightarrow> cache_le (cancel h w)) \<and> (cache_exact w \<longrightarrow> cache_exact (cancel h w))"
  proof (cases "handle_live h w")
    case False
    then show ?thesis by (simp add: cancel_stale)
  next
    case True
    let ?i = "h_index h"
    obtain s where s: "tslots w ! ?i = Some s" "gen s = h_gen h" "?i < MAX_SLEEPERS"
      using True by (auto simp: handle_live_def split: option.splits)
    have mem: "Some t \<in> set ((tslots w)[?i := None]) \<longleftrightarrow> (\<exists>j < MAX_SLEEPERS. j \<noteq> ?i \<and> tslots w ! j = Some t)" for t
      using mem_list_update [of ?i "tslots w" "Some t" None] s assms by auto
    show ?thesis
    proof (cases "cached_min w = Some (deadline s)")
      case True
      then have "cancel h w = publish_min_locked (set_slot ?i None w)" using s by (simp add: cancel_def Let_def)
      then show ?thesis using cache_exact_iff cache_exact_publish by metis
    next
      case False
      then have c: "cancel h w = set_slot ?i None w" using s by (simp add: cancel_def Let_def)
      have other: "\<exists>j < MAX_SLEEPERS. j \<noteq> ?i \<and> tslots w ! j = Some t"
        if "Some t \<in> set (tslots w)" "cached_min w = Some (deadline t)" for t
        using that False s assms by (auto simp: in_set_conv_nth)
      show ?thesis
        unfolding c cache_exact_iff cache_le_def tslots_simps mem cached_min_simps
        using other assms by (metis nth_mem)
    qed
  qed
  then show "cache_le w \<Longrightarrow> cache_le (cancel h w)" "cache_exact w \<Longrightarrow> cache_exact (cancel h w)" by blast+
qed

subsection \<open>Firing\<close>

definition clear_due :: "u64 \<Rightarrow> timer_slot option \<Rightarrow> timer_slot option" where
  "clear_due now s = (if due_at now s then None else s)"

definition due_wakers :: "u64 \<Rightarrow> timer_slot option list \<Rightarrow> task_waker list" where
  "due_wakers now ss = map (\<lambda>s. slot_waker (the s)) (filter (due_at now) ss)"

definition slice :: "wheel \<Rightarrow> nat \<Rightarrow> nat \<Rightarrow> timer_slot option list" where
  "slice w i j = map (\<lambda>k. tslots w ! k) [i..<j]"

lemma due_wakers_append [simp]: "due_wakers now (xs @ ys) = due_wakers now xs @ due_wakers now ys"
  by (simp add: due_wakers_def)

lemma length_due_wakers_le: "length (due_wakers now ss) \<le> length ss"
  by (simp add: due_wakers_def)

lemma slice_Cons: "i < j \<Longrightarrow> slice w i j = tslots w ! i # slice w (Suc i) j"
  by (simp add: slice_def upt_conv_Cons)

lemma slice_split: "i \<le> k \<Longrightarrow> k \<le> j \<Longrightarrow> slice w i j = slice w i k @ slice w k j"
  unfolding slice_def by (metis le_add_diff_inverse map_append upt_add_eq_append)

lemma slice_cong: "(\<And>k. i \<le> k \<Longrightarrow> k < j \<Longrightarrow> tslots w ! k = tslots w' ! k) \<Longrightarrow> slice w i j = slice w' i j"
  by (simp add: slice_def)

definition swept :: "u64 \<Rightarrow> nat \<Rightarrow> nat \<Rightarrow> wheel \<Rightarrow> wheel \<Rightarrow> bool" where
  "swept now i j w w' \<longleftrightarrow> length (tslots w') = length (tslots w) \<and> cached_min w' = cached_min w
     \<and> (\<forall>k < length (tslots w). tslots w' ! k = (if i \<le> k \<and> k < j then clear_due now (tslots w ! k) else tslots w ! k))"

lemma batch_loop_spec:
  assumes "length (tslots w) = MAX_SLEEPERS" "cursor \<le> MAX_SLEEPERS" "batch_loop now cursor b w = (c, b', w')"
  shows "cursor \<le> c \<and> c \<le> MAX_SLEEPERS \<and> b' = b @ due_wakers now (slice w cursor c) \<and> swept now cursor c w w'
    \<and> called w' = called w"
  using assms
proof (induction now cursor b w rule: batch_loop.induct)
  case (1 now cursor b w)
  show ?case
  proof (cases "cursor < MAX_SLEEPERS \<and> length b < BATCH")
    case False
    then have "c = cursor" "b' = b" "w' = w" using "1.prems"(3) by (auto simp: batch_loop.simps [of now cursor])
    then show ?thesis using "1.prems" by (auto simp: slice_def due_wakers_def swept_def)
  next
    case True
    show ?thesis
    proof (cases "due_at now (tslots w ! cursor)")
      case due: True
      let ?w = "set_slot cursor None w"
      have "batch_loop now (Suc cursor) (b @ [slot_waker (the (tslots w ! cursor))]) ?w = (c, b', w')"
        using "1.prems"(3) True due by (simp add: batch_loop.simps [of now cursor])
      note I = "1.IH"(1) [OF True due _ _ this]
      then have I: "Suc cursor \<le> c" "c \<le> MAX_SLEEPERS" "called w' = called w" "swept now (Suc cursor) c ?w w'"
        "b' = b @ slot_waker (the (tslots w ! cursor)) # due_wakers now (slice ?w (Suc cursor) c)"
        using "1.prems" True by auto
      have "slice ?w (Suc cursor) c = slice w (Suc cursor) c" by (rule slice_cong) simp
      moreover have "swept now cursor c w w'"
        using I(1,4) "1.prems"(1) due by (auto simp: swept_def nth_list_update clear_due_def Suc_le_eq le_eq_less_or_eq)
      ultimately show ?thesis using I due True by (simp add: slice_Cons due_wakers_def)
    next
      case nd: False
      have "batch_loop now (Suc cursor) b w = (c, b', w')"
        using "1.prems"(3) True nd by (simp add: batch_loop.simps [of now cursor])
      note I = "1.IH"(2) [OF True nd "1.prems"(1) _ this]
      then have I: "Suc cursor \<le> c" "c \<le> MAX_SLEEPERS" "called w' = called w" "swept now (Suc cursor) c w w'"
        "b' = b @ due_wakers now (slice w (Suc cursor) c)" using True by auto
      moreover have "swept now cursor c w w'"
        using I(1,4) nd by (auto simp: swept_def clear_due_def Suc_le_eq le_eq_less_or_eq)
      ultimately show ?thesis using nd by (simp add: slice_Cons due_wakers_def)
    qed
  qed
qed

lemma wake_all_id: "wake_all (\<lambda>_ u. u) wks w = w\<lparr>called := called w @ wks\<rparr>"
  by (induction wks arbitrary: w) (simp_all add: wake_all_def)

lemma fire_loop_spec:
  assumes "length (tslots w) = MAX_SLEEPERS" "cursor \<le> MAX_SLEEPERS" "fire_loop (\<lambda>_ u. u) now cursor n w = (n', w')"
  shows "called w' = called w @ due_wakers now (slice w cursor MAX_SLEEPERS)
    \<and> n' = n + length (due_wakers now (slice w cursor MAX_SLEEPERS)) \<and> swept now cursor MAX_SLEEPERS w w'"
  using assms
proof (induction "\<lambda>(_::task_waker) (u::wheel). u" now cursor n w rule: fire_loop.induct)
  case (1 now cursor n w)
  show ?case
  proof (cases "cursor < MAX_SLEEPERS")
    case False
    then have "fire_loop (\<lambda>_ u. u) now cursor n w = (n, w)" by (simp add: fire_loop.simps [of _ now cursor])
    then have "n' = n" "w' = w" "cursor = MAX_SLEEPERS" using False "1.prems" by auto
    then show ?thesis using "1.prems" by (auto simp: slice_def due_wakers_def swept_def)
  next
    case True
    obtain c b u where b: "batch_loop now cursor [] w = (c, b, u)" by (metis prod_cases3)
    let ?u = "u\<lparr>called := called u @ b\<rparr>"
    from batch_loop_spec [OF "1.prems"(1,2) b]
    have B: "cursor \<le> c" "c \<le> MAX_SLEEPERS" "b = due_wakers now (slice w cursor c)" "swept now cursor c w u"
      "called u = called w" by auto
    have "fire_loop (\<lambda>_ u. u) now c (n + length b) ?u = (n', w')"
      using "1.prems"(3) True b by (simp add: fire_loop.simps [of _ _ cursor] wake_all_id)
    moreover have len: "length (tslots ?u) = MAX_SLEEPERS" using B(4) "1.prems"(1) by (simp add: swept_def)
    ultimately have I: "called w' = called ?u @ due_wakers now (slice ?u c MAX_SLEEPERS)"
      "n' = n + length b + length (due_wakers now (slice ?u c MAX_SLEEPERS))" "swept now c MAX_SLEEPERS ?u w'"
      using "1.hyps" [OF True b [symmetric] refl] B(2) by (auto simp: wake_all_id)
    have "slice ?u c MAX_SLEEPERS = slice w c MAX_SLEEPERS"
      using B(4) "1.prems"(1) by (intro slice_cong) (auto simp: swept_def)
    moreover have "swept now cursor MAX_SLEEPERS w w'"
      using I(3) B(1,2,4) by (auto simp: swept_def)
    ultimately show ?thesis
      using I B slice_split [OF B(1,2), of w] by simp
  qed
qed


text \<open>Whatever waking does, the scan ends, keeps the array and takes at most one waker per slot.\<close>

lemma wake_all_length:
  assumes "\<And>wk u. length (tslots (hook wk u)) = length (tslots u)"
  shows "length (tslots (wake_all hook wks w)) = length (tslots w)"
  by (induction wks arbitrary: w) (simp_all add: wake_all_def assms)

lemma fire_loop_bound:
  assumes "\<And>wk u. length (tslots (hook wk u)) = length (tslots u)"
    "length (tslots w) = MAX_SLEEPERS" "cursor \<le> MAX_SLEEPERS"
  shows "fst (fire_loop hook now cursor n w) \<le> n + (MAX_SLEEPERS - cursor)
    \<and> length (tslots (snd (fire_loop hook now cursor n w))) = MAX_SLEEPERS"
  using assms
proof (induction hook now cursor n w rule: fire_loop.induct)
  case (1 hook now cursor n w)
  show ?case
  proof (cases "cursor < MAX_SLEEPERS")
    case False
    then show ?thesis using "1.prems" by (simp add: fire_loop.simps [of hook now])
  next
    case True
    obtain c b u where b: "batch_loop now cursor [] w = (c, b, u)" by (metis prod_cases3)
    from batch_loop_spec [OF "1.prems"(2,3) b]
    have B: "cursor \<le> c" "c \<le> MAX_SLEEPERS" "b = due_wakers now (slice w cursor c)" "swept now cursor c w u" by auto
    have l: "length b \<le> c - cursor" using length_due_wakers_le [of now "slice w cursor c"] by (simp add: B(3) slice_def)
    have "length (tslots (wake_all hook b u)) = MAX_SLEEPERS"
      using wake_all_length [of hook b u, OF "1.prems"(1)] B(4) "1.prems"(2) by (simp add: swept_def)
    from "1.IH" [OF True b [symmetric] refl "1.prems"(1) this B(2)] l B(1,2) True b show ?thesis
      by (simp add: fire_loop.simps [of hook now cursor]) linarith
  qed
qed

subsection \<open>Draining into the deferred queue\<close>

primrec some_mset :: "'a option list \<Rightarrow> 'a multiset" where
  "some_mset [] = {#}"
| "some_mset (x # xs) = (case x of None \<Rightarrow> {#} | Some a \<Rightarrow> {#a#}) + some_mset xs"

lemma some_mset_clear:
  "i < length xs \<Longrightarrow> xs ! i = Some a \<Longrightarrow> some_mset xs = add_mset a (some_mset (xs[i := None]))"
  by (induction xs arbitrary: i) (auto simp: nth_Cons split: nat.splits option.splits)

lemma some_mset_fill:
  "i < length xs \<Longrightarrow> xs ! i = None \<Longrightarrow> some_mset (xs[i := Some a]) = add_mset a (some_mset xs)"
  by (induction xs arbitrary: i) (auto simp: nth_Cons split: nat.splits option.splits)

definition wheel_wakers :: "wheel \<Rightarrow> task_waker multiset" where
  "wheel_wakers w = image_mset slot_waker (some_mset (tslots w))"

definition queue_wakers :: "wake_queue \<Rightarrow> task_waker multiset" where
  "queue_wakers q = some_mset (pending q)"

lemma wheel_wakers_publish [simp]: "wheel_wakers (publish_min_locked w) = wheel_wakers w"
  by (simp add: wheel_wakers_def)

lemma try_push_one_Ok:
  "try_push_one wk q = (q', Ok ()) \<Longrightarrow> queue_wakers q' = add_mset wk (queue_wakers q)
     \<and> length (pending q') = length (pending q)"
  by (auto simp: try_push_one_def queue_wakers_def some_mset_fill split: option.splits dest: position_SomeD)

lemma try_push_one_Err:
  "try_push_one wk q = (q', Err wk') \<Longrightarrow> wk' = wk \<and> pending q' = pending q \<and> (\<forall>s \<in> set (pending q). s \<noteq> None)"
  by (auto simp: try_push_one_def position_None_iff split: option.splits)

text \<open>
  After draining from slot \<open>i\<close> on: nothing is lost, every slot is unchanged or was due
  and moved, and either no due slot is left or the queue is full.
\<close>

definition drained :: "u64 \<Rightarrow> nat \<Rightarrow> wheel \<Rightarrow> wake_queue \<Rightarrow> wheel \<Rightarrow> wake_queue \<Rightarrow> bool" where
  "drained now i w q w' q' \<longleftrightarrow> length (tslots w') = length (tslots w) \<and> cached_min w' = cached_min w
     \<and> wheel_wakers w' + queue_wakers q' = wheel_wakers w + queue_wakers q
     \<and> (\<forall>k < length (tslots w). tslots w' ! k = tslots w ! k \<or> (due_at now (tslots w ! k) \<and> tslots w' ! k = None))
     \<and> ((\<forall>k. i \<le> k \<and> k < length (tslots w) \<longrightarrow> tslots w' ! k = clear_due now (tslots w ! k))
        \<or> (\<forall>s \<in> set (pending q'). s \<noteq> None))"

lemma due_at_Some: "due_at now s \<Longrightarrow> \<exists>t. s = Some t \<and> deadline t \<le> now"
  by (auto simp: due_at_def split: option.splits)

lemma from_Suc:
  fixes i :: nat
  shows "\<forall>k. Suc i \<le> k \<and> k < n \<longrightarrow> P k \<Longrightarrow> P i \<Longrightarrow> \<forall>k. i \<le> k \<and> k < n \<longrightarrow> P k"
  by (metis Suc_leI le_neq_implies_less)

lemma drained_extend:
  assumes "drained now (Suc i) w q w' q'" "tslots w' ! i = clear_due now (tslots w ! i)"
  shows "drained now i w q w' q'"
proof -
  have "(\<forall>k. i \<le> k \<and> k < length (tslots w) \<longrightarrow> tslots w' ! k = clear_due now (tslots w ! k))
      \<or> (\<forall>s \<in> set (pending q'). s \<noteq> None)"
    using assms from_Suc [of i "length (tslots w)" "\<lambda>k. tslots w' ! k = clear_due now (tslots w ! k)"]
    unfolding drained_def by blast
  then show ?thesis using assms(1) unfolding drained_def by blast
qed

lemma drained_moved:
  assumes "drained now (Suc i) (set_slot i None w) q1 w' q'"
    "wheel_wakers w' + queue_wakers q' = wheel_wakers w + queue_wakers q"
    "due_at now (tslots w ! i)" "tslots w' ! i = None"
  shows "drained now (Suc i) w q w' q'"
proof -
  let ?u = "set_slot i None w"
  have u: "tslots ?u ! k = tslots w ! k" if "k \<noteq> i" for k using that by simp
  have "tslots w' ! k = tslots w ! k \<or> due_at now (tslots w ! k) \<and> tslots w' ! k = None" if "k < length (tslots w)" for k
    using assms that u [of k] by (cases "k = i") (auto simp: drained_def)
  moreover have "(\<forall>k. Suc i \<le> k \<and> k < length (tslots w) \<longrightarrow> tslots w' ! k = clear_due now (tslots w ! k))
      \<or> (\<forall>s \<in> set (pending q'). s \<noteq> None)"
    using assms(1) u unfolding drained_def by auto
  ultimately show ?thesis using assms(1,2) unfolding drained_def by simp
qed

lemma wheel_drain_loop_spec:
  assumes "length (tslots w) = MAX_SLEEPERS" "wheel_drain_loop now i w q = (w', q')"
  shows "drained now i w q w' q'"
  using assms
proof (induction now i w q rule: wheel_drain_loop.induct)
  case (1 now i w q)
  show ?case
  proof (cases "i < MAX_SLEEPERS")
    case False
    then show ?thesis using "1.prems" by (auto simp: wheel_drain_loop.simps [of now i] drained_def)
  next
    case True
    show ?thesis
    proof (cases "due_at now (tslots w ! i)")
      case nd: False
      have "wheel_drain_loop now (Suc i) w q = (w', q')"
        using "1.prems"(2) True nd by (simp add: wheel_drain_loop.simps [of now i])
      from "1.IH"(2) [OF True nd "1.prems"(1) this] have I: "drained now (Suc i) w q w' q'" .
      then have "tslots w' ! i = clear_due now (tslots w ! i)"
        using nd True "1.prems"(1) by (auto simp: drained_def clear_due_def)
      with I show ?thesis by (rule drained_extend)
    next
      case due: True
      then obtain s where s: "tslots w ! i = Some s" using due_at_Some by blast
      obtain q1 r where r: "try_push_one (slot_waker s) q = (q1, r)" by (rule prod.exhaust)
      let ?w = "set_slot i None w"
      have ww: "wheel_wakers w = add_mset (slot_waker s) (wheel_wakers ?w)"
        using some_mset_clear [of i "tslots w" s] s True "1.prems"(1) by (simp add: wheel_wakers_def)
      show ?thesis
      proof (cases r)
        case (Inl wk)
        note E = try_push_one_Err [OF r [unfolded Inl]]
        have "w' = set_slot i (Some \<lparr>deadline = deadline s, slot_waker = slot_waker s, gen = gen s\<rparr>) ?w" "q' = q1"
          using "1.prems"(2) True due s r Inl E by (simp_all add: wheel_drain_loop.simps [of now i] Let_def)
        then have "tslots w' = tslots w" "cached_min w' = cached_min w" "pending q' = pending q"
          using s E by (auto simp: list_update_same_conv "1.prems"(1) True)
        then show ?thesis using E by (auto simp: drained_def wheel_wakers_def queue_wakers_def)
      next
        case (Inr u)
        then have P: "queue_wakers q1 = add_mset (slot_waker s) (queue_wakers q)" using try_push_one_Ok r by auto
        have "wheel_drain_loop now (Suc i) ?w q1 = (w', q')"
          using "1.prems"(2) True due s r Inr by (simp add: wheel_drain_loop.simps [of now i] Let_def)
        with "1.IH"(1) [OF True due refl refl, of q1 r] r s Inr "1.prems"(1)
        have I: "drained now (Suc i) ?w q1 w' q'" by simp
        have W: "wheel_wakers w' + queue_wakers q' = wheel_wakers w + queue_wakers q"
          using I ww P by (simp add: drained_def)
        have "tslots w' ! i = None" using I True "1.prems"(1) by (auto simp: drained_def due_at_def)
        then have "tslots w' ! i = clear_due now (tslots w ! i)" using due by (simp add: clear_due_def)
        moreover have "drained now (Suc i) w q w' q'"
          using drained_moved [OF I W due \<open>tslots w' ! i = None\<close>] .
        ultimately show ?thesis by (rule drained_extend [rotated])
      qed
    qed
  qed
qed


subsection \<open>Refreshing\<close>

lemma refresh_waker_at_cache:
  assumes "length (tslots w) = MAX_SLEEPERS" "refresh_waker_at h d wk w = (w', ok)"
  shows "cache_exact w \<Longrightarrow> cache_exact w'"
proof (cases "handle_live h w")
  case False
  then have "w' = w"
    using assms(2) by (auto simp: refresh_waker_at_def handle_live_def Let_def split: option.splits if_splits)
  then show "cache_exact w \<Longrightarrow> cache_exact w'" by simp
next
  case True
  assume ex: "cache_exact w"
  let ?i = "h_index h"
  obtain s where s: "tslots w ! ?i = Some s" "gen s = h_gen h" "?i < MAX_SLEEPERS"
    using True by (auto simp: handle_live_def split: option.splits)
  let ?s = "s\<lparr>deadline := d, slot_waker := wk\<rparr>"
  let ?w2 = "set_slot ?i (Some ?s) (cached_min_write_begin w)"
  have in_s: "Some s \<in> set (tslots w)" using s assms(1) by (metis nth_mem)
  then obtain c where c: "cached_min w = Some c" "c \<le> deadline s"
    using ex by (auto simp: cache_exact_iff cache_le_def)
  have sl: "tslots w' = (tslots w)[?i := Some ?s]"
    and cm: "cached_min w' = Some (if c = deadline s \<and> d > deadline s then the (min_deadline ?w2) else min c d)"
    using assms(2) s c(1) by (auto simp: refresh_waker_at_def Let_def split: if_splits)
  have md: "min_deadline w' = min_deadline ?w2" by (simp add: min_deadline_def sl)
  have mem: "Some t \<in> set (tslots w') \<longleftrightarrow> t = ?s \<or> (\<exists>j < MAX_SLEEPERS. j \<noteq> ?i \<and> tslots w ! j = Some t)" for t
    using mem_list_update [of ?i "tslots w" "Some t" "Some ?s"] s assms(1) by (auto simp: sl)
  show "cache_exact w'"
  proof (cases "c = deadline s \<and> d > deadline s")
    case True
    have "?s \<in> set (live_slots (tslots w'))" using mem [of ?s] by (simp only: set_live_slots) simp
    then have "live_slots (tslots w') \<noteq> []" by (metis list.set(1) empty_iff)
    then have "min_deadline w' \<noteq> None" by (simp only: min_deadline_def min_opt_None map_is_Nil_conv not_False_eq_True)
    then have "min_deadline ?w2 \<noteq> None" by (simp only: md not_False_eq_True)
    then show ?thesis using True cm md by (auto simp: cache_exact_def)
  next
    case False
    then have cm': "cached_min w' = Some (min c d)" using cm by auto
    have le: "c \<le> deadline t" if "tslots w ! j = Some t" "j < MAX_SLEEPERS" for j t
      using ex c(1) that assms(1) nth_mem [of j "tslots w"] by (auto simp: cache_exact_iff cache_le_def)
    have "\<exists>t. Some t \<in> set (tslots w') \<and> deadline t = min c d"
    proof (cases "d \<le> c")
      case True
      then show ?thesis using mem [of ?s] by (intro exI [of _ ?s]) (simp add: min_def)
    next
      case ndc: False
      then have "c \<noteq> deadline s" using False by auto
      moreover obtain t where "Some t \<in> set (tslots w)" "deadline t = c" using ex c(1) by (auto simp: cache_exact_iff)
      ultimately have "\<exists>j < MAX_SLEEPERS. j \<noteq> ?i \<and> tslots w ! j = Some t"
        using s assms(1) by (auto simp: in_set_conv_nth)
      then show ?thesis using mem \<open>deadline t = c\<close> ndc by (intro exI [of _ t]) (auto simp: min_def)
    qed
    moreover have "min c d \<le> deadline t" if "Some t \<in> set (tslots w')" for t
      using that le unfolding mem by (auto intro: min.coboundedI1)
    ultimately show ?thesis using cm' by (auto simp: cache_exact_iff cache_le_def)
  qed
qed

lemma refresh_waker_cache:
  assumes "length (tslots w) = MAX_SLEEPERS" "cache_exact w"
  shows "cache_exact (fst (refresh_waker h wk w))"
proof (cases "handle_live h w")
  case False
  then show ?thesis
    using assms by (auto simp: refresh_waker_def handle_live_def split: option.splits)
next
  case True
  let ?i = "h_index h"
  obtain s where s: "tslots w ! ?i = Some s" "gen s = h_gen h" "?i < MAX_SLEEPERS"
    using True by (auto simp: handle_live_def split: option.splits)
  have "map (map_option deadline) (tslots (fst (refresh_waker h wk w))) = map (map_option deadline) (tslots w)"
    using s assms(1) by (auto simp: refresh_waker_def map_update intro: list_update_same_conv [THEN iffD2])
  moreover have "map deadline (live_slots ss) = List.map_filter (\<lambda>x. x) (map (map_option deadline) ss)" for ss
    by (induction ss) (auto simp: live_slots_def map_filter_def)
  ultimately have "min_deadline (fst (refresh_waker h wk w)) = min_deadline w" by (simp add: min_deadline_def)
  moreover have "cached_min (fst (refresh_waker h wk w)) = cached_min w"
    using s by (simp add: refresh_waker_def)
  ultimately show ?thesis using assms(2) by (simp add: cache_exact_def)
qed


subsection \<open>Runs of the wheel\<close>

text \<open>
  Every operation of the module as a step; \<open>fire_due\<close> with any effect of the woken tasks that
  keeps the slot array an array of \<open>MAX_SLEEPERS\<close> slots.
\<close>

inductive wheel_step :: "wheel \<Rightarrow> wheel \<Rightarrow> bool" where
  step_register: "wheel_step w (fst (register d wk w))"
| step_cancel: "wheel_step w (cancel h w)"
| step_refresh: "wheel_step w (fst (refresh_waker h wk w))"
| step_refresh_at: "wheel_step w (fst (refresh_waker_at h d wk w))"
| step_set_arm: "wheel_step w (set_arm_callback w)"
| step_clear_arm: "wheel_step w (clear_arm_callback w)"
| step_fire: "(\<And>wk u. length (tslots (hook wk u)) = length (tslots u)) \<Longrightarrow> wheel_step w (fst (fire_due hook now w))"
| step_take: "wheel_step w (fst (snd (take_due_into now out w)))"
| step_drain: "wheel_step w (fst (drain_due_to_deferred now w q))"

definition wheel_reachable :: "wheel \<Rightarrow> bool" where
  "wheel_reachable w \<longleftrightarrow> wheel_step\<^sup>*\<^sup>* new_wheel w"

definition wheel_ok :: "wheel \<Rightarrow> bool" where
  "wheel_ok w \<longleftrightarrow> length (tslots w) = MAX_SLEEPERS \<and> cache_exact w"

lemma wheel_ok_publish [simp]: "wheel_ok (publish_min_locked w) \<longleftrightarrow> length (tslots w) = MAX_SLEEPERS"
  by (simp add: wheel_ok_def)

lemma wheel_ok_new [simp]: "wheel_ok new_wheel"
  by (auto simp: wheel_ok_def new_wheel_def cache_exact_iff cache_le_def cached_min_def)

lemma wheel_ok_arm [simp]: "wheel_ok (arm_cb_update f w) \<longleftrightarrow> wheel_ok w"
  by (simp add: wheel_ok_def cache_exact_def cached_min_def min_deadline_def)

lemma length_cancel [simp]: "length (tslots (cancel h w)) = length (tslots w)"
  by (simp add: cancel_def Let_def split: option.splits)

lemma length_refresh [simp]:
  "length (tslots (fst (refresh_waker h wk w))) = length (tslots w)"
  "length (tslots (fst (refresh_waker_at h d wk w))) = length (tslots w)"
  by (simp_all add: refresh_waker_def refresh_waker_at_def Let_def split: option.splits)

lemma wheel_ok_fire:
  assumes "wheel_ok w" "\<And>wk u. length (tslots (hook wk u)) = length (tslots u)"
  shows "wheel_ok (fst (fire_due hook now w))" "snd (fire_due hook now w) \<le> MAX_SLEEPERS"
  using fire_loop_bound [of hook w 0 now 0] assms
  by (auto simp: fire_due_def wheel_ok_def split: option.splits prod.splits)

lemma wheel_ok_drain:
  assumes "wheel_ok w"
  shows "wheel_ok (fst (drain_due_to_deferred now w q))"
  using assms wheel_drain_loop_spec [of w now 0 q]
  by (auto simp: drain_due_to_deferred_def wheel_ok_def drained_def split: option.splits prod.splits)

lemma wheel_step_ok:
  assumes "wheel_step w w'" "wheel_ok w"
  shows "wheel_ok w'"
  using assms
proof cases
  case (step_register d wk)
  then show ?thesis using assms(2) register_cache [of d wk w] by (metis prod.collapse wheel_ok_def)
next
  case (step_cancel h)
  then show ?thesis using assms(2) cancel_cache(2) by (auto simp: wheel_ok_def)
next
  case (step_refresh h wk)
  then show ?thesis using assms(2) refresh_waker_cache by (auto simp: wheel_ok_def)
next
  case (step_refresh_at h d wk)
  then show ?thesis using assms(2) refresh_waker_at_cache [of w h d wk] by (metis length_refresh(2) prod.collapse wheel_ok_def)
next
  case step_set_arm
  then show ?thesis using assms(2) by (simp add: set_arm_callback_def)
next
  case step_clear_arm
  then show ?thesis using assms(2) by (simp add: clear_arm_callback_def)
next
  case (step_take now out)
  then show ?thesis using assms(2) by (simp add: take_due_into_def wheel_ok_def)
qed (auto intro: wheel_ok_fire wheel_ok_drain assms(2))

lemma reachable_wheel_ok: "wheel_reachable w \<Longrightarrow> wheel_ok w"
  unfolding wheel_reachable_def by (induction rule: rtranclp_induct) (auto intro: wheel_step_ok)

text \<open>The early exit of \<open>fire_due\<close> and \<open>drain_due_to_deferred\<close> is taken exactly when nothing is due.\<close>

lemma early_exit:
  assumes "wheel_ok w"
  shows "(case cached_min w of None \<Rightarrow> True | Some d \<Rightarrow> d > now) \<longleftrightarrow> (\<forall>s \<in> set (tslots w). \<not> due_at now s)"
proof -
  have "cache_exact w" using assms by (simp add: wheel_ok_def)
  then show ?thesis
    unfolding cache_exact_iff cache_le_def due_at_def
    by (fastforce split: option.splits simp: not_le)
qed

lemma slice_all: "length (tslots w) = MAX_SLEEPERS \<Longrightarrow> slice w 0 MAX_SLEEPERS = tslots w"
  unfolding slice_def by (metis map_nth)

lemma swept_all: "length (tslots w) = MAX_SLEEPERS \<Longrightarrow> swept now 0 MAX_SLEEPERS w w' \<Longrightarrow> tslots w' = map (clear_due now) (tslots w)"
  by (auto simp: swept_def intro: nth_equalityI)

lemma not_due_clear:
  assumes "\<forall>s \<in> set ss. \<not> due_at now s"
  shows "map (clear_due now) ss = ss" "due_wakers now ss = []"
  using assms by (auto simp: clear_due_def due_wakers_def map_idI)

lemma fire_due_spec:
  assumes "wheel_ok w" "fire_due (\<lambda>_ u. u) now w = (w', n)"
  shows "called w' = called w @ due_wakers now (tslots w)" "tslots w' = map (clear_due now) (tslots w)"
    "n = length (due_wakers now (tslots w))"
proof -
  have len: "length (tslots w) = MAX_SLEEPERS" using assms(1) by (simp add: wheel_ok_def)
  note E = early_exit [OF assms(1), of now]
  have "called w' = called w @ due_wakers now (tslots w) \<and> tslots w' = map (clear_due now) (tslots w)
      \<and> n = length (due_wakers now (tslots w))"
  proof (cases "\<forall>s \<in> set (tslots w). \<not> due_at now s")
    case True
    then show ?thesis using assms(2) E by (simp add: fire_due_def not_due_clear)
  next
    case False
    obtain m u where f: "fire_loop (\<lambda>_ u. u) now 0 0 w = (m, u)" by (rule prod.exhaust)
    then have "w' = publish_min_locked u" "n = m" using assms(2) E False by (simp_all add: fire_due_def)
    then show ?thesis using fire_loop_spec [OF len _ f] slice_all [OF len] swept_all [OF len] by simp
  qed
  then show "called w' = called w @ due_wakers now (tslots w)" "tslots w' = map (clear_due now) (tslots w)"
    "n = length (due_wakers now (tslots w))" by blast+
qed

lemma drain_due_spec:
  assumes "wheel_ok w" "drain_due_to_deferred now w q = (w', q')"
  shows "wheel_wakers w' + queue_wakers q' = wheel_wakers w + queue_wakers q"
    "\<forall>k < MAX_SLEEPERS. tslots w' ! k = tslots w ! k \<or> due_at now (tslots w ! k) \<and> tslots w' ! k = None"
    "tslots w' = map (clear_due now) (tslots w) \<or> (\<forall>s \<in> set (pending q'). s \<noteq> None)"
proof -
  have len: "length (tslots w) = MAX_SLEEPERS" using assms(1) by (simp add: wheel_ok_def)
  note E = early_exit [OF assms(1), of now]
  have "wheel_wakers w' + queue_wakers q' = wheel_wakers w + queue_wakers q
    \<and> (\<forall>k < MAX_SLEEPERS. tslots w' ! k = tslots w ! k \<or> due_at now (tslots w ! k) \<and> tslots w' ! k = None)
    \<and> (tslots w' = map (clear_due now) (tslots w) \<or> (\<forall>s \<in> set (pending q'). s \<noteq> None))"
  proof (cases "\<forall>s \<in> set (tslots w). \<not> due_at now s")
    case True
    then show ?thesis using assms(2) E by (simp add: drain_due_to_deferred_def not_due_clear)
  next
    case False
    obtain u q1 where l: "wheel_drain_loop now 0 w q = (u, q1)" by (rule prod.exhaust)
    then have r: "w' = publish_min_locked u" "q' = q1" using assms(2) E False by (simp_all add: drain_due_to_deferred_def)
    from wheel_drain_loop_spec [OF len l] len have
      d: "wheel_wakers u + queue_wakers q1 = wheel_wakers w + queue_wakers q" "length (tslots u) = MAX_SLEEPERS"
      "\<forall>k < MAX_SLEEPERS. tslots u ! k = tslots w ! k \<or> due_at now (tslots w ! k) \<and> tslots u ! k = None"
      "(\<forall>k < MAX_SLEEPERS. tslots u ! k = clear_due now (tslots w ! k)) \<or> (\<forall>s \<in> set (pending q1). s \<noteq> None)"
      by (auto simp: drained_def)
    then have "tslots u = map (clear_due now) (tslots w) \<or> (\<forall>s \<in> set (pending q1). s \<noteq> None)"
      using len by (auto intro: nth_equalityI)
    with d show ?thesis by (simp add: r)
  qed
  then show "wheel_wakers w' + queue_wakers q' = wheel_wakers w + queue_wakers q"
    "\<forall>k < MAX_SLEEPERS. tslots w' ! k = tslots w ! k \<or> due_at now (tslots w ! k) \<and> tslots w' ! k = None"
    "tslots w' = map (clear_due now) (tslots w) \<or> (\<forall>s \<in> set (pending q'). s \<noteq> None)" by blast+
qed

lemma drain_and_wake_all:
  "drain_and_wake q = (q', wks) \<Longrightarrow> mset wks = queue_wakers q \<and> queue_wakers q' = {#} \<and> \<not> has_pending_local q'"
proof -
  have "mset (List.map_filter (\<lambda>x. x) xs) = some_mset xs" for xs :: "task_waker option list"
    by (induction xs) (auto simp: map_filter_def split: option.splits)
  moreover have "some_mset (map (\<lambda>_. None) xs) = {#}" for xs :: "task_waker option list"
    by (induction xs) auto
  ultimately show "drain_and_wake q = (q', wks) \<Longrightarrow> ?thesis"
    by (auto simp: drain_and_wake_def queue_wakers_def has_pending_local_def Let_def list_ex_iff)
qed

text \<open>Registration, including what is sent to the timer hardware.\<close>

lemma armed_simps [simp]:
  "armed (cached_min_write_begin w) = armed w" "armed (cached_min_write_end m w) = armed w"
  "armed (set_slot i x w) = armed w"
  "arm_cb (cached_min_write_begin w) = arm_cb w" "arm_cb (cached_min_write_end m w) = arm_cb w"
  "arm_cb (set_slot i x w) = arm_cb w"
  by (simp_all add: cached_min_write_begin_def cached_min_write_end_def set_slot_def Let_def split: option.splits)

lemma armed_invoke [simp]: "armed (invoke_arm d w) = armed w @ (if arm_cb w then [d] else [])"
  by (simp add: invoke_arm_def)

lemma register_armed:
  "register d wk w = (w', Ok h) \<Longrightarrow>
   armed w' = armed w @ (if arm_cb w \<and> (case cached_min w of None \<Rightarrow> True | Some p \<Rightarrow> d < p) then [d] else [])"
  by (auto simp: register_def Let_def min_def not_le split: option.splits if_splits)

lemma register_Err_iff: "(\<exists>w' e. register d wk w = (w', Err e)) \<longleftrightarrow> None \<notin> set (tslots w)"
proof -
  have "(\<exists>w' e. register d wk w = (w', Err e)) \<longleftrightarrow> position (\<lambda>s. s = None) (tslots w) = None"
    by (auto simp: register_def Let_def split: option.splits)
  then show ?thesis by (auto simp: position_None_iff)
qed

lemma register_then_cancel:
  assumes "wheel_ok w" "register d wk w = (w', Ok h)"
  shows "handle_live h w'" "tslots (cancel h w') = tslots w"
    "\<not> handle_live h (cancel h w')"
proof -
  note R = register_Ok [OF assms(2)]
  have i: "h_index h < MAX_SLEEPERS" "length (tslots w) = MAX_SLEEPERS" using R(1) assms(1) by (auto simp: wheel_ok_def)
  show l: "handle_live h w'" using i R(3,4) by (simp add: handle_live_def)
  have "tslots (cancel h w') = (tslots w)[h_index h := None]" using cancel_live [OF l] R(4) by simp
  then show "tslots (cancel h w') = tslots w" using R(2) by (metis list_update_id)
  then show "\<not> handle_live h (cancel h w')" using R(2) by (simp add: handle_live_def)
qed

lemma refresh_stale: "\<not> handle_live h w \<Longrightarrow> refresh_waker_at h d wk w = (w, False)"
  by (auto simp: handle_live_def refresh_waker_at_def Let_def split: option.splits)

lemma some_mset_replicate: "some_mset (replicate n None) = {#}"
  by (induction n) auto

subsection \<open>Properties\<close>

text \<open>Two sleepers, due at 5 and 9, on a wheel with the hardware callback installed.\<close>

definition wheel2 :: wheel where
  "wheel2 = fst (register 5 71 (fst (register 9 72 (set_arm_callback new_wheel))))"

lemma wheel2_reachable: "wheel_reachable wheel2"
  unfolding wheel_reachable_def wheel2_def
  by (meson rtranclp.rtrancl_into_rtrancl rtranclp.rtrancl_refl step_register step_set_arm)

lemma wheel1_eval:
  "register 9 72 (set_arm_callback new_wheel) =
   (\<lparr>tslots = Some \<lparr>deadline = 9, slot_waker = 72, gen = 1\<rparr> # None # replicate 1022 None, next_gen = 2,
     next_deadline = 9, next_valid = True, next_seq = 2, arm_cb = True, armed = [9], called = []\<rparr>,
    Ok \<lparr>h_index = 0, h_gen = 1\<rparr>)"
proof -
  have "replicate MAX_SLEEPERS None = None # None # replicate 1022 (None :: timer_slot option)"
    by (simp add: MAX_SLEEPERS_def flip: replicate_Suc)
  then show ?thesis
    by (simp add: new_wheel_def set_arm_callback_def register_def cached_min_def set_slot_def invoke_arm_def
        cached_min_write_begin_def cached_min_write_end_def max_def word_le_nat_alt)
qed

lemma wheel2_eval:
  "wheel2 = \<lparr>tslots = Some \<lparr>deadline = 9, slot_waker = 72, gen = 1\<rparr> # Some \<lparr>deadline = 5, slot_waker = 71, gen = 2\<rparr>
       # replicate 1022 None, next_gen = 3,
     next_deadline = 5, next_valid = True, next_seq = 4, arm_cb = True, armed = [9, 5], called = []\<rparr>"
  unfolding wheel2_def wheel1_eval
  by (simp add: register_def cached_min_def set_slot_def invoke_arm_def cached_min_write_begin_def
      cached_min_write_end_def max_def min_def word_le_nat_alt)

lemma mem_wheel2:
  "Some s \<in> set (tslots wheel2) \<longleftrightarrow> s = \<lparr>deadline = 9, slot_waker = 72, gen = 1\<rparr> \<or> s = \<lparr>deadline = 5, slot_waker = 71, gen = 2\<rparr>"
  by (simp add: wheel2_eval set_replicate_conv_if)

text \<open>
  C37. The lock-free next-deadline cache is exact: after any sequence of wheel operations
  (registrations, cancellations, refreshes with or without a new deadline, firings whatever the woken
  tasks do to the slots, drains) the cached value is the earliest deadline of the armed slots, and it is
  \<open>None\<close> exactly when no slot is armed.
\<close>

theorem next_deadline_exact:
  assumes "wheel_reachable w"
  shows "(\<forall>s. Some s \<in> set (tslots w) \<longrightarrow> (\<exists>c. next_deadline_cycles w = Some c \<and> c \<le> deadline s))
    \<and> (\<forall>c. next_deadline_cycles w = Some c \<longrightarrow> (\<exists>s. Some s \<in> set (tslots w) \<and> deadline s = c))"
  using reachable_wheel_ok [OF assms]
  by (auto simp: wheel_ok_def cache_exact_iff cache_le_def next_deadline_cycles_def)

theorem next_deadline_exact_witness: "next_deadline_cycles wheel2 = Some 5"
proof -
  note T = next_deadline_exact [OF wheel2_reachable, unfolded mem_wheel2]
  from T obtain c where c: "next_deadline_cycles wheel2 = Some c" "c \<le> 5" by auto
  with T have "c = 9 \<or> c = 5" by auto
  with c show ?thesis by (auto simp: word_le_nat_alt)
qed

text \<open>
  Firing is exact: \<open>fire_due\<close> wakes precisely the sleepers whose deadline has
  passed, each once and in slot order, clears their slots, leaves every other slot alone and returns their
  number, although it may return early from the cached minimum alone and releases the lock
  after every 16 wakers. Whatever the woken tasks do to the slots, for instance registering again with a
  deadline already past, one call wakes at most \<open>MAX_SLEEPERS\<close> tasks and then returns.
\<close>

theorem fire_due_exact:
  assumes "wheel_reachable w" and "fire_due (\<lambda>_ u. u) now w = (w', n)"
  shows "called w' = called w @ map (\<lambda>s. slot_waker (the s)) (filter (due_at now) (tslots w))
    \<and> tslots w' = map (\<lambda>s. if due_at now s then None else s) (tslots w)
    \<and> n = length (filter (due_at now) (tslots w))
    \<and> (\<forall>hook. (\<forall>wk u. length (tslots (hook wk u)) = length (tslots u)) \<longrightarrow> snd (fire_due hook now w) \<le> MAX_SLEEPERS)"
  using fire_due_spec [OF reachable_wheel_ok [OF assms(1)] assms(2)]
    wheel_ok_fire(2) [OF reachable_wheel_ok [OF assms(1)]]
  by (auto simp: due_wakers_def clear_due_def)

theorem fire_due_exact_witness:
  "called (fst (fire_due (\<lambda>_ u. u) 6 wheel2)) = [71] \<and> snd (fire_due (\<lambda>_ u. u) 6 wheel2) = 1
   \<and> tslots (fst (fire_due (\<lambda>_ u. u) 6 wheel2)) =
     Some \<lparr>deadline = 9, slot_waker = 72, gen = 1\<rparr> # None # replicate 1022 None"
  using fire_due_exact [OF wheel2_reachable, of 6 "fst (fire_due (\<lambda>_ u. u) 6 wheel2)" "snd (fire_due (\<lambda>_ u. u) 6 wheel2)"]
  by (simp add: wheel2_eval due_at_def word_le_nat_alt)

text \<open>
  C38. The interrupt path loses no wake-up: \<open>drain_due_to_deferred\<close> moves wakers
  of due slots into the deferred queue and nothing else. Every waker is afterwards in exactly one of the two
  places; a slot is either untouched (generation included) or was due and is now empty; and unless the
  queue is full, no due slot is left behind. What is queued is woken by the next \<open>drain_and_wake\<close>, which
  empties the queue.
\<close>

theorem drain_loses_nothing:
  assumes "wheel_reachable w" and "drain_due_to_deferred now w q = (w', q')" and "drain_and_wake q' = (q'', wks)"
  shows "wheel_wakers w' + mset wks = wheel_wakers w + queue_wakers q
    \<and> (\<forall>k < MAX_SLEEPERS. tslots w' ! k = tslots w ! k \<or> due_at now (tslots w ! k) \<and> tslots w' ! k = None)
    \<and> ((\<forall>s \<in> set (pending q'). s \<noteq> None) \<or> (\<forall>s \<in> set (tslots w'). \<not> due_at now s))
    \<and> \<not> has_pending_local q''"
proof -
  note D = drain_due_spec [OF reachable_wheel_ok [OF assms(1)] assms(2)]
  have "\<forall>s \<in> set (map (clear_due now) (tslots w)). \<not> due_at now s" by (auto simp: clear_due_def due_at_def)
  with D drain_and_wake_all [OF assms(3)] show ?thesis by metis
qed

theorem drain_loses_nothing_witness:
  "wheel_wakers (fst (drain_due_to_deferred 6 wheel2 new_queue))
     + mset (snd (drain_and_wake (snd (drain_due_to_deferred 6 wheel2 new_queue)))) = {#71, 72#}"
  using drain_loses_nothing [OF wheel2_reachable, of 6 new_queue, OF surjective_pairing surjective_pairing]
  by (simp add: wheel_wakers_def queue_wakers_def new_queue_def some_mset_replicate wheel2_eval)

text \<open>
  C39. Registration and its handle: \<open>register\<close> fails exactly when no slot is free, and then
  changes nothing. Otherwise it takes a free slot, leaves the others alone, and programs the
  timer hardware exactly when a callback is installed and the new deadline is earlier than every armed
  one. The handle it returns is live; cancelling it restores the slots, after which the same handle is
  stale and cancelling or refreshing through it changes nothing.
\<close>

theorem register_cancel_exact:
  assumes "wheel_reachable w"
  shows "(None \<notin> set (tslots w) \<and> register d wk w = (w, Err WheelFull))
    \<or> (\<exists>w' h. register d wk w = (w', Ok h) \<and> h_index h < MAX_SLEEPERS \<and> tslots w ! h_index h = None
        \<and> tslots w' = (tslots w)[h_index h := Some \<lparr>deadline = d, slot_waker = wk, gen = h_gen h\<rparr>]
        \<and> armed w' = armed w @ (if arm_cb w \<and> (\<forall>s. Some s \<in> set (tslots w) \<longrightarrow> d < deadline s) then [d] else [])
        \<and> tslots (cancel h w') = tslots w
        \<and> cancel h (cancel h w') = cancel h w'
        \<and> refresh_waker_at h d' wk' (cancel h w') = (cancel h w', False))"
proof (cases "snd (register d wk w)")
  case (Inl e)
  then obtain u where "register d wk w = (u, Err e)" by (metis prod.collapse)
  then show ?thesis using register_Err [of d wk w u e] register_Err_iff [of d wk w] by (cases e) auto
next
  case (Inr h)
  then obtain u where r: "register d wk w = (u, Ok h)" by (metis prod.collapse)
  have ok: "wheel_ok w" using reachable_wheel_ok [OF assms] .
  have "(case cached_min w of None \<Rightarrow> True | Some p \<Rightarrow> d < p) \<longleftrightarrow> (\<forall>s. Some s \<in> set (tslots w) \<longrightarrow> d < deadline s)"
    using ok by (auto simp: wheel_ok_def cache_exact_iff cache_le_def split: option.splits)
  then show ?thesis
    using r register_Ok [OF r] ok [unfolded wheel_ok_def] register_armed [OF r] register_then_cancel [OF ok r] cancel_stale refresh_stale
    by (intro disjI2 exI [of _ u] exI [of _ h]) simp
qed

theorem register_cancel_exact_witness:
  "\<exists>w' h. register 3 73 wheel2 = (w', Ok h) \<and> armed w' = [9, 5, 3] \<and> tslots (cancel h w') = tslots wheel2"
  using register_cancel_exact [OF wheel2_reachable, of 3 73 0 0]
  by (auto simp: wheel2_eval)

end
