(* ===== verification/Bpf_Tnum.thy ===== *)
theory Bpf_Tnum
  imports Narf_Prelude
begin

text \<open>
  Tristate numbers, the bit-level half of the BPF verifier's numeric domain
  (\<open>bpf/verifier/src/domain.rs\<close>, \<open>impl Tnum\<close>). A tnum has a word of known bits and a word of unknown
  bits; its concretisation is \<open>tnum_contains\<close>. Every operation is shown to contain the result of the concrete
  64-bit operation on all members. Addition and subtraction go through the carry and borrow chains:
  a carry is monotone in the operands' bits, so the carries of any two members lie between those of
  the extreme members, and where the extremes agree the bit is known.
\<close>

subsection \<open>Definitions\<close>

record tnum =
  tvalue :: u64
  tmask :: u64

definition SIGN :: u64 where "SIGN = push_bit 63 1"

definition Tnum_UNKNOWN :: tnum where "Tnum_UNKNOWN = \<lparr>tvalue = 0, tmask = - 1\<rparr>"
definition Tnum_ZERO :: tnum where "Tnum_ZERO = \<lparr>tvalue = 0, tmask = 0\<rparr>"

definition tnum_constant :: "u64 \<Rightarrow> tnum" where
  "tnum_constant v = \<lparr>tvalue = v, tmask = 0\<rparr>"

definition tnum_is_const :: "tnum \<Rightarrow> bool" where
  "tnum_is_const t \<longleftrightarrow> tmask t = 0"

definition tnum_contains :: "tnum \<Rightarrow> u64 \<Rightarrow> bool" where
  "tnum_contains t v \<longleftrightarrow> v AND NOT (tmask t) = tvalue t"

definition tnum_unsigned_bounds :: "tnum \<Rightarrow> u64 \<times> u64" where
  "tnum_unsigned_bounds t = (tvalue t, tvalue t OR tmask t)"

text \<open>A cast \<open>as i64\<close> is \<open>sint\<close>; signed values are integers.\<close>

definition tnum_signed_bounds :: "tnum \<Rightarrow> int \<times> int" where
  "tnum_signed_bounds t =
     (let can_be_neg = (tvalue t OR tmask t) AND SIGN \<noteq> 0;
          can_be_pos = tvalue t AND SIGN = 0
      in (if can_be_neg then sint (tvalue t OR SIGN) else sint (tvalue t),
          if can_be_pos then sint ((tvalue t OR tmask t) AND NOT SIGN) else sint (tvalue t OR tmask t)))"

text \<open>\<open>u64::leading_zeros\<close>.\<close>

definition leading_zeros :: "u64 \<Rightarrow> nat" where
  "leading_zeros w = length (takeWhile (\<lambda>i. \<not> bit w i) (rev [0..<64]))"

definition tnum_from_unsigned_range :: "u64 \<Rightarrow> u64 \<Rightarrow> tnum" where
  "tnum_from_unsigned_range lo hi =
     (if lo > hi then Tnum_UNKNOWN
      else
        (let differing = lo XOR hi in
         if differing = 0 then tnum_constant lo
         else
           (let bits = 64 - leading_zeros differing in
            if bits \<ge> 64 then Tnum_UNKNOWN
            else (let delta = push_bit bits 1 - 1
                  in \<lparr>tvalue = hi AND NOT delta, tmask = delta\<rparr>))))"

definition tnum_join :: "tnum \<Rightarrow> tnum \<Rightarrow> tnum" where
  "tnum_join a b =
     (let mu = tmask a OR tmask b OR (tvalue a XOR tvalue b)
      in \<lparr>tvalue = tvalue a AND NOT mu, tmask = mu\<rparr>)"

definition tnum_meet :: "tnum \<Rightarrow> tnum \<Rightarrow> tnum option" where
  "tnum_meet a b =
     (if (tvalue a XOR tvalue b) AND NOT (tmask a OR tmask b) \<noteq> 0 then None
      else (let mu = tmask a AND tmask b
            in Some \<lparr>tvalue = (tvalue a OR tvalue b) AND NOT mu, tmask = mu\<rparr>))"

definition tnum_is_subset_of :: "tnum \<Rightarrow> tnum \<Rightarrow> bool" where
  "tnum_is_subset_of a b \<longleftrightarrow>
     tmask a AND NOT (tmask b) = 0 \<and> (tvalue a XOR tvalue b) AND NOT (tmask b) = 0"

definition tnum_add :: "tnum \<Rightarrow> tnum \<Rightarrow> tnum" where
  "tnum_add a b =
     (let sm = tmask a + tmask b;
          sv = tvalue a + tvalue b;
          sigma = sm + sv;
          chi = sigma XOR sv;
          mu = chi OR tmask a OR tmask b
      in \<lparr>tvalue = sv AND NOT mu, tmask = mu\<rparr>)"

definition tnum_sub :: "tnum \<Rightarrow> tnum \<Rightarrow> tnum" where
  "tnum_sub a b =
     (let dv = tvalue a - tvalue b;
          alpha = dv + tmask a;
          beta = dv - tmask b;
          chi = alpha XOR beta;
          mu = chi OR tmask a OR tmask b
      in \<lparr>tvalue = dv AND NOT mu, tmask = mu\<rparr>)"

definition tnum_and :: "tnum \<Rightarrow> tnum \<Rightarrow> tnum" where
  "tnum_and a b =
     (let alpha = tvalue a OR tmask a;
          beta = tvalue b OR tmask b;
          v = tvalue a AND tvalue b
      in \<lparr>tvalue = v, tmask = alpha AND beta AND NOT v\<rparr>)"

definition tnum_or :: "tnum \<Rightarrow> tnum \<Rightarrow> tnum" where
  "tnum_or a b =
     (let v = tvalue a OR tvalue b;
          mu = tmask a OR tmask b
      in \<lparr>tvalue = v, tmask = mu AND NOT v\<rparr>)"

definition tnum_xor :: "tnum \<Rightarrow> tnum \<Rightarrow> tnum" where
  "tnum_xor a b =
     (let v = tvalue a XOR tvalue b;
          mu = tmask a OR tmask b
      in \<lparr>tvalue = v AND NOT mu, tmask = mu\<rparr>)"

definition tnum_shl :: "tnum \<Rightarrow> nat \<Rightarrow> tnum" where
  "tnum_shl a n =
     (if n \<ge> 64 then Tnum_ZERO else \<lparr>tvalue = push_bit n (tvalue a), tmask = push_bit n (tmask a)\<rparr>)"

definition tnum_shr :: "tnum \<Rightarrow> nat \<Rightarrow> tnum" where
  "tnum_shr a n =
     (if n \<ge> 64 then Tnum_ZERO else \<lparr>tvalue = drop_bit n (tvalue a), tmask = drop_bit n (tmask a)\<rparr>)"

definition tnum_sar :: "tnum \<Rightarrow> nat \<Rightarrow> tnum" where
  "tnum_sar a n =
     (let n = if n \<ge> 64 then 63 else n
      in \<lparr>tvalue = signed_drop_bit n (tvalue a), tmask = signed_drop_bit n (tmask a)\<rparr>)"

text \<open>The multiplication loop; \<open>steps\<close> counts down from 64.\<close>

fun tnum_mul_loop :: "nat \<Rightarrow> tnum \<Rightarrow> tnum \<Rightarrow> tnum \<Rightarrow> tnum" where
  "tnum_mul_loop 0 acc a b = acc"
| "tnum_mul_loop (Suc steps) acc a b =
     (if tvalue a OR tmask a \<noteq> 0
      then
        (let acc' = (if tvalue a AND 1 \<noteq> 0 then tnum_add acc b
                     else if tmask a AND 1 \<noteq> 0 then tnum_add acc \<lparr>tvalue = 0, tmask = tvalue b OR tmask b\<rparr>
                     else acc)
         in tnum_mul_loop steps acc' (tnum_shr a 1) (tnum_shl b 1))
      else acc)"

definition tnum_mul :: "tnum \<Rightarrow> tnum \<Rightarrow> tnum" where
  "tnum_mul a b = tnum_mul_loop 64 Tnum_ZERO a b"

definition tnum_zero_extend :: "tnum \<Rightarrow> nat \<Rightarrow> tnum" where
  "tnum_zero_extend a bits =
     (if bits \<ge> 64 then a
      else (let keep = push_bit bits 1 - 1 in \<lparr>tvalue = tvalue a AND keep, tmask = tmask a AND keep\<rparr>))"

text \<open>Callers pass a width of at least one bit: a shift by 64 panics.\<close>

definition tnum_sign_extend :: "tnum \<Rightarrow> nat \<Rightarrow> tnum" where
  "tnum_sign_extend a bits =
     (if bits \<ge> 64 then a
      else (let shift = 64 - bits
            in \<lparr>tvalue = signed_drop_bit shift (push_bit shift (tvalue a)),
                tmask = signed_drop_bit shift (push_bit shift (tmask a))\<rparr>))"

subsection \<open>Membership, bit by bit\<close>

lemma u64_eq_iff: "(x :: u64) = y \<longleftrightarrow> (\<forall>i < 64. bit x i \<longleftrightarrow> bit y i)"
  by (auto intro: bit_word_eqI)

lemma bit_u64: "bit (w :: u64) i \<Longrightarrow> i < 64"
  by (drule bit_imp_le_length) simp

lemma tnum_contains_bits:
  "tnum_contains t v \<longleftrightarrow> (\<forall>i < 64. bit (tvalue t) i \<longleftrightarrow> bit v i \<and> \<not> bit (tmask t) i)"
  by (auto simp: tnum_contains_def u64_eq_iff bit_simps)

lemma tnum_containsD:
  assumes "tnum_contains t v" "i < 64"
  shows "bit (tvalue t) i \<longleftrightarrow> bit v i \<and> \<not> bit (tmask t) i"
  using assms by (simp add: tnum_contains_bits)

lemma tnum_contains_all_bits:
  "tnum_contains t v \<longleftrightarrow> (\<forall>i. bit (tvalue t) i \<longleftrightarrow> bit v i \<and> \<not> bit (tmask t) i)"
proof -
  have "\<not> bit w i" if "\<not> i < 64" for w :: u64 and i
    using that bit_imp_le_length [of w i] by auto
  then show ?thesis unfolding tnum_contains_bits by blast
qed

lemma tnum_contains_constant [simp]: "tnum_contains (tnum_constant c) v \<longleftrightarrow> v = c"
  by (auto simp: tnum_contains_def tnum_constant_def)

lemma tnum_contains_UNKNOWN [simp]: "tnum_contains Tnum_UNKNOWN v"
  by (simp add: tnum_contains_def Tnum_UNKNOWN_def)

lemma tnum_contains_ZERO [simp]: "tnum_contains Tnum_ZERO v \<longleftrightarrow> v = 0"
  by (simp add: tnum_contains_def Tnum_ZERO_def)

lemma tnum_is_const_contains: "tnum_is_const t \<Longrightarrow> tnum_contains t v \<longleftrightarrow> v = tvalue t"
  by (auto simp: tnum_is_const_def tnum_contains_def)

lemmas contains_bits = tnum_contains_bits bit_simps

subsection \<open>Lattice operations\<close>

lemma tnum_join_left: "tnum_contains a v \<Longrightarrow> tnum_contains (tnum_join a b) v"
  by (auto simp: contains_bits tnum_join_def Let_def)

lemma tnum_join_right: "tnum_contains b v \<Longrightarrow> tnum_contains (tnum_join a b) v"
  by (auto simp: contains_bits tnum_join_def Let_def)

lemma tnum_meet_None:
  assumes "tnum_meet a b = None"
  shows "\<not> (tnum_contains a v \<and> tnum_contains b v)"
proof -
  obtain i where "i < 64" "bit (tvalue a) i \<noteq> bit (tvalue b) i" "\<not> bit (tmask a) i" "\<not> bit (tmask b) i"
    using assms by (auto simp: tnum_meet_def u64_eq_iff bit_simps Let_def split: if_splits)
  then show ?thesis by (auto simp: tnum_contains_bits)
qed

lemma tnum_meet_Some:
  assumes "tnum_meet a b = Some c"
  shows "tnum_contains a v \<and> tnum_contains b v \<Longrightarrow> tnum_contains c v"
  using assms by (auto simp: contains_bits tnum_meet_def Let_def split: if_splits)

lemma tnum_subset_sound: "tnum_is_subset_of a b \<Longrightarrow> tnum_contains a v \<Longrightarrow> tnum_contains b v \<or> tvalue b AND tmask b \<noteq> 0"
  by (auto simp: contains_bits tnum_is_subset_of_def u64_eq_iff)


subsection \<open>Carries and borrows\<close>

text \<open>The carry into position \<open>i\<close> of a sum, and the borrow into position \<open>i\<close> of a difference.\<close>

definition carry :: "u64 \<Rightarrow> u64 \<Rightarrow> nat \<Rightarrow> bool" where
  "carry x y i \<longleftrightarrow> 2 ^ i \<le> take_bit i (uint x) + take_bit i (uint y)"

definition borrow :: "u64 \<Rightarrow> u64 \<Rightarrow> nat \<Rightarrow> bool" where
  "borrow x y i \<longleftrightarrow> take_bit i (uint x) < take_bit i (uint y)"

lemma int_bit_add:
  "bit (a + b :: int) i \<longleftrightarrow> (bit a i \<noteq> bit b i) \<noteq> (2 ^ i \<le> take_bit i a + take_bit i b)"
proof -
  let ?ra = "a mod 2 ^ i" and ?rb = "b mod 2 ^ i"
  have "(a + b) div 2 ^ i = a div 2 ^ i + b div 2 ^ i + (?ra + ?rb) div 2 ^ i"
    by (rule div_add1_eq)
  moreover have "(?ra + ?rb) div 2 ^ i = (if 2 ^ i \<le> ?ra + ?rb then 1 else 0)"
  proof -
    have lt: "0 \<le> ?ra" "?ra < 2 ^ i" "0 \<le> ?rb" "?rb < 2 ^ i" by simp_all
    show ?thesis
    proof (cases "2 ^ i \<le> ?ra + ?rb")
      case True
      have "?ra + ?rb = 2 ^ i * 1 + (?ra + ?rb - 2 ^ i)" by simp
      then have "(?ra + ?rb) div 2 ^ i = 1" by (rule int_div_pos_eq) (use lt True in linarith)+
      then show ?thesis using True by simp
    next
      case False
      then show ?thesis using lt by (simp only: if_False) (rule div_pos_pos_trivial, linarith+)
    qed
  qed
  ultimately show ?thesis by (auto simp: bit_iff_odd take_bit_eq_mod)
qed

lemma bit_uint: "bit (uint (x :: u64)) i \<longleftrightarrow> i < 64 \<and> bit x i"
  by (auto simp: bit_unsigned_iff dest: bit_imp_le_length)

lemma bit_add_carry:
  assumes "i < 64"
  shows "bit (x + y :: u64) i \<longleftrightarrow> (bit x i \<noteq> bit y i) \<noteq> carry x y i"
proof -
  have "bit (x + y) i \<longleftrightarrow> bit (uint (x + y)) i" using assms by (simp add: bit_uint)
  also have "uint (x + y) = take_bit 64 (uint x + uint y)"
    by (simp add: uint_word_ariths take_bit_eq_mod)
  finally show ?thesis using assms by (simp add: bit_take_bit_iff int_bit_add carry_def bit_uint)
qed

lemma bit_sub_borrow:
  assumes "i < 64"
  shows "bit (x - y :: u64) i \<longleftrightarrow> (bit x i \<noteq> bit y i) \<noteq> borrow x y i"
proof -
  define z where "z = x - y"
  have x: "x = z + y" by (simp add: z_def)
  have "uint x = take_bit 64 (uint z + uint y)" unfolding x by (simp add: uint_word_ariths take_bit_eq_mod)
  then have "take_bit i (uint x) = take_bit i (uint z + uint y)" using assms by (simp add: min_def)
  then have t: "take_bit i (uint x) = (take_bit i (uint z) + take_bit i (uint y)) mod 2 ^ i"
    by (simp add: take_bit_eq_mod mod_simps)
  let ?s = "take_bit i (uint z) + take_bit i (uint y)"
  have lt: "0 \<le> take_bit i (uint z)" "take_bit i (uint z) < 2 ^ i" "0 \<le> take_bit i (uint y)" "take_bit i (uint y) < 2 ^ i"
    by simp_all
  have "carry z y i \<longleftrightarrow> borrow x y i"
  proof (cases "2 ^ i \<le> ?s")
    case True
    have "?s mod 2 ^ i = ?s - 2 ^ i"
      by (rule int_mod_pos_eq [of _ _ 1]) (use lt True in linarith)+
    then show ?thesis unfolding carry_def borrow_def t using lt True by simp
  next
    case False
    then have "?s mod 2 ^ i = ?s" using lt by (intro mod_pos_pos_trivial) auto
    then show ?thesis unfolding carry_def borrow_def t using lt False by simp
  qed
  moreover have "bit x i \<longleftrightarrow> (bit z i \<noteq> bit y i) \<noteq> carry z y i"
    using bit_add_carry [OF assms, of z y] by (simp add: x)
  ultimately show ?thesis unfolding z_def by blast
qed

definition bits_le :: "u64 \<Rightarrow> u64 \<Rightarrow> bool" where
  "bits_le x y \<longleftrightarrow> (\<forall>i < 64. bit x i \<longrightarrow> bit y i)"

lemma bits_le_take_bit:
  assumes "bits_le x y"
  shows "take_bit i (uint x) \<le> take_bit i (uint y)"
proof -
  have "take_bit i (uint x) = take_bit i (uint y) AND take_bit i (uint x)"
    using assms by (intro bit_eqI) (auto simp: bits_le_def bit_and_iff bit_take_bit_iff bit_uint)
  also have "\<dots> \<le> take_bit i (uint y)" by (rule AND_upper1) simp
  finally show ?thesis .
qed

lemma bits_le_refl: "bits_le x x"
  by (simp add: bits_le_def)

lemma carry_mono: "bits_le x x' \<Longrightarrow> bits_le y y' \<Longrightarrow> carry x y i \<Longrightarrow> carry x' y' i"
  using bits_le_take_bit [of x x' i] bits_le_take_bit [of y y' i] by (simp add: carry_def)

lemma borrow_mono: "bits_le x' x \<Longrightarrow> bits_le y y' \<Longrightarrow> borrow x y i \<Longrightarrow> borrow x' y' i"
  using bits_le_take_bit [of x' x i] bits_le_take_bit [of y y' i] by (simp add: borrow_def)

text \<open>The least and the greatest member of a tnum, in the order of bits.\<close>

lemma contains_bits_le:
  assumes "tnum_contains t v"
  shows "bits_le (tvalue t) v" "bits_le v (tvalue t OR tmask t)" "bits_le (tvalue t) (tvalue t OR tmask t)"
  using tnum_containsD [OF assms] by (auto simp: bits_le_def bit_or_iff)

lemma contains_or_add: "tnum_contains t v \<Longrightarrow> tvalue t OR tmask t = tvalue t + tmask t"
  by (rule disjunctive_add_eq_or [symmetric]) (auto simp: u64_eq_iff tnum_contains_bits bit_and_iff)


subsection \<open>Arithmetic\<close>

lemma tnum_add_sound:
  assumes "tnum_contains a x" "tnum_contains b y"
  shows "tnum_contains (tnum_add a b) (x + y)"
proof -
  let ?A = "tvalue a OR tmask a" and ?B = "tvalue b OR tmask b"
  let ?sv = "tvalue a + tvalue b"
  have sigma: "tmask a + tmask b + ?sv = ?A + ?B"
    by (simp add: contains_or_add [OF assms(1)] contains_or_add [OF assms(2)])
  note la = contains_bits_le [OF assms(1)] and lb = contains_bits_le [OF assms(2)]
  have "bit (x + y) i \<longleftrightarrow> bit ?sv i"
    if i: "i < 64" and m: "\<not> bit (tmask a) i" "\<not> bit (tmask b) i" and eq: "bit (?A + ?B) i \<longleftrightarrow> bit ?sv i" for i
  proof -
    have xa: "bit x i \<longleftrightarrow> bit (tvalue a) i" "bit y i \<longleftrightarrow> bit (tvalue b) i"
      using tnum_containsD [OF assms(1) i] tnum_containsD [OF assms(2) i] m by auto
    have "carry (tvalue a) (tvalue b) i \<longleftrightarrow> carry ?A ?B i"
      using eq m by (auto simp: bit_add_carry [OF i] bit_or_iff)
    moreover have "carry (tvalue a) (tvalue b) i \<Longrightarrow> carry x y i" by (rule carry_mono [OF la(1) lb(1)])
    moreover have "carry x y i \<Longrightarrow> carry ?A ?B i" by (rule carry_mono [OF la(2) lb(2)])
    ultimately show ?thesis using xa by (auto simp: bit_add_carry [OF i])
  qed
  then show ?thesis
    unfolding tnum_contains_bits tnum_add_def Let_def sigma by (auto simp: bit_simps)
qed

lemma tnum_sub_sound:
  assumes "tnum_contains a x" "tnum_contains b y"
  shows "tnum_contains (tnum_sub a b) (x - y)"
proof -
  let ?A = "tvalue a OR tmask a" and ?B = "tvalue b OR tmask b"
  let ?dv = "tvalue a - tvalue b"
  have al: "?dv + tmask a = ?A - tvalue b" and be: "?dv - tmask b = tvalue a - ?B"
    by (simp_all add: contains_or_add [OF assms(1)] contains_or_add [OF assms(2)])
  note la = contains_bits_le [OF assms(1)] and lb = contains_bits_le [OF assms(2)]
  have "bit (x - y) i \<longleftrightarrow> bit ?dv i"
    if i: "i < 64" and m: "\<not> bit (tmask a) i" "\<not> bit (tmask b) i"
      and eq: "bit (?A - tvalue b) i \<longleftrightarrow> bit (tvalue a - ?B) i" for i
  proof -
    have xa: "bit x i \<longleftrightarrow> bit (tvalue a) i" "bit y i \<longleftrightarrow> bit (tvalue b) i"
      using tnum_containsD [OF assms(1) i] tnum_containsD [OF assms(2) i] m by auto
    have "borrow ?A (tvalue b) i \<longleftrightarrow> borrow (tvalue a) ?B i"
      using eq m by (auto simp: bit_sub_borrow [OF i] bit_or_iff)
    moreover have "borrow ?A (tvalue b) i \<Longrightarrow> borrow x y i" by (rule borrow_mono [OF la(2) lb(1)])
    moreover have "borrow x y i \<Longrightarrow> borrow (tvalue a) ?B i" by (rule borrow_mono [OF la(1) lb(2)])
    moreover have "borrow ?A (tvalue b) i \<Longrightarrow> borrow (tvalue a) (tvalue b) i"
      by (rule borrow_mono [OF la(3) bits_le_refl])
    moreover have "borrow (tvalue a) (tvalue b) i \<Longrightarrow> borrow (tvalue a) ?B i"
      by (rule borrow_mono [OF bits_le_refl lb(3)])
    ultimately show ?thesis unfolding bit_sub_borrow [OF i] xa by blast
  qed
  then show ?thesis
    unfolding tnum_contains_bits tnum_sub_def Let_def al be by (auto simp: bit_simps)
qed

lemma tnum_and_sound: "tnum_contains a x \<Longrightarrow> tnum_contains b y \<Longrightarrow> tnum_contains (tnum_and a b) (x AND y)"
  by (auto simp: contains_bits tnum_and_def Let_def)

lemma tnum_or_sound: "tnum_contains a x \<Longrightarrow> tnum_contains b y \<Longrightarrow> tnum_contains (tnum_or a b) (x OR y)"
  by (auto simp: contains_bits tnum_or_def Let_def)

lemma tnum_xor_sound: "tnum_contains a x \<Longrightarrow> tnum_contains b y \<Longrightarrow> tnum_contains (tnum_xor a b) (x XOR y)"
  by (auto simp: contains_bits tnum_xor_def Let_def)

lemma tnum_shl_sound: "tnum_contains a x \<Longrightarrow> tnum_contains (tnum_shl a n) (push_bit n x)"
  by (auto simp: tnum_contains_bits tnum_shl_def bit_push_bit_iff u64_eq_iff Tnum_ZERO_def)

lemma drop_bit_eq_zero: "64 \<le> n \<Longrightarrow> drop_bit n (x :: u64) = 0"
  by (auto simp: u64_eq_iff bit_drop_bit_eq dest: bit_imp_le_length)

lemma tnum_shr_sound: "tnum_contains a x \<Longrightarrow> tnum_contains (tnum_shr a n) (drop_bit n x)"
  by (cases "n < 64") (auto simp: tnum_contains_all_bits tnum_shr_def bit_drop_bit_eq drop_bit_eq_zero Tnum_ZERO_def)

lemma tnum_sar_sound:
  assumes "tnum_contains a x" "n < 64"
  shows "tnum_contains (tnum_sar a n) (signed_drop_bit n x)"
  using assms by (auto simp: tnum_contains_bits tnum_sar_def bit_signed_drop_bit_iff Let_def)

lemma tnum_sign_extend_sound:
  assumes "tnum_contains a x" "0 < bits" "bits < 64"
  shows "tnum_contains (tnum_sign_extend a bits) (signed_drop_bit (64 - bits) (push_bit (64 - bits) x))"
  using assms by (auto simp: tnum_contains_bits tnum_sign_extend_def bit_signed_drop_bit_iff bit_push_bit_iff Let_def)

lemma low_mask: "(2 ^ bits - 1 :: u64) = mask bits"
  by (simp add: mask_eq_exp_minus_1)

lemma tnum_zero_extend_sound: "tnum_contains a x \<Longrightarrow> tnum_contains (tnum_zero_extend a bits) (take_bit bits x)"
  by (cases "bits < 64")
    (auto simp: tnum_contains_bits tnum_zero_extend_def low_mask Let_def bit_simps)

lemma and_1: "(w :: u64) AND 1 = (if bit w 0 then 1 else 0)"
  by (simp add: and_one_eq bit_0 odd_iff_mod_2_eq_one)

lemma tnum_mul_loop_sound:
  assumes "tnum_contains acc p" "tnum_contains a x" "tnum_contains b y" "unat x < 2 ^ steps"
  shows "tnum_contains (tnum_mul_loop steps acc a b) (p + x * y)"
  using assms
proof (induction steps arbitrary: acc a b p x y)
  case 0
  then have "x = 0" by (simp add: unat_eq_0)
  then show ?case using 0 by simp
next
  case (Suc steps)
  show ?case
  proof (cases "tvalue a OR tmask a = 0")
    case True
    then have "x = 0" using Suc.prems(2) by (auto simp: u64_eq_iff tnum_contains_bits bit_or_iff)
    then show ?thesis using True Suc.prems by simp
  next
    case False
    let ?d = "x AND 1"
    have split: "x * y = ?d * y + drop_bit 1 x * push_bit 1 y"
    proof -
      have "x = ?d + 2 * drop_bit 1 x"
        by (metis bits_ident and_one_eq mult.commute push_bit_eq_mult power_one_right take_bit_Suc_0 One_nat_def add.commute)
      then have "x * y = (?d + 2 * drop_bit 1 x) * y" by simp
      then show ?thesis by (simp add: push_bit_eq_mult algebra_simps)
    qed
    have lt: "unat (drop_bit 1 x) < 2 ^ steps" using Suc.prems(4) by (simp add: drop_bit_eq_div unat_div)
    let ?acc = "if tvalue a AND 1 \<noteq> 0 then tnum_add acc b
        else if tmask a AND 1 \<noteq> 0 then tnum_add acc \<lparr>tvalue = 0, tmask = tvalue b OR tmask b\<rparr> else acc"
    have "tnum_contains ?acc (p + ?d * y)"
    proof -
      have b0: "bit (tvalue a) 0 \<longleftrightarrow> bit x 0 \<and> \<not> bit (tmask a) 0" using tnum_containsD [OF Suc.prems(2), of 0] by simp
      have any: "tnum_contains \<lparr>tvalue = 0, tmask = tvalue b OR tmask b\<rparr> (?d * y)"
        using Suc.prems(3) by (auto simp: tnum_contains_bits and_1 bit_or_iff)
      show ?thesis
        using b0 tnum_add_sound [OF Suc.prems(1,3)] tnum_add_sound [OF Suc.prems(1) any] Suc.prems(1)
        by (auto simp: and_1)
    qed
    from Suc.IH [OF this tnum_shr_sound [OF Suc.prems(2), of 1] tnum_shl_sound [OF Suc.prems(3), of 1] lt]
    show ?thesis using False by (simp add: split add.assoc Let_def)
  qed
qed


lemma tnum_mul_sound:
  assumes "tnum_contains a x" "tnum_contains b y"
  shows "tnum_contains (tnum_mul a b) (x * y)"
  using tnum_mul_loop_sound [of Tnum_ZERO 0 a x b y 64] assms unsigned_less [of x] by (simp add: tnum_mul_def)

subsection \<open>Bounds\<close>

lemma take_bit_uint: "take_bit 64 (uint (x :: u64)) = uint x"
  by (rule take_bit_int_eq_self) (use uint_lt2p [of x] in simp_all)

lemma bits_le_uint: "bits_le x y \<Longrightarrow> uint x \<le> uint y"
  using bits_le_take_bit [of x y 64] by (simp add: take_bit_uint)

lemma tnum_unsigned_bounds_sound:
  assumes "tnum_contains t v" "tnum_unsigned_bounds t = (lo, hi)"
  shows "lo \<le> v" "v \<le> hi"
  using assms contains_bits_le [OF assms(1)] bits_le_uint
  by (auto simp: tnum_unsigned_bounds_def word_le_def)

lemma sint_uint_sign: "sint (x :: u64) = uint x - (if bit x 63 then 2 ^ 64 else 0)"
proof -
  have "sint x = signed_take_bit 63 (uint x)" by (simp add: sint_uint)
  also have "\<dots> = take_bit 64 (uint x) - 2 ^ 64 * of_bool (bit (uint x) 63)"
    by (simp add: signed_take_bit_eq_take_bit_minus)
  finally show ?thesis by (simp add: take_bit_uint bit_uint)
qed

lemma bits_le_sint:
  fixes x y :: u64
  assumes "bits_le x y" "bit x 63 = bit y 63"
  shows "sint x \<le> sint y"
  using bits_le_uint [OF assms(1)] assms(2) by (simp add: sint_uint_sign)

lemma sign_sint: "bit (x :: u64) 63 \<longleftrightarrow> sint x < 0"
  using uint_lt2p [of x] uint_ge_0 [of x] by (auto simp: sint_uint_sign)

lemma sign_less_sint: "bit (x :: u64) 63 \<Longrightarrow> \<not> bit y 63 \<Longrightarrow> sint x \<le> sint (y :: u64)"
  using sign_sint [of x] sign_sint [of y] by linarith

lemma bit_SIGN [simp]: "bit SIGN i \<longleftrightarrow> i = 63"
  unfolding SIGN_def push_bit_of_1 by (auto simp only: bit_exp_iff possible_bit_word) simp

lemma and_SIGN: "w AND SIGN = 0 \<longleftrightarrow> \<not> bit w 63"
  by (auto simp: u64_eq_iff bit_and_iff dest: spec [of _ 63])

lemma tnum_signed_bounds_sound:
  assumes "tnum_contains t v" "tnum_signed_bounds t = (lo, hi)"
  shows "lo \<le> sint v" "sint v \<le> hi"
proof -
  have D: "bit (tvalue t) 63 \<longleftrightarrow> bit v 63 \<and> \<not> bit (tmask t) 63" using tnum_containsD [OF assms(1), of 63] by simp
  note L = contains_bits_le [OF assms(1)]
  have lo: "bits_le (tvalue t OR SIGN) v" if "bit v 63" using L(1) that by (auto simp: bits_le_def bit_or_iff)
  have hi: "bits_le v ((tvalue t OR tmask t) AND NOT SIGN)" if "\<not> bit v 63"
    using L(2) that by (auto simp: bits_le_def bit_simps)
  show "lo \<le> sint v"
  proof (cases "bit v 63")
    case True
    then have "lo = sint (tvalue t OR SIGN)" using assms(2) D by (auto simp: tnum_signed_bounds_def and_SIGN bit_or_iff)
    then show ?thesis using bits_le_sint [OF lo [OF True]] True by (simp add: bit_or_iff)
  next
    case False
    have "lo = sint (tvalue t OR SIGN) \<or> lo = sint (tvalue t)" using assms(2) by (auto simp: tnum_signed_bounds_def)
    then show ?thesis
      using bits_le_sint [OF L(1)] sign_less_sint [of "tvalue t OR SIGN" v] False D by (auto simp: bit_or_iff)
  qed
  show "sint v \<le> hi"
  proof (cases "bit v 63")
    case False
    then have "hi = sint ((tvalue t OR tmask t) AND NOT SIGN)" using assms(2) D by (auto simp: tnum_signed_bounds_def and_SIGN)
    then show ?thesis using bits_le_sint [OF hi [OF False]] False by (simp add: bit_simps)
  next
    case True
    have "hi = sint ((tvalue t OR tmask t) AND NOT SIGN) \<or> hi = sint (tvalue t OR tmask t) \<and> bit (tvalue t) 63"
      using assms(2) by (cases "bit (tvalue t) 63") (auto simp: tnum_signed_bounds_def and_SIGN)
    then show ?thesis
      using bits_le_sint [OF L(2)] sign_less_sint [of v "(tvalue t OR tmask t) AND NOT SIGN"] True by (auto simp: bit_simps)
  qed
qed

lemma leading_zeros_bit: "i < 64 \<Longrightarrow> 64 - leading_zeros w \<le> i \<Longrightarrow> \<not> bit w i"
proof -
  assume i: "i < 64" "64 - leading_zeros w \<le> i"
  let ?P = "\<lambda>i. \<not> bit w i"
  have k: "63 - i < length (takeWhile ?P (rev [0..<64]))" using i by (simp add: leading_zeros_def)
  then have "?P (takeWhile ?P (rev [0..<64]) ! (63 - i))" using set_takeWhileD nth_mem by fast
  moreover have "takeWhile ?P (rev [0..<64]) ! (63 - i) = rev [0..<64] ! (63 - i)" using k by (rule takeWhile_nth)
  moreover have "rev [0..<64] ! (63 - i) = i" using i(1) by (simp add: rev_nth)
  ultimately show ?thesis by simp
qed

lemma drop_bit_between:
  fixes lo v hi :: u64
  assumes "lo \<le> v" "v \<le> hi" "drop_bit n lo = drop_bit n hi"
  shows "drop_bit n v = drop_bit n hi"
proof -
  have "unat (drop_bit n w) = unat w div 2 ^ n" for w :: u64
    using unat_less_u64 [of w]
    by (simp add: unsigned_drop_bit_eq take_bit_nat_eq_self drop_bit_eq_div [where 'a = nat])
  then have "unat (drop_bit n lo) \<le> unat (drop_bit n v)" "unat (drop_bit n v) \<le> unat (drop_bit n hi)"
    using assms(1,2) by (simp_all add: word_le_nat_alt div_le_mono)
  then show ?thesis using assms(3) by (simp add: word_unat_eq_iff)
qed

lemma tnum_from_unsigned_range_sound:
  assumes "lo \<le> v" "v \<le> hi"
  shows "tnum_contains (tnum_from_unsigned_range lo hi) v"
proof -
  let ?n = "64 - leading_zeros (lo XOR hi)"
  have le: "\<not> lo > hi" using assms by auto
  have "bit lo (?n + i) \<longleftrightarrow> bit hi (?n + i)" for i
    using leading_zeros_bit [of "?n + i" "lo XOR hi"] bit_u64 [of lo "?n + i"] bit_u64 [of hi "?n + i"]
    by (auto simp: bit_xor_iff)
  then have "drop_bit ?n lo = drop_bit ?n hi" by (simp add: u64_eq_iff bit_drop_bit_eq)
  then have eq: "drop_bit ?n v = drop_bit ?n hi" using drop_bit_between assms by blast
  have bits: "bit v i \<longleftrightarrow> bit hi i" if "?n \<le> i" for i
    using that arg_cong [OF eq, of "\<lambda>w. bit w (i - ?n)"] by (simp add: bit_drop_bit_eq)
  show ?thesis
  proof (cases "lo = hi")
    case True
    then show ?thesis using assms by (simp add: tnum_from_unsigned_range_def)
  next
    case False
    then have ne: "lo XOR hi \<noteq> 0" by (metis xor_self_eq xor.left_neutral xor.assoc)
    show ?thesis
    proof (cases "?n < 64")
      case True
      then have "tnum_from_unsigned_range lo hi = \<lparr>tvalue = hi AND NOT (mask ?n), tmask = mask ?n\<rparr>"
        using le ne by (simp add: tnum_from_unsigned_range_def Let_def low_mask)
      then show ?thesis using bits by (auto simp: tnum_contains_bits bit_simps)
    next
      case False
      then show ?thesis using le ne by (simp add: tnum_from_unsigned_range_def Let_def)
    qed
  qed
qed

subsection \<open>Well-formedness\<close>

text \<open>The documented invariant: an unknown bit holds zero in \<open>value\<close>. It makes subset and meet exact.\<close>

definition tnum_ok :: "tnum \<Rightarrow> bool" where
  "tnum_ok t \<longleftrightarrow> tvalue t AND tmask t = 0"

lemma tnum_ok_bits: "tnum_ok t \<longleftrightarrow> (\<forall>i. \<not> (bit (tvalue t) i \<and> bit (tmask t) i))"
  by (auto simp: tnum_ok_def u64_eq_iff bit_and_iff dest: bit_u64)

lemmas ok_bits = tnum_ok_bits bit_simps

lemma tnum_ok_member: "tnum_ok t \<longleftrightarrow> tnum_contains t (tvalue t)"
  by (auto simp: tnum_ok_bits tnum_contains_all_bits)

lemma tnum_ok_consts [simp]: "tnum_ok Tnum_UNKNOWN" "tnum_ok Tnum_ZERO" "tnum_ok (tnum_constant c)"
  by (simp_all add: tnum_ok_def Tnum_UNKNOWN_def Tnum_ZERO_def tnum_constant_def)

lemma tnum_ok_join: "tnum_ok (tnum_join a b)"
  by (auto simp: ok_bits tnum_join_def Let_def)

lemma tnum_ok_meet: "tnum_meet a b = Some c \<Longrightarrow> tnum_ok c"
  by (auto simp: ok_bits tnum_meet_def Let_def split: if_splits)

lemma tnum_ok_arith: "tnum_ok (tnum_add a b)" "tnum_ok (tnum_sub a b)" "tnum_ok (tnum_xor a b)"
  "tnum_ok (tnum_or a b)" "tnum_ok (tnum_and a b)"
  by (auto simp: ok_bits tnum_add_def tnum_sub_def tnum_xor_def tnum_or_def tnum_and_def Let_def)

lemma tnum_ok_shift:
  assumes "tnum_ok a"
  shows "tnum_ok (tnum_shl a n)" "tnum_ok (tnum_shr a n)" "tnum_ok (tnum_sar a n)" "tnum_ok (tnum_zero_extend a n)"
    "tnum_ok (tnum_sign_extend a n)"
  using assms
  by (auto simp: ok_bits tnum_shl_def tnum_shr_def tnum_sar_def tnum_zero_extend_def tnum_sign_extend_def Let_def
      Tnum_ZERO_def)

lemma tnum_ok_mul_loop: "tnum_ok acc \<Longrightarrow> tnum_ok (tnum_mul_loop steps acc a b)"
  by (induction steps acc a b rule: tnum_mul_loop.induct) (auto simp: Let_def tnum_ok_arith)

lemma tnum_ok_mul: "tnum_ok (tnum_mul a b)"
  by (simp add: tnum_mul_def tnum_ok_mul_loop)

lemma tnum_ok_range: "tnum_ok (tnum_from_unsigned_range lo hi)"
  by (auto simp: tnum_from_unsigned_range_def Let_def) (auto simp: ok_bits)

lemmas tnum_ok_ops = tnum_ok_join tnum_ok_arith tnum_ok_mul tnum_ok_range

lemma tnum_meet_exact:
  assumes "tnum_ok a" "tnum_ok b" "tnum_meet a b = Some c"
  shows "tnum_contains c v \<longleftrightarrow> tnum_contains a v \<and> tnum_contains b v"
proof
  assume "tnum_contains c v"
  moreover have "(tvalue a XOR tvalue b) AND NOT (tmask a OR tmask b) = 0"
    "c = \<lparr>tvalue = (tvalue a OR tvalue b) AND NOT (tmask a AND tmask b), tmask = tmask a AND tmask b\<rparr>"
    using assms(3) by (auto simp: tnum_meet_def Let_def split: if_splits)
  ultimately show "tnum_contains a v \<and> tnum_contains b v"
    using assms(1,2) unfolding tnum_ok_bits by (auto simp: tnum_contains_bits u64_eq_iff bit_simps)
qed (rule tnum_meet_Some [OF assms(3)])

lemma tnum_subset_exact:
  assumes "tnum_ok a" "tnum_ok b"
  shows "tnum_is_subset_of a b \<longleftrightarrow> (\<forall>v. tnum_contains a v \<longrightarrow> tnum_contains b v)"
proof
  assume "tnum_is_subset_of a b"
  then show "\<forall>v. tnum_contains a v \<longrightarrow> tnum_contains b v"
    using tnum_subset_sound [of a b] assms(2) by (auto simp: tnum_ok_def)
next
  assume sub: "\<forall>v. tnum_contains a v \<longrightarrow> tnum_contains b v"
  have 1: "tnum_contains a (tvalue a)" and 2: "tnum_contains a (tvalue a OR tmask a)"
    using assms(1) by (auto simp: tnum_ok_bits tnum_contains_all_bits bit_or_iff)
  then have "tnum_contains b (tvalue a)" "tnum_contains b (tvalue a OR tmask a)" using sub by auto
  then show "tnum_is_subset_of a b"
    using assms(1) unfolding tnum_ok_bits
    by (auto simp: tnum_is_subset_of_def u64_eq_iff tnum_contains_bits bit_simps)
qed

end
