(* ===== verification/Bpf_Isa.thy ===== *)
theory Bpf_Isa
  imports Narf_Prelude
begin

text \<open>
  The BPF instruction set, \<open>bpf/isa/src\<close>: opcode constants and their enums (\<open>opcode.rs\<close>), the 8-byte instruction
  slot and its structured decoding (\<open>insn.rs\<close>), and the encoder (\<open>encode.rs\<close>). Signed fields
  (\<open>i16\<close> offsets, \<open>i32\<close> immediates) are words read through \<open>sint\<close>; \<open>prog[index]\<close> out of range panics, which is
  the outer \<open>None\<close> of \<open>decode\<close>. The match arms of \<open>decode\<close> are definitions of their own, one per
  instruction class.

  Shown: the byte layout is a bijection between instruction slots and 8-byte arrays, and decoding inverts encoding on
  exactly the instructions that satisfy \<open>representable\<close>, which is also exactly the range of the decoder.
\<close>

subsection \<open>Opcode constants\<close>

definition CLASS_MASK :: u8 where "CLASS_MASK = 0x07"
definition OP_MASK :: u8 where "OP_MASK = 0xf0"
definition SRC_MASK :: u8 where "SRC_MASK = 0x08"
definition SIZE_MASK :: u8 where "SIZE_MASK = 0x18"
definition MODE_MASK :: u8 where "MODE_MASK = 0xe0"
definition CLASS_LD :: u8 where "CLASS_LD = 0x00"
definition CLASS_LDX :: u8 where "CLASS_LDX = 0x01"
definition CLASS_ST :: u8 where "CLASS_ST = 0x02"
definition CLASS_STX :: u8 where "CLASS_STX = 0x03"
definition CLASS_ALU :: u8 where "CLASS_ALU = 0x04"
definition CLASS_JMP :: u8 where "CLASS_JMP = 0x05"
definition CLASS_JMP32 :: u8 where "CLASS_JMP32 = 0x06"
definition CLASS_ALU64 :: u8 where "CLASS_ALU64 = 0x07"
definition SRC_K :: u8 where "SRC_K = 0x00"
definition SRC_X :: u8 where "SRC_X = 0x08"
definition SIZE_W :: u8 where "SIZE_W = 0x00"
definition SIZE_H :: u8 where "SIZE_H = 0x08"
definition SIZE_B :: u8 where "SIZE_B = 0x10"
definition SIZE_DW :: u8 where "SIZE_DW = 0x18"
definition MODE_IMM :: u8 where "MODE_IMM = 0x00"
definition MODE_ABS :: u8 where "MODE_ABS = 0x20"
definition MODE_IND :: u8 where "MODE_IND = 0x40"
definition MODE_MEM :: u8 where "MODE_MEM = 0x60"
definition MODE_MEMSX :: u8 where "MODE_MEMSX = 0x80"
definition MODE_ATOMIC :: u8 where "MODE_ATOMIC = 0xc0"
definition ALU_ADD :: u8 where "ALU_ADD = 0x00"
definition ALU_SUB :: u8 where "ALU_SUB = 0x10"
definition ALU_MUL :: u8 where "ALU_MUL = 0x20"
definition ALU_DIV :: u8 where "ALU_DIV = 0x30"
definition ALU_OR :: u8 where "ALU_OR = 0x40"
definition ALU_AND :: u8 where "ALU_AND = 0x50"
definition ALU_LSH :: u8 where "ALU_LSH = 0x60"
definition ALU_RSH :: u8 where "ALU_RSH = 0x70"
definition ALU_NEG :: u8 where "ALU_NEG = 0x80"
definition ALU_MOD :: u8 where "ALU_MOD = 0x90"
definition ALU_XOR :: u8 where "ALU_XOR = 0xa0"
definition ALU_MOV :: u8 where "ALU_MOV = 0xb0"
definition ALU_ARSH :: u8 where "ALU_ARSH = 0xc0"
definition ALU_END :: u8 where "ALU_END = 0xd0"
definition JMP_JA :: u8 where "JMP_JA = 0x00"
definition JMP_JEQ :: u8 where "JMP_JEQ = 0x10"
definition JMP_JGT :: u8 where "JMP_JGT = 0x20"
definition JMP_JGE :: u8 where "JMP_JGE = 0x30"
definition JMP_JSET :: u8 where "JMP_JSET = 0x40"
definition JMP_JNE :: u8 where "JMP_JNE = 0x50"
definition JMP_JSGT :: u8 where "JMP_JSGT = 0x60"
definition JMP_JSGE :: u8 where "JMP_JSGE = 0x70"
definition JMP_CALL :: u8 where "JMP_CALL = 0x80"
definition JMP_EXIT :: u8 where "JMP_EXIT = 0x90"
definition JMP_JLT :: u8 where "JMP_JLT = 0xa0"
definition JMP_JLE :: u8 where "JMP_JLE = 0xb0"
definition JMP_JSLT :: u8 where "JMP_JSLT = 0xc0"
definition JMP_JSLE :: u8 where "JMP_JSLE = 0xd0"
definition JMP_JCOND :: u8 where "JMP_JCOND = 0xe0"
definition JCOND_MAY_GOTO :: u32 where "JCOND_MAY_GOTO = 0"
definition ATOMIC_FETCH :: u32 where "ATOMIC_FETCH = 0x01"
definition ATOMIC_ADD :: u32 where "ATOMIC_ADD = 0x00"
definition ATOMIC_OR :: u32 where "ATOMIC_OR = 0x40"
definition ATOMIC_AND :: u32 where "ATOMIC_AND = 0x50"
definition ATOMIC_XOR :: u32 where "ATOMIC_XOR = 0xa0"
definition ATOMIC_XCHG :: u32 where "ATOMIC_XCHG = 0xe0 OR ATOMIC_FETCH"
definition ATOMIC_CMPXCHG :: u32 where "ATOMIC_CMPXCHG = 0xf0 OR ATOMIC_FETCH"
definition ATOMIC_LOAD_ACQ :: u32 where "ATOMIC_LOAD_ACQ = 0x100"
definition ATOMIC_STORE_REL :: u32 where "ATOMIC_STORE_REL = 0x110"
definition OFF_SIGNED :: u16 where "OFF_SIGNED = 1"
definition OFF_ADDR_SPACE_CAST :: u16 where "OFF_ADDR_SPACE_CAST = 1"
definition PSEUDO_IMM64 :: u8 where "PSEUDO_IMM64 = 0"
definition PSEUDO_MAP_FD :: u8 where "PSEUDO_MAP_FD = 1"
definition PSEUDO_MAP_VALUE :: u8 where "PSEUDO_MAP_VALUE = 2"
definition PSEUDO_BTF_ID :: u8 where "PSEUDO_BTF_ID = 3"
definition PSEUDO_FUNC :: u8 where "PSEUDO_FUNC = 4"
definition PSEUDO_MAP_IDX :: u8 where "PSEUDO_MAP_IDX = 5"
definition PSEUDO_MAP_IDX_VALUE :: u8 where "PSEUDO_MAP_IDX_VALUE = 6"
definition CALL_HELPER :: u8 where "CALL_HELPER = 0"
definition CALL_PSEUDO :: u8 where "CALL_PSEUDO = 1"
definition CALL_KFUNC :: u8 where "CALL_KFUNC = 2"
definition NUM_REGS :: u8 where "NUM_REGS = 11"
definition INSN_SIZE :: nat where "INSN_SIZE = 8"

lemmas isa_consts =
  CLASS_MASK_def OP_MASK_def SRC_MASK_def SIZE_MASK_def MODE_MASK_def
  CLASS_LD_def CLASS_LDX_def CLASS_ST_def CLASS_STX_def CLASS_ALU_def
  CLASS_JMP_def CLASS_JMP32_def CLASS_ALU64_def SRC_K_def SRC_X_def
  SIZE_W_def SIZE_H_def SIZE_B_def SIZE_DW_def MODE_IMM_def
  MODE_ABS_def MODE_IND_def MODE_MEM_def MODE_MEMSX_def MODE_ATOMIC_def
  ALU_ADD_def ALU_SUB_def ALU_MUL_def ALU_DIV_def ALU_OR_def
  ALU_AND_def ALU_LSH_def ALU_RSH_def ALU_NEG_def ALU_MOD_def
  ALU_XOR_def ALU_MOV_def ALU_ARSH_def ALU_END_def JMP_JA_def
  JMP_JEQ_def JMP_JGT_def JMP_JGE_def JMP_JSET_def JMP_JNE_def
  JMP_JSGT_def JMP_JSGE_def JMP_CALL_def JMP_EXIT_def JMP_JLT_def
  JMP_JLE_def JMP_JSLT_def JMP_JSLE_def JMP_JCOND_def JCOND_MAY_GOTO_def
  ATOMIC_FETCH_def ATOMIC_ADD_def ATOMIC_OR_def ATOMIC_AND_def ATOMIC_XOR_def
  ATOMIC_XCHG_def ATOMIC_CMPXCHG_def ATOMIC_LOAD_ACQ_def ATOMIC_STORE_REL_def OFF_SIGNED_def
  OFF_ADDR_SPACE_CAST_def PSEUDO_IMM64_def PSEUDO_MAP_FD_def PSEUDO_MAP_VALUE_def PSEUDO_BTF_ID_def
  PSEUDO_FUNC_def PSEUDO_MAP_IDX_def PSEUDO_MAP_IDX_VALUE_def CALL_HELPER_def CALL_PSEUDO_def
  CALL_KFUNC_def NUM_REGS_def INSN_SIZE_def

text \<open>\<open>e?\<close>: return the error, or continue with the value.\<close>

fun bind_result :: "('a, 'e) result \<Rightarrow> ('a \<Rightarrow> ('b, 'e) result) \<Rightarrow> ('b, 'e) result" where
  "bind_result (Inl e) f = Err e"
| "bind_result (Inr x) f = f x"

definition ok_or :: "'a option \<Rightarrow> 'e \<Rightarrow> ('a, 'e) result" where
  "ok_or x e = (case x of Some y \<Rightarrow> Ok y | None \<Rightarrow> Err e)"

subsection \<open>Enums of the opcode fields\<close>

datatype op_class = Class_Ld | Class_Ldx | Class_St | Class_Stx | Class_Alu | Class_Jmp | Class_Jmp32 | Class_Alu64

definition class_from_code :: "u8 \<Rightarrow> op_class" where
  "class_from_code code =
     (let c = code AND CLASS_MASK in
      if c = CLASS_LD then Class_Ld
      else if c = CLASS_LDX then Class_Ldx
      else if c = CLASS_ST then Class_St
      else if c = CLASS_STX then Class_Stx
      else if c = CLASS_ALU then Class_Alu
      else if c = CLASS_JMP then Class_Jmp
      else if c = CLASS_JMP32 then Class_Jmp32
      else Class_Alu64)"

fun class_to_code :: "op_class \<Rightarrow> u8" where
  "class_to_code Class_Ld = CLASS_LD"
| "class_to_code Class_Ldx = CLASS_LDX"
| "class_to_code Class_St = CLASS_ST"
| "class_to_code Class_Stx = CLASS_STX"
| "class_to_code Class_Alu = CLASS_ALU"
| "class_to_code Class_Jmp = CLASS_JMP"
| "class_to_code Class_Jmp32 = CLASS_JMP32"
| "class_to_code Class_Alu64 = CLASS_ALU64"

datatype size = Size_B | Size_H | Size_W | Size_Dw

definition size_from_code :: "u8 \<Rightarrow> size" where
  "size_from_code code =
     (let s = code AND SIZE_MASK in
      if s = SIZE_W then Size_W else if s = SIZE_H then Size_H else if s = SIZE_B then Size_B else Size_Dw)"

fun size_to_code :: "size \<Rightarrow> u8" where
  "size_to_code Size_W = SIZE_W"
| "size_to_code Size_H = SIZE_H"
| "size_to_code Size_B = SIZE_B"
| "size_to_code Size_Dw = SIZE_DW"

fun size_bytes :: "size \<Rightarrow> nat" where
  "size_bytes Size_B = 1"
| "size_bytes Size_H = 2"
| "size_bytes Size_W = 4"
| "size_bytes Size_Dw = 8"

definition size_bits :: "size \<Rightarrow> nat" where
  "size_bits s = size_bytes s * 8"

text \<open>\<open>Reg::new\<close> is the only constructor of a register number, so \<open>reg_ok\<close> is an invariant of the type.\<close>

datatype reg = Reg (reg_index: u8)

definition reg_new :: "u8 \<Rightarrow> reg option" where
  "reg_new n = (if n < NUM_REGS then Some (Reg n) else None)"

definition reg_ok :: "reg \<Rightarrow> bool" where
  "reg_ok r \<longleftrightarrow> reg_index r < NUM_REGS"

definition reg_usize :: "reg \<Rightarrow> nat" where
  "reg_usize r = unat (reg_index r)"

datatype source = Imm u32 | SrcReg reg

datatype byte_order = Little | Big | Swap

datatype alu_op = Alu_Add | Alu_Sub | Alu_Mul | Alu_Or | Alu_And | Alu_Lsh | Alu_Rsh | Alu_Xor | Alu_Arsh

fun alu_to_code :: "alu_op \<Rightarrow> u8" where
  "alu_to_code Alu_Add = ALU_ADD"
| "alu_to_code Alu_Sub = ALU_SUB"
| "alu_to_code Alu_Mul = ALU_MUL"
| "alu_to_code Alu_Or = ALU_OR"
| "alu_to_code Alu_And = ALU_AND"
| "alu_to_code Alu_Lsh = ALU_LSH"
| "alu_to_code Alu_Rsh = ALU_RSH"
| "alu_to_code Alu_Xor = ALU_XOR"
| "alu_to_code Alu_Arsh = ALU_ARSH"

datatype cond_op = Cond_Eq | Cond_Ne | Cond_Gt | Cond_Ge | Cond_Lt | Cond_Le | Cond_Sgt | Cond_Sge | Cond_Slt
  | Cond_Sle | Cond_Set

fun cond_to_code :: "cond_op \<Rightarrow> u8" where
  "cond_to_code Cond_Eq = JMP_JEQ"
| "cond_to_code Cond_Ne = JMP_JNE"
| "cond_to_code Cond_Gt = JMP_JGT"
| "cond_to_code Cond_Ge = JMP_JGE"
| "cond_to_code Cond_Lt = JMP_JLT"
| "cond_to_code Cond_Le = JMP_JLE"
| "cond_to_code Cond_Sgt = JMP_JSGT"
| "cond_to_code Cond_Sge = JMP_JSGE"
| "cond_to_code Cond_Slt = JMP_JSLT"
| "cond_to_code Cond_Sle = JMP_JSLE"
| "cond_to_code Cond_Set = JMP_JSET"

datatype atomic_op = Atomic_Add bool | Atomic_Or bool | Atomic_And bool | Atomic_Xor bool
  | Atomic_Xchg | Atomic_Cmpxchg | Atomic_LoadAcquire | Atomic_StoreRelease

fun atomic_to_imm :: "atomic_op \<Rightarrow> u32" where
  "atomic_to_imm (Atomic_Add fetch) = ATOMIC_ADD OR (if fetch then ATOMIC_FETCH else 0)"
| "atomic_to_imm (Atomic_Or fetch) = ATOMIC_OR OR (if fetch then ATOMIC_FETCH else 0)"
| "atomic_to_imm (Atomic_And fetch) = ATOMIC_AND OR (if fetch then ATOMIC_FETCH else 0)"
| "atomic_to_imm (Atomic_Xor fetch) = ATOMIC_XOR OR (if fetch then ATOMIC_FETCH else 0)"
| "atomic_to_imm Atomic_Xchg = ATOMIC_XCHG"
| "atomic_to_imm Atomic_Cmpxchg = ATOMIC_CMPXCHG"
| "atomic_to_imm Atomic_LoadAcquire = ATOMIC_LOAD_ACQ"
| "atomic_to_imm Atomic_StoreRelease = ATOMIC_STORE_REL"

definition atomic_from_imm :: "u32 \<Rightarrow> atomic_op option" where
  "atomic_from_imm imm =
     (let fetch = imm AND ATOMIC_FETCH \<noteq> 0 in
      if imm = ATOMIC_XCHG then Some Atomic_Xchg
      else if imm = ATOMIC_CMPXCHG then Some Atomic_Cmpxchg
      else if imm = ATOMIC_LOAD_ACQ then Some Atomic_LoadAcquire
      else if imm = ATOMIC_STORE_REL then Some Atomic_StoreRelease
      else
        (let base = imm AND NOT ATOMIC_FETCH in
         if base = ATOMIC_ADD then Some (Atomic_Add fetch)
         else if base = ATOMIC_OR then Some (Atomic_Or fetch)
         else if base = ATOMIC_AND then Some (Atomic_And fetch)
         else if base = ATOMIC_XOR then Some (Atomic_Xor fetch)
         else None))"

fun atomic_writes_src :: "atomic_op \<Rightarrow> bool" where
  "atomic_writes_src (Atomic_Add fetch) = fetch"
| "atomic_writes_src (Atomic_Or fetch) = fetch"
| "atomic_writes_src (Atomic_And fetch) = fetch"
| "atomic_writes_src (Atomic_Xor fetch) = fetch"
| "atomic_writes_src Atomic_Xchg = True"
| "atomic_writes_src Atomic_LoadAcquire = True"
| "atomic_writes_src Atomic_Cmpxchg = False"
| "atomic_writes_src Atomic_StoreRelease = False"

subsection \<open>Instruction slots\<close>

record insn =
  code :: u8
  regs :: u8
  off :: u16
  imm :: u32

definition dst_raw :: "insn \<Rightarrow> u8" where
  "dst_raw i = regs i AND 0x0F"

definition src_raw :: "insn \<Rightarrow> u8" where
  "src_raw i = drop_bit 4 (regs i)"

definition pack_regs :: "u8 \<Rightarrow> u8 \<Rightarrow> u8" where
  "pack_regs dst src = (dst AND 0x0F) OR push_bit 4 src"

text \<open>\<open>from_le_bytes\<close> and \<open>to_le_bytes\<close>: the least significant byte first.\<close>

fun from_le_bytes :: "u8 list \<Rightarrow> 'a::len word" where
  "from_le_bytes [] = 0"
| "from_le_bytes (b # bs) = ucast b OR push_bit 8 (from_le_bytes bs)"

definition to_le_bytes :: "nat \<Rightarrow> 'a::len word \<Rightarrow> u8 list" where
  "to_le_bytes n w = map (\<lambda>i. ucast (drop_bit (8 * i) w)) [0..<n]"

text \<open>The argument of \<open>from_bytes\<close> is an array of 8 bytes.\<close>

definition from_bytes :: "u8 list \<Rightarrow> insn" where
  "from_bytes b = \<lparr>code = b ! 0, regs = b ! 1, off = from_le_bytes [b ! 2, b ! 3],
     imm = from_le_bytes [b ! 4, b ! 5, b ! 6, b ! 7]\<rparr>"

definition to_bytes :: "insn \<Rightarrow> u8 list" where
  "to_bytes i =
     (let off' = to_le_bytes 2 (off i); imm' = to_le_bytes 4 (imm i)
      in [code i, regs i, off' ! 0, off' ! 1, imm' ! 0, imm' ! 1, imm' ! 2, imm' ! 3])"

definition is_wide_imm :: "insn \<Rightarrow> bool" where
  "is_wide_imm i \<longleftrightarrow> code i = (CLASS_LD OR MODE_IMM OR SIZE_DW)"

fun chunks_exact :: "u8 list \<Rightarrow> u8 list list" where
  "chunks_exact (a # b # c # d # e # f # g # h # rest) = [a, b, c, d, e, f, g, h] # chunks_exact rest"
| "chunks_exact rest = []"

definition slots_from_bytes :: "u8 list \<Rightarrow> insn list option" where
  "slots_from_bytes bytes =
     (if length bytes mod INSN_SIZE \<noteq> 0 then None else Some (map from_bytes (chunks_exact bytes)))"

subsection \<open>Decoding\<close>

datatype decode_error =
    BadRegister u8 | BadOp u8 | BadMode u8 | BadOff u16 | BadImm u32 | TruncatedImm64 | MalformedImm64
  | HelperCall u32 | LegacyPacketLoad

datatype imm64 = Value u64 | MapFd u32 | MapValue u32 u32 | BtfId u32 | SubprogAddr u32 | MapIdx u32 | MapIdxValue u32 u32

datatype call_target = Subprog u32 | Kfunc u32

datatype decoded =
    Alu bool alu_op reg source
  | Neg bool reg
  | Mov bool reg source "u8 option"
  | Div bool bool reg source
  | Mod bool bool reg source
  | End reg byte_order u8
  | AddrSpaceCast reg reg u16 u16
  | Load size bool reg reg u16
  | Store size reg u16 source
  | Atomic size atomic_op reg reg u16
  | LoadImm64 reg imm64
  | Jump u32
  | JumpCond bool cond_op reg source u16
  | MayGoto u16
  | Call call_target
  | Exit

type_synonym 'a decoding = "('a, decode_error) result"

definition src_reg :: "insn \<Rightarrow> reg decoding" where
  "src_reg i = ok_or (reg_new (src_raw i)) (BadRegister (src_raw i))"

definition source_of :: "insn \<Rightarrow> source decoding" where
  "source_of i =
     (if code i AND SRC_MASK = SRC_X then bind_result (src_reg i) (\<lambda>r. Ok (SrcReg r)) else Ok (Imm (imm i)))"

definition decode_mov :: "insn \<Rightarrow> bool \<Rightarrow> reg \<Rightarrow> decoded decoding" where
  "decode_mov i wide dst =
     (if wide \<and> code i AND SRC_MASK = SRC_X \<and> off i = OFF_ADDR_SPACE_CAST
      then bind_result (src_reg i) (\<lambda>r. Ok (AddrSpaceCast dst r (ucast (drop_bit 16 (imm i))) (ucast (imm i))))
      else
        bind_result
          (if off i = 0 then Ok None
           else if off i = 8 \<or> off i = 16 then Ok (Some (ucast (off i)))
           else if off i = 32 then Ok (Some 32)
           else Err (BadOff (off i)))
          (\<lambda>sign_extend. bind_result (source_of i) (\<lambda>src. Ok (Mov wide dst src sign_extend))))"

definition decode_divmod :: "insn \<Rightarrow> bool \<Rightarrow> reg \<Rightarrow> decoded decoding" where
  "decode_divmod i wide dst =
     bind_result
       (if off i = 0 then Ok False else if off i = OFF_SIGNED then Ok True else Err (BadOff (off i)))
       (\<lambda>signed. bind_result (source_of i) (\<lambda>src.
          if code i AND OP_MASK = ALU_DIV then Ok (Div wide signed dst src) else Ok (Mod wide signed dst src)))"

definition decode_end :: "insn \<Rightarrow> bool \<Rightarrow> reg \<Rightarrow> decoded decoding" where
  "decode_end i wide dst =
     bind_result
       (if wide then if code i AND SRC_MASK \<noteq> SRC_K then Err (BadOp (code i)) else Ok Swap
        else if code i AND SRC_MASK = SRC_K then Ok Little else Ok Big)
       (\<lambda>ord. if imm i = 16 \<or> imm i = 32 \<or> imm i = 64 then Ok (End dst ord (ucast (imm i)))
              else Err (BadImm (imm i)))"

definition decode_alu :: "insn \<Rightarrow> bool \<Rightarrow> reg \<Rightarrow> decoded decoding" where
  "decode_alu i wide dst =
     (let op = code i AND OP_MASK;
          binary = (\<lambda>a. bind_result (source_of i) (\<lambda>src. Ok (Alu wide a dst src)))
      in
      if op = ALU_ADD then binary Alu_Add
      else if op = ALU_SUB then binary Alu_Sub
      else if op = ALU_MUL then binary Alu_Mul
      else if op = ALU_OR then binary Alu_Or
      else if op = ALU_AND then binary Alu_And
      else if op = ALU_LSH then binary Alu_Lsh
      else if op = ALU_RSH then binary Alu_Rsh
      else if op = ALU_XOR then binary Alu_Xor
      else if op = ALU_ARSH then binary Alu_Arsh
      else if op = ALU_NEG
      then if code i AND SRC_MASK \<noteq> SRC_K \<or> imm i \<noteq> 0 \<or> off i \<noteq> 0 then Err (BadOp (code i)) else Ok (Neg wide dst)
      else if op = ALU_DIV \<or> op = ALU_MOD then decode_divmod i wide dst
      else if op = ALU_MOV then decode_mov i wide dst
      else if op = ALU_END then decode_end i wide dst
      else Err (BadOp op))"

definition cond_from_op :: "u8 \<Rightarrow> cond_op decoding" where
  "cond_from_op op =
     (if op = JMP_JEQ then Ok Cond_Eq
      else if op = JMP_JNE then Ok Cond_Ne
      else if op = JMP_JGT then Ok Cond_Gt
      else if op = JMP_JGE then Ok Cond_Ge
      else if op = JMP_JLT then Ok Cond_Lt
      else if op = JMP_JLE then Ok Cond_Le
      else if op = JMP_JSGT then Ok Cond_Sgt
      else if op = JMP_JSGE then Ok Cond_Sge
      else if op = JMP_JSLT then Ok Cond_Slt
      else if op = JMP_JSLE then Ok Cond_Sle
      else if op = JMP_JSET then Ok Cond_Set
      else Err (BadOp op))"

definition decode_jmp :: "insn \<Rightarrow> bool \<Rightarrow> reg \<Rightarrow> decoded decoding" where
  "decode_jmp i wide dst =
     (let op = code i AND OP_MASK in
      if op = JMP_JA
      then if wide then if imm i \<noteq> 0 then Err (BadImm (imm i)) else Ok (Jump (scast (off i)))
           else if off i \<noteq> 0 then Err (BadOff (off i)) else Ok (Jump (imm i))
      else if op = JMP_CALL \<and> wide
      then if src_raw i = CALL_PSEUDO then Ok (Call (Subprog (imm i)))
           else if src_raw i = CALL_KFUNC then Ok (Call (Kfunc (imm i)))
           else if src_raw i = CALL_HELPER then Err (HelperCall (imm i))
           else Err (BadRegister (src_raw i))
      else if op = JMP_EXIT \<and> wide
      then if regs i \<noteq> 0 \<or> off i \<noteq> 0 \<or> imm i \<noteq> 0 then Err (BadOp (code i)) else Ok Exit
      else if op = JMP_JCOND \<and> wide
      then if imm i = JCOND_MAY_GOTO then Ok (MayGoto (off i)) else Err (BadImm (imm i))
      else bind_result (cond_from_op op) (\<lambda>c.
             bind_result (source_of i) (\<lambda>src. Ok (JumpCond wide c dst src (off i)))))"

definition decode_ldx :: "insn \<Rightarrow> reg \<Rightarrow> decoded decoding" where
  "decode_ldx i dst =
     (let mode = code i AND MODE_MASK in
      bind_result
        (if mode = MODE_MEM then Ok False else if mode = MODE_MEMSX then Ok True else Err (BadMode mode))
        (\<lambda>sign_extend.
           let sz = size_from_code (code i) in
           if sign_extend \<and> sz = Size_Dw then Err (BadMode MODE_MEMSX)
           else bind_result (src_reg i) (\<lambda>r. Ok (Load sz sign_extend dst r (off i)))))"

definition decode_st :: "insn \<Rightarrow> reg \<Rightarrow> decoded decoding" where
  "decode_st i dst =
     (if code i AND MODE_MASK \<noteq> MODE_MEM then Err (BadMode (code i AND MODE_MASK))
      else Ok (Store (size_from_code (code i)) dst (off i) (Imm (imm i))))"

definition decode_stx :: "insn \<Rightarrow> reg \<Rightarrow> decoded decoding" where
  "decode_stx i dst =
     (let mode = code i AND MODE_MASK in
      if mode = MODE_MEM
      then bind_result (src_reg i) (\<lambda>r. Ok (Store (size_from_code (code i)) dst (off i) (SrcReg r)))
      else if mode = MODE_ATOMIC
      then bind_result (ok_or (atomic_from_imm (imm i)) (BadImm (imm i))) (\<lambda>op.
             let sz = size_from_code (code i) in
             if sz \<noteq> Size_W \<and> sz \<noteq> Size_Dw then Err (BadMode (code i AND SIZE_MASK))
             else bind_result (src_reg i) (\<lambda>r. Ok (Atomic sz op dst r (off i))))
      else Err (BadMode mode))"

text \<open>The wide immediate; \<open>next\<close> is the following slot, if there is one.\<close>

definition decode_imm64 :: "insn \<Rightarrow> insn \<Rightarrow> imm64 decoding" where
  "decode_imm64 i next' =
     (let lo = (ucast (imm i) :: u64); hi = (ucast (imm next') :: u64);
          plain = (\<lambda>v. if imm next' \<noteq> 0 then Err MalformedImm64 else Ok v);
          pseudo = src_raw i
      in
      if pseudo = PSEUDO_IMM64 then Ok (Value (push_bit 32 hi OR lo))
      else if pseudo = PSEUDO_MAP_FD then plain (MapFd (imm i))
      else if pseudo = PSEUDO_MAP_VALUE then Ok (MapValue (imm i) (imm next'))
      else if pseudo = PSEUDO_BTF_ID then plain (BtfId (imm i))
      else if pseudo = PSEUDO_FUNC then plain (SubprogAddr (imm i))
      else if pseudo = PSEUDO_MAP_IDX then plain (MapIdx (imm i))
      else if pseudo = PSEUDO_MAP_IDX_VALUE then Ok (MapIdxValue (imm i) (imm next'))
      else Err (BadRegister pseudo))"

definition decode_ld :: "insn \<Rightarrow> insn option \<Rightarrow> reg \<Rightarrow> decoded decoding" where
  "decode_ld i nxt dst =
     (let mode = code i AND MODE_MASK in
      if mode = MODE_IMM
      then if size_from_code (code i) \<noteq> Size_Dw then Err (BadMode (code i AND SIZE_MASK))
           else bind_result (ok_or nxt TruncatedImm64) (\<lambda>n.
                  if code n \<noteq> 0 \<or> regs n \<noteq> 0 \<or> off n \<noteq> 0 then Err MalformedImm64
                  else bind_result (decode_imm64 i n) (\<lambda>v. Ok (LoadImm64 dst v)))
      else if mode = MODE_ABS \<or> mode = MODE_IND then Err LegacyPacketLoad
      else Err (BadMode mode))"

definition decode_slot :: "insn \<Rightarrow> insn option \<Rightarrow> (decoded \<times> nat) decoding" where
  "decode_slot i nxt =
     bind_result (ok_or (reg_new (dst_raw i)) (BadRegister (dst_raw i))) (\<lambda>dst.
       let one = (\<lambda>r. bind_result r (\<lambda>d. Ok (d, 1))) in
       case class_from_code (code i) of
         Class_Alu \<Rightarrow> one (decode_alu i False dst)
       | Class_Alu64 \<Rightarrow> one (decode_alu i True dst)
       | Class_Jmp \<Rightarrow> one (decode_jmp i True dst)
       | Class_Jmp32 \<Rightarrow> one (decode_jmp i False dst)
       | Class_Ldx \<Rightarrow> one (decode_ldx i dst)
       | Class_St \<Rightarrow> one (decode_st i dst)
       | Class_Stx \<Rightarrow> one (decode_stx i dst)
       | Class_Ld \<Rightarrow> bind_result (decode_ld i nxt dst) (\<lambda>d. Ok (d, 2)))"

definition decode :: "insn list \<Rightarrow> nat \<Rightarrow> (decoded \<times> nat) decoding option" where
  "decode prog idx =
     (case nth_opt prog idx of
        None \<Rightarrow> None
      | Some i \<Rightarrow> Some (decode_slot i (nth_opt prog (idx + 1))))"

subsection \<open>Encoding\<close>

definition encode_one :: "u8 \<Rightarrow> u8 \<Rightarrow> u8 \<Rightarrow> u16 \<Rightarrow> u32 \<Rightarrow> insn list" where
  "encode_one c dst src o' i = [\<lparr>code = c, regs = pack_regs dst src, off = o', imm = i\<rparr>]"

definition encode_two :: "u8 \<Rightarrow> u8 \<Rightarrow> u32 \<Rightarrow> u32 \<Rightarrow> insn list" where
  "encode_two dst pseudo lo hi =
     [\<lparr>code = CLASS_LD OR MODE_IMM OR SIZE_DW, regs = pack_regs dst pseudo, off = 0, imm = lo\<rparr>,
      \<lparr>code = 0, regs = 0, off = 0, imm = hi\<rparr>]"

fun split_source :: "source \<Rightarrow> u8 \<times> u8 \<times> u32" where
  "split_source (Imm i) = (SRC_K, 0, i)"
| "split_source (SrcReg r) = (SRC_X, reg_index r, 0)"

definition alu_class :: "bool \<Rightarrow> u8" where
  "alu_class wide = (if wide then CLASS_ALU64 else CLASS_ALU)"

definition fits_i16 :: "u32 \<Rightarrow> bool" where
  "fits_i16 w \<longleftrightarrow> - (2 ^ 15) \<le> sint w \<and> sint w < 2 ^ 15"

fun encode_imm64 :: "reg \<Rightarrow> imm64 \<Rightarrow> insn list" where
  "encode_imm64 dst (Value v) =
     encode_two (reg_index dst) PSEUDO_IMM64 (ucast (v AND 0xFFFFFFFF)) (ucast (drop_bit 32 v))"
| "encode_imm64 dst (MapFd fd) = encode_two (reg_index dst) PSEUDO_MAP_FD fd 0"
| "encode_imm64 dst (MapValue fd vo) = encode_two (reg_index dst) PSEUDO_MAP_VALUE fd vo"
| "encode_imm64 dst (BtfId i) = encode_two (reg_index dst) PSEUDO_BTF_ID i 0"
| "encode_imm64 dst (SubprogAddr o') = encode_two (reg_index dst) PSEUDO_FUNC o' 0"
| "encode_imm64 dst (MapIdx i) = encode_two (reg_index dst) PSEUDO_MAP_IDX i 0"
| "encode_imm64 dst (MapIdxValue i vo) = encode_two (reg_index dst) PSEUDO_MAP_IDX_VALUE i vo"

fun encode :: "decoded \<Rightarrow> insn list" where
  "encode (Alu wide op dst src) =
     (let (sbit, sreg, i) = split_source src
      in encode_one (alu_class wide OR alu_to_code op OR sbit) (reg_index dst) sreg 0 i)"
| "encode (Neg wide dst) = encode_one (alu_class wide OR ALU_NEG OR SRC_K) (reg_index dst) 0 0 0"
| "encode (Mov wide dst src sign_extend) =
     (let (sbit, sreg, i) = split_source src
      in encode_one (alu_class wide OR ALU_MOV OR sbit) (reg_index dst) sreg
           (case sign_extend of None \<Rightarrow> 0 | Some b \<Rightarrow> ucast b) i)"
| "encode (Div wide sg dst src) =
     (let (sbit, sreg, i) = split_source src
      in encode_one (alu_class wide OR ALU_DIV OR sbit) (reg_index dst) sreg (if sg then OFF_SIGNED else 0) i)"
| "encode (Mod wide sg dst src) =
     (let (sbit, sreg, i) = split_source src
      in encode_one (alu_class wide OR ALU_MOD OR sbit) (reg_index dst) sreg (if sg then OFF_SIGNED else 0) i)"
| "encode (End dst ord width) =
     (let (class, sbit) = (case ord of
            Little \<Rightarrow> (CLASS_ALU, SRC_K) | Big \<Rightarrow> (CLASS_ALU, SRC_X) | Swap \<Rightarrow> (CLASS_ALU64, SRC_K))
      in encode_one (class OR ALU_END OR sbit) (reg_index dst) 0 0 (ucast width))"
| "encode (AddrSpaceCast dst src dst_as src_as) =
     encode_one (CLASS_ALU64 OR ALU_MOV OR SRC_X) (reg_index dst) (reg_index src) OFF_ADDR_SPACE_CAST
       (push_bit 16 (ucast dst_as) OR ucast src_as)"
| "encode (Load sz sign_extend dst src o') =
     encode_one (CLASS_LDX OR (if sign_extend then MODE_MEMSX else MODE_MEM) OR size_to_code sz)
       (reg_index dst) (reg_index src) o' 0"
| "encode (Store sz dst o' src) =
     (case src of
        Imm i \<Rightarrow> encode_one (CLASS_ST OR MODE_MEM OR size_to_code sz) (reg_index dst) 0 o' i
      | SrcReg r \<Rightarrow> encode_one (CLASS_STX OR MODE_MEM OR size_to_code sz) (reg_index dst) (reg_index r) o' 0)"
| "encode (Atomic sz op dst src o') =
     encode_one (CLASS_STX OR MODE_ATOMIC OR size_to_code sz) (reg_index dst) (reg_index src) o' (atomic_to_imm op)"
| "encode (LoadImm64 dst v) = encode_imm64 dst v"
| "encode (Jump o') =
     (if fits_i16 o' then encode_one (CLASS_JMP OR JMP_JA) 0 0 (ucast o') 0
      else encode_one (CLASS_JMP32 OR JMP_JA) 0 0 0 o')"
| "encode (JumpCond wide op dst src o') =
     (let (sbit, sreg, i) = split_source src
      in encode_one ((if wide then CLASS_JMP else CLASS_JMP32) OR cond_to_code op OR sbit) (reg_index dst) sreg o' i)"
| "encode (MayGoto o') = encode_one (CLASS_JMP OR JMP_JCOND) 0 0 o' JCOND_MAY_GOTO"
| "encode (Call t) =
     (case t of
        Subprog o' \<Rightarrow> encode_one (CLASS_JMP OR JMP_CALL) 0 CALL_PSEUDO 0 o'
      | Kfunc i \<Rightarrow> encode_one (CLASS_JMP OR JMP_CALL) 0 CALL_KFUNC 0 i)"
| "encode Exit = encode_one (CLASS_JMP OR JMP_EXIT) 0 0 0 0"


subsection \<open>Register bytes\<close>

lemma take_bit_small: "unat w < 2 ^ n \<Longrightarrow> take_bit n w = w"
  by (simp add: word_unat_eq_iff unsigned_take_bit_eq take_bit_nat_eq_self)

lemma pack_regs_bits:
  assumes "d < 16" "s < 16"
  shows "dst_raw \<lparr>code = c, regs = pack_regs d s, off = o', imm = i\<rparr> = d"
    "src_raw \<lparr>code = c, regs = pack_regs d s, off = o', imm = i\<rparr> = s"
proof -
  have m: "(0x0F :: u8) = mask 4" by (simp add: mask_eq_exp_minus_1)
  have d: "take_bit 4 d = d" and s: "take_bit 4 s = s" using assms by (simp_all add: take_bit_small word_less_nat_alt)
  have "bit (take_bit 4 (take_bit 4 d OR push_bit 4 s)) n \<longleftrightarrow> bit d n" if "n < 8" for n
    using that arg_cong [OF d, of "\<lambda>w. bit w n"] by (auto simp: bit_simps)
  then have "take_bit 4 (take_bit 4 d OR push_bit 4 s) = d" by (intro bit_word_eqI) simp
  then show "dst_raw \<lparr>code = c, regs = pack_regs d s, off = o', imm = i\<rparr> = d"
    by (simp add: dst_raw_def pack_regs_def m flip: take_bit_eq_mask)
  have "bit (drop_bit 4 (take_bit 4 d OR push_bit 4 s)) n \<longleftrightarrow> bit s n" if "n < 8" for n
    using that arg_cong [OF s, of "\<lambda>w. bit w n"] by (auto simp: bit_simps)
  then have "drop_bit 4 (take_bit 4 d OR push_bit 4 s) = s" by (intro bit_word_eqI) simp
  then show "src_raw \<lparr>code = c, regs = pack_regs d s, off = o', imm = i\<rparr> = s"
    by (simp add: src_raw_def pack_regs_def m flip: take_bit_eq_mask)
qed

lemma reg_ok_16: "reg_ok r \<Longrightarrow> reg_index r < 16"
  by (auto simp: reg_ok_def NUM_REGS_def word_less_nat_alt)

lemma reg_new_ok [simp]: "reg_ok r \<Longrightarrow> reg_new (reg_index r) = Some r"
  by (auto simp: reg_ok_def reg_new_def)

lemma reg_new_SomeD: "reg_new n = Some r \<Longrightarrow> reg_ok r \<and> reg_index r = n"
  by (auto simp: reg_ok_def reg_new_def split: if_splits)

subsection \<open>Round trip\<close>

fun source_ok :: "source \<Rightarrow> bool" where
  "source_ok (Imm i) = True"
| "source_ok (SrcReg r) = reg_ok r"

text \<open>The instructions that have an encoding; the register conditions are invariants of \<open>Reg\<close>.\<close>

fun representable :: "decoded \<Rightarrow> bool" where
  "representable (Alu wide op dst src) \<longleftrightarrow> reg_ok dst \<and> source_ok src"
| "representable (Neg wide dst) \<longleftrightarrow> reg_ok dst"
| "representable (Mov wide dst src sign_extend) \<longleftrightarrow> reg_ok dst \<and> source_ok src
     \<and> (case sign_extend of None \<Rightarrow> True | Some b \<Rightarrow> b = 8 \<or> b = 16 \<or> b = 32)"
| "representable (Div wide sg dst src) \<longleftrightarrow> reg_ok dst \<and> source_ok src"
| "representable (Mod wide sg dst src) \<longleftrightarrow> reg_ok dst \<and> source_ok src"
| "representable (End dst ord width) \<longleftrightarrow> reg_ok dst \<and> (width = 16 \<or> width = 32 \<or> width = 64)"
| "representable (AddrSpaceCast dst src dst_as src_as) \<longleftrightarrow> reg_ok dst \<and> reg_ok src"
| "representable (Load sz sign_extend dst src o') \<longleftrightarrow> reg_ok dst \<and> reg_ok src \<and> \<not> (sign_extend \<and> sz = Size_Dw)"
| "representable (Store sz dst o' src) \<longleftrightarrow> reg_ok dst \<and> source_ok src"
| "representable (Atomic sz op dst src o') \<longleftrightarrow> reg_ok dst \<and> reg_ok src \<and> (sz = Size_W \<or> sz = Size_Dw)"
| "representable (LoadImm64 dst v) \<longleftrightarrow> reg_ok dst"
| "representable (JumpCond wide op dst src o') \<longleftrightarrow> reg_ok dst \<and> source_ok src"
| "representable d \<longleftrightarrow> True"

lemmas codes = isa_consts alu_class_def class_from_code_def size_from_code_def

lemma class_round_trip: "class_from_code (class_to_code c) = c"
  by (cases c) (simp_all add: codes)

lemma size_round_trip: "size_from_code (size_to_code s) = s"
  by (cases s) (simp_all add: codes)

lemma atomic_round_trip: "atomic_from_imm (atomic_to_imm op) = Some op"
proof (cases op)
  case (Atomic_Add f)
  then show ?thesis by (cases f) (simp_all add: atomic_from_imm_def isa_consts)
next
  case (Atomic_Or f)
  then show ?thesis by (cases f) (simp_all add: atomic_from_imm_def isa_consts)
next
  case (Atomic_And f)
  then show ?thesis by (cases f) (simp_all add: atomic_from_imm_def isa_consts)
next
  case (Atomic_Xor f)
  then show ?thesis by (cases f) (simp_all add: atomic_from_imm_def isa_consts)
qed (simp_all add: atomic_from_imm_def isa_consts)

text \<open>A slot with valid registers decodes by its class alone.\<close>

lemma decode_slot_one:
  assumes "reg_ok dst" "s < 16"
  shows "decode_slot \<lparr>code = c, regs = pack_regs (reg_index dst) s, off = o', imm = i\<rparr> nxt =
     (let ins = \<lparr>code = c, regs = pack_regs (reg_index dst) s, off = o', imm = i\<rparr>;
          one = (\<lambda>r. bind_result r (\<lambda>d. Ok (d, 1))) in
      case class_from_code c of
        Class_Alu \<Rightarrow> one (decode_alu ins False dst)
      | Class_Alu64 \<Rightarrow> one (decode_alu ins True dst)
      | Class_Jmp \<Rightarrow> one (decode_jmp ins True dst)
      | Class_Jmp32 \<Rightarrow> one (decode_jmp ins False dst)
      | Class_Ldx \<Rightarrow> one (decode_ldx ins dst)
      | Class_St \<Rightarrow> one (decode_st ins dst)
      | Class_Stx \<Rightarrow> one (decode_stx ins dst)
      | Class_Ld \<Rightarrow> bind_result (decode_ld ins nxt dst) (\<lambda>d. Ok (d, 2)))"
  using assms reg_ok_16 [OF assms(1)] by (simp add: decode_slot_def pack_regs_bits ok_or_def Let_def)


lemmas arms = bind_result.simps ok_or_def Let_def source_of_def src_reg_def

lemma alu_code:
  assumes "sbit = SRC_K \<or> sbit = SRC_X"
  shows "class_from_code (alu_class wide OR alu_to_code op OR sbit) = (if wide then Class_Alu64 else Class_Alu)"
    "(alu_class wide OR alu_to_code op OR sbit) AND OP_MASK = alu_to_code op"
    "(alu_class wide OR alu_to_code op OR sbit) AND SRC_MASK = sbit"
  using assms by (cases op; cases wide; auto simp: codes)+

lemma decode_alu_code:
  "code i AND OP_MASK = alu_to_code op \<Longrightarrow> decode_alu i wide dst = bind_result (source_of i) (\<lambda>src. Ok (Alu wide op dst src))"
  by (cases op) (simp_all add: decode_alu_def isa_consts Let_def)

lemma source_of_split:
  assumes "split_source src = (sbit, sreg, i)" "source_ok src" "c AND SRC_MASK = sbit" "d < 16"
  shows "source_of \<lparr>code = c, regs = pack_regs d sreg, off = o', imm = i\<rparr> = Ok src"
    "sreg < 16" "sbit = SRC_K \<or> sbit = SRC_X"
proof -
  have "sreg < 16 \<and> (sbit = SRC_K \<or> sbit = SRC_X)
      \<and> source_of \<lparr>code = c, regs = pack_regs d sreg, off = o', imm = i\<rparr> = Ok src"
  proof (cases src)
    case (Imm k)
    then show ?thesis using assms by (auto simp: source_of_def isa_consts)
  next
    case (SrcReg r)
    then have r: "reg_ok r" "sreg = reg_index r" "sbit = SRC_X" using assms by auto
    then show ?thesis using assms reg_ok_16 [OF r(1)] SrcReg by (simp add: arms pack_regs_bits)
  qed
  then show "source_of \<lparr>code = c, regs = pack_regs d sreg, off = o', imm = i\<rparr> = Ok src"
    "sreg < 16" "sbit = SRC_K \<or> sbit = SRC_X" by blast+
qed

lemma encode_source_cases:
  obtains k where "src = Imm k" "split_source src = (SRC_K, 0, k)"
  | r where "src = SrcReg r" "split_source src = (SRC_X, reg_index r, 0)"
  by (cases src) auto

text \<open>One lemma per instruction form.\<close>

lemma rt_alu:
  assumes "representable (Alu wide op dst src)"
  shows "\<exists>ins. encode (Alu wide op dst src) = [ins] \<and> decode_slot ins nxt = Ok (Alu wide op dst src, 1)"
proof -
  obtain sbit sreg i where s: "split_source src = (sbit, sreg, i)" by (metis prod_cases3)
  have ok: "reg_ok dst" "source_ok src" using assms by auto
  have sb: "sbit = SRC_K \<or> sbit = SRC_X" using s by (cases src) auto
  note A = alu_code [OF sb, of wide op]
  note S = source_of_split [OF s ok(2) A(3) reg_ok_16 [OF ok(1)]]
  show ?thesis
    using s S ok A
    by (simp add: encode_one_def decode_slot_one decode_alu_code Let_def split: if_splits)
qed

lemma rt_neg:
  "reg_ok dst \<Longrightarrow> \<exists>ins. encode (Neg wide dst) = [ins] \<and> decode_slot ins nxt = Ok (Neg wide dst, 1)"
  by (cases wide) (simp_all add: encode_one_def decode_slot_one decode_alu_def codes Let_def)

lemma misc_code:
  assumes "sbit = SRC_K \<or> sbit = SRC_X" "op = ALU_MOV \<or> op = ALU_DIV \<or> op = ALU_MOD \<or> op = ALU_END"
  shows "class_from_code (alu_class wide OR op OR sbit) = (if wide then Class_Alu64 else Class_Alu)"
    "(alu_class wide OR op OR sbit) AND OP_MASK = op"
    "(alu_class wide OR op OR sbit) AND SRC_MASK = sbit"
  using assms by (cases wide; auto simp: codes)+

lemma decode_alu_misc:
  "code i AND OP_MASK = ALU_MOV \<Longrightarrow> decode_alu i wide dst = decode_mov i wide dst"
  "code i AND OP_MASK = ALU_DIV \<Longrightarrow> decode_alu i wide dst = decode_divmod i wide dst"
  "code i AND OP_MASK = ALU_MOD \<Longrightarrow> decode_alu i wide dst = decode_divmod i wide dst"
  "code i AND OP_MASK = ALU_END \<Longrightarrow> decode_alu i wide dst = decode_end i wide dst"
  by (simp_all add: decode_alu_def isa_consts Let_def)

lemma rt_mov:
  assumes "representable (Mov wide dst src se)"
  shows "\<exists>ins. encode (Mov wide dst src se) = [ins] \<and> decode_slot ins nxt = Ok (Mov wide dst src se, 1)"
proof -
  obtain sbit sreg i where s: "split_source src = (sbit, sreg, i)" by (metis prod_cases3)
  have ok: "reg_ok dst" "source_ok src" "se = None \<or> se = Some 8 \<or> se = Some 16 \<or> se = Some 32"
    using assms by (auto split: option.splits)
  have sb: "sbit = SRC_K \<or> sbit = SRC_X" using s by (cases src) auto
  note A = misc_code [OF sb disjI1 [OF refl], of wide]
  note S = source_of_split [OF s ok(2) A(3) reg_ok_16 [OF ok(1)]]
  have "decode_mov \<lparr>code = alu_class wide OR ALU_MOV OR sbit, regs = pack_regs (reg_index dst) sreg,
      off = (case se of None \<Rightarrow> 0 | Some b \<Rightarrow> ucast b), imm = i\<rparr> wide dst = Ok (Mov wide dst src se)"
    using ok(3) S(1) by (auto simp: decode_mov_def OFF_ADDR_SPACE_CAST_def)
  then show ?thesis
    using s S(2) ok A by (simp add: encode_one_def decode_slot_one decode_alu_misc Let_def split: if_splits)
qed

lemma rt_divmod:
  assumes "reg_ok dst" "source_ok src"
  shows "\<exists>ins. encode (Div wide sg dst src) = [ins] \<and> decode_slot ins nxt = Ok (Div wide sg dst src, 1)"
    "\<exists>ins. encode (Mod wide sg dst src) = [ins] \<and> decode_slot ins nxt = Ok (Mod wide sg dst src, 1)"
proof -
  obtain sbit sreg i where s: "split_source src = (sbit, sreg, i)" by (metis prod_cases3)
  have sb: "sbit = SRC_K \<or> sbit = SRC_X" using s by (cases src) auto
  note D = misc_code [OF sb disjI2 [OF disjI1 [OF refl]], of wide]
  note M = misc_code [OF sb disjI2 [OF disjI2 [OF disjI1 [OF refl]]], of wide]
  note SD = source_of_split [OF s assms(2) D(3) reg_ok_16 [OF assms(1)]]
  note SM = source_of_split [OF s assms(2) M(3) reg_ok_16 [OF assms(1)]]
  have ne: "ALU_MOD \<noteq> ALU_DIV" by (simp add: isa_consts)
  have "decode_divmod \<lparr>code = alu_class wide OR ALU_DIV OR sbit, regs = pack_regs (reg_index dst) sreg,
      off = (if sg then OFF_SIGNED else 0), imm = i\<rparr> wide dst = Ok (Div wide sg dst src)"
    using SD(1) D(2) by (auto simp: decode_divmod_def OFF_SIGNED_def)
  then show "\<exists>ins. encode (Div wide sg dst src) = [ins] \<and> decode_slot ins nxt = Ok (Div wide sg dst src, 1)"
    using s SD(2) assms D by (simp add: encode_one_def decode_slot_one decode_alu_misc Let_def split: if_splits)
  have "decode_divmod \<lparr>code = alu_class wide OR ALU_MOD OR sbit, regs = pack_regs (reg_index dst) sreg,
      off = (if sg then OFF_SIGNED else 0), imm = i\<rparr> wide dst = Ok (Mod wide sg dst src)"
    using SM(1) M(2) ne by (auto simp: decode_divmod_def OFF_SIGNED_def)
  then show "\<exists>ins. encode (Mod wide sg dst src) = [ins] \<and> decode_slot ins nxt = Ok (Mod wide sg dst src, 1)"
    using s SM(2) assms M by (simp add: encode_one_def decode_slot_one decode_alu_misc Let_def split: if_splits)
qed

lemma rt_end:
  assumes "representable (End dst ord width)"
  shows "\<exists>ins. encode (End dst ord width) = [ins] \<and> decode_slot ins nxt = Ok (End dst ord width, 1)"
  using assms
  by (cases ord) (auto simp: encode_one_def decode_slot_one decode_alu_def decode_end_def codes Let_def)

lemma cast_halves:
  "ucast (drop_bit 16 (push_bit 16 (ucast a)) OR drop_bit 16 (ucast b) :: u32) = (a :: u16)"
  "ucast (drop_bit 16 (push_bit 16 (ucast a) OR ucast b :: u32)) = (a :: u16)"
  "ucast (push_bit 16 (ucast a) OR ucast b :: u32) = (b :: u16)"
  by (rule bit_word_eqI; auto simp: bit_simps dest: bit_imp_le_length)+

lemma rt_cast:
  assumes "representable (AddrSpaceCast dst src a b)"
  shows "\<exists>ins. encode (AddrSpaceCast dst src a b) = [ins] \<and> decode_slot ins nxt = Ok (AddrSpaceCast dst src a b, 1)"
  using assms reg_ok_16 [of src] reg_ok_16 [of dst]
  by (auto simp: encode_one_def decode_slot_one decode_alu_def decode_mov_def codes arms pack_regs_bits cast_halves)

lemma mem_code:
  "class_from_code (CLASS_LDX OR (if sx then MODE_MEMSX else MODE_MEM) OR size_to_code sz) = Class_Ldx"
  "(CLASS_LDX OR (if sx then MODE_MEMSX else MODE_MEM) OR size_to_code sz) AND MODE_MASK = (if sx then MODE_MEMSX else MODE_MEM)"
  "size_from_code (CLASS_LDX OR (if sx then MODE_MEMSX else MODE_MEM) OR size_to_code sz) = sz"
  "class_from_code (CLASS_ST OR MODE_MEM OR size_to_code sz) = Class_St"
  "(CLASS_ST OR MODE_MEM OR size_to_code sz) AND MODE_MASK = MODE_MEM"
  "size_from_code (CLASS_ST OR MODE_MEM OR size_to_code sz) = sz"
  "class_from_code (CLASS_STX OR MODE_MEM OR size_to_code sz) = Class_Stx"
  "(CLASS_STX OR MODE_MEM OR size_to_code sz) AND MODE_MASK = MODE_MEM"
  "size_from_code (CLASS_STX OR MODE_MEM OR size_to_code sz) = sz"
  "class_from_code (CLASS_STX OR MODE_ATOMIC OR size_to_code sz) = Class_Stx"
  "(CLASS_STX OR MODE_ATOMIC OR size_to_code sz) AND MODE_MASK = MODE_ATOMIC"
  "size_from_code (CLASS_STX OR MODE_ATOMIC OR size_to_code sz) = sz"
  by (cases sz; cases sx; simp add: codes)+

lemma mode_neq: "MODE_MEMSX \<noteq> MODE_MEM" "MODE_ATOMIC \<noteq> MODE_MEM"
  by (simp_all add: isa_consts)

lemma rt_load:
  assumes "representable (Load sz sx dst src o')"
  shows "\<exists>ins. encode (Load sz sx dst src o') = [ins] \<and> decode_slot ins nxt = Ok (Load sz sx dst src o', 1)"
  using assms reg_ok_16 [of src] reg_ok_16 [of dst]
  by (cases sx)
    (auto simp: encode_one_def decode_slot_one decode_ldx_def arms pack_regs_bits mode_neq
      mem_code(1-3) [where sx = True, simplified] mem_code(1-3) [where sx = False, simplified])

lemma rt_store:
  assumes "representable (Store sz dst o' src)"
  shows "\<exists>ins. encode (Store sz dst o' src) = [ins] \<and> decode_slot ins nxt = Ok (Store sz dst o' src, 1)"
proof (cases src)
  case (Imm k)
  then show ?thesis using assms by (simp add: encode_one_def decode_slot_one decode_st_def mem_code)
next
  case (SrcReg r)
  then show ?thesis
    using assms reg_ok_16 [of r] reg_ok_16 [of dst]
    by (simp add: encode_one_def decode_slot_one decode_stx_def mem_code arms pack_regs_bits)
qed

lemma rt_atomic:
  assumes "representable (Atomic sz op dst src o')"
  shows "\<exists>ins. encode (Atomic sz op dst src o') = [ins] \<and> decode_slot ins nxt = Ok (Atomic sz op dst src o', 1)"
  using assms reg_ok_16 [of src] reg_ok_16 [of dst]
  by (simp add: encode_one_def decode_slot_one decode_stx_def mem_code arms pack_regs_bits mode_neq atomic_round_trip)

lemma value_halves:
  "push_bit 32 (ucast (ucast (drop_bit 32 v) :: u32)) OR ucast (ucast (v AND 0xFFFFFFFF) :: u32) = (v :: u64)"
proof -
  have m: "(0xFFFFFFFF :: u64) = mask 32" by (simp add: mask_eq_exp_minus_1)
  show ?thesis unfolding m by (rule bit_word_eqI) (auto simp: bit_simps)
qed

lemma ld_code:
  "class_from_code (CLASS_LD OR MODE_IMM OR SIZE_DW) = Class_Ld"
  "(CLASS_LD OR MODE_IMM OR SIZE_DW) AND MODE_MASK = MODE_IMM"
  "size_from_code (CLASS_LD OR MODE_IMM OR SIZE_DW) = Size_Dw"
  by (simp_all add: codes)

lemma rt_imm64:
  assumes "reg_ok dst"
  shows "\<exists>i n. encode (LoadImm64 dst v) = [i, n] \<and> decode_slot i (Some n) = Ok (LoadImm64 dst v, 2)"
  using assms reg_ok_16 [OF assms]
  by (cases v)
    (simp_all add: encode_two_def decode_slot_one decode_ld_def decode_imm64_def codes arms pack_regs_bits
      value_halves)

lemma scast_fits: "fits_i16 o' \<Longrightarrow> scast (ucast o' :: u16) = o'"
proof -
  assume f: "fits_i16 o'"
  have "sint (ucast o' :: u16) = signed_take_bit 15 (uint o')" by (simp add: signed_ucast_eq)
  also have "\<dots> = signed_take_bit 15 (signed_take_bit 31 (uint o'))"
    by (simp add: signed_take_bit_signed_take_bit)
  also have "signed_take_bit 31 (uint o') = sint o'" by (simp add: sint_uint)
  also have "signed_take_bit 15 (sint o') = sint o'" using f by (simp add: fits_i16_def signed_take_bit_int_eq_self)
  finally show ?thesis by (simp add: scast_eq)
qed

lemma reg0_ok [simp]: "reg_ok (Reg 0)"
  by (simp add: reg_ok_def isa_consts)

lemmas decode_slot_zero = decode_slot_one [OF reg0_ok, unfolded reg.sel]

lemma rt_jump: "\<exists>ins. encode (Jump o') = [ins] \<and> decode_slot ins nxt = Ok (Jump o', 1)"
  by (auto simp: encode_one_def decode_slot_zero decode_jmp_def codes Let_def scast_fits)

lemma jcond_code:
  assumes "sbit = SRC_K \<or> sbit = SRC_X"
  shows "class_from_code ((if wide then CLASS_JMP else CLASS_JMP32) OR cond_to_code op OR sbit) = (if wide then Class_Jmp else Class_Jmp32)"
    "((if wide then CLASS_JMP else CLASS_JMP32) OR cond_to_code op OR sbit) AND OP_MASK = cond_to_code op"
    "((if wide then CLASS_JMP else CLASS_JMP32) OR cond_to_code op OR sbit) AND SRC_MASK = sbit"
  using assms by (cases op; cases wide; auto simp: codes)+

lemma decode_jmp_cond:
  "code i AND OP_MASK = cond_to_code op \<Longrightarrow>
   decode_jmp i wide dst = bind_result (source_of i) (\<lambda>src. Ok (JumpCond wide op dst src (off i)))"
  by (cases op) (simp_all add: decode_jmp_def cond_from_op_def isa_consts Let_def)

lemma rt_jcond:
  assumes "representable (JumpCond wide op dst src o')"
  shows "\<exists>ins. encode (JumpCond wide op dst src o') = [ins] \<and> decode_slot ins nxt = Ok (JumpCond wide op dst src o', 1)"
proof -
  obtain sbit sreg i where s: "split_source src = (sbit, sreg, i)" by (metis prod_cases3)
  have ok: "reg_ok dst" "source_ok src" using assms by auto
  have sb: "sbit = SRC_K \<or> sbit = SRC_X" using s by (cases src) auto
  note A = jcond_code [OF sb, of wide op]
  note S = source_of_split [OF s ok(2) A(3) reg_ok_16 [OF ok(1)]]
  show ?thesis
    using s S ok A by (simp add: encode_one_def decode_slot_one decode_jmp_cond Let_def split: if_splits)
qed

lemma rt_misc:
  "\<exists>ins. encode (MayGoto o') = [ins] \<and> decode_slot ins nxt = Ok (MayGoto o', 1)"
  "\<exists>ins. encode (Call t) = [ins] \<and> decode_slot ins nxt = Ok (Call t, 1)"
  "\<exists>ins. encode Exit = [ins] \<and> decode_slot ins nxt = Ok (Exit, 1)"
proof -
  have p: "pack_regs 0 0 = 0" by (simp add: pack_regs_def)
  show "\<exists>ins. encode (MayGoto o') = [ins] \<and> decode_slot ins nxt = Ok (MayGoto o', 1)"
    by (simp add: encode_one_def decode_slot_zero decode_jmp_def codes Let_def)
  show "\<exists>ins. encode (Call t) = [ins] \<and> decode_slot ins nxt = Ok (Call t, 1)"
    by (cases t) (simp_all add: encode_one_def decode_slot_zero decode_jmp_def codes Let_def pack_regs_bits)
  show "\<exists>ins. encode Exit = [ins] \<and> decode_slot ins nxt = Ok (Exit, 1)"
    by (simp add: encode_one_def decode_slot_zero decode_jmp_def codes Let_def) (simp add: p)
qed

lemma decode_slot_encode:
  assumes "representable d"
  shows "\<exists>i rest. encode d = i # rest \<and> decode_slot i (nth_opt (rest @ post) 0) = Ok (d, length (encode d))"
proof -
  have one: "\<exists>i rest. encode d = i # rest \<and> decode_slot i (nth_opt (rest @ post) 0) = Ok (d, length (encode d))"
    if "\<exists>ins. encode d = [ins] \<and> decode_slot ins (nth_opt post 0) = Ok (d, 1)"
    using that by auto
  show ?thesis
  proof (cases d)
    case (LoadImm64 dst v)
    then obtain i n where "encode d = [i, n]" "decode_slot i (Some n) = Ok (d, 2)"
      using rt_imm64 [of dst v] assms by auto
    then show ?thesis by (simp add: nth_opt_def)
  next
    case (Jump x)
    then show ?thesis using rt_jump one by blast
  next
    case (MayGoto x)
    then show ?thesis using rt_misc(1) one by blast
  next
    case (Call x)
    then show ?thesis using rt_misc(2) one by blast
  next
    case Exit
    then show ?thesis using rt_misc(3) one by blast
  next
    case (Alu w op dst src)
    show ?thesis unfolding Alu by (rule one [unfolded Alu]) (rule rt_alu [OF assms [unfolded Alu]])
  next
    case (Neg w dst)
    show ?thesis unfolding Neg by (rule one [unfolded Neg]) (rule rt_neg [OF assms [unfolded Neg representable.simps]])
  next
    case (Mov w dst src se)
    show ?thesis unfolding Mov by (rule one [unfolded Mov]) (rule rt_mov [OF assms [unfolded Mov]])
  next
    case (End dst ord width)
    show ?thesis unfolding End by (rule one [unfolded End]) (rule rt_end [OF assms [unfolded End]])
  next
    case (AddrSpaceCast dst src a b)
    show ?thesis unfolding AddrSpaceCast by (rule one [unfolded AddrSpaceCast]) (rule rt_cast [OF assms [unfolded AddrSpaceCast]])
  next
    case (Load sz sx dst src o')
    show ?thesis unfolding Load by (rule one [unfolded Load]) (rule rt_load [OF assms [unfolded Load]])
  next
    case (Store sz dst o' src)
    show ?thesis unfolding Store by (rule one [unfolded Store]) (rule rt_store [OF assms [unfolded Store]])
  next
    case (Atomic sz op dst src o')
    show ?thesis unfolding Atomic by (rule one [unfolded Atomic]) (rule rt_atomic [OF assms [unfolded Atomic]])
  next
    case (JumpCond w op dst src o')
    show ?thesis unfolding JumpCond by (rule one [unfolded JumpCond]) (rule rt_jcond [OF assms [unfolded JumpCond]])
  next
    case (Div w sg dst src)
    then have "reg_ok dst" "source_ok src" using assms by auto
    then show ?thesis unfolding Div by (rule one [unfolded Div, OF rt_divmod(1)])
  next
    case (Mod w sg dst src)
    then have "reg_ok dst" "source_ok src" using assms by auto
    then show ?thesis unfolding Mod by (rule one [unfolded Mod, OF rt_divmod(2)])
  qed
qed

lemma bind_result_Ok: "bind_result r f = Ok x \<longleftrightarrow> (\<exists>y. r = Ok y \<and> f y = Ok x)"
  by (cases r) auto

lemma ok_or_Ok: "ok_or a e = Ok x \<longleftrightarrow> a = Some x"
  by (auto simp: ok_or_def split: option.splits)

lemma src_reg_Ok: "src_reg i = Ok r \<Longrightarrow> reg_ok r"
  by (auto simp: src_reg_def ok_or_Ok dest: reg_new_SomeD)

lemma source_of_Ok: "source_of i = Ok s \<Longrightarrow> source_ok s"
  by (auto simp: source_of_def bind_result_Ok dest: src_reg_Ok split: if_splits)

lemmas decoder_range = bind_result_Ok ok_or_Ok Let_def

lemma decode_alu_range: "reg_ok dst \<Longrightarrow> decode_alu i wide dst = Ok d \<Longrightarrow> representable d"
proof -
  assume r: "reg_ok dst" and d: "decode_alu i wide dst = Ok d"
  have mv: "representable d" if "decode_mov i wide dst = Ok d"
    using that r by (auto simp: decode_mov_def decoder_range split: if_splits dest: src_reg_Ok source_of_Ok)
  have dm: "representable d" if "decode_divmod i wide dst = Ok d"
    using that r by (auto simp: decode_divmod_def decoder_range split: if_splits dest: source_of_Ok)
  have en: "representable d" if "decode_end i wide dst = Ok d"
    using that r by (auto simp: decode_end_def decoder_range split: if_splits)
  have bin: "representable d" if "bind_result (source_of i) (\<lambda>src. Ok (Alu wide a dst src)) = Ok d" for a
    using that r by (auto simp: decoder_range dest: source_of_Ok)
  have "decode_mov i wide dst = Ok d \<or> decode_divmod i wide dst = Ok d \<or> decode_end i wide dst = Ok d \<or> d = Neg wide dst
      \<or> (\<exists>a. bind_result (source_of i) (\<lambda>src. Ok (Alu wide a dst src)) = Ok d)"
    using d by (simp only: decode_alu_def Let_def split: if_splits) blast+
  then show ?thesis using mv dm en bin r by auto
qed

lemma decode_jmp_range: "reg_ok dst \<Longrightarrow> decode_jmp i wide dst = Ok d \<Longrightarrow> representable d"
  by (auto simp: decode_jmp_def decoder_range split: if_splits dest: source_of_Ok)

lemma decode_mem_range:
  assumes "reg_ok dst"
  shows "decode_ldx i dst = Ok d \<Longrightarrow> representable d" "decode_st i dst = Ok d \<Longrightarrow> representable d"
    "decode_stx i dst = Ok d \<Longrightarrow> representable d" "decode_ld i nxt dst = Ok d \<Longrightarrow> representable d"
  using assms
  by (auto simp: decode_ldx_def decode_st_def decode_stx_def decode_ld_def decoder_range split: if_splits dest: src_reg_Ok)

lemma decode_slot_range: "decode_slot i nxt = Ok (d, n) \<Longrightarrow> representable d"
  by (cases "class_from_code (code i)")
    (auto simp: decode_slot_def decoder_range dest!: reg_new_SomeD dest: decode_alu_range decode_jmp_range decode_mem_range)

subsection \<open>Bytes\<close>

lemma le_bytes_16: "from_le_bytes [to_le_bytes 2 w ! 0, to_le_bytes 2 w ! 1] = (w :: u16)"
  by (rule bit_word_eqI) (auto simp: to_le_bytes_def bit_simps numeral_2_eq_2)

lemma to_bytes_from_bytes:
  assumes "length b = 8"
  shows "to_bytes (from_bytes b) = b"
proof -
  obtain b0 b1 b2 b3 b4 b5 b6 b7 where b: "b = [b0, b1, b2, b3, b4, b5, b6, b7]"
    using assms by (auto simp: length_Suc_conv numeral_eq_Suc)
  have o: "to_le_bytes 2 (from_le_bytes [b2, b3] :: u16) = [b2, b3]"
    by (auto simp: to_le_bytes_def upt_rec intro!: bit_word_eqI) (auto simp: bit_simps dest: bit_imp_le_length)
  have i: "to_le_bytes 4 (from_le_bytes [b4, b5, b6, b7] :: u32) = [b4, b5, b6, b7]"
    by (auto simp: to_le_bytes_def upt_rec intro!: bit_word_eqI) (auto simp: bit_simps dest: bit_imp_le_length)
  show ?thesis by (simp add: b from_bytes_def to_bytes_def o i Let_def del: from_le_bytes.simps)
qed

lemma bit_split4:
  "n < 32 \<Longrightarrow> n < 8 \<or> (8 \<le> n \<and> n - 8 < 8) \<or> (16 \<le> n \<and> n - 16 < 8) \<or> (24 \<le> n \<and> n - 24 < (8 :: nat))"
  by arith

lemma le_bytes_32:
  "from_le_bytes [to_le_bytes 4 w ! 0, to_le_bytes 4 w ! 1, to_le_bytes 4 w ! 2, to_le_bytes 4 w ! 3] = (w :: u32)"
proof (rule bit_word_eqI)
  fix n assume "n < LENGTH(32)"
  then show "bit (from_le_bytes [to_le_bytes 4 w ! 0, to_le_bytes 4 w ! 1, to_le_bytes 4 w ! 2, to_le_bytes 4 w ! 3] :: u32) n
      \<longleftrightarrow> bit w n"
    using bit_split4 [of n] by (auto simp: to_le_bytes_def bit_simps upt_rec)
qed

lemma from_bytes_to_bytes: "from_bytes (to_bytes i) = i"
  using le_bytes_16 [of "off i"] le_bytes_32 [of "imm i"] by (simp add: from_bytes_def to_bytes_def Let_def)

lemma length_to_bytes [simp]: "length (to_bytes i) = 8"
  by (simp add: to_bytes_def Let_def)

lemma chunks_exact_append: "length b = 8 \<Longrightarrow> chunks_exact (b @ rest) = b # chunks_exact rest"
  by (auto simp: length_Suc_conv numeral_eq_Suc)

lemma slots_from_bytes_image: "slots_from_bytes (concat (map to_bytes is)) = Some is"
proof -
  have len: "length (concat (map to_bytes is)) = 8 * length is" by (induction "is") auto
  have "map from_bytes (chunks_exact (concat (map to_bytes is))) = is"
    by (induction "is") (simp_all add: chunks_exact_append from_bytes_to_bytes)
  with len show ?thesis by (simp add: slots_from_bytes_def INSN_SIZE_def)
qed

subsection \<open>Properties\<close>

text \<open>
  C25. Decoding inverts encoding exactly: wherever an instruction's encoding stands in a program,
  \<open>decode\<close> at its first slot returns the instruction and the number of slots it occupies if and only if the instruction is
  representable (a sign-extending move of 8, 16 or 32 bits, a byte swap of 16, 32 or 64 bits, no sign-extending doubleword
  load, atomics of word or doubleword size), and whatever \<open>decode\<close> returns is representable. So the decoder's
  range is precisely the set on which the encoder is invertible.
\<close>

theorem decode_encode_exact:
  "(decode (pre @ encode d @ post) (length pre) = Some (Ok (d, length (encode d))) \<longleftrightarrow> representable d)
   \<and> (decode prog idx = Some (Ok (d', n)) \<longrightarrow> representable d')"
proof -
  have "representable d'" if "decode prog idx = Some (Ok (d', n))"
    using that by (auto simp: decode_def split: option.splits dest: decode_slot_range)
  moreover have "representable d" if "decode (pre @ encode d @ post) (length pre) = Some (Ok (d, length (encode d)))"
    using that by (auto simp: decode_def split: option.splits dest: decode_slot_range)
  moreover have "decode (pre @ encode d @ post) (length pre) = Some (Ok (d, length (encode d)))" if r: "representable d"
  proof -
    obtain i rest where e: "encode d = i # rest" "decode_slot i (nth_opt (rest @ post) 0) = Ok (d, length (encode d))"
      using decode_slot_encode [OF r] by blast
    have "nth_opt (pre @ (i # rest) @ post) (length pre) = Some i"
      "nth_opt (pre @ (i # rest) @ post) (Suc (length pre)) = nth_opt (rest @ post) 0"
      by (auto simp: nth_opt_def nth_append)
    then show ?thesis using e by (simp add: decode_def)
  qed
  ultimately show ?thesis by blast
qed

theorem decode_encode_exact_witness:
  "decode (encode Exit @ encode (LoadImm64 (Reg 3) (Value 0x123456789)) @ []) 1
     = Some (Ok (LoadImm64 (Reg 3) (Value 0x123456789), 2))
   \<and> decode ([] @ encode (Load Size_Dw True (Reg 1) (Reg 2) 0) @ []) 0
     \<noteq> Some (Ok (Load Size_Dw True (Reg 1) (Reg 2) 0, 1))"
  using decode_encode_exact [of "encode Exit" "LoadImm64 (Reg 3) (Value 0x123456789)" "[]"]
    decode_encode_exact [of "[]" "Load Size_Dw True (Reg 1) (Reg 2) 0" "[]"]
  by (simp add: encode_one_def encode_two_def reg_ok_def NUM_REGS_def)

text \<open>
  The slot layout is a bijection: every 8-byte array decodes to a slot that encodes back to the same bytes, every slot
  survives the trip through its bytes, and a program image of whole slots is read back slot by slot; an
  image whose length is not a multiple of the slot size is refused.
\<close>

theorem slot_bytes_round_trip:
  "from_bytes (to_bytes i) = i
   \<and> (length b = 8 \<longrightarrow> to_bytes (from_bytes b) = b)
   \<and> slots_from_bytes (concat (map to_bytes is)) = Some is
   \<and> (slots_from_bytes bytes = None \<longleftrightarrow> \<not> 8 dvd length bytes)"
  using from_bytes_to_bytes to_bytes_from_bytes slots_from_bytes_image
  by (auto simp: slots_from_bytes_def INSN_SIZE_def)

theorem slot_bytes_round_trip_witness:
  "to_bytes (from_bytes [7, 0x21, 1, 0, 0xFF, 0, 0, 0x80]) = [7, 0x21, 1, 0, 0xFF, 0, 0, 0x80]"
  using slot_bytes_round_trip [of undefined "[7, 0x21, 1, 0, 0xFF, 0, 0, 0x80]"] by simp

end
