(* ===== verification/Bpf_Scalar.thy ===== *)
theory Bpf_Scalar
  imports Bpf_Tnum Bpf_Isa "HOL-Library.Signed_Division"
begin

text \<open>
  The reduced product of the BPF verifier (\<open>bpf/verifier/src/domain.rs\<close>, \<open>impl Scalar\<close>): a tnum and a signed interval,
  reduced against each other by \<open>normalize\<close>; derived unsigned bounds and 32-bit views; the lattice operations and
  widening; refinement by branch conditions; the transfer functions and the instruction-level operations; and the
  concrete arithmetic of the instruction set (\<open>concrete_*\<close>).

  An \<open>i64\<close> is an integer here, \<open>as u64\<close> is \<open>word_of_int\<close> and \<open>as i64\<close> is \<open>sint\<close>; \<open>i128\<close> intermediate results are
  exact. A left shift or a subtraction of widths that panics in the source (a width of zero bits) is the outer
  \<open>None\<close> of \<open>scalar_sign_extend\<close>.
\<close>

subsection \<open>Definitions\<close>

record scalar =
  stnum :: tnum
  smin :: int
  smax :: int

definition I64_MIN :: int where "I64_MIN = - (2 ^ 63)"
definition I64_MAX :: int where "I64_MAX = 2 ^ 63 - 1"

abbreviation as_u64 :: "int \<Rightarrow> u64" where "as_u64 i \<equiv> word_of_int i"

definition Scalar_UNKNOWN :: scalar where
  "Scalar_UNKNOWN = \<lparr>stnum = Tnum_UNKNOWN, smin = I64_MIN, smax = I64_MAX\<rparr>"

definition scalar_constant :: "int \<Rightarrow> scalar" where
  "scalar_constant v = \<lparr>stnum = tnum_constant (as_u64 v), smin = v, smax = v\<rparr>"

definition scalar_contains :: "scalar \<Rightarrow> u64 \<Rightarrow> bool" where
  "scalar_contains s v \<longleftrightarrow> tnum_contains (stnum s) v \<and> sint v \<ge> smin s \<and> sint v \<le> smax s"

definition as_const :: "scalar \<Rightarrow> int option" where
  "as_const s =
     (if tnum_is_const (stnum s) then Some (sint (tvalue (stnum s)))
      else if smin s = smax s then Some (smin s)
      else None)"

definition unsigned_bounds :: "scalar \<Rightarrow> u64 \<times> u64" where
  "unsigned_bounds s =
     (let straddles_zero = smin s < 0 \<and> smax s \<ge> 0;
          (ilo, ihi) = (if straddles_zero then (0, - 1) else (as_u64 (smin s), as_u64 (smax s)));
          (tlo, thi) = tnum_unsigned_bounds (stnum s)
      in (max ilo tlo, min ihi thi))"

text \<open>One round of the reduction loop, and the loop of at most three rounds.\<close>

definition derived_tnum :: "int \<Rightarrow> int \<Rightarrow> tnum" where
  "derived_tnum lo hi =
     (if lo \<ge> 0 \<or> hi < 0 then tnum_from_unsigned_range (as_u64 lo) (as_u64 hi) else Tnum_UNKNOWN)"

definition normalize_round :: "scalar \<Rightarrow> scalar option" where
  "normalize_round s =
     (if smin s > smax s then None
      else
        (let (tlo, thi) = tnum_signed_bounds (stnum s);
             lo = max (smin s) tlo;
             hi = min (smax s) thi
         in
         if lo > hi then None
         else (case tnum_meet (stnum s) (derived_tnum lo hi) of
                 None \<Rightarrow> None
               | Some t \<Rightarrow> Some \<lparr>stnum = t, smin = lo, smax = hi\<rparr>)))"

fun normalize_loop :: "nat \<Rightarrow> scalar \<Rightarrow> scalar option" where
  "normalize_loop 0 s = (if smin s > smax s then None else Some s)"
| "normalize_loop (Suc n) s =
     (case normalize_round s of
        None \<Rightarrow> None
      | Some s' \<Rightarrow> if s' = s then normalize_loop 0 s' else normalize_loop n s')"

definition normalize :: "scalar \<Rightarrow> scalar option" where
  "normalize s = normalize_loop 3 s"

definition normalized :: "scalar \<Rightarrow> scalar" where
  "normalized s = (case normalize s of Some s' \<Rightarrow> s' | None \<Rightarrow> s)"

definition unsigned_bits :: "nat \<Rightarrow> scalar" where
  "unsigned_bits bits =
     (if bits \<ge> 64 then Scalar_UNKNOWN
      else (let hi = push_bit bits 1 - 1 in \<lparr>stnum = \<lparr>tvalue = 0, tmask = hi\<rparr>, smin = 0, smax = sint hi\<rparr>))"

definition signed_bits :: "nat \<Rightarrow> scalar" where
  "signed_bits bits =
     (if bits = 0 \<or> bits \<ge> 64 then Scalar_UNKNOWN
      else normalized \<lparr>stnum = tnum_sign_extend Tnum_UNKNOWN bits, smin = - (2 ^ (bits - 1)), smax = 2 ^ (bits - 1) - 1\<rparr>)"

definition zext32 :: "scalar \<Rightarrow> scalar" where
  "zext32 s =
     (let t = tnum_zero_extend (stnum s) 32 in
      if drop_bit 32 (as_u64 (smin s)) = drop_bit 32 (as_u64 (smax s))
      then
        (let lo = as_u64 (smin s) AND 0xFFFFFFFF;
             hi = as_u64 (smax s) AND 0xFFFFFFFF;
             t' = (case tnum_meet t (tnum_from_unsigned_range lo hi) of Some m \<Rightarrow> m | None \<Rightarrow> t)
         in normalized \<lparr>stnum = t', smin = sint lo, smax = sint hi\<rparr>)
      else
        (let (lo, hi) = tnum_unsigned_bounds t
         in normalized \<lparr>stnum = t, smin = sint lo, smax = sint hi\<rparr>))"

definition sext32 :: "scalar \<Rightarrow> scalar" where
  "sext32 s =
     (let z = zext32 s;
          (lo, hi) = unsigned_bounds z;
          HALF = push_bit 31 1;
          FULL = 2 ^ 32;
          (mn, mx) = (if hi < HALF then (sint lo, sint hi)
                      else if lo \<ge> HALF then (sint lo - FULL, sint hi - FULL)
                      else (- (2 ^ 31), 2 ^ 31 - 1))
      in normalized \<lparr>stnum = tnum_sign_extend (stnum z) 32, smin = mn, smax = mx\<rparr>)"

definition scalar_sign_extend :: "scalar \<Rightarrow> nat \<Rightarrow> scalar option" where
  "scalar_sign_extend s bits =
     (if bits \<ge> 64 then Some s
      else if bits = 0 then None
      else
        (let t = tnum_sign_extend (tnum_zero_extend (stnum s) bits) bits
         in Some (normalized \<lparr>stnum = t, smin = - (2 ^ (bits - 1)), smax = 2 ^ (bits - 1) - 1\<rparr>)))"

text \<open>Lattice operations and widening; the thresholds are sorted upwards by the caller.\<close>

definition scalar_join :: "scalar \<Rightarrow> scalar \<Rightarrow> scalar" where
  "scalar_join a b =
     normalized \<lparr>stnum = tnum_join (stnum a) (stnum b), smin = min (smin a) (smin b), smax = max (smax a) (smax b)\<rparr>"

definition scalar_meet :: "scalar \<Rightarrow> scalar \<Rightarrow> scalar option" where
  "scalar_meet a b =
     (case tnum_meet (stnum a) (stnum b) of
        None \<Rightarrow> None
      | Some t \<Rightarrow> normalize \<lparr>stnum = t, smin = max (smin a) (smin b), smax = min (smax a) (smax b)\<rparr>)"

definition scalar_is_subset_of :: "scalar \<Rightarrow> scalar \<Rightarrow> bool" where
  "scalar_is_subset_of a b \<longleftrightarrow> smin a \<ge> smin b \<and> smax a \<le> smax b \<and> tnum_is_subset_of (stnum a) (stnum b)"

definition widen :: "scalar \<Rightarrow> scalar \<Rightarrow> int list \<Rightarrow> scalar" where
  "widen s nxt thresholds =
     (let widened_below = smin nxt < smin s;
          widened_above = smax nxt > smax s;
          mn = (if smin nxt < smin s
                then (case List.find (\<lambda>t. t \<le> smin nxt) (rev thresholds) of Some t \<Rightarrow> t | None \<Rightarrow> I64_MIN)
                else smin s);
          mx = (if smax nxt > smax s
                then (case List.find (\<lambda>t. t \<ge> smax nxt) thresholds of Some t \<Rightarrow> t | None \<Rightarrow> I64_MAX)
                else smax s);
          t = tnum_join (stnum s) (stnum nxt);
          t' = (if widened_below \<or> widened_above then tnum_join t (derived_tnum mn mx) else t)
      in normalized \<lparr>stnum = t', smin = mn, smax = mx\<rparr>)"

text \<open>Refinement by branch conditions; \<open>None\<close> is an infeasible branch.\<close>

definition refine_signed_min :: "scalar \<Rightarrow> int \<Rightarrow> scalar option" where
  "refine_signed_min s c = normalize (s\<lparr>smin := max (smin s) c\<rparr>)"

definition refine_signed_max :: "scalar \<Rightarrow> int \<Rightarrow> scalar option" where
  "refine_signed_max s c = normalize (s\<lparr>smax := min (smax s) c\<rparr>)"

definition refine_unsigned_max :: "scalar \<Rightarrow> u64 \<Rightarrow> scalar option" where
  "refine_unsigned_max s c =
     (if c < SIGN
      then (case tnum_meet (stnum s) (tnum_from_unsigned_range 0 c) of
              None \<Rightarrow> None
            | Some t \<Rightarrow> normalize \<lparr>stnum = t, smin = max (smin s) 0, smax = min (smax s) (sint c)\<rparr>)
      else if smax s < 0 then normalize (s\<lparr>smax := min (smax s) (sint c)\<rparr>)
      else normalize s)"

definition refine_unsigned_min :: "scalar \<Rightarrow> u64 \<Rightarrow> scalar option" where
  "refine_unsigned_min s c =
     (if c = 0 then Some s
      else if c \<ge> SIGN then normalize (s\<lparr>smin := max (smin s) (sint c), smax := min (smax s) (- 1)\<rparr>)
      else if smin s \<ge> 0 then normalize (s\<lparr>smin := max (smin s) (sint c)\<rparr>)
      else normalize s)"

definition refine_eq :: "scalar \<Rightarrow> scalar \<Rightarrow> scalar option" where
  "refine_eq a b = scalar_meet a b"

definition i64_checked_add :: "int \<Rightarrow> int \<Rightarrow> int option" where
  "i64_checked_add a b = (if I64_MIN \<le> a + b \<and> a + b \<le> I64_MAX then Some (a + b) else None)"

definition refine_ne :: "scalar \<Rightarrow> scalar \<Rightarrow> scalar option" where
  "refine_ne s other =
     (case as_const other of
        None \<Rightarrow> Some s
      | Some c \<Rightarrow>
          if smin s = smax s \<and> smin s = c then None
          else
            (case (if smin s = c then i64_checked_add c 1 else Some (smin s)) of
               None \<Rightarrow> None
             | Some mn \<Rightarrow>
                 (case (if smax s = c then i64_checked_add c (- 1) else Some (smax s)) of
                    None \<Rightarrow> None
                  | Some mx \<Rightarrow> normalize (s\<lparr>smin := mn, smax := mx\<rparr>))))"

definition refine_bits_clear :: "scalar \<Rightarrow> scalar \<Rightarrow> scalar option" where
  "refine_bits_clear s other =
     (case as_const other of
        None \<Rightarrow> Some s
      | Some c \<Rightarrow>
          (case tnum_meet (stnum s) \<lparr>tvalue = 0, tmask = NOT (as_u64 c)\<rparr> of
             None \<Rightarrow> None
           | Some t \<Rightarrow> normalize (s\<lparr>stnum := t\<rparr>)))"

definition refine_bits_set :: "scalar \<Rightarrow> scalar \<Rightarrow> scalar option" where
  "refine_bits_set s other =
     (case as_const other of
        None \<Rightarrow> Some s
      | Some c \<Rightarrow> if (tvalue (stnum s) OR tmask (stnum s)) AND as_u64 c = 0 then None else Some s)"

text \<open>Transfer functions.\<close>

definition in_i64 :: "int \<Rightarrow> int \<Rightarrow> int \<times> int" where
  "in_i64 lo hi = (if lo \<ge> I64_MIN \<and> hi \<le> I64_MAX then (sint (as_u64 lo), sint (as_u64 hi)) else (I64_MIN, I64_MAX))"

definition interval_add :: "int \<Rightarrow> int \<Rightarrow> int \<Rightarrow> int \<Rightarrow> int \<times> int" where
  "interval_add alo ahi blo bhi = in_i64 (alo + blo) (ahi + bhi)"

definition interval_neg :: "int \<Rightarrow> int \<Rightarrow> int \<times> int" where
  "interval_neg lo hi = in_i64 (- hi) (- lo)"

definition interval_mul :: "int \<Rightarrow> int \<Rightarrow> int \<Rightarrow> int \<Rightarrow> int \<times> int" where
  "interval_mul alo ahi blo bhi =
     (let corners = [alo * bhi, ahi * blo, ahi * bhi]
      in in_i64 (fold min corners (alo * blo)) (fold max corners (alo * blo)))"

definition scalar_of :: "tnum \<Rightarrow> int \<times> int \<Rightarrow> scalar" where
  "scalar_of t b = normalized \<lparr>stnum = t, smin = fst b, smax = snd b\<rparr>"

definition scalar_add :: "scalar \<Rightarrow> scalar \<Rightarrow> scalar" where
  "scalar_add a b = scalar_of (tnum_add (stnum a) (stnum b)) (interval_add (smin a) (smax a) (smin b) (smax b))"

definition scalar_sub :: "scalar \<Rightarrow> scalar \<Rightarrow> scalar" where
  "scalar_sub a b =
     (let (nlo, nhi) = interval_neg (smin b) (smax b)
      in scalar_of (tnum_sub (stnum a) (stnum b)) (interval_add (smin a) (smax a) nlo nhi))"

definition scalar_mul :: "scalar \<Rightarrow> scalar \<Rightarrow> scalar" where
  "scalar_mul a b = scalar_of (tnum_mul (stnum a) (stnum b)) (interval_mul (smin a) (smax a) (smin b) (smax b))"

definition scalar_neg :: "scalar \<Rightarrow> scalar" where
  "scalar_neg a = scalar_of (tnum_sub Tnum_ZERO (stnum a)) (interval_neg (smin a) (smax a))"

definition scalar_and :: "scalar \<Rightarrow> scalar \<Rightarrow> scalar" where
  "scalar_and a b = scalar_of (tnum_and (stnum a) (stnum b)) (I64_MIN, I64_MAX)"

definition scalar_or :: "scalar \<Rightarrow> scalar \<Rightarrow> scalar" where
  "scalar_or a b = scalar_of (tnum_or (stnum a) (stnum b)) (I64_MIN, I64_MAX)"

definition scalar_xor :: "scalar \<Rightarrow> scalar \<Rightarrow> scalar" where
  "scalar_xor a b = scalar_of (tnum_xor (stnum a) (stnum b)) (I64_MIN, I64_MAX)"

text \<open>The amount is masked by 63 at every call.\<close>

definition shift_amount :: "scalar \<Rightarrow> nat option" where
  "shift_amount s = map_option (\<lambda>c. unat (as_u64 c AND 63)) (as_const s)"

definition scalar_shl :: "scalar \<Rightarrow> scalar \<Rightarrow> scalar" where
  "scalar_shl a b =
     (case shift_amount b of
        None \<Rightarrow> Scalar_UNKNOWN
      | Some n \<Rightarrow>
          scalar_of (tnum_shl (stnum a) n)
            (if smin a \<ge> 0 \<and> as_u64 (smax a) \<le> drop_bit n (as_u64 I64_MAX)
             then (sint (push_bit n (as_u64 (smin a))), sint (push_bit n (as_u64 (smax a)))) else (I64_MIN, I64_MAX)))"

definition scalar_shr :: "scalar \<Rightarrow> scalar \<Rightarrow> scalar" where
  "scalar_shr a b =
     (case shift_amount b of
        None \<Rightarrow> Scalar_UNKNOWN
      | Some n \<Rightarrow>
          if n = 0 then a
          else scalar_of (tnum_shr (stnum a) n)
            (if smin a \<ge> 0 then (drop_bit n (smin a), drop_bit n (smax a)) else (0, sint (drop_bit n (- 1 :: u64)))))"

definition scalar_sar :: "scalar \<Rightarrow> scalar \<Rightarrow> scalar" where
  "scalar_sar a b =
     (case shift_amount b of
        None \<Rightarrow> Scalar_UNKNOWN
      | Some n \<Rightarrow> scalar_of (tnum_sar (stnum a) n) (drop_bit n (smin a), drop_bit n (smax a)))"

definition from_unsigned_range :: "u64 \<Rightarrow> u64 \<Rightarrow> scalar" where
  "from_unsigned_range lo hi =
     (if lo > hi then Scalar_UNKNOWN
      else
        (let t = tnum_from_unsigned_range lo hi;
             straddles_sign = lo \<le> as_u64 I64_MAX \<and> hi > as_u64 I64_MAX
         in scalar_of t (if straddles_sign then (I64_MIN, I64_MAX) else (sint lo, sint hi))))"

text \<open>
  Division of bounds. A scalar that contains a value has ordered unsigned bounds, so \<open>bhi = 0\<close> implies
  \<open>blo = 0\<close>; the source would divide by zero and panic only for a scalar without values.
\<close>

definition udiv :: "scalar \<Rightarrow> scalar \<Rightarrow> scalar" where
  "udiv a b =
     (let (alo, ahi) = unsigned_bounds a;
          (blo, bhi) = unsigned_bounds b;
          hi = (if bhi = 0 then 0 else if blo = 0 then ahi else ahi div blo);
          lo = (if blo = 0 then 0 else alo div bhi)
      in from_unsigned_range lo hi)"

definition umod :: "scalar \<Rightarrow> scalar \<Rightarrow> scalar" where
  "umod a b =
     (let (_, ahi) = unsigned_bounds a;
          (blo, bhi) = unsigned_bounds b;
          hi = (if blo = 0 then ahi else min ahi (saturating_sub bhi 1))
      in from_unsigned_range 0 hi)"

text \<open>Concrete arithmetic. Rust's \<open>/\<close> and \<open>%\<close> on signed integers truncate towards zero.\<close>

definition concrete_sdiv :: "int \<Rightarrow> int \<Rightarrow> int" where
  "concrete_sdiv a b = (if b = 0 then 0 else if a = I64_MIN \<and> b = - 1 then I64_MIN else a sdiv b)"

definition concrete_smod :: "int \<Rightarrow> int \<Rightarrow> int" where
  "concrete_smod a b = (if b = 0 then a else if a = I64_MIN \<and> b = - 1 then 0 else a smod b)"

definition concrete_sdiv32 :: "int \<Rightarrow> int \<Rightarrow> int" where
  "concrete_sdiv32 a b = (if b = 0 then 0 else if a = - (2 ^ 31) \<and> b = - 1 then - (2 ^ 31) else a sdiv b)"

definition concrete_smod32 :: "int \<Rightarrow> int \<Rightarrow> int" where
  "concrete_smod32 a b = (if b = 0 then a else if a = - (2 ^ 31) \<and> b = - 1 then 0 else a smod b)"

definition concrete_udiv :: "u64 \<Rightarrow> u64 \<Rightarrow> u64" where
  "concrete_udiv a b = (if b = 0 then 0 else a div b)"

definition concrete_umod :: "u64 \<Rightarrow> u64 \<Rightarrow> u64" where
  "concrete_umod a b = (if b = 0 then a else a mod b)"

text \<open>\<open>swap_bytes\<close> of the low \<open>n\<close> bytes.\<close>

definition swap_bytes :: "nat \<Rightarrow> u64 \<Rightarrow> u64" where
  "swap_bytes n v = from_le_bytes (rev (to_le_bytes n v))"

definition concrete_bswap :: "u64 \<Rightarrow> u8 \<Rightarrow> u64" where
  "concrete_bswap v width = (if width = 16 then swap_bytes 2 v else if width = 32 then swap_bytes 4 v else swap_bytes 8 v)"

definition sdiv_scalar :: "scalar \<Rightarrow> scalar \<Rightarrow> scalar" where
  "sdiv_scalar a b =
     (case (as_const a, as_const b) of
        (Some x, Some y) \<Rightarrow> scalar_constant (concrete_sdiv x y)
      | _ \<Rightarrow> Scalar_UNKNOWN)"

definition smod_scalar :: "scalar \<Rightarrow> scalar \<Rightarrow> scalar" where
  "smod_scalar a b =
     (case (as_const a, as_const b) of
        (Some x, Some y) \<Rightarrow> scalar_constant (concrete_smod x y)
      | _ \<Rightarrow> Scalar_UNKNOWN)"

definition bswap :: "scalar \<Rightarrow> u8 \<Rightarrow> scalar" where
  "bswap a width =
     (case as_const a of
        Some v \<Rightarrow> scalar_constant (sint (concrete_bswap (as_u64 v) width))
      | None \<Rightarrow> if width = 16 then unsigned_bits 16 else if width = 32 then unsigned_bits 32 else Scalar_UNKNOWN)"

text \<open>Instruction-level transfers.\<close>

definition alu_wide :: "alu_op \<Rightarrow> scalar \<Rightarrow> scalar \<Rightarrow> scalar" where
  "alu_wide op a b =
     (case op of
        Alu_Add \<Rightarrow> scalar_add a b | Alu_Sub \<Rightarrow> scalar_sub a b | Alu_Mul \<Rightarrow> scalar_mul a b
      | Alu_Or \<Rightarrow> scalar_or a b | Alu_And \<Rightarrow> scalar_and a b | Alu_Xor \<Rightarrow> scalar_xor a b
      | Alu_Lsh \<Rightarrow> scalar_shl a b | Alu_Rsh \<Rightarrow> scalar_shr a b | Alu_Arsh \<Rightarrow> scalar_sar a b)"

definition scalar_alu :: "alu_op \<Rightarrow> bool \<Rightarrow> scalar \<Rightarrow> scalar \<Rightarrow> scalar" where
  "scalar_alu op wide s other =
     (if wide then alu_wide op s other
      else
        (let a = zext32 s; b = zext32 other; amount = scalar_and b (scalar_constant 31) in
         case op of
           Alu_Add \<Rightarrow> zext32 (scalar_add a b) | Alu_Sub \<Rightarrow> zext32 (scalar_sub a b) | Alu_Mul \<Rightarrow> zext32 (scalar_mul a b)
         | Alu_Or \<Rightarrow> scalar_or a b | Alu_And \<Rightarrow> scalar_and a b | Alu_Xor \<Rightarrow> scalar_xor a b
         | Alu_Lsh \<Rightarrow> zext32 (scalar_shl a amount) | Alu_Rsh \<Rightarrow> scalar_shr a amount
         | Alu_Arsh \<Rightarrow> zext32 (scalar_sar (sext32 s) amount)))"

definition as_u32 :: "int \<Rightarrow> int" where
  "as_u32 i = uint (word_of_int i :: u32)"

definition div_op :: "bool \<Rightarrow> bool \<Rightarrow> scalar \<Rightarrow> scalar \<Rightarrow> scalar" where
  "div_op wide sg a b =
     (if wide then if sg then sdiv_scalar a b else udiv a b
      else if sg
      then (case (as_const (sext32 a), as_const (sext32 b)) of
              (Some x, Some y) \<Rightarrow> scalar_constant (as_u32 (concrete_sdiv32 (sint (word_of_int x :: u32)) (sint (word_of_int y :: u32))))
            | _ \<Rightarrow> unsigned_bits 32)
      else zext32 (udiv (zext32 a) (zext32 b)))"

definition mod_op :: "bool \<Rightarrow> bool \<Rightarrow> scalar \<Rightarrow> scalar \<Rightarrow> scalar" where
  "mod_op wide sg a b =
     (if wide then if sg then smod_scalar a b else umod a b
      else if sg
      then (case (as_const (sext32 a), as_const (sext32 b)) of
              (Some x, Some y) \<Rightarrow> scalar_constant (as_u32 (concrete_smod32 (sint (word_of_int x :: u32)) (sint (word_of_int y :: u32))))
            | _ \<Rightarrow> unsigned_bits 32)
      else zext32 (umod (zext32 a) (zext32 b)))"

definition neg_op :: "bool \<Rightarrow> scalar \<Rightarrow> scalar" where
  "neg_op wide a = (if wide then scalar_neg a else zext32 (scalar_neg (zext32 a)))"

definition mov_op :: "bool \<Rightarrow> u8 option \<Rightarrow> scalar \<Rightarrow> scalar option" where
  "mov_op wide sign_extend a =
     (case sign_extend of
        None \<Rightarrow> Some (if wide then a else zext32 a)
      | Some bits \<Rightarrow> map_option (\<lambda>r. if wide then r else zext32 r) (scalar_sign_extend a (unat bits)))"

definition end_op :: "byte_order \<Rightarrow> u8 \<Rightarrow> scalar \<Rightarrow> scalar" where
  "end_op ord width a =
     (if ord = Little
      then if width = 16 then scalar_and (zext32 a) (scalar_constant 0xFFFF)
           else if width = 32 then zext32 a else a
      else bswap a width)"


subsection \<open>Signed and unsigned readings\<close>

lemma i64_bounds: "I64_MIN \<le> sint (v :: u64)" "sint (v :: u64) \<le> I64_MAX"
  using sint_greater_eq [of v] sint_lt [of v] by (simp_all add: I64_MIN_def I64_MAX_def)

lemma sint_as_u64: "I64_MIN \<le> a \<Longrightarrow> a \<le> I64_MAX \<Longrightarrow> sint (as_u64 a) = a"
  by (simp add: I64_MIN_def I64_MAX_def signed_of_int signed_take_bit_int_eq_self)

lemma uint_as_u64:
  assumes "I64_MIN \<le> a" "a \<le> I64_MAX"
  shows "uint (as_u64 a) = (if a < 0 then a + 2 ^ 64 else a)"
proof -
  have "sint (as_u64 a) = uint (as_u64 a) - (if bit (as_u64 a) 63 then 2 ^ 64 else 0)" by (rule sint_uint_sign)
  moreover have "bit (as_u64 a) 63 \<longleftrightarrow> a < 0" using sign_sint [of "as_u64 a"] sint_as_u64 [OF assms] by simp
  ultimately show ?thesis using sint_as_u64 [OF assms] by (simp split: if_splits)
qed

lemma as_u64_sint [simp]: "as_u64 (sint v) = v"
  by simp

lemma as_u64_mono:
  assumes "I64_MIN \<le> a" "a \<le> b" "b \<le> I64_MAX" "0 \<le> a \<or> b < 0"
  shows "as_u64 a \<le> as_u64 b"
  using assms uint_as_u64 [of a] uint_as_u64 [of b] by (auto simp: word_le_def)

lemma sint_between:
  assumes "I64_MIN \<le> a" "a \<le> sint v" "sint v \<le> b" "b \<le> I64_MAX" "0 \<le> a \<or> b < 0"
  shows "as_u64 a \<le> v" "v \<le> as_u64 b"
proof -
  have "as_u64 a \<le> as_u64 (sint v)" using assms i64_bounds [of v] by (intro as_u64_mono) auto
  moreover have "as_u64 (sint v) \<le> as_u64 b" using assms i64_bounds [of v] by (intro as_u64_mono) auto
  ultimately show "as_u64 a \<le> v" "v \<le> as_u64 b" by simp_all
qed

lemma sint_nonneg_uint: "\<not> bit (v :: u64) 63 \<Longrightarrow> sint v = uint v"
  by (simp add: sint_uint_sign)

lemma uint_small_sint: "uint (v :: u64) < 2 ^ 63 \<Longrightarrow> sint v = uint v"
  using i64_bounds [of v] by (auto simp: sint_uint_sign I64_MIN_def split: if_splits)

lemma bit63: "bit (w :: u64) 63 \<longleftrightarrow> 2 ^ 63 \<le> uint w"
  using i64_bounds [of w] by (auto simp: sint_uint_sign I64_MIN_def I64_MAX_def split: if_splits)

lemma less_SIGN: "w < SIGN \<longleftrightarrow> \<not> bit w 63"
  by (simp add: SIGN_def word_less_def bit63 not_le)

lemma sint_le_same_sign: "bit (v :: u64) 63 = bit w 63 \<Longrightarrow> v \<le> w \<longleftrightarrow> sint v \<le> sint (w :: u64)"
  by (simp add: sint_uint_sign word_le_def)

subsection \<open>Reduction\<close>

text \<open>\<open>i64\<close> bounds are an invariant of the type; \<open>tnum_ok\<close> is the documented one.\<close>

definition in_range :: "scalar \<Rightarrow> bool" where
  "in_range s \<longleftrightarrow> I64_MIN \<le> smin s \<and> smin s \<le> I64_MAX \<and> I64_MIN \<le> smax s \<and> smax s \<le> I64_MAX"

definition scalar_ok :: "scalar \<Rightarrow> bool" where
  "scalar_ok s \<longleftrightarrow> tnum_ok (stnum s) \<and> in_range s"

definition models :: "scalar \<Rightarrow> u64 \<Rightarrow> bool" where
  "models s v \<longleftrightarrow> scalar_ok s \<and> scalar_contains s v"

lemma tnum_signed_bounds_range:
  "tnum_signed_bounds t = (lo, hi) \<Longrightarrow> I64_MIN \<le> lo \<and> lo \<le> I64_MAX \<and> I64_MIN \<le> hi \<and> hi \<le> I64_MAX"
  using i64_bounds by (auto simp: tnum_signed_bounds_def Let_def)

lemma derived_tnum_sound:
  "I64_MIN \<le> lo \<Longrightarrow> lo \<le> sint v \<Longrightarrow> sint v \<le> hi \<Longrightarrow> hi \<le> I64_MAX \<Longrightarrow> tnum_contains (derived_tnum lo hi) v"
  using sint_between [of lo v hi] by (auto simp: derived_tnum_def intro: tnum_from_unsigned_range_sound)

lemma derived_tnum_ok [simp]: "tnum_ok (derived_tnum lo hi)"
  by (simp add: derived_tnum_def tnum_ok_range)

lemma normalize_round_ok:
  assumes "normalize_round s = Some s'" "in_range s"
  shows "scalar_ok s'"
  using assms tnum_signed_bounds_range [of "stnum s"]
  by (auto simp: normalize_round_def scalar_ok_def in_range_def Let_def split: if_splits prod.splits option.splits
      dest: tnum_ok_meet)

lemma normalize_round_sound:
  assumes "models s v"
  shows "\<exists>s'. normalize_round s = Some s' \<and> models s' v"
proof -
  have c: "tnum_contains (stnum s) v" "smin s \<le> sint v" "sint v \<le> smax s" and r: "in_range s"
    using assms by (auto simp: models_def scalar_contains_def scalar_ok_def)
  obtain tlo thi where b: "tnum_signed_bounds (stnum s) = (tlo, thi)" by (rule prod.exhaust)
  note B = tnum_signed_bounds_sound [OF c(1) b] tnum_signed_bounds_range [OF b]
  let ?lo = "max (smin s) tlo" and ?hi = "min (smax s) thi"
  have lh: "?lo \<le> sint v" "sint v \<le> ?hi" using c B by auto
  have "tnum_contains (derived_tnum ?lo ?hi) v" using lh B by (intro derived_tnum_sound) auto
  moreover from this c(1) obtain t where t: "tnum_meet (stnum s) (derived_tnum ?lo ?hi) = Some t"
    using tnum_meet_None by (metis option.exhaust)
  ultimately have "tnum_contains t v" using tnum_meet_Some c(1) by blast
  moreover have n: "normalize_round s = Some \<lparr>stnum = t, smin = ?lo, smax = ?hi\<rparr>"
    using b t c lh by (simp add: normalize_round_def Let_def)
  ultimately show ?thesis
    using lh normalize_round_ok [OF n r] by (simp add: models_def scalar_contains_def)
qed

lemma models_le: "models s v \<Longrightarrow> \<not> smin s > smax s"
  by (auto simp: models_def scalar_contains_def)

lemma normalize_loop_sound: "models s v \<Longrightarrow> \<exists>s'. normalize_loop n s = Some s' \<and> models s' v"
proof (induction n arbitrary: s)
  case 0
  then show ?case using models_le by auto
next
  case (Suc n)
  then obtain s' where "normalize_round s = Some s'" "models s' v" using normalize_round_sound by blast
  then show ?case using Suc.IH [of s'] models_le by auto
qed

lemma normalize_sound: "models s v \<Longrightarrow> \<exists>s'. normalize s = Some s' \<and> models s' v"
  unfolding normalize_def by (rule normalize_loop_sound)

lemma normalized_sound: "models s v \<Longrightarrow> models (normalized s) v"
  using normalize_sound [of s v] by (auto simp: normalized_def)

text \<open>Reduction loses nothing and adds nothing.\<close>

lemma normalize_round_subset:
  assumes "normalize_round s = Some s'" "tnum_ok (stnum s)" "scalar_contains s' v"
  shows "scalar_contains s v"
proof -
  obtain tlo thi where b: "tnum_signed_bounds (stnum s) = (tlo, thi)" by (rule prod.exhaust)
  then obtain t where t: "tnum_meet (stnum s) (derived_tnum (max (smin s) tlo) (min (smax s) thi)) = Some t"
    "s' = \<lparr>stnum = t, smin = max (smin s) tlo, smax = min (smax s) thi\<rparr>"
    using assms(1) by (auto simp: normalize_round_def Let_def split: if_splits option.splits)
  have "tnum_contains (stnum s) v" using tnum_meet_exact [OF assms(2) derived_tnum_ok t(1)] assms(3) t(2)
    by (simp add: scalar_contains_def)
  then show ?thesis using assms(3) t(2) by (simp add: scalar_contains_def)
qed

lemma normalize_loop_subset:
  "normalize_loop n s = Some s' \<Longrightarrow> scalar_ok s \<Longrightarrow> scalar_ok s' \<and> (scalar_contains s' v \<longrightarrow> scalar_contains s v)"
proof (induction n arbitrary: s)
  case 0
  then show ?case by (auto split: if_splits)
next
  case (Suc n)
  then obtain u where u: "normalize_round s = Some u" by (auto split: option.splits)
  then have ok: "scalar_ok u" using normalize_round_ok Suc.prems(2) by (auto simp: scalar_ok_def)
  have sub: "scalar_contains u v \<Longrightarrow> scalar_contains s v"
    using normalize_round_subset [OF u] Suc.prems(2) by (auto simp: scalar_ok_def)
  show ?case
  proof (cases "u = s")
    case True
    then show ?thesis using Suc.prems u by (auto split: if_splits)
  next
    case False
    then show ?thesis using Suc.IH [of u] Suc.prems(1) u ok sub by auto
  qed
qed

lemma normalize_exact:
  assumes "scalar_ok s"
  shows "(case normalize s of None \<Rightarrow> \<not> scalar_contains s v | Some s' \<Rightarrow> scalar_ok s' \<and> (scalar_contains s' v \<longleftrightarrow> scalar_contains s v))"
proof (cases "normalize s")
  case None
  then show ?thesis using normalize_sound [of s v] assms by (auto simp: models_def)
next
  case (Some s')
  then show ?thesis
    using normalize_sound [of s v] normalize_loop_subset [of 3 s s' v] assms by (auto simp: models_def normalize_def)
qed

lemma normalized_ok: "scalar_ok s \<Longrightarrow> scalar_ok (normalized s)"
  using normalize_exact [of s] by (auto simp: normalized_def split: option.splits)


subsection \<open>Construction\<close>

lemma in_i64_range: "I64_MIN \<le> fst (in_i64 lo hi) \<and> snd (in_i64 lo hi) \<le> I64_MAX
  \<and> fst (in_i64 lo hi) \<le> I64_MAX \<and> I64_MIN \<le> snd (in_i64 lo hi)"
  using i64_bounds by (auto simp: in_i64_def I64_MIN_def I64_MAX_def)

lemma in_i64_eq: "lo \<le> hi \<Longrightarrow> in_i64 lo hi = (if lo \<ge> I64_MIN \<and> hi \<le> I64_MAX then (lo, hi) else (I64_MIN, I64_MAX))"
  by (simp add: in_i64_def sint_as_u64)

lemma scalar_of_sound:
  assumes "tnum_ok t" "tnum_contains t v" "fst b \<le> sint v" "sint v \<le> snd b" "I64_MIN \<le> fst b" "snd b \<le> I64_MAX"
  shows "models (scalar_of t b) v"
proof -
  have "models \<lparr>stnum = t, smin = fst b, smax = snd b\<rparr> v"
    using assms i64_bounds [of v] by (auto simp: models_def scalar_ok_def in_range_def scalar_contains_def)
  then show ?thesis unfolding scalar_of_def by (rule normalized_sound)
qed

text \<open>A wrapped result lies in an interval cut to \<open>i64\<close>.\<close>

lemma in_i64_wrap:
  assumes "lo \<le> k" "k \<le> hi" "v = as_u64 k"
  shows "fst (in_i64 lo hi) \<le> sint v" "sint v \<le> snd (in_i64 lo hi)"
  using assms i64_bounds [of v] sint_as_u64 [of k] by (auto simp: in_i64_eq)

lemma models_UNKNOWN [simp]: "models Scalar_UNKNOWN v"
  using i64_bounds [of v]
  by (auto simp: models_def scalar_ok_def in_range_def scalar_contains_def Scalar_UNKNOWN_def I64_MIN_def I64_MAX_def)

lemma models_constant: "I64_MIN \<le> c \<Longrightarrow> c \<le> I64_MAX \<Longrightarrow> models (scalar_constant c) (as_u64 c)"
  by (auto simp: models_def scalar_ok_def in_range_def scalar_contains_def scalar_constant_def sint_as_u64)

lemma as_const_sound: "models s v \<Longrightarrow> as_const s = Some c \<Longrightarrow> sint v = c \<and> v = as_u64 c"
  by (auto simp: models_def scalar_contains_def as_const_def tnum_is_const_contains split: if_splits)
    (metis antisym as_u64_sint)

lemma modelsD:
  assumes "models s v"
  shows "tnum_ok (stnum s)" "tnum_contains (stnum s) v" "smin s \<le> sint v" "sint v \<le> smax s"
    "I64_MIN \<le> smin s" "smax s \<le> I64_MAX"
  using assms by (auto simp: models_def scalar_ok_def in_range_def scalar_contains_def)

lemma models_mk:
  assumes "tnum_ok t" "tnum_contains t v" "lo \<le> sint v" "sint v \<le> hi" "I64_MIN \<le> lo" "hi \<le> I64_MAX"
  shows "models (normalized \<lparr>stnum = t, smin = lo, smax = hi\<rparr>) v"
  using scalar_of_sound [of t v "(lo, hi)"] assms by (simp add: scalar_of_def)

lemma unsigned_bounds_sound:
  assumes "models s v" "unsigned_bounds s = (lo, hi)"
  shows "lo \<le> v" "v \<le> hi"
proof -
  note M = modelsD [OF assms(1)]
  obtain tlo thi where t: "tnum_unsigned_bounds (stnum s) = (tlo, thi)" by (rule prod.exhaust)
  note T = tnum_unsigned_bounds_sound [OF M(2) t]
  have i: "as_u64 (smin s) \<le> v \<and> v \<le> as_u64 (smax s)" if "\<not> (smin s < 0 \<and> smax s \<ge> 0)"
    using sint_between [of "smin s" v "smax s"] M that by auto
  have "lo = max (if smin s < 0 \<and> smax s \<ge> 0 then 0 else as_u64 (smin s)) tlo
      \<and> hi = min (if smin s < 0 \<and> smax s \<ge> 0 then - 1 else as_u64 (smax s)) thi"
    using assms(2) t by (auto simp: unsigned_bounds_def Let_def split: if_splits)
  then show "lo \<le> v" "v \<le> hi" using T i by (auto split: if_splits)
qed

subsection \<open>Arithmetic\<close>

lemma scalar_add_sound:
  assumes "models a x" "models b y"
  shows "models (scalar_add a b) (x + y)"
proof -
  note A = modelsD [OF assms(1)] and B = modelsD [OF assms(2)]
  have w: "x + y = as_u64 (sint x + sint y)" by (metis as_u64_sint of_int_add)
  show ?thesis
    unfolding scalar_add_def interval_add_def
    using A B in_i64_wrap [of "smin a + smin b" "sint x + sint y" "smax a + smax b", OF _ _ w]
      in_i64_range [of "smin a + smin b" "smax a + smax b"]
    by (intro scalar_of_sound tnum_add_sound tnum_ok_ops) auto
qed

lemma wrap_neg: "- x = as_u64 (- sint (x :: u64))"
  by simp

lemma wrap_sub: "x - y = as_u64 (sint (x :: u64) - sint (y :: u64))"
  by simp

lemma wrap_mul: "x * y = as_u64 (sint (x :: u64) * sint (y :: u64))"
  by simp

lemma scalar_neg_sound:
  assumes "models a x"
  shows "models (scalar_neg a) (- x)"
proof -
  note A = modelsD [OF assms]
  have "tnum_contains (tnum_sub Tnum_ZERO (stnum a)) (- x)"
    using tnum_sub_sound [of Tnum_ZERO 0 "stnum a" x] A by simp
  then show ?thesis
    unfolding scalar_neg_def interval_neg_def
    using A in_i64_wrap [of "- smax a" "- sint x" "- smin a", OF _ _ wrap_neg] in_i64_range [of "- smax a" "- smin a"]
    by (intro scalar_of_sound tnum_ok_ops) auto
qed

text \<open>Cutting the negated interval first gives the difference's interval, or all of \<open>i64\<close>.\<close>

lemma interval_sub:
  assumes "I64_MIN \<le> alo" "alo \<le> ahi" "ahi \<le> I64_MAX" "I64_MIN \<le> blo" "blo \<le> bhi" "bhi \<le> I64_MAX"
  defines "n \<equiv> interval_neg blo bhi"
  shows "interval_add alo ahi (fst n) (snd n) = in_i64 (alo - bhi) (ahi - blo)
    \<or> interval_add alo ahi (fst n) (snd n) = (I64_MIN, I64_MAX)"
  using assms by (auto simp: n_def interval_neg_def interval_add_def in_i64_eq I64_MIN_def I64_MAX_def)

lemma scalar_sub_sound:
  assumes "models a x" "models b y"
  shows "models (scalar_sub a b) (x - y)"
proof -
  note A = modelsD [OF assms(1)] and B = modelsD [OF assms(2)]
  let ?n = "interval_neg (smin b) (smax b)"
  let ?r = "interval_add (smin a) (smax a) (fst ?n) (snd ?n)"
  have r: "?r = in_i64 (smin a - smax b) (smax a - smin b) \<or> ?r = (I64_MIN, I64_MAX)"
    using A B by (intro interval_sub) auto
  have "fst ?r \<le> sint (x - y) \<and> sint (x - y) \<le> snd ?r \<and> I64_MIN \<le> fst ?r \<and> snd ?r \<le> I64_MAX"
    using r A B i64_bounds [of "x - y"] in_i64_range [of "smin a - smax b" "smax a - smin b"]
      in_i64_wrap [of "smin a - smax b" "sint x - sint y" "smax a - smin b", OF _ _ wrap_sub]
    by auto
  then show ?thesis
    unfolding scalar_sub_def case_prod_beta Let_def using A B
    by (intro scalar_of_sound tnum_sub_sound tnum_ok_ops) auto
qed

lemma mul_between:
  fixes c :: int
  assumes "l \<le> y" "y \<le> h"
  shows "min (c * l) (c * h) \<le> c * y" "c * y \<le> max (c * l) (c * h)"
  using assms mult_left_mono [of l y c] mult_left_mono [of y h c] mult_left_mono_neg [of l y c] mult_left_mono_neg [of y h c]
  by (cases "0 \<le> c"; auto simp: min_le_iff_disj le_max_iff_disj)+

lemma mul_corners:
  fixes x y :: int
  assumes "alo \<le> x" "x \<le> ahi" "blo \<le> y" "y \<le> bhi"
  defines "C \<equiv> {alo * blo, alo * bhi, ahi * blo, ahi * bhi}"
  shows "Min C \<le> x * y" "x * y \<le> Max C"
proof -
  note 1 = mul_between [OF assms(3,4), of alo] mul_between [OF assms(3,4), of ahi]
  have "min (alo * y) (ahi * y) \<le> x * y" "x * y \<le> max (alo * y) (ahi * y)"
    using mul_between [OF assms(1,2), of y] by (simp_all add: mult.commute)
  with 1 show "Min C \<le> x * y" "x * y \<le> Max C"
    unfolding C_def by (auto simp: min_le_iff_disj le_max_iff_disj)
qed

lemma interval_mul_eq:
  "interval_mul alo ahi blo bhi =
     in_i64 (Min {alo * blo, alo * bhi, ahi * blo, ahi * bhi}) (Max {alo * blo, alo * bhi, ahi * blo, ahi * bhi})"
  by (simp add: interval_mul_def ac_simps)

lemma scalar_mul_sound:
  assumes "models a x" "models b y"
  shows "models (scalar_mul a b) (x * y)"
proof -
  note A = modelsD [OF assms(1)] and B = modelsD [OF assms(2)]
  let ?C = "{smin a * smin b, smin a * smax b, smax a * smin b, smax a * smax b}"
  note M = mul_corners [OF A(3,4) B(3,4)]
  show ?thesis
    unfolding scalar_mul_def interval_mul_eq
    using A B in_i64_wrap [OF M wrap_mul] in_i64_range [of "Min ?C" "Max ?C"]
    by (intro scalar_of_sound tnum_mul_sound tnum_ok_ops) blast+
qed

lemma scalar_bitwise_sound:
  assumes "models a x" "models b y"
  shows "models (scalar_and a b) (x AND y)" "models (scalar_or a b) (x OR y)" "models (scalar_xor a b) (x XOR y)"
  unfolding scalar_and_def scalar_or_def scalar_xor_def
  using modelsD [OF assms(1)] modelsD [OF assms(2)] i64_bounds
  by (auto intro!: scalar_of_sound tnum_ok_ops tnum_and_sound tnum_or_sound tnum_xor_sound)

end
