(* ===== verification/Bpf_Interp.thy ===== *)
theory Bpf_Interp
  imports Bpf_Scalar
begin

text \<open>
  The reference interpreter the BPF verifier is tested against, \<open>bpf/verifier/src/interp.rs\<close>: the concrete
  arithmetic of every instruction, a machine of eleven registers, a stack with a shadow of the bytes a store has
  written, a read-only context, and the fuelled loop \<open>run\<close>. \<open>run\<close> changes the machine in place, so the model
  returns the machine beside the result. Indexing a register or a stack byte out of range panics in the
  source; \<open>machine_ok\<close> and the decoder's register check exclude it.

  Shown: the machine's shape is invariant; a store is read back by a load of the same place and leaves
  every other byte and the context alone; loads never see a byte that no store wrote; \<open>run\<close> is total, and more fuel
  never changes an outcome other than \<open>OutOfFuel\<close>.
\<close>

subsection \<open>Instruction semantics\<close>

definition sext :: "u64 \<Rightarrow> nat \<Rightarrow> u64" where
  "sext v bits = (if bits \<ge> 64 then v else signed_drop_bit (64 - bits) (push_bit (64 - bits) v))"

fun alu64 :: "alu_op \<Rightarrow> u64 \<Rightarrow> u64 \<Rightarrow> u64" where
  "alu64 Alu_Add dst src = dst + src"
| "alu64 Alu_Sub dst src = dst - src"
| "alu64 Alu_Mul dst src = dst * src"
| "alu64 Alu_Or dst src = dst OR src"
| "alu64 Alu_And dst src = dst AND src"
| "alu64 Alu_Xor dst src = dst XOR src"
| "alu64 Alu_Lsh dst src = push_bit (unat (src AND 63)) dst"
| "alu64 Alu_Rsh dst src = drop_bit (unat (src AND 63)) dst"
| "alu64 Alu_Arsh dst src = signed_drop_bit (unat (src AND 63)) dst"

fun alu32 :: "alu_op \<Rightarrow> u32 \<Rightarrow> u32 \<Rightarrow> u32" where
  "alu32 Alu_Add a b = a + b"
| "alu32 Alu_Sub a b = a - b"
| "alu32 Alu_Mul a b = a * b"
| "alu32 Alu_Or a b = a OR b"
| "alu32 Alu_And a b = a AND b"
| "alu32 Alu_Xor a b = a XOR b"
| "alu32 Alu_Lsh a b = push_bit (unat (b AND 31)) a"
| "alu32 Alu_Rsh a b = drop_bit (unat (b AND 31)) a"
| "alu32 Alu_Arsh a b = signed_drop_bit (unat (b AND 31)) a"

definition alu :: "alu_op \<Rightarrow> bool \<Rightarrow> u64 \<Rightarrow> u64 \<Rightarrow> u64" where
  "alu op wide dst src = (if wide then alu64 op dst src else ucast (alu32 op (ucast dst) (ucast src)))"

abbreviation low32 :: "u64 \<Rightarrow> u64" where "low32 v \<equiv> ucast (ucast v :: u32)"
abbreviation as_i32 :: "u64 \<Rightarrow> int" where "as_i32 v \<equiv> sint (ucast v :: u32)"

definition div_insn :: "bool \<Rightarrow> bool \<Rightarrow> u64 \<Rightarrow> u64 \<Rightarrow> u64" where
  "div_insn wide sg dst src =
     (if wide then if sg then as_u64 (concrete_sdiv (sint dst) (sint src)) else concrete_udiv dst src
      else if sg then ucast (word_of_int (concrete_sdiv32 (as_i32 dst) (as_i32 src)) :: u32)
      else low32 (concrete_udiv (low32 dst) (low32 src)))"

definition rem_insn :: "bool \<Rightarrow> bool \<Rightarrow> u64 \<Rightarrow> u64 \<Rightarrow> u64" where
  "rem_insn wide sg dst src =
     (if wide then if sg then as_u64 (concrete_smod (sint dst) (sint src)) else concrete_umod dst src
      else if sg then ucast (word_of_int (concrete_smod32 (as_i32 dst) (as_i32 src)) :: u32)
      else low32 (concrete_umod (low32 dst) (low32 src)))"

definition end_insn :: "byte_order \<Rightarrow> u8 \<Rightarrow> u64 \<Rightarrow> u64" where
  "end_insn ord width dst =
     (let truncated = (if width = 16 then ucast (ucast dst :: u16) else if width = 32 then low32 dst else dst)
      in case ord of Little \<Rightarrow> truncated | Big \<Rightarrow> concrete_bswap dst width | Swap \<Rightarrow> concrete_bswap dst width)"

text \<open>The comparison table is the same at both widths, on the operands truncated to the width.\<close>

fun cond_at :: "cond_op \<Rightarrow> 'a::len word \<Rightarrow> 'a word \<Rightarrow> bool" where
  "cond_at Cond_Eq a b = (a = b)"
| "cond_at Cond_Ne a b = (a \<noteq> b)"
| "cond_at Cond_Gt a b = (a > b)"
| "cond_at Cond_Ge a b = (a \<ge> b)"
| "cond_at Cond_Lt a b = (a < b)"
| "cond_at Cond_Le a b = (a \<le> b)"
| "cond_at Cond_Sgt a b = (sint a > sint b)"
| "cond_at Cond_Sge a b = (sint a \<ge> sint b)"
| "cond_at Cond_Slt a b = (sint a < sint b)"
| "cond_at Cond_Sle a b = (sint a \<le> sint b)"
| "cond_at Cond_Set a b = (a AND b \<noteq> 0)"

definition cond :: "cond_op \<Rightarrow> bool \<Rightarrow> u64 \<Rightarrow> u64 \<Rightarrow> bool" where
  "cond op wide a b = (if wide then cond_at op a b else cond_at op (ucast a :: u32) (ucast b))"

subsection \<open>The machine\<close>

definition STACK_BYTES :: nat where "STACK_BYTES = 16 * 1024"
definition CTX_BASE :: u64 where "CTX_BASE = push_bit 32 1"

datatype trap = BadAccess | UninitRead | BadPc | Unsupported | OutOfFuel

record machine =
  mregs :: "u64 list"
  mstack :: "u8 list"
  mctx :: "u8 list"
  mdefined :: "bool list"
  mfuel :: u64

definition machine_new :: machine where
  "machine_new = \<lparr>mregs = (replicate 11 0)[10 := of_nat STACK_BYTES], mstack = replicate STACK_BYTES 0, mctx = [],
     mdefined = replicate STACK_BYTES False, mfuel = push_bit 20 1\<rparr>"

definition with_ctx :: "u64 list \<Rightarrow> machine" where
  "with_ctx words = machine_new\<lparr>mctx := concat (map (to_le_bytes 8) words), mregs := (mregs machine_new)[1 := CTX_BASE]\<rparr>"

text \<open>A range \<open>i..i + n\<close> of a slice, and \<open>copy_from_slice\<close> or \<open>fill\<close> into it.\<close>

definition range_get :: "nat \<Rightarrow> nat \<Rightarrow> 'a list \<Rightarrow> 'a list" where
  "range_get i n xs = take n (drop i xs)"

definition range_put :: "nat \<Rightarrow> 'a list \<Rightarrow> 'a list \<Rightarrow> 'a list" where
  "range_put i bs xs = take i xs @ bs @ drop (i + length bs) xs"

text \<open>An eight-byte buffer that starts as zeros.\<close>

definition u64_of_bytes :: "u8 list \<Rightarrow> u64" where
  "u64_of_bytes bs = from_le_bytes (bs @ replicate (8 - length bs) 0)"

definition ctx_load :: "machine \<Rightarrow> u64 \<Rightarrow> size \<Rightarrow> (u64, trap) result option" where
  "ctx_load m addr sz =
     (if addr < CTX_BASE then None
      else
        (let off = unat (addr - CTX_BASE); n = size_bytes sz in
         if off + n < 2 ^ 64 \<and> off + n \<le> length (mctx m)
         then Some (Ok (u64_of_bytes (range_get off n (mctx m))))
         else Some (Err BadAccess)))"

definition stack_slot :: "u64 \<Rightarrow> size \<Rightarrow> (nat, trap) result" where
  "stack_slot addr sz =
     (let base = sint addr - int STACK_BYTES;
          idx = int STACK_BYTES + base
      in if idx < 0 \<or> nat idx + size_bytes sz > STACK_BYTES then Err BadAccess else Ok (nat idx))"

definition load :: "machine \<Rightarrow> u64 \<Rightarrow> size \<Rightarrow> (u64, trap) result" where
  "load m addr sz =
     (case ctx_load m addr sz of
        Some v \<Rightarrow> v
      | None \<Rightarrow>
          bind_result (stack_slot addr sz) (\<lambda>i.
            let n = size_bytes sz in
            if \<not> list_all (\<lambda>d. d) (range_get i n (mdefined m)) then Err UninitRead
            else Ok (u64_of_bytes (range_get i n (mstack m)))))"

definition store :: "machine \<Rightarrow> u64 \<Rightarrow> size \<Rightarrow> u64 \<Rightarrow> (machine, trap) result" where
  "store m addr sz v =
     (if addr \<ge> CTX_BASE then Err BadAccess
      else
        bind_result (stack_slot addr sz) (\<lambda>i.
          let n = size_bytes sz in
          Ok (m\<lparr>mstack := range_put i (take n (to_le_bytes 8 v)) (mstack m),
                 mdefined := range_put i (replicate n True) (mdefined m)\<rparr>)))"

definition get_reg :: "machine \<Rightarrow> reg \<Rightarrow> u64" where
  "get_reg m r = mregs m ! reg_usize r"

definition set_reg :: "machine \<Rightarrow> reg \<Rightarrow> u64 \<Rightarrow> machine" where
  "set_reg m r v = m\<lparr>mregs := (mregs m)[reg_usize r := v]\<rparr>"

text \<open>The closure \<open>val\<close> of the loop.\<close>

fun val :: "machine \<Rightarrow> source \<Rightarrow> bool \<Rightarrow> u64" where
  "val m (SrcReg r) wide = get_reg m r"
| "val m (Imm i) wide = (if wide then scast i else ucast i)"

text \<open>\<open>(next as i64 + off) as usize\<close>: a negative target is a huge index.\<close>

definition jump_target :: "nat \<Rightarrow> int \<Rightarrow> nat" where
  "jump_target nxt o' = unat (word_of_int (int nxt + o') :: u64)"

datatype outcome = Continue nat | Return "(u64, trap) result"

definition mov_value :: "bool \<Rightarrow> u8 option \<Rightarrow> u64 \<Rightarrow> u64" where
  "mov_value wide sign_extend s =
     (case sign_extend of
        Some bits \<Rightarrow> if wide then sext s (unat bits) else low32 (sext s (unat bits))
      | None \<Rightarrow> if wide then s else low32 s)"

definition neg_value :: "bool \<Rightarrow> u64 \<Rightarrow> u64" where
  "neg_value wide d = (if wide then - d else ucast (- (ucast d :: u32)))"

fun exec :: "decoded \<Rightarrow> nat \<Rightarrow> machine \<Rightarrow> machine \<times> outcome" where
  "exec (Alu wide op dst src) nxt m =
     (set_reg m dst (alu op wide (get_reg m dst) (val m src wide)), Continue nxt)"
| "exec (Neg wide dst) nxt m = (set_reg m dst (neg_value wide (get_reg m dst)), Continue nxt)"
| "exec (Mov wide dst src sx) nxt m = (set_reg m dst (mov_value wide sx (val m src wide)), Continue nxt)"
| "exec (Div wide sg dst src) nxt m =
     (set_reg m dst (div_insn wide sg (get_reg m dst) (val m src wide)), Continue nxt)"
| "exec (Mod wide sg dst src) nxt m =
     (set_reg m dst (rem_insn wide sg (get_reg m dst) (val m src wide)), Continue nxt)"
| "exec (End dst ord width) nxt m = (set_reg m dst (end_insn ord width (get_reg m dst)), Continue nxt)"
| "exec (Load sz sx dst src o') nxt m =
     (case load m (get_reg m src + scast o') sz of
        Err t \<Rightarrow> (m, Return (Err t))
      | Ok v \<Rightarrow> (set_reg m dst (if sx then sext v (size_bits sz) else v), Continue nxt))"
| "exec (Store sz dst o' src) nxt m =
     (case store m (get_reg m dst + scast o') sz (val m src True) of
        Err t \<Rightarrow> (m, Return (Err t))
      | Ok m' \<Rightarrow> (m', Continue nxt))"
| "exec (LoadImm64 dst (Value v)) nxt m = (set_reg m dst v, Continue nxt)"
| "exec (Jump o') nxt m = (m, Continue (jump_target nxt (sint o')))"
| "exec (JumpCond wide c dst src o') nxt m =
     (m, Continue (if cond c wide (get_reg m dst) (val m src wide) then jump_target nxt (sint o') else nxt))"
| "exec Exit nxt m = (m, Return (Ok (get_reg m (Reg 0))))"
| "exec _ nxt m = (m, Return (Err Unsupported))"

text \<open>One turn of the loop after the fuel check, then the loop.\<close>

definition step :: "insn list \<Rightarrow> nat \<Rightarrow> machine \<Rightarrow> machine \<times> outcome" where
  "step prog pc m =
     (if pc \<ge> length prog then (m, Return (Err BadPc))
      else (case decode prog pc of
              Some (Ok (op, width)) \<Rightarrow> exec op (pc + width) m
            | _ \<Rightarrow> (m, Return (Err Unsupported))))"

lemma exec_fuel: "mfuel (fst (exec d nxt m)) = mfuel m"
  by (cases "(d, nxt, m)" rule: exec.cases)
    (auto simp: set_reg_def store_def Let_def split: sum.splits if_splits elim!: bind_result.elims)

lemma step_fuel: "mfuel (fst (step prog pc m)) = mfuel m"
  by (auto simp: step_def exec_fuel split: option.splits sum.splits)

lemma step_burns: "(m', y) = step prog pc (m\<lparr>mfuel := f\<rparr>) \<Longrightarrow> mfuel m' = f"
  using step_fuel [of prog pc "m\<lparr>mfuel := f\<rparr>"] by (metis fst_conv machine.select_convs(5) machine.surjective machine.update_convs(5))

function run_from :: "insn list \<Rightarrow> nat \<Rightarrow> machine \<Rightarrow> machine \<times> (u64, trap) result" where
  "run_from prog pc m =
     (if mfuel m = 0 then (m, Err OutOfFuel)
      else (case step prog pc (m\<lparr>mfuel := mfuel m - 1\<rparr>) of
              (m', Continue pc') \<Rightarrow> run_from prog pc' m'
            | (m', Return r) \<Rightarrow> (m', r)))"
  by pat_completeness auto
termination
  by (relation "measure (\<lambda>(prog, pc, m). unat (mfuel m))") (auto dest!: step_burns simp: unat_minus_one unat_gt_0)

definition run :: "insn list \<Rightarrow> machine \<Rightarrow> machine \<times> (u64, trap) result" where
  "run prog m = run_from prog 0 m"

subsection \<open>Little-endian bytes\<close>

lemma bit_from_le_bytes:
  "bit (from_le_bytes bs :: u64) i \<longleftrightarrow> i < 64 \<and> i div 8 < length bs \<and> bit (bs ! (i div 8)) (i mod 8)"
proof (induction bs arbitrary: i)
  case (Cons b bs)
  show ?case
  proof (cases "i < 8")
    case True
    then show ?thesis by (simp add: bit_or_iff bit_push_bit_iff bit_ucast_iff)
  next
    case False
    then obtain k where k: "i = 8 + k" by (metis le_Suc_ex not_less)
    then have "i div 8 = Suc (k div 8)" "i mod 8 = k mod 8" by simp_all
    moreover have "\<not> bit b i" using False bit_imp_le_length [of b i] by auto
    ultimately show ?thesis using Cons.IH [of k] k by (auto simp: bit_or_iff bit_push_bit_iff bit_ucast_iff)
  qed
qed simp

lemma length_to_le_bytes [simp]: "length (to_le_bytes n w) = n"
  by (simp add: to_le_bytes_def)

lemma nth_to_le_bytes: "i < n \<Longrightarrow> to_le_bytes n w ! i = ucast (drop_bit (8 * i) w)"
  by (simp add: to_le_bytes_def)

lemma bit_ucast8: "bit (ucast (w :: u64) :: u8) j \<longleftrightarrow> j < 8 \<and> bit w j"
  by (auto simp: bit_ucast_iff dest: bit_imp_le_length)

lemma u64_of_bytes_take:
  assumes "n \<le> 8"
  shows "u64_of_bytes (take n (to_le_bytes 8 v)) = take_bit (8 * n) (v :: u64)"
proof (rule bit_word_eqI)
  fix i assume "i < LENGTH(64)"
  then have i: "i < 64" by simp
  have b: "bit (to_le_bytes 8 v ! (i div 8)) (i mod 8) \<longleftrightarrow> bit v i"
    using i by (simp add: nth_to_le_bytes bit_ucast8 bit_drop_bit_eq)
  have "i div 8 < n \<longleftrightarrow> i < 8 * n" by (simp add: div_less_iff_less_mult mult.commute)
  then show "bit (u64_of_bytes (take n (to_le_bytes 8 v))) i = bit (take_bit (8 * n) v) i"
    using i b assms
    by (auto simp: u64_of_bytes_def bit_from_le_bytes bit_take_bit_iff nth_append not_less)
qed

subsection \<open>Slices\<close>

lemma length_range_put [simp]: "i + length bs \<le> length xs \<Longrightarrow> length (range_put i bs xs) = length xs"
  by (simp add: range_put_def)

lemma range_get_put_same: "i + length bs \<le> length xs \<Longrightarrow> range_get i (length bs) (range_put i bs xs) = bs"
  by (simp add: range_get_def range_put_def)

lemma nth_range_put:
  "i + length bs \<le> length xs \<Longrightarrow> j < length xs \<Longrightarrow> range_put i bs xs ! j = (if i \<le> j \<and> j < i + length bs then bs ! (j - i) else xs ! j)"
  by (auto simp: range_put_def nth_append min_def)

lemma range_get_put_disjoint:
  assumes "i + length bs \<le> length xs" "k + n \<le> length xs" "k + n \<le> i \<or> i + length bs \<le> k"
  shows "range_get k n (range_put i bs xs) = range_get k n xs"
proof (rule nth_equalityI)
  fix j assume "j < length (range_get k n (range_put i bs xs))"
  then have "j < n" "k + j < length xs" using assms(1,2) by (simp_all add: range_get_def)
  then show "range_get k n (range_put i bs xs) ! j = range_get k n xs ! j"
    using assms by (auto simp: range_get_def nth_range_put)
qed (use assms(1) in \<open>simp add: range_get_def\<close>)

subsection \<open>Memory\<close>

definition machine_ok :: "machine \<Rightarrow> bool" where
  "machine_ok m \<longleftrightarrow> length (mregs m) = 11 \<and> length (mstack m) = STACK_BYTES \<and> length (mdefined m) = STACK_BYTES"

lemma size_bytes_le [simp]: "size_bytes sz \<le> 8"
  by (cases sz) simp_all

lemma slot_Ok: "stack_slot addr sz = Ok i \<longleftrightarrow> 0 \<le> sint addr \<and> i = nat (sint addr) \<and> i + size_bytes sz \<le> STACK_BYTES"
  by (auto simp: stack_slot_def Let_def)

lemma slot_Err: "stack_slot addr sz = Err t \<Longrightarrow> t = BadAccess"
  by (auto simp: stack_slot_def Let_def split: if_splits)

lemma store_Ok:
  assumes "store m addr sz v = Ok m'"
  obtains i where "addr < CTX_BASE" "stack_slot addr sz = Ok i"
    "m' = m\<lparr>mstack := range_put i (take (size_bytes sz) (to_le_bytes 8 v)) (mstack m),
       mdefined := range_put i (replicate (size_bytes sz) True) (mdefined m)\<rparr>"
  using assms by (cases "stack_slot addr sz") (auto simp: store_def Let_def split: if_splits)

lemma store_ok: "machine_ok m \<Longrightarrow> store m addr sz v = Ok m' \<Longrightarrow> machine_ok m' \<and> mctx m' = mctx m \<and> mregs m' = mregs m"
  by (erule store_Ok) (auto simp: machine_ok_def slot_Ok)

lemma load_stack:
  "addr < CTX_BASE \<Longrightarrow> stack_slot addr sz = Ok i \<Longrightarrow> load m addr sz =
     (if list_all (\<lambda>d. d) (range_get i (size_bytes sz) (mdefined m)) then Ok (u64_of_bytes (range_get i (size_bytes sz) (mstack m)))
      else Err UninitRead)"
  by (simp add: load_def ctx_load_def Let_def)

lemma load_store_same:
  assumes "machine_ok m" "store m addr sz v = Ok m'"
  shows "load m' addr sz = Ok (take_bit (8 * size_bytes sz) v)"
  using assms(2)
proof (rule store_Ok)
  fix i
  assume "addr < CTX_BASE" and i: "stack_slot addr sz = Ok i"
    and m': "m' = m\<lparr>mstack := range_put i (take (size_bytes sz) (to_le_bytes 8 v)) (mstack m),
       mdefined := range_put i (replicate (size_bytes sz) True) (mdefined m)\<rparr>"
  have "range_get i (size_bytes sz) (mstack m') = take (size_bytes sz) (to_le_bytes 8 v)"
    using range_get_put_same [of i "take (size_bytes sz) (to_le_bytes 8 v)" "mstack m"] i assms(1)
    by (simp add: m' slot_Ok machine_ok_def)
  moreover have "range_get i (size_bytes sz) (mdefined m') = replicate (size_bytes sz) True"
    using range_get_put_same [of i "replicate (size_bytes sz) True" "mdefined m"] i assms(1)
    by (simp add: m' slot_Ok machine_ok_def)
  ultimately show ?thesis
    using load_stack [OF \<open>addr < CTX_BASE\<close> i, of m'] by (simp add: u64_of_bytes_take list_all_iff)
qed

lemma load_store_disjoint:
  assumes "machine_ok m" "store m addr sz v = Ok m'"
    and "nat (sint b) + size_bytes s \<le> nat (sint addr) \<or> nat (sint addr) + size_bytes sz \<le> nat (sint b) \<or> CTX_BASE \<le> b"
  shows "load m' b s = load m b s"
  using assms(2)
proof (rule store_Ok)
  fix i
  assume "addr < CTX_BASE" and i: "stack_slot addr sz = Ok i"
    and m': "m' = m\<lparr>mstack := range_put i (take (size_bytes sz) (to_le_bytes 8 v)) (mstack m),
       mdefined := range_put i (replicate (size_bytes sz) True) (mdefined m)\<rparr>"
  show ?thesis
  proof (cases "b < CTX_BASE")
    case False
    then show ?thesis by (simp add: load_def ctx_load_def Let_def m')
  next
    case True
    show ?thesis
    proof (cases "stack_slot b s")
      case (Inl t)
      then show ?thesis using True by (simp add: load_def ctx_load_def)
    next
      case (Inr k)
      then have "range_get k (size_bytes s) (mstack m') = range_get k (size_bytes s) (mstack m)"
        "range_get k (size_bytes s) (mdefined m') = range_get k (size_bytes s) (mdefined m)"
        using range_get_put_disjoint [of i "take (size_bytes sz) (to_le_bytes 8 v)" "mstack m" k "size_bytes s"]
          range_get_put_disjoint [of i "replicate (size_bytes sz) True" "mdefined m" k "size_bytes s"] i assms(1,3) True
        by (auto simp: m' slot_Ok machine_ok_def)
      then show ?thesis using load_stack [OF True Inr] by simp
    qed
  qed
qed

subsection \<open>Running\<close>

lemma set_reg_ok [simp]: "machine_ok (set_reg m r v) = machine_ok m" "mctx (set_reg m r v) = mctx m"
  by (simp_all add: machine_ok_def set_reg_def)

lemma exec_ok:
  assumes "machine_ok m"
  shows "machine_ok (fst (exec d nxt m)) \<and> mctx (fst (exec d nxt m)) = mctx m"
  using assms
  by (cases "(d, nxt, m)" rule: exec.cases) (auto split: sum.splits dest: store_ok)

lemma step_ok: "machine_ok m \<Longrightarrow> machine_ok (fst (step prog pc m)) \<and> mctx (fst (step prog pc m)) = mctx m"
  using exec_ok by (auto simp: step_def split: option.splits sum.splits)

lemma machine_ok_fuel [simp]: "machine_ok (m\<lparr>mfuel := f\<rparr>) = machine_ok m"
  by (simp add: machine_ok_def)

declare run_from.simps [simp del]

lemma run_from_ok: "machine_ok m \<Longrightarrow> machine_ok (fst (run_from prog pc m)) \<and> mctx (fst (run_from prog pc m)) = mctx m"
proof (induction prog pc m rule: run_from.induct)
  case (1 prog pc m)
  let ?m = "m\<lparr>mfuel := mfuel m - 1\<rparr>"
  have s: "machine_ok (fst (step prog pc ?m))" "mctx (fst (step prog pc ?m)) = mctx m"
    using step_ok [of ?m prog pc] "1.prems" by simp_all
  show ?case
    using 1 s by (subst (1 2) run_from.simps) (auto split: prod.split outcome.split)
qed

lemma get_reg_fuel [simp]: "get_reg (m\<lparr>mfuel := f\<rparr>) r = get_reg m r"
  by (simp add: get_reg_def)

lemma val_fuel [simp]: "val (m\<lparr>mfuel := f\<rparr>) s w = val m s w"
  by (cases s) simp_all

lemma load_fuel [simp]: "load (m\<lparr>mfuel := f\<rparr>) a sz = load m a sz"
  by (cases "stack_slot a sz") (simp_all add: load_def ctx_load_def Let_def)

lemma set_reg_fuel [simp]: "set_reg (m\<lparr>mfuel := f\<rparr>) r v = (set_reg m r v)\<lparr>mfuel := f\<rparr>"
  by (simp add: set_reg_def)

lemma store_fuel [simp]: "store (m\<lparr>mfuel := f\<rparr>) a sz v = map_sum id (mfuel_update (\<lambda>_. f)) (store m a sz v)"
  by (cases "stack_slot a sz") (simp_all add: store_def Let_def)

lemma exec_at_fuel: "exec d nxt (m\<lparr>mfuel := f\<rparr>) = map_prod (mfuel_update (\<lambda>_. f)) id (exec d nxt m)"
  by (cases "(d, nxt, m)" rule: exec.cases) (auto split: sum.split)

lemma step_at_fuel: "step prog pc (m\<lparr>mfuel := f\<rparr>) = map_prod (mfuel_update (\<lambda>_. f)) id (step prog pc m)"
  by (auto simp: step_def exec_at_fuel split: option.split sum.split)

lemma run_from_fuel:
  assumes "run_from prog pc m = (m', r)" "r \<noteq> Err OutOfFuel" "mfuel m \<le> g"
  shows "run_from prog pc (m\<lparr>mfuel := g\<rparr>) = (m'\<lparr>mfuel := g - (mfuel m - mfuel m')\<rparr>, r) \<and> mfuel m' < mfuel m"
  using assms
proof (induction prog pc m arbitrary: g rule: run_from.induct)
  case (1 prog pc m)
  let ?m = "m\<lparr>mfuel := mfuel m - 1\<rparr>"
  have nz: "mfuel m \<noteq> 0" "g \<noteq> 0" using "1.prems" by (auto simp: run_from.simps)
  have dec: "mfuel m - 1 < mfuel m" "mfuel m - 1 \<le> g - 1"
    using nz "1.prems"(3) by (simp_all add: word_less_nat_alt word_le_nat_alt unat_minus_one unat_gt_0 diff_le_mono)
  obtain m1 y where s: "step prog pc ?m = (m1, y)" by (rule prod.exhaust)
  have f: "mfuel m1 = mfuel m - 1" using step_burns s by metis
  have g: "step prog pc (m\<lparr>mfuel := g\<rparr>\<lparr>mfuel := g - 1\<rparr>) = (m1\<lparr>mfuel := g - 1\<rparr>, y)"
    using step_at_fuel [of prog pc "g - 1" ?m] s by simp
  show ?case
  proof (cases y)
    case (Continue pc')
    have run: "run_from prog pc m = run_from prog pc' m1" using nz s Continue by (simp add: run_from.simps [of prog pc m])
    have "run_from prog pc' (m1\<lparr>mfuel := g - 1\<rparr>) = (m'\<lparr>mfuel := (g - 1) - (mfuel m1 - mfuel m')\<rparr>, r) \<and> mfuel m' < mfuel m1"
      using "1.prems" dec run f by (intro "1.IH" [OF nz(1) s [symmetric] Continue]) simp_all
    moreover have "run_from prog pc (m\<lparr>mfuel := g\<rparr>) = run_from prog pc' (m1\<lparr>mfuel := g - 1\<rparr>)"
      using nz g Continue by (simp add: run_from.simps [of prog pc "m\<lparr>mfuel := g\<rparr>"])
    ultimately show ?thesis using f dec(1) by (auto simp: algebra_simps)
  next
    case (Return r')
    then have "m1 = m'" "r' = r" using "1.prems"(1) nz s by (auto simp: run_from.simps [of prog pc m])
    moreover have "run_from prog pc (m\<lparr>mfuel := g\<rparr>) = (m1\<lparr>mfuel := g - 1\<rparr>, r')"
      using nz g Return by (simp add: run_from.simps [of prog pc "m\<lparr>mfuel := g\<rparr>"])
    ultimately show ?thesis using f dec(1) by simp
  qed
qed

subsection \<open>Properties\<close>

text \<open>
  Stack memory of the reference machine is a memory. A store that succeeds is read back by the next load of the same
  place and width, truncated to the width; a load of bytes the store did not touch, or of the context, is unchanged; and a
  load from the stack succeeds only where every byte it reads has been stored before.
\<close>

theorem stack_round_trip:
  assumes "machine_ok m" "store m addr sz v = Ok m'"
  shows "load m' addr sz = Ok (take_bit (8 * size_bytes sz) v)
    \<and> (nat (sint b) + size_bytes s \<le> nat (sint addr) \<or> nat (sint addr) + size_bytes sz \<le> nat (sint b) \<or> CTX_BASE \<le> b
         \<longrightarrow> load m' b s = load m b s)
    \<and> (b < CTX_BASE \<and> load m b s = Ok w \<longrightarrow> (\<forall>i < size_bytes s. mdefined m ! (nat (sint b) + i)))"
proof (intro conjI impI allI)
  show "load m' addr sz = Ok (take_bit (8 * size_bytes sz) v)" by (rule load_store_same [OF assms])
next
  assume "nat (sint b) + size_bytes s \<le> nat (sint addr) \<or> nat (sint addr) + size_bytes sz \<le> nat (sint b) \<or> CTX_BASE \<le> b"
  then show "load m' b s = load m b s" by (rule load_store_disjoint [OF assms])
next
  fix i assume l: "b < CTX_BASE \<and> load m b s = Ok w" and i: "i < size_bytes s"
  then obtain k where k: "stack_slot b s = Ok k" by (cases "stack_slot b s") (auto simp: load_def ctx_load_def)
  then have "list_all (\<lambda>d. d) (range_get k (size_bytes s) (mdefined m))"
    using l load_stack [of b s k m] by (auto split: if_splits)
  then show "mdefined m ! (nat (sint b) + i)"
    using k i assms(1) by (auto simp: list_all_length range_get_def slot_Ok machine_ok_def)
qed

theorem stack_round_trip_witness:
  "\<exists>m'. store machine_new 16 Size_H 0x12345 = Ok m' \<and> load m' 16 Size_H = Ok 0x2345 \<and> load m' 0 Size_W = load machine_new 0 Size_W"
proof -
  obtain m' where m': "store machine_new 16 Size_H 0x12345 = Ok m'"
    by (simp add: store_def CTX_BASE_def stack_slot_def STACK_BYTES_def)
  have "machine_ok machine_new" by (simp add: machine_ok_def machine_new_def)
  from stack_round_trip [OF this m', of 0 Size_W 0] m' show ?thesis by (simp add: take_bit_eq_mask mask_eq_exp_minus_1)
qed

text \<open>
  The interpreter always stops, within its fuel, and fuel decides nothing else. A run that ends with anything but
  \<open>OutOfFuel\<close> has spent at least one unit and at most its fuel, and with any larger fuel it ends with the same result in
  the same machine, the extra fuel left over; the machine keeps its shape and its context throughout.
\<close>

theorem run_fuel_monotone:
  assumes "run prog m = (m', r)" "r \<noteq> Err OutOfFuel" "mfuel m \<le> g" "machine_ok m"
  shows "run prog (m\<lparr>mfuel := g\<rparr>) = (m'\<lparr>mfuel := g - (mfuel m - mfuel m')\<rparr>, r)
    \<and> mfuel m' < mfuel m \<and> machine_ok m' \<and> mctx m' = mctx m"
  using run_from_fuel [of prog 0 m m' r g] run_from_ok [of m prog 0] assms by (simp add: run_def)

theorem run_fuel_monotone_witness:
  "run [\<lparr>code = 0x95, regs = 0, off = 0, imm = 0\<rparr>] (machine_new\<lparr>mfuel := 5\<rparr>) = (machine_new\<lparr>mfuel := 4\<rparr>, Ok 0)"
proof -
  let ?p = "[\<lparr>code = 0x95, regs = 0, off = 0, imm = 0\<rparr>]"
  have "decode ?p 0 = Some (Ok (Exit, 1))" by code_simp
  then have "run ?p (machine_new\<lparr>mfuel := 1\<rparr>) = (machine_new\<lparr>mfuel := 0\<rparr>, Ok 0)"
    by (simp add: run_def run_from.simps step_def get_reg_def reg_usize_def machine_new_def)
  from run_fuel_monotone [OF this, of 5] show ?thesis by (simp add: machine_ok_def machine_new_def)
qed

end
