(* ===== verification/Bpf_Cfg.thy ===== *)
theory Bpf_Cfg
  imports Bpf_Interp
begin

text \<open>
  The control-flow graph of the BPF verifier, \<open>bpf/verifier/src/ir.rs\<close>: decoding a program into instructions, resolving
  control flow in slot space, confining edges to subprograms, block leaders, basic blocks with their edges, subprograms
  and the call graph, and the widening thresholds. \<open>build_graph\<close> is \<open>Ir::build\<close> without the annotations of its passes 6 to 7b (reverse
  postorder, dominators, components, widening points), which report no error and change no field of the records here.
  Indices and slots are natural numbers: the loader refuses programs of more than \<open>2^16\<close> slots, so no \<open>u32\<close> cast
  truncates. The sentinel \<open>NONE\<close> is \<open>None\<close>.
\<close>

subsection \<open>Definitions\<close>

text \<open>The variants of \<open>VerifyError\<close> that the control-flow passes report.\<close>

datatype cfg_error =
    Decode nat decode_error
  | Empty
  | FallsOffEnd nat
  | BadTarget nat int
  | CrossSubprogEdge nat nat
  | Recursion nat

record ir_insn =
  iop :: decoded
  islot :: nat
  iwidth :: nat

definition next_slot :: "ir_insn \<Rightarrow> nat" where
  "next_slot i = islot i + iwidth i"

record block =
  bstart :: nat
  bend :: nat
  bsuccs :: "nat list"
  bpreds :: "nat list"
  bsubprog :: "nat option"

record subprog =
  entry_slot :: nat
  entry_block :: nat
  callees :: "nat list"

record ir =
  ir_insns :: "ir_insn list"
  ir_of_slot :: "nat option list"
  ir_blocks :: "block list"
  ir_block_of :: "nat list"
  ir_subprogs :: "subprog list"
  ir_thresholds :: "int list"

lemma decode_fits: "decode prog idx = Some (Ok (op, w)) \<Longrightarrow> 0 < w \<and> idx + w \<le> length prog"
  by (auto simp: decode_def decode_slot_def decode_ld_def nth_opt_def ok_or_def Let_def
      split: if_splits option.splits op_class.splits elim!: bind_result.elims)

text \<open>Pass 1: decode from \<open>slot\<close> on; the table maps a slot to the index of the instruction that starts there.\<close>

function decode_pass ::
  "insn list \<Rightarrow> nat \<Rightarrow> ir_insn list \<Rightarrow> nat option list \<Rightarrow> (ir_insn list \<times> nat option list, cfg_error) result" where
  "decode_pass prog slot acc tab =
     (if slot < length prog
      then (case decode prog slot of
              Some (Ok (op, width)) \<Rightarrow>
                decode_pass prog (slot + width) (acc @ [\<lparr>iop = op, islot = slot, iwidth = width\<rparr>])
                  (tab[slot := Some (length acc)])
            | Some (Err e) \<Rightarrow> Err (Decode slot e)
            | None \<Rightarrow> Err Empty)
      else if slot \<noteq> length prog then Err (Decode (length prog - 1) TruncatedImm64)
      else Ok (acc, tab))"
  by pat_completeness auto
termination
  by (relation "measure (\<lambda>(prog, slot, _). length prog - slot)") (auto dest: decode_fits)

text \<open>Pass 2: the successor slots of an instruction, the subprogram entries and the thresholds it contributes.\<close>

definition branch :: "nat option list \<Rightarrow> ir_insn \<Rightarrow> int \<Rightarrow> (nat, cfg_error) result" where
  "branch tab i o' =
     (let t = int (next_slot i) + o' in
      if t < 0 \<or> t \<ge> int (length tab) \<or> tab ! nat t = None then Err (BadTarget (islot i) t) else Ok (nat t))"

definition fallthrough :: "nat option list \<Rightarrow> ir_insn \<Rightarrow> (nat, cfg_error) result" where
  "fallthrough tab i = (if next_slot i \<ge> length tab then Err (FallsOffEnd (islot i)) else Ok (next_slot i))"

fun imm_threshold :: "source \<Rightarrow> int list" where
  "imm_threshold (Imm i) = [sint i]"
| "imm_threshold (SrcReg r) = []"

fun own_thresholds :: "decoded \<Rightarrow> int list" where
  "own_thresholds (Alu wide op dst src) = imm_threshold src"
| "own_thresholds (Mov wide dst src sx) = imm_threshold src"
| "own_thresholds (LoadImm64 dst (Value v)) = [sint v]"
| "own_thresholds _ = []"

type_synonym flow = "nat list \<times> nat list \<times> int list"

definition flow_insn :: "nat option list \<Rightarrow> ir_insn \<Rightarrow> (flow, cfg_error) result" where
  "flow_insn tab i =
     (case iop i of
        Exit \<Rightarrow> Ok ([], [], [])
      | Jump o' \<Rightarrow> bind_result (branch tab i (sint o')) (\<lambda>t. Ok ([t], [], []))
      | JumpCond wide c dst src o' \<Rightarrow>
          bind_result (branch tab i (sint o')) (\<lambda>t.
          bind_result (fallthrough tab i) (\<lambda>f. Ok ([t, f], [], imm_threshold src)))
      | MayGoto o' \<Rightarrow>
          bind_result (branch tab i (sint o')) (\<lambda>t.
          bind_result (fallthrough tab i) (\<lambda>f. Ok ([t, f], [], [])))
      | Call (Subprog o') \<Rightarrow>
          bind_result (branch tab i (sint o')) (\<lambda>e.
          bind_result (fallthrough tab i) (\<lambda>f. Ok ([f], [e], [])))
      | LoadImm64 dst (SubprogAddr o') \<Rightarrow>
          bind_result (branch tab i (sint o')) (\<lambda>e.
          bind_result (fallthrough tab i) (\<lambda>f. Ok ([f], [e], [])))
      | op \<Rightarrow> bind_result (fallthrough tab i) (\<lambda>f. Ok ([f], [], own_thresholds op)))"

fun flow_pass :: "nat option list \<Rightarrow> ir_insn list \<Rightarrow> (nat list list \<times> nat list \<times> int list, cfg_error) result" where
  "flow_pass tab [] = Ok ([], [], [])"
| "flow_pass tab (i # is) =
     bind_result (flow_insn tab i) (\<lambda>(s, e, t).
     bind_result (flow_pass tab is) (\<lambda>(ss, es, ts). Ok (s # ss, e @ es, t @ ts)))"

text \<open>\<open>sort_unstable\<close> followed by \<open>dedup\<close>.\<close>

definition sort_dedup :: "'a::linorder list \<Rightarrow> 'a list" where
  "sort_dedup xs = remdups_adj (sort xs)"

text \<open>Pass 2b: the subprogram around a slot, and the first edge that leaves its subprogram.\<close>

definition enclosing :: "nat list \<Rightarrow> nat \<Rightarrow> nat \<Rightarrow> nat \<times> nat" where
  "enclosing entries len slot =
     (let idx = length (takeWhile (\<lambda>e. e \<le> slot) entries) - 1
      in (entries ! idx, case nth_opt entries (idx + 1) of Some h \<Rightarrow> h | None \<Rightarrow> len))"

fun confine :: "nat list \<Rightarrow> nat \<Rightarrow> ir_insn list \<Rightarrow> nat list list \<Rightarrow> (unit, cfg_error) result" where
  "confine entries len (i # is) (ss # sss) =
     (let (lo, hi) = enclosing entries len (islot i) in
      case List.find (\<lambda>t. t < lo \<or> t \<ge> hi) ss of
        Some t \<Rightarrow> Err (CrossSubprogEdge (islot i) t)
      | None \<Rightarrow> confine entries len is sss)"
| "confine entries len _ _ = Ok ()"

text \<open>Pass 3: block leaders. Pass 4: blocks and their edges.\<close>

definition to_ir :: "nat option list \<Rightarrow> nat \<Rightarrow> nat" where
  "to_ir tab s = the (tab ! s)"

definition straight_line :: "ir_insn \<Rightarrow> nat list \<Rightarrow> bool" where
  "straight_line i ss \<longleftrightarrow> length ss = 1 \<and> hd ss = next_slot i"

definition mark_leaders :: "nat option list \<Rightarrow> ir_insn list \<Rightarrow> nat list list \<Rightarrow> nat \<Rightarrow> bool list \<Rightarrow> bool list" where
  "mark_leaders tab is sss k lead =
     (if straight_line (is ! k) (sss ! k) then lead
      else
        (let lead' = (if k + 1 < length is then lead[k + 1 := True] else lead)
         in fold (\<lambda>s l. l[to_ir tab s := True]) (sss ! k) lead'))"

definition leaders :: "nat option list \<Rightarrow> ir_insn list \<Rightarrow> nat list \<Rightarrow> nat list list \<Rightarrow> bool list" where
  "leaders tab is entries sss =
     (let l0 = (replicate (length is) False)[0 := True];
          l1 = fold (\<lambda>s l. l[to_ir tab s := True]) entries l0
      in fold (mark_leaders tab is sss) [0..<length is] l1)"

definition new_block :: "nat \<Rightarrow> nat \<Rightarrow> block" where
  "new_block s e = \<lparr>bstart = s, bend = e, bsuccs = [], bpreds = [], bsubprog = None\<rparr>"

definition block_step :: "bool list \<Rightarrow> nat \<Rightarrow> block list \<times> nat list \<Rightarrow> block list \<times> nat list" where
  "block_step lead i st =
     (let (bs, bof) = st;
          closed = (if bs = [] then [] else butlast bs @ [(last bs)\<lparr>bend := i\<rparr>]);
          bs' = (if lead ! i then closed @ [new_block i (length lead)] else bs)
      in (bs', bof @ [length bs' - 1]))"

definition raw_blocks :: "bool list \<Rightarrow> block list \<times> nat list" where
  "raw_blocks lead = fold (block_step lead) [0..<length lead] ([], [])"

definition block_succs :: "nat option list \<Rightarrow> nat list \<Rightarrow> nat list list \<Rightarrow> block \<Rightarrow> nat list" where
  "block_succs tab bof sss b = map (\<lambda>s. bof ! to_ir tab s) (sss ! (bend b - 1))"

definition link_blocks :: "nat option list \<Rightarrow> nat list \<Rightarrow> nat list list \<Rightarrow> block list \<Rightarrow> block list" where
  "link_blocks tab bof sss bs =
     map (\<lambda>k. (bs ! k)\<lparr>bsuccs := remdups_adj (block_succs tab bof sss (bs ! k)),
                bpreds := sort_dedup (concat (map (\<lambda>j. map (\<lambda>_. j) (filter (\<lambda>s. s = k) (block_succs tab bof sss (bs ! j)))) [0..<length bs]))\<rparr>)
       [0..<length bs]"

text \<open>Pass 5: subprograms, the subprogram of each block, and the call graph.\<close>

definition entry_index :: "nat list \<Rightarrow> nat \<Rightarrow> nat" where
  "entry_index entries target = (case position (\<lambda>e. e = target) entries of Some k \<Rightarrow> k | None \<Rightarrow> 0)"

definition label_blocks :: "nat option list \<Rightarrow> nat list \<Rightarrow> nat list \<Rightarrow> nat \<Rightarrow> block list \<Rightarrow> block list" where
  "label_blocks tab bof entries n bs =
     fold (\<lambda>si bs.
        let lo = to_ir tab (entries ! si);
            hi = (case nth_opt entries (si + 1) of Some s \<Rightarrow> to_ir tab s | None \<Rightarrow> n)
        in fold (\<lambda>i bs. bs[bof ! i := (bs ! (bof ! i))\<lparr>bsubprog := Some si\<rparr>]) [lo..<hi] bs)
       [0..<length entries] bs"

definition call_edges :: "nat list \<Rightarrow> nat list \<Rightarrow> block list \<Rightarrow> ir_insn list \<Rightarrow> (nat \<times> nat) list" where
  "call_edges entries bof bs is =
     concat (map (\<lambda>k.
        case iop (is ! k) of
          Call (Subprog o') \<Rightarrow>
            [(the (bsubprog (bs ! (bof ! k))), entry_index entries (nat (int (next_slot (is ! k)) + sint o')))]
        | _ \<Rightarrow> []) [0..<length is])"

definition make_subprogs :: "nat option list \<Rightarrow> nat list \<Rightarrow> nat list \<Rightarrow> (nat \<times> nat) list \<Rightarrow> subprog list" where
  "make_subprogs tab bof entries calls =
     map (\<lambda>si. \<lparr>entry_slot = entries ! si, entry_block = bof ! to_ir tab (entries ! si),
                callees = sort_dedup (map snd (filter (\<lambda>(c, _). c = si) calls))\<rparr>)
       [0..<length entries]"

definition build_graph :: "insn list \<Rightarrow> (ir, cfg_error) result" where
  "build_graph prog =
     (if prog = [] then Err Empty
      else
        bind_result (decode_pass prog 0 [] (replicate (length prog) None)) (\<lambda>(is, tab).
        bind_result (flow_pass tab is) (\<lambda>(sss, es, ts).
          let entries = sort_dedup (0 # es) in
          bind_result (confine entries (length prog) is sss) (\<lambda>_.
            let (bs, bof) = raw_blocks (leaders tab is entries sss);
                bs' = label_blocks tab bof entries (length is) (link_blocks tab bof sss bs)
            in Ok \<lparr>ir_insns = is, ir_of_slot = tab, ir_blocks = bs', ir_block_of = bof,
                  ir_subprogs = make_subprogs tab bof entries (call_edges entries bof bs' is),
                  ir_thresholds = sort_dedup (ts @ [0, - 1, - (2 ^ 31), 2 ^ 31 - 1, 2 ^ 32 - 1])\<rparr>))))"

text \<open>\<open>successors\<close> of \<open>liveness.rs\<close>.\<close>

definition successors :: "ir \<Rightarrow> nat \<Rightarrow> nat list" where
  "successors r i =
     (let b = ir_blocks r ! (ir_block_of r ! i) in
      if i + 1 < bend b then [i + 1] else map (\<lambda>s. bstart (ir_blocks r ! s)) (bsuccs b))"

subsection \<open>Decoding\<close>

declare decode_pass.simps [simp del]

text \<open>The instructions decoded so far tile the slots below \<open>slot\<close>, and the table is their inverse.\<close>

definition tiled :: "insn list \<Rightarrow> nat \<Rightarrow> ir_insn list \<Rightarrow> nat option list \<Rightarrow> bool" where
  "tiled prog slot is tab \<longleftrightarrow>
     length tab = length prog \<and> slot \<le> length prog
     \<and> (\<forall>k < length is. decode prog (islot (is ! k)) = Some (Ok (iop (is ! k), iwidth (is ! k)))
          \<and> islot (is ! k) < slot \<and> tab ! islot (is ! k) = Some k
          \<and> (if k + 1 < length is then islot (is ! (k + 1)) else slot) = next_slot (is ! k))
     \<and> (\<forall>s < length prog. \<forall>k. tab ! s = Some k \<longrightarrow> k < length is \<and> islot (is ! k) = s)
     \<and> (if is = [] then slot else islot (is ! 0)) = 0"

lemma tiledD:
  assumes "tiled prog slot is tab"
  shows "length tab = length prog" "slot \<le> length prog"
    and "k < length is \<Longrightarrow> decode prog (islot (is ! k)) = Some (Ok (iop (is ! k), iwidth (is ! k)))"
    and "k < length is \<Longrightarrow> islot (is ! k) < slot" "k < length is \<Longrightarrow> tab ! islot (is ! k) = Some k"
    and "k < length is \<Longrightarrow> (if k + 1 < length is then islot (is ! (k + 1)) else slot) = next_slot (is ! k)"
    and "s < length prog \<Longrightarrow> tab ! s = Some k \<Longrightarrow> k < length is \<and> islot (is ! k) = s"
    and "(if is = [] then slot else islot (is ! 0)) = 0"
  using assms unfolding tiled_def by blast+

lemma tiled_step:
  assumes "tiled prog slot is tab" "decode prog slot = Some (Ok (op, w))"
  shows "tiled prog (slot + w) (is @ [\<lparr>iop = op, islot = slot, iwidth = w\<rparr>]) (tab[slot := Some (length is)])"
    (is "tiled prog ?s ?is ?tab")
proof -
  note F = decode_fits [OF assms(2)] and T = tiledD [OF assms(1)]
  have one: "decode prog (islot (?is ! k)) = Some (Ok (iop (?is ! k), iwidth (?is ! k))) \<and> islot (?is ! k) < ?s
      \<and> ?tab ! islot (?is ! k) = Some k" if k: "k < length ?is" for k
  proof (cases "k < length is")
    case True
    then show ?thesis using T(3-5) [OF True] by (simp add: nth_append)
  next
    case False
    then have "k = length is" using k by simp
    then show ?thesis using assms(2) F T(1) by simp
  qed
  have nxt: "(if k + 1 < length ?is then islot (?is ! (k + 1)) else ?s) = next_slot (?is ! k)" if k: "k < length ?is" for k
  proof (cases "k < length is")
    case True
    then show ?thesis using T(6) [OF True] by (auto simp: nth_append split: if_splits)
  next
    case False
    then show ?thesis using k by (auto simp: next_slot_def less_Suc_eq)
  qed
  have inv: "k < length ?is \<and> islot (?is ! k) = s" if s: "s < length prog" "?tab ! s = Some k" for s k
  proof (cases "s = slot")
    case True
    then show ?thesis using s T(1) by (auto simp: nth_append)
  next
    case False
    then show ?thesis using s T(7) [of s k] by (auto simp: nth_append)
  qed
  show ?thesis
    unfolding tiled_def using one nxt inv F T(1,8) by (auto simp: nth_append)
qed

lemma decode_pass_tiled:
  "tiled prog slot acc tab \<Longrightarrow> decode_pass prog slot acc tab = Ok (is, tab') \<Longrightarrow> tiled prog (length prog) is tab'"
proof (induction prog slot acc tab rule: decode_pass.induct)
  case (1 prog slot acc tab)
  show ?case
  proof (cases "slot < length prog")
    case True
    obtain op w where d: "decode prog slot = Some (Ok (op, w))"
      using "1.prems"(2) True by (subst (asm) decode_pass.simps) (auto split: option.splits sum.splits)
    show ?thesis
      using "1.IH" [OF True d refl refl tiled_step [OF "1.prems"(1) d]] "1.prems"(2) True d
      by (subst (asm) decode_pass.simps) simp
  next
    case False
    then show ?thesis using "1.prems" by (subst (asm) decode_pass.simps) (auto split: if_splits)
  qed
qed

lemma tiled_start: "tiled prog 0 [] (replicate (length prog) None)"
  by (simp add: tiled_def)

lemma tiled_next:
  assumes "tiled prog (length prog) is tab" "k < length is" "next_slot (is ! k) < length prog"
  shows "k + 1 < length is \<and> tab ! next_slot (is ! k) = Some (k + 1)"
  using tiledD(6) [OF assms(1,2)] tiledD(5) [OF assms(1), of "k + 1"] assms(3) by (auto split: if_splits)

subsection \<open>Control flow\<close>

lemma bind_Ok: "bind_result r f = Ok y \<longleftrightarrow> (\<exists>x. r = Ok x \<and> f x = Ok y)"
  by (cases r) auto

lemma branch_Ok:
  "branch tab i o' = Ok t \<longleftrightarrow> int t = int (next_slot i) + o' \<and> t < length tab \<and> tab ! t \<noteq> None"
proof -
  have "nat (int (next_slot i) + o') = t" if "int t = int (next_slot i) + o'" using that by linarith
  then show ?thesis by (auto simp: branch_def Let_def split: if_splits)
qed

lemma fallthrough_Ok: "fallthrough tab i = Ok f \<longleftrightarrow> f = next_slot i \<and> f < length tab"
  by (auto simp: fallthrough_def)

lemma flow_insn_targets:
  assumes "tiled prog (length prog) is tab" "k < length is" "flow_insn tab (is ! k) = Ok (ss, es, ts)" "x \<in> set ss \<union> set es"
  shows "x < length prog \<and> (\<exists>j. tab ! x = Some j \<and> j < length is)"
proof -
  note len = tiledD(1) [OF assms(1)]
  have "x < length tab \<and> (tab ! x \<noteq> None \<or> x = next_slot (is ! k))"
    using assms(3,4) by (auto simp: flow_insn_def bind_Ok branch_Ok fallthrough_Ok split: decoded.splits call_target.splits imm64.splits)
  then have "x < length prog \<and> tab ! x \<noteq> None" using tiled_next [OF assms(1,2)] len by auto
  then show ?thesis using tiledD(7) [OF assms(1), of x] by auto
qed

lemma flow_pass_nth:
  "flow_pass tab is = Ok (sss, es, ts) \<Longrightarrow> length sss = length is
     \<and> (\<forall>k < length is. \<exists>e t. flow_insn tab (is ! k) = Ok (sss ! k, e, t) \<and> set e \<subseteq> set es)"
proof (induction "is" arbitrary: sss es ts)
  case (Cons i "is")
  then obtain s e t ss' es' ts' where f: "flow_insn tab i = Ok (s, e, t)" "flow_pass tab is = Ok (ss', es', ts')"
    "sss = s # ss'" "es = e @ es'" by (auto simp: bind_Ok)
  from Cons.IH [OF f(2)] f show ?case by (force simp: nth_Cons split: nat.splits)
qed simp

lemma flow_entries:
  "flow_pass tab is = Ok (sss, es, ts) \<Longrightarrow> x \<in> set es \<Longrightarrow> \<exists>k < length is. \<exists>e t. flow_insn tab (is ! k) = Ok (sss ! k, e, t) \<and> x \<in> set e"
proof (induction "is" arbitrary: sss es ts)
  case (Cons i "is")
  then obtain s e t ss' es' ts' where f: "flow_insn tab i = Ok (s, e, t)" "flow_pass tab is = Ok (ss', es', ts')"
    "sss = s # ss'" "es = e @ es'" by (auto simp: bind_Ok)
  show ?case
  proof (cases "x \<in> set e")
    case True
    then show ?thesis using f by (intro exI [of _ 0]) auto
  next
    case False
    then obtain k where "k < length is" "\<exists>e t. flow_insn tab (is ! k) = Ok (ss' ! k, e, t) \<and> x \<in> set e"
      using Cons.IH [OF f(2)] Cons.prems(2) f(4) by auto
    then show ?thesis using f by (intro exI [of _ "Suc k"]) auto
  qed
qed simp

subsection \<open>Concrete steps follow the edges\<close>

lemma load_not_BadPc: "load m a sz = Err t \<Longrightarrow> t \<noteq> BadPc"
  by (cases "stack_slot a sz") (auto simp: load_def ctx_load_def Let_def split: if_splits dest: slot_Err)

lemma store_not_BadPc: "store m a sz v = Err t \<Longrightarrow> t \<noteq> BadPc"
  by (cases "stack_slot a sz") (auto simp: store_def Let_def split: if_splits dest: slot_Err)

lemma exec_not_BadPc: "snd (exec d nxt m) \<noteq> Return (Err BadPc)"
  by (cases "(d, nxt, m)" rule: exec.cases) (auto split: sum.split dest: load_not_BadPc store_not_BadPc)

lemma jump_target_eq: "int t = int nxt + o' \<Longrightarrow> t < 2 ^ 64 \<Longrightarrow> jump_target nxt o' = t"
proof -
  assume t: "int t = int nxt + o'" "t < 2 ^ 64"
  have "unat (word_of_int (int t) :: u64) = t" using t(2) by (simp add: unsigned_of_nat take_bit_nat_eq_self)
  then show "jump_target nxt o' = t" unfolding jump_target_def t(1) .
qed

lemma exec_flow:
  assumes "flow_insn tab i = Ok (ss, es, ts)" "exec (iop i) (next_slot i) m = (m', Continue pc')" "length tab < 2 ^ 64"
  shows "pc' \<in> set ss"
  using assms jump_target_eq
  by (cases "(iop i, next_slot i, m)" rule: exec.cases)
    (auto simp: flow_insn_def bind_Ok branch_Ok fallthrough_Ok split: sum.splits if_splits)

subsection \<open>Leaders and blocks\<close>

lemma length_fold_mark [simp]: "length (fold (\<lambda>s l. l[f s := True]) xs l) = length l"
  by (induction xs arbitrary: l) auto

lemma nth_mark: "j < length l \<Longrightarrow> l[a := True] ! j \<longleftrightarrow> l ! j \<or> j = a"
  by (cases "a = j") auto

lemma fold_mark:
  "j < length l \<Longrightarrow> fold (\<lambda>s l. l[f s := True]) xs l ! j \<longleftrightarrow> l ! j \<or> j \<in> f ` set xs"
proof (induction xs arbitrary: l)
  case (Cons x xs)
  then show ?case using Cons.IH [of "l[f x := True]"] by (auto simp: nth_mark)
qed simp

lemma length_mark_leaders [simp]: "length (mark_leaders tab is sss k l) = length l"
  by (simp add: mark_leaders_def Let_def)

lemma mark_leaders_nth:
  assumes "j < length l"
  shows "mark_leaders tab is sss k l ! j \<longleftrightarrow>
    l ! j \<or> \<not> straight_line (is ! k) (sss ! k) \<and> (j = k + 1 \<and> k + 1 < length is \<or> j \<in> to_ir tab ` set (sss ! k))"
  using assms fold_mark [of j l "to_ir tab" "sss ! k"] fold_mark [of j "l[k + 1 := True]" "to_ir tab" "sss ! k"]
  by (auto simp: mark_leaders_def Let_def nth_mark)

lemma length_fold_mark_leaders [simp]: "length (fold (mark_leaders tab is sss) ks l) = length l"
  by (induction ks arbitrary: l) auto

lemma fold_mark_leaders:
  "j < length l \<Longrightarrow> fold (mark_leaders tab is sss) ks l ! j \<longleftrightarrow> l ! j
    \<or> (\<exists>k \<in> set ks. \<not> straight_line (is ! k) (sss ! k) \<and> (j = k + 1 \<and> k + 1 < length is \<or> j \<in> to_ir tab ` set (sss ! k)))"
proof (induction ks arbitrary: l)
  case (Cons k ks)
  then show ?case using Cons.IH [of "mark_leaders tab is sss k l"] mark_leaders_nth [OF Cons.prems, of tab "is" sss k] by auto
qed simp

lemma leaders_props:
  assumes "is \<noteq> []" and L_def: "L = leaders tab is entries sss"
  shows "length L = length is" "L ! 0"
    and "k < length is \<Longrightarrow> \<not> straight_line (is ! k) (sss ! k) \<Longrightarrow> s \<in> set (sss ! k) \<Longrightarrow> to_ir tab s < length is \<Longrightarrow> L ! to_ir tab s"
    and "k + 1 < length is \<Longrightarrow> \<not> straight_line (is ! k) (sss ! k) \<Longrightarrow> L ! (k + 1)"
proof -
  define l1 where "l1 = fold (\<lambda>s l. l[to_ir tab s := True]) entries ((replicate (length is) False)[0 := True])"
  have l1: "length l1 = length is" "l1 ! 0"
    using fold_mark [of 0 "(replicate (length is) False)[0 := True]" "to_ir tab" entries] assms(1) by (simp_all add: l1_def)
  have L: "L = fold (mark_leaders tab is sss) [0..<length is] l1" by (simp add: L_def leaders_def l1_def Let_def)
  note F = fold_mark_leaders [of _ l1 tab "is" sss "[0..<length is]"]
  show "length L = length is" "L ! 0" using F [of 0] l1 assms(1) by (auto simp: L)
  show "k < length is \<Longrightarrow> \<not> straight_line (is ! k) (sss ! k) \<Longrightarrow> s \<in> set (sss ! k) \<Longrightarrow> to_ir tab s < length is \<Longrightarrow> L ! to_ir tab s"
    using F [of "to_ir tab s"] l1 unfolding L by auto
  show "k + 1 < length is \<Longrightarrow> \<not> straight_line (is ! k) (sss ! k) \<Longrightarrow> L ! (k + 1)"
    using F [of "k + 1"] l1 unfolding L by force
qed

text \<open>Blocks built from the leaders below \<open>m\<close>: each instruction lies in its block, blocks start at leaders and end before the next one.\<close>

definition blocks_ok :: "bool list \<Rightarrow> nat \<Rightarrow> block list \<Rightarrow> nat list \<Rightarrow> bool" where
  "blocks_ok lead m bs bof \<longleftrightarrow>
     length bof = m
     \<and> (\<forall>i < m. bof ! i < length bs \<and> bstart (bs ! (bof ! i)) \<le> i \<and> i < bend (bs ! (bof ! i)))
     \<and> (\<forall>i < m. lead ! i \<longrightarrow> bstart (bs ! (bof ! i)) = i)
     \<and> (\<forall>i. i + 1 < m \<longrightarrow> i + 1 < bend (bs ! (bof ! i)) \<longrightarrow> \<not> lead ! (i + 1))
     \<and> (\<forall>b \<in> set bs. bend b = length lead \<or> bend b < m \<and> lead ! bend b)
     \<and> (m > 0 \<longrightarrow> bs \<noteq> [] \<and> bof ! (m - 1) = length bs - 1 \<and> bend (last bs) = length lead)"

lemma blocks_okD:
  assumes "blocks_ok lead m bs bof"
  shows "length bof = m" "i < m \<Longrightarrow> bof ! i < length bs" "i < m \<Longrightarrow> bstart (bs ! (bof ! i)) \<le> i"
    "i < m \<Longrightarrow> i < bend (bs ! (bof ! i))" "i < m \<Longrightarrow> lead ! i \<Longrightarrow> bstart (bs ! (bof ! i)) = i"
    "i + 1 < m \<Longrightarrow> i + 1 < bend (bs ! (bof ! i)) \<Longrightarrow> \<not> lead ! (i + 1)"
    "b \<in> set bs \<Longrightarrow> bend b = length lead \<or> bend b < m \<and> lead ! bend b"
    "m > 0 \<Longrightarrow> bs \<noteq> []" "m > 0 \<Longrightarrow> bof ! (m - 1) = length bs - 1" "m > 0 \<Longrightarrow> bend (last bs) = length lead"
  using assms unfolding blocks_ok_def by blast+

lemma blocks_ok_extend:
  assumes "blocks_ok lead m bs bof" "m < length lead" "\<not> lead ! m" "0 < m"
  shows "blocks_ok lead (m + 1) bs (bof @ [length bs - 1])"
proof -
  note B = blocks_okD [OF assms(1)]
  have l: "bs ! (length bs - 1) = last bs" using B(8) [OF assms(4)] by (simp add: last_conv_nth)
  have s: "bstart (last bs) \<le> m" using B(3) [of "m - 1"] B(9) assms(4) l by auto
  have e: "bend b = length lead \<or> bend b < m + 1 \<and> lead ! bend b" if "b \<in> set bs" for b
    using B(7) [OF that] by auto
  show ?thesis
    unfolding blocks_ok_def
    using B(1-6,8-10) assms(2-4) l s e by (auto simp: nth_append less_Suc_eq)
qed

lemma nth_close:
  assumes "bs \<noteq> []" "j < length bs"
  shows "(butlast bs @ [(last bs)\<lparr>bend := m\<rparr>]) ! j = (if j = length bs - 1 then (last bs)\<lparr>bend := m\<rparr> else bs ! j)"
  using assms by (auto simp: nth_append nth_butlast)

lemma blocks_ok_close:
  assumes "blocks_ok lead m bs bof" "m < length lead" "lead ! m" "0 < m"
  shows "blocks_ok lead (m + 1) (butlast bs @ [(last bs)\<lparr>bend := m\<rparr>, new_block m (length lead)]) (bof @ [length bs])"
proof -
  note B = blocks_okD [OF assms(1)]
  note ne = B(8) [OF assms(4)]
  define cs where "cs = butlast bs @ [(last bs)\<lparr>bend := m\<rparr>, new_block m (length lead)]"
  define cof where "cof = bof @ [length bs]"
  have l: "bs ! (length bs - 1) = last bs" using ne by (simp add: last_conv_nth)
  have len: "length cs = length bs + 1" "last cs = new_block m (length lead)" "cs \<noteq> []" using ne by (simp_all add: cs_def)
  have old: "cs ! j = (if j = length bs - 1 then (last bs)\<lparr>bend := m\<rparr> else bs ! j)" if "j < length bs" for j
    using nth_close [OF ne that, of m] that ne by (auto simp: cs_def nth_append)
  have new: "cs ! length bs = new_block m (length lead)" using ne by (simp add: cs_def nth_append)
  have cof: "i < m \<Longrightarrow> cof ! i = bof ! i" "cof ! m = length bs" "length cof = m + 1" for i
    using B(1) by (simp_all add: cof_def nth_append)
  have st: "bstart (cs ! (bof ! i)) = bstart (bs ! (bof ! i))" if "i < m" for i
    using old [OF B(2) [OF that]] l by auto
  have en: "bend (cs ! (bof ! i)) = (if bof ! i = length bs - 1 then m else bend (bs ! (bof ! i)))" if "i < m" for i
    using old [OF B(2) [OF that]] by auto
  have e: "bend b = length lead \<or> bend b < m + 1 \<and> lead ! bend b" if "b \<in> set cs" for b
    using that B(7) [of b] assms(3) in_set_butlastD [of b bs] by (auto simp: new_block_def cs_def)
  have f: "\<not> lead ! (i + 1)" if i: "i + 1 < m + 1" "i + 1 < bend (cs ! (cof ! i))" for i
  proof (cases "i + 1 < m")
    case True
    then have "i + 1 < bend (bs ! (bof ! i))"
      using i en [of i] cof(1) [of i] B(10) [OF assms(4)] l assms(2) by (auto split: if_splits)
    then show ?thesis using B(6) True by blast
  next
    case False
    then have "i = m - 1" using i by simp
    then show ?thesis using i en [of i] cof(1) [of i] B(9) [OF assms(4)] assms(4) by simp
  qed
  have g: "cof ! i < length cs \<and> bstart (cs ! (cof ! i)) \<le> i \<and> i < bend (cs ! (cof ! i)) \<and> (lead ! i \<longrightarrow> bstart (cs ! (cof ! i)) = i)"
    if "i < m + 1" for i
  proof (cases "i < m")
    case True
    then show ?thesis using B(2-5) [OF True] st [OF True] en [OF True] len(1) cof(1) by auto
  next
    case False
    then have "i = m" using that by simp
    then show ?thesis using cof(2) new len(1) assms(2) by (simp add: new_block_def)
  qed
  show ?thesis
    unfolding blocks_ok_def cs_def [symmetric] cof_def [symmetric]
    using e f g len cof by (auto simp: new_block_def)
qed

lemma raw_blocks_ok:
  assumes "lead \<noteq> []" "lead ! 0" "m \<le> length lead" "0 < m"
  shows "case fold (block_step lead) [0..<m] ([], []) of (bs, bof) \<Rightarrow> blocks_ok lead m bs bof"
  using assms(3,4)
proof (induction m)
  case (Suc m)
  show ?case
  proof (cases "m = 0")
    case True
    then show ?thesis using assms(1,2) by (simp add: block_step_def blocks_ok_def new_block_def)
  next
    case False
    obtain bs bof where f: "fold (block_step lead) [0..<m] ([], []) = (bs, bof)" by (rule prod.exhaust)
    have b: "blocks_ok lead m bs bof" using Suc f False by simp
    note ne = blocks_okD(8) [OF b]
    have s: "fold (block_step lead) [0..<Suc m] ([], []) = block_step lead m (bs, bof)" using f by simp
    show ?thesis
      unfolding s using blocks_ok_extend [OF b] blocks_ok_close [OF b] Suc.prems False ne
      by (cases "lead ! m") (simp_all add: block_step_def Let_def)
  qed
qed simp

text \<open>Labelling blocks with their subprogram keeps everything else.\<close>

definition edges :: "block \<Rightarrow> nat \<times> nat \<times> nat list" where
  "edges b = (bstart b, bend b, bsuccs b)"

lemma edges_label: "map edges (bs[j := (bs ! j)\<lparr>bsubprog := x\<rparr>]) = map edges bs"
proof (cases "j < length bs")
  case True
  then show ?thesis by (simp add: map_update edges_def list_update_same_conv)
qed (simp add: list_update_beyond)

lemma edges_label_range:
  "map edges (fold (\<lambda>i bs. bs[f i := (bs ! f i)\<lparr>bsubprog := x\<rparr>]) is bs) = map edges bs"
  by (induction "is" arbitrary: bs) (simp_all add: edges_label)

lemma edges_label_blocks: "map edges (label_blocks tab bof entries n bs) = map edges bs"
proof -
  have "map edges (fold (\<lambda>si bs.
        let lo = to_ir tab (entries ! si);
            hi = (case nth_opt entries (si + 1) of Some s \<Rightarrow> to_ir tab s | None \<Rightarrow> n)
        in fold (\<lambda>i bs. bs[bof ! i := (bs ! (bof ! i))\<lparr>bsubprog := Some si\<rparr>]) [lo..<hi] bs) ks bs) = map edges bs" for ks bs
    by (induction ks arbitrary: bs) (simp_all add: Let_def edges_label_range)
  then show ?thesis by (simp add: label_blocks_def)
qed

lemma edges_link:
  "k < length bs \<Longrightarrow> edges (link_blocks tab bof sss bs ! k)
     = (bstart (bs ! k), bend (bs ! k), remdups_adj (block_succs tab bof sss (bs ! k)))"
  by (simp add: link_blocks_def edges_def)

lemma build_graph_full:
  assumes "build_graph prog = Ok r"
  obtains sss es ts bs where "prog \<noteq> []" "tiled prog (length prog) (ir_insns r) (ir_of_slot r)"
    "flow_pass (ir_of_slot r) (ir_insns r) = Ok (sss, es, ts)"
    "confine (sort_dedup (0 # es)) (length prog) (ir_insns r) sss = Ok ()"
    "raw_blocks (leaders (ir_of_slot r) (ir_insns r) (sort_dedup (0 # es)) sss) = (bs, ir_block_of r)"
    "ir_blocks r = label_blocks (ir_of_slot r) (ir_block_of r) (sort_dedup (0 # es)) (length (ir_insns r))
       (link_blocks (ir_of_slot r) (ir_block_of r) sss bs)"
    "ir_subprogs r = make_subprogs (ir_of_slot r) (ir_block_of r) (sort_dedup (0 # es))
       (call_edges (sort_dedup (0 # es)) (ir_block_of r) (ir_blocks r) (ir_insns r))"
proof -
  have ne: "prog \<noteq> []" using assms by (auto simp: build_graph_def)
  obtain "is" tab where d: "decode_pass prog 0 [] (replicate (length prog) None) = Ok (is, tab)"
    using assms ne by (auto simp: build_graph_def bind_Ok)
  obtain sss es ts where f: "flow_pass tab is = Ok (sss, es, ts)"
    using assms ne d by (auto simp: build_graph_def bind_Ok)
  have c: "confine (sort_dedup (0 # es)) (length prog) is sss = Ok ()"
    using assms ne d f by (auto simp: build_graph_def bind_Ok Let_def)
  obtain bs bof where b: "raw_blocks (leaders tab is (sort_dedup (0 # es)) sss) = (bs, bof)" by (rule prod.exhaust)
  have r: "ir_insns r = is" "ir_of_slot r = tab" "ir_block_of r = bof"
    "ir_blocks r = label_blocks tab bof (sort_dedup (0 # es)) (length is) (link_blocks tab bof sss bs)"
    "ir_subprogs r = make_subprogs tab bof (sort_dedup (0 # es)) (call_edges (sort_dedup (0 # es)) bof (ir_blocks r) is)"
    using assms ne d f b by (auto simp: build_graph_def bind_Ok Let_def)
  show ?thesis
    using that [of sss es ts bs] ne decode_pass_tiled [OF tiled_start d] f c b r by metis
qed

lemma build_graph_Ok:
  assumes "build_graph prog = Ok r"
  obtains sss es ts bs where "prog \<noteq> []" "tiled prog (length prog) (ir_insns r) (ir_of_slot r)"
    "flow_pass (ir_of_slot r) (ir_insns r) = Ok (sss, es, ts)"
    "raw_blocks (leaders (ir_of_slot r) (ir_insns r) (sort_dedup (0 # es)) sss) = (bs, ir_block_of r)"
    "map edges (ir_blocks r) = map edges (link_blocks (ir_of_slot r) (ir_block_of r) sss bs)"
  using build_graph_full [OF assms] that by (metis edges_label_blocks)

subsection \<open>Blocks represent the control flow exactly\<close>

lemma straight_line_eq: "straight_line i ss \<longleftrightarrow> ss = [next_slot i]"
  by (cases ss) (auto simp: straight_line_def)

lemma build_graph_blocks:
  assumes "build_graph prog = Ok r" "flow_pass (ir_of_slot r) (ir_insns r) = Ok (sss, es, ts)"
  defines "L \<equiv> leaders (ir_of_slot r) (ir_insns r) (sort_dedup (0 # es)) sss"
  obtains bs where "ir_insns r \<noteq> []" "blocks_ok L (length (ir_insns r)) bs (ir_block_of r)" "length (ir_blocks r) = length bs"
    "\<And>k. k < length bs \<Longrightarrow> bstart (ir_blocks r ! k) = bstart (bs ! k)"
    "\<And>k. k < length bs \<Longrightarrow> bend (ir_blocks r ! k) = bend (bs ! k)"
    "\<And>k. k < length bs \<Longrightarrow> bsuccs (ir_blocks r ! k) = remdups_adj (block_succs (ir_of_slot r) (ir_block_of r) sss (bs ! k))"
proof -
  let ?tab = "ir_of_slot r" and ?bof = "ir_block_of r"
  from assms(1) obtain bs where p: "prog \<noteq> []" and T: "tiled prog (length prog) (ir_insns r) ?tab" and rb: "raw_blocks L = (bs, ?bof)"
    and E: "map edges (ir_blocks r) = map edges (link_blocks ?tab ?bof sss bs)"
    using assms(2) unfolding L_def by (elim build_graph_Ok) auto
  have ne: "ir_insns r \<noteq> []" using tiledD(8) [OF T] p by (auto split: if_splits)
  note L = leaders_props [OF ne, of L ?tab "sort_dedup (0 # es)" sss, OF L_def [THEN meta_eq_to_obj_eq]]
  have "L \<noteq> []" using L(1) ne by auto
  then have ok: "blocks_ok L (length (ir_insns r)) bs ?bof"
    using raw_blocks_ok [of L "length (ir_insns r)"] L(1,2) rb ne by (simp add: raw_blocks_def)
  have len: "length (ir_blocks r) = length bs" using arg_cong [OF E, of length] by (simp add: link_blocks_def)
  have "edges (ir_blocks r ! k) = (bstart (bs ! k), bend (bs ! k), remdups_adj (block_succs ?tab ?bof sss (bs ! k)))"
    if "k < length bs" for k
    using arg_cong [OF E, of "\<lambda>l. l ! k"] that len edges_link [OF that, of ?tab ?bof sss] by (simp add: link_blocks_def)
  then show ?thesis using that [OF ne ok len] by (simp add: edges_def)
qed

lemma flow_targets:
  assumes "tiled prog (length prog) is tab" "flow_pass tab is = Ok (sss, es, ts)" "i < length is" "s \<in> set (sss ! i)"
  shows "s < length prog \<and> tab ! s = Some (to_ir tab s) \<and> to_ir tab s < length is"
proof -
  obtain e t where "flow_insn tab (is ! i) = Ok (sss ! i, e, t)" using flow_pass_nth [OF assms(2)] assms(3) by blast
  then show ?thesis using flow_insn_targets [OF assms(1,3), of "sss ! i" e t s] assms(4) by (auto simp: to_ir_def)
qed

lemma block_edges_in:
  assumes "build_graph prog = Ok r" "b \<in> set (ir_blocks r)" "s \<in> set (bsuccs b)"
  shows "s < length (ir_blocks r)"
proof -
  obtain sss es ts where T: "tiled prog (length prog) (ir_insns r) (ir_of_slot r)"
    and F: "flow_pass (ir_of_slot r) (ir_insns r) = Ok (sss, es, ts)" using assms(1) by (elim build_graph_Ok)
  obtain bs where B: "ir_insns r \<noteq> []"
    "blocks_ok (leaders (ir_of_slot r) (ir_insns r) (sort_dedup (0 # es)) sss) (length (ir_insns r)) bs (ir_block_of r)"
    "length (ir_blocks r) = length bs" and
    S: "\<And>k. k < length bs \<Longrightarrow> bsuccs (ir_blocks r ! k) = remdups_adj (block_succs (ir_of_slot r) (ir_block_of r) sss (bs ! k))"
    using build_graph_blocks [OF assms(1) F] by metis
  have len: "length (leaders (ir_of_slot r) (ir_insns r) (sort_dedup (0 # es)) sss) = length (ir_insns r)"
    using leaders_props(1) [OF B(1) refl] .
  obtain k where k: "k < length bs" "b = ir_blocks r ! k" using assms(2) B(3) by (auto simp: in_set_conv_nth)
  have "bend (bs ! k) - 1 < length (ir_insns r)" using blocks_okD(7) [OF B(2) nth_mem [OF k(1)]] len B(1) by auto
  then obtain t where "t \<in> set (sss ! (bend (bs ! k) - 1))" "s = ir_block_of r ! to_ir (ir_of_slot r) t"
    "to_ir (ir_of_slot r) t < length (ir_insns r)"
    using flow_targets [OF T F] assms(3) S [OF k(1)] k(2) by (auto simp: block_succs_def)
  then show ?thesis using blocks_okD(2) [OF B(2)] B(3) by simp
qed

text \<open>Inside a block control falls through; at its end every target starts a block.\<close>

lemma block_flow:
  assumes "build_graph prog = Ok r" "flow_pass (ir_of_slot r) (ir_insns r) = Ok (sss, es, ts)" "i < length (ir_insns r)"
  defines "b \<equiv> ir_blocks r ! (ir_block_of r ! i)"
  shows "ir_block_of r ! i < length (ir_blocks r)" "bstart b \<le> i" "i < bend b" "bend b \<le> length (ir_insns r)"
    and "i + 1 < bend b \<Longrightarrow> sss ! i = [next_slot (ir_insns r ! i)] \<and> to_ir (ir_of_slot r) (next_slot (ir_insns r ! i)) = i + 1"
    and "bend b = i + 1 \<Longrightarrow> bsuccs b = remdups_adj (map (\<lambda>s. ir_block_of r ! to_ir (ir_of_slot r) s) (sss ! i))"
    and "bend b = i + 1 \<Longrightarrow> s \<in> set (sss ! i) \<Longrightarrow> bstart (ir_blocks r ! (ir_block_of r ! to_ir (ir_of_slot r) s)) = to_ir (ir_of_slot r) s"
proof -
  let ?is = "ir_insns r" and ?tab = "ir_of_slot r" and ?bof = "ir_block_of r"
  let ?n = "length ?is" and ?L = "leaders ?tab ?is (sort_dedup (0 # es)) sss"
  obtain bs where ne: "?is \<noteq> []" and ok: "blocks_ok ?L ?n bs ?bof" and len: "length (ir_blocks r) = length bs" and
    blk: "\<And>k. k < length bs \<Longrightarrow> bstart (ir_blocks r ! k) = bstart (bs ! k)" "\<And>k. k < length bs \<Longrightarrow> bend (ir_blocks r ! k) = bend (bs ! k)"
    "\<And>k. k < length bs \<Longrightarrow> bsuccs (ir_blocks r ! k) = remdups_adj (block_succs ?tab ?bof sss (bs ! k))"
    using build_graph_blocks [OF assms(1,2)] by metis
  note L = leaders_props [OF ne, of ?L ?tab "sort_dedup (0 # es)" sss, OF refl] and B = blocks_okD [OF ok]
  have T: "tiled prog (length prog) ?is ?tab" using assms(1) by (elim build_graph_Ok)
  note tgt = flow_targets [OF T assms(2,3)] and k = B(2) [OF assms(3)]
  note at = blk [OF k, folded b_def]
  have nxt: "to_ir ?tab (next_slot (?is ! i)) = i + 1 \<and> i + 1 < ?n" if "straight_line (?is ! i) (sss ! i)"
    using tiled_next [OF T assms(3)] tgt [of "next_slot (?is ! i)"] that by (auto simp: straight_line_eq to_ir_def)
  show "?bof ! i < length (ir_blocks r)" "bstart b \<le> i" "i < bend b" "bend b \<le> ?n"
    using k len at B(3,4) [OF assms(3)] B(7) [OF nth_mem [OF k]] L(1) by auto
  show "sss ! i = [next_slot (?is ! i)] \<and> to_ir ?tab (next_slot (?is ! i)) = i + 1" if "i + 1 < bend b"
  proof -
    have "i + 1 < ?n" using that at(2) B(7) [OF nth_mem [OF k]] L(1) by auto
    then have "straight_line (?is ! i) (sss ! i)" using B(6) [of i] that at(2) L(4) [of i] by auto
    then show ?thesis using nxt by (simp add: straight_line_eq)
  qed
  show "bsuccs b = remdups_adj (map (\<lambda>s. ?bof ! to_ir ?tab s) (sss ! i))" if "bend b = i + 1"
    using that at(2,3) by (simp add: block_succs_def)
  show "bstart (ir_blocks r ! (?bof ! to_ir ?tab s)) = to_ir ?tab s" if e: "bend b = i + 1" and s: "s \<in> set (sss ! i)"
  proof -
    have "?L ! to_ir ?tab s"
    proof (cases "straight_line (?is ! i) (sss ! i)")
      case True
      then show ?thesis using nxt s e at(2) B(7) [OF nth_mem [OF k]] L(1) by (auto simp: straight_line_eq)
    qed (use L(3) [OF assms(3)] s tgt in blast)
    then show ?thesis using blk(1) B(2,5) tgt [OF s] by simp
  qed
qed

lemma successors_exact:
  assumes "build_graph prog = Ok r" "flow_pass (ir_of_slot r) (ir_insns r) = Ok (sss, es, ts)" "i < length (ir_insns r)"
  shows "set (successors r i) = to_ir (ir_of_slot r) ` set (sss ! i)"
proof -
  note F = block_flow [OF assms]
  show ?thesis
  proof (cases "i + 1 < bend (ir_blocks r ! (ir_block_of r ! i))")
    case True
    then show ?thesis using F(5) by (simp add: successors_def Let_def)
  next
    case False
    then have "bend (ir_blocks r ! (ir_block_of r ! i)) = i + 1" using F(3) by simp
    then show ?thesis using F(6,7) by (auto simp: successors_def Let_def image_image)
  qed
qed

lemma step_follows_edges:
  assumes "build_graph prog = Ok r" "length prog \<le> 2 ^ 16" "pc < length prog" "ir_of_slot r ! pc = Some k" "step prog pc m = (m', y)"
  shows "y \<noteq> Return (Err BadPc)"
    and "y = Continue pc' \<Longrightarrow> pc' < length prog \<and> (\<exists>k' \<in> set (successors r k). ir_of_slot r ! pc' = Some k')"
proof -
  from assms(1) obtain sss es ts where T: "tiled prog (length prog) (ir_insns r) (ir_of_slot r)"
    and F: "flow_pass (ir_of_slot r) (ir_insns r) = Ok (sss, es, ts)" by (elim build_graph_Ok)
  have k: "k < length (ir_insns r)" "islot (ir_insns r ! k) = pc" using tiledD(7) [OF T assms(3,4)] by auto
  let ?i = "ir_insns r ! k"
  have st: "exec (iop ?i) (next_slot ?i) m = (m', y)"
    using assms(3,5) tiledD(3) [OF T k(1)] k(2) by (simp add: step_def next_slot_def)
  then show "y \<noteq> Return (Err BadPc)" using exec_not_BadPc [of "iop ?i" "next_slot ?i" m] by simp
  obtain e t where f: "flow_insn (ir_of_slot r) ?i = Ok (sss ! k, e, t)" using flow_pass_nth [OF F] k(1) by blast
  show "pc' < length prog \<and> (\<exists>k' \<in> set (successors r k). ir_of_slot r ! pc' = Some k')" if "y = Continue pc'"
  proof -
    have pc: "pc' \<in> set (sss ! k)"
      using exec_flow [OF f] st that assms(2) tiledD(1) [OF T] by simp
    then obtain j where "pc' < length prog" "ir_of_slot r ! pc' = Some j"
      using flow_insn_targets [OF T k(1) f UnI1 [OF pc]] by blast
    moreover have "to_ir (ir_of_slot r) pc' \<in> set (successors r k)"
      using successors_exact [OF assms(1) F k(1)] imageI [OF pc, of "to_ir (ir_of_slot r)"] by simp
    ultimately show ?thesis by (auto simp: to_ir_def)
  qed
qed

lemma run_from_no_BadPc:
  assumes "build_graph prog = Ok r" "length prog \<le> 2 ^ 16" "pc < length prog" "ir_of_slot r ! pc = Some k"
  shows "snd (run_from prog pc m) \<noteq> Err BadPc"
  using assms
proof (induction prog pc m arbitrary: k rule: run_from.induct)
  case (1 prog pc m)
  obtain m' y where s: "step prog pc (m\<lparr>mfuel := mfuel m - 1\<rparr>) = (m', y)" by (rule prod.exhaust)
  note S = step_follows_edges [OF "1.prems" s]
  show ?case
  proof (cases "mfuel m = 0")
    case False
    show ?thesis
    proof (cases y)
      case (Continue pc')
      then obtain k' where "pc' < length prog" "ir_of_slot r ! pc' = Some k'" using S(2) by blast
      then have "snd (run_from prog pc' m') \<noteq> Err BadPc"
        using "1.IH" [OF False s [symmetric] Continue "1.prems"(1,2)] by blast
      then show ?thesis using False s Continue by (simp add: run_from.simps [of prog pc m])
    next
      case (Return x)
      then show ?thesis using False s S(1) by (simp add: run_from.simps [of prog pc m])
    qed
  qed (simp add: run_from.simps [of prog pc m])
qed

subsection \<open>Property\<close>

text \<open>
  C19. The control-flow graph covers every execution. When the verifier builds the graph of a program (of at most the loader's
  \<open>2^16\<close> slots), every step of the reference machine from the start of an instruction goes to the start of one of its successors
  in the block graph, and a run never leaves the program: it never ends in \<open>BadPc\<close>.
\<close>

theorem cfg_covers_execution:
  assumes "build_graph prog = Ok r" "length prog \<le> 2 ^ 16"
  shows "snd (run prog m) \<noteq> Err BadPc
    \<and> (\<forall>pc k m m' pc'. pc < length prog \<and> ir_of_slot r ! pc = Some k \<and> step prog pc m = (m', Continue pc')
         \<longrightarrow> pc' < length prog \<and> (\<exists>k' \<in> set (successors r k). ir_of_slot r ! pc' = Some k'))"
proof -
  from assms(1) have ne: "prog \<noteq> []" and T: "tiled prog (length prog) (ir_insns r) (ir_of_slot r)"
    by (auto elim: build_graph_Ok)
  have "ir_insns r \<noteq> []" using tiledD(8) [OF T] ne by (auto split: if_splits)
  then have "ir_of_slot r ! 0 = Some 0" using tiledD(8) [OF T] tiledD(5) [OF T, of 0] by auto
  then have "snd (run prog m) \<noteq> Err BadPc"
    using run_from_no_BadPc [OF assms, of 0 0] ne by (simp add: run_def)
  then show ?thesis using step_follows_edges(2) [OF assms] by blast
qed

text \<open>A loop: count r0 up to four, then exit.\<close>

definition count_loop :: "insn list" where
  "count_loop =
     [\<lparr>code = 0xb7, regs = 0, off = 0, imm = 0\<rparr>,
      \<lparr>code = 0x07, regs = 0, off = 0, imm = 1\<rparr>,
      \<lparr>code = 0xa5, regs = 0, off = - 2, imm = 4\<rparr>,
      \<lparr>code = 0x95, regs = 0, off = 0, imm = 0\<rparr>]"

theorem cfg_covers_execution_witness:
  "\<exists>r. build_graph count_loop = Ok r \<and> map (successors r) [0, 1, 2, 3] = [[1], [2], [1, 3], []] \<and> snd (run count_loop machine_new) \<noteq> Err BadPc"
proof -
  have "case build_graph count_loop of Err _ \<Rightarrow> False | Ok r \<Rightarrow> map (successors r) [0, 1, 2, 3] = [[1], [2], [1, 3], []]"
    by code_simp
  then obtain r where r: "build_graph count_loop = Ok r" "map (successors r) [0, 1, 2, 3] = [[1], [2], [1, 3], []]"
    by (auto split: sum.splits)
  have "snd (run count_loop machine_new) \<noteq> Err BadPc"
    using cfg_covers_execution [OF r(1), of machine_new] by (simp add: count_loop_def)
  then show ?thesis using r by (intro exI [of _ r] conjI)
qed

end
