(* ===== verification/Bpf_Widen.thy ===== *)
theory Bpf_Widen
  imports Bpf_Cfg
begin

text \<open>
  Widening points, pass 7b of \<open>Ir::build\<close> in \<open>bpf/verifier/src/ir.rs\<close>: Tarjan's search for cyclic components among the blocks
  that are not yet widening points (\<open>cyclic_components_avoiding_marked\<close>), the choice of a head
  (\<open>pick_component_head\<close>), and the loop around them (\<open>mark_nested_widening_points\<close>). The pass is what makes the fixpoint converge:
  it returns, and afterwards every cycle of the graph has a widening point. The loops are partial functions into
  \<open>option\<close>, where \<open>None\<close> is a panic (an index out of range, an empty stack) or divergence; both are excluded by the proofs.
\<close>

subsection \<open>Definitions\<close>

record marked_block = block +
  widen_here :: bool

record tarjan =
  t_index :: "nat option list"
  t_lowlink :: "nat list"
  t_on_stack :: "bool list"
  t_stack :: "nat list"
  t_next :: nat
  t_out :: "nat list list"
  t_work :: "(nat \<times> nat) list"

definition live :: "marked_block list \<Rightarrow> nat \<Rightarrow> bool" where
  "live bs b \<longleftrightarrow> \<not> widen_here (bs ! b)"

text \<open>Number a block, push it on the component stack.\<close>

definition visit :: "nat \<Rightarrow> tarjan \<Rightarrow> tarjan" where
  "visit w s = s\<lparr>t_index := (t_index s)[w := Some (t_next s)], t_lowlink := (t_lowlink s)[w := t_next s],
                 t_next := t_next s + 1, t_stack := w # t_stack s, t_on_stack := (t_on_stack s)[w := True]\<rparr>"

text \<open>Pop the component stack down to \<open>v\<close>: the members, the rest of the stack, the flags.\<close>

fun pop_component :: "nat \<Rightarrow> nat list \<Rightarrow> bool list \<Rightarrow> (nat list \<times> nat list \<times> bool list) option" where
  "pop_component v [] on = None"
| "pop_component v (w # ws) on =
     (if w = v then Some ([w], ws, on[w := False])
      else case pop_component v ws (on[w := False]) of
             None \<Rightarrow> None
           | Some (ms, ws', on') \<Rightarrow> Some (w # ms, ws', on'))"

text \<open>A successor of the block on top of the work list.\<close>

definition advance :: "marked_block list \<Rightarrow> nat \<Rightarrow> nat \<Rightarrow> (nat \<times> nat) list \<Rightarrow> tarjan \<Rightarrow> tarjan option" where
  "advance bs v si ws s =
     (let w = bsuccs (bs ! v) ! si; s1 = s\<lparr>t_work := (v, si + 1) # ws\<rparr> in
      if w \<ge> length bs then None
      else if \<not> live bs w then Some s1
      else if t_index s ! w = None then Some ((visit w s)\<lparr>t_work := (w, 0) # (v, si + 1) # ws\<rparr>)
      else if t_on_stack s ! w
           then Some (s\<lparr>t_lowlink := (t_lowlink s)[v := min (t_lowlink s ! v) (the (t_index s ! w))], t_work := (v, si + 1) # ws\<rparr>)
      else Some s1)"

text \<open>The block on top of the work list has no more successors.\<close>

definition to_parent :: "nat \<Rightarrow> (nat \<times> nat) list \<Rightarrow> nat list \<Rightarrow> nat list" where
  "to_parent v ws low = (case ws of [] \<Rightarrow> low | (p, _) # _ \<Rightarrow> low[p := min (low ! p) (low ! v)])"

definition retreat :: "marked_block list \<Rightarrow> nat \<Rightarrow> (nat \<times> nat) list \<Rightarrow> tarjan \<Rightarrow> tarjan option" where
  "retreat bs v ws s =
     (let s1 = s\<lparr>t_lowlink := to_parent v ws (t_lowlink s), t_work := ws\<rparr> in
      if Some (t_lowlink s1 ! v) = t_index s ! v
      then (case pop_component v (t_stack s) (t_on_stack s) of
              None \<Rightarrow> None
            | Some (members, st, on) \<Rightarrow>
                let cyclic = (length members > 1 \<or> (v \<in> set (bsuccs (bs ! v)) \<and> live bs v)) in
                Some (s1\<lparr>t_stack := st, t_on_stack := on, t_out := (if cyclic then t_out s @ [sort members] else t_out s)\<rparr>))
      else Some s1)"

fun tarjan_step :: "marked_block list \<Rightarrow> (nat \<times> nat) list \<Rightarrow> tarjan \<Rightarrow> tarjan option" where
  "tarjan_step bs [] s = Some s"
| "tarjan_step bs ((v, si) # ws) s =
     (if si < length (bsuccs (bs ! v)) then advance bs v si ws s else retreat bs v ws s)"

partial_function (option) tarjan_loop :: "marked_block list \<Rightarrow> tarjan \<Rightarrow> tarjan option" where
  "tarjan_loop bs s =
     (if t_work s = [] then Some s
      else case tarjan_step bs (t_work s) s of None \<Rightarrow> None | Some s' \<Rightarrow> tarjan_loop bs s')"

definition tarjan_root :: "marked_block list \<Rightarrow> nat \<Rightarrow> tarjan \<Rightarrow> tarjan option" where
  "tarjan_root bs root s =
     (if \<not> live bs root \<or> t_index s ! root \<noteq> None then Some s
      else tarjan_loop bs ((visit root s)\<lparr>t_work := [(root, 0)]\<rparr>))"

primrec tarjan_roots :: "marked_block list \<Rightarrow> nat list \<Rightarrow> tarjan \<Rightarrow> tarjan option" where
  "tarjan_roots bs [] s = Some s"
| "tarjan_roots bs (r # rs) s = (case tarjan_root bs r s of None \<Rightarrow> None | Some s' \<Rightarrow> tarjan_roots bs rs s')"

definition tarjan_start :: "nat \<Rightarrow> tarjan" where
  "tarjan_start n = \<lparr>t_index = replicate n None, t_lowlink = replicate n 0, t_on_stack = replicate n False,
                     t_stack = [], t_next = 0, t_out = [], t_work = []\<rparr>"

definition cyclic_components_avoiding_marked :: "marked_block list \<Rightarrow> nat list list option" where
  "cyclic_components_avoiding_marked bs =
     map_option t_out (tarjan_roots bs [0..<length bs] (tarjan_start (length bs)))"

definition pick_component_head :: "marked_block list \<Rightarrow> nat list \<Rightarrow> nat option" where
  "pick_component_head bs ms =
     (let enter = fold (\<lambda>b e.
            if \<exists>p \<in> set (bpreds (bs ! b)). p \<notin> set ms
            then Some (case e of None \<Rightarrow> b | Some e' \<Rightarrow> min e' b) else e) ms None
      in case enter of Some h \<Rightarrow> Some h | None \<Rightarrow> if ms = [] then None else Some (min_list ms))"

fun mark_heads :: "nat list list \<Rightarrow> marked_block list \<Rightarrow> marked_block list option" where
  "mark_heads [] bs = Some bs"
| "mark_heads (c # cs) bs =
     (case pick_component_head bs c of
        None \<Rightarrow> None
      | Some h \<Rightarrow> mark_heads cs (bs[h := (bs ! h)\<lparr>widen_here := True\<rparr>]))"

partial_function (option) mark_nested_widening_points :: "marked_block list \<Rightarrow> marked_block list option" where
  "mark_nested_widening_points bs =
     (case cyclic_components_avoiding_marked bs of
        None \<Rightarrow> None
      | Some comps \<Rightarrow>
          if comps = [] then Some bs
          else (case mark_heads comps bs of None \<Rightarrow> None | Some bs' \<Rightarrow> mark_nested_widening_points bs'))"

subsection \<open>The search\<close>

text \<open>Edges between live blocks, finished blocks, and the number of a block.\<close>

definition live_edges :: "marked_block list \<Rightarrow> (nat \<times> nat) set" where
  "live_edges bs = {(u, v). u < length bs \<and> live bs u \<and> v \<in> set (bsuccs (bs ! u)) \<and> live bs v}"

definition finished :: "marked_block list \<Rightarrow> tarjan \<Rightarrow> nat set" where
  "finished bs s = {v. v < length bs \<and> t_index s ! v \<noteq> None \<and> v \<notin> set (t_stack s)}"

definition num :: "tarjan \<Rightarrow> nat \<Rightarrow> nat" where
  "num s v = the (t_index s ! v)"

definition edges_in :: "marked_block list \<Rightarrow> bool" where
  "edges_in bs \<longleftrightarrow> (\<forall>b \<in> set bs. \<forall>s \<in> set (bsuccs b). s < length bs)"

text \<open>Frames: the arrays have the right length, the stack holds live numbered blocks in the order of their numbers.\<close>

definition frames :: "marked_block list \<Rightarrow> tarjan \<Rightarrow> bool" where
  "frames bs s \<longleftrightarrow>
     length (t_index s) = length bs \<and> length (t_lowlink s) = length bs \<and> length (t_on_stack s) = length bs
     \<and> (\<forall>v < length bs. t_on_stack s ! v \<longleftrightarrow> v \<in> set (t_stack s))
     \<and> (\<forall>v < length bs. \<forall>k. t_index s ! v = Some k \<longrightarrow> k < t_next s)
     \<and> (\<forall>v \<in> set (t_stack s). v < length bs \<and> live bs v \<and> t_index s ! v \<noteq> None)
     \<and> sorted_wrt (\<lambda>a b. num s b < num s a) (t_stack s)"

text \<open>The work list is a path of blocks on the stack, with the root at the bottom of both.\<close>

definition path_ok :: "tarjan \<Rightarrow> (nat \<times> nat) list \<Rightarrow> bool" where
  "path_ok s work \<longleftrightarrow>
     sorted_wrt (\<lambda>a b. num s b < num s a) (map fst work) \<and> fst ` set work \<subseteq> set (t_stack s)
     \<and> (if work = [] then t_stack s = [] else fst (last work) = last (t_stack s))"

definition low_ok :: "tarjan \<Rightarrow> bool" where
  "low_ok s \<longleftrightarrow>
     (\<forall>v \<in> set (t_stack s). t_lowlink s ! v \<le> num s v \<and> (\<exists>u \<in> set (t_stack s). num s u = t_lowlink s ! v))"

text \<open>Every successor that a block on the stack has passed is numbered; if it is still on the stack, it is above the block or
  the block's low link accounts for it.\<close>

definition scanned :: "marked_block list \<Rightarrow> tarjan \<Rightarrow> (nat \<times> nat) list \<Rightarrow> bool" where
  "scanned bs s work \<longleftrightarrow>
     (\<forall>v \<in> set (t_stack s). \<forall>j < length (bsuccs (bs ! v)). (\<forall>si. (v, si) \<in> set work \<longrightarrow> j < si) \<longrightarrow>
        (let w = bsuccs (bs ! v) ! j in
         live bs w \<longrightarrow> t_index s ! w \<noteq> None \<and> (w \<in> set (t_stack s) \<longrightarrow> num s v \<le> num s w \<or> t_lowlink s ! v \<le> num s w)))"

definition comps_ok :: "marked_block list \<Rightarrow> nat list list \<Rightarrow> bool" where
  "comps_ok bs cs \<longleftrightarrow> (\<forall>c \<in> set cs. c \<noteq> [] \<and> (\<forall>v \<in> set c. v < length bs \<and> live bs v))"

text \<open>As long as no component is reported, the finished blocks are closed under edges and acyclic.\<close>

definition found_ok :: "marked_block list \<Rightarrow> tarjan \<Rightarrow> bool" where
  "found_ok bs s \<longleftrightarrow> comps_ok bs (t_out s)
     \<and> (t_out s = [] \<longrightarrow>
          live_edges bs `` finished bs s \<subseteq> finished bs s \<and> acyclic {(u, v) \<in> live_edges bs. u \<in> finished bs s})"

definition tarjan_inv :: "marked_block list \<Rightarrow> tarjan \<Rightarrow> bool" where
  "tarjan_inv bs s \<longleftrightarrow>
     frames bs s \<and> path_ok s (t_work s) \<and> low_ok s \<and> scanned bs s (t_work s) \<and> found_ok bs s"

lemma framesD:
  assumes "frames bs s"
  shows "length (t_index s) = length bs" "length (t_lowlink s) = length bs" "length (t_on_stack s) = length bs"
    and "v < length bs \<Longrightarrow> t_on_stack s ! v \<longleftrightarrow> v \<in> set (t_stack s)"
    and "v < length bs \<Longrightarrow> t_index s ! v = Some k \<Longrightarrow> k < t_next s"
    and "v \<in> set (t_stack s) \<Longrightarrow> v < length bs" "v \<in> set (t_stack s) \<Longrightarrow> live bs v"
    and "v \<in> set (t_stack s) \<Longrightarrow> t_index s ! v \<noteq> None"
    and "sorted_wrt (\<lambda>a b. num s b < num s a) (t_stack s)"
  using assms unfolding frames_def by blast+

lemma invD:
  assumes "tarjan_inv bs s" "t_work s = work"
  shows "frames bs s" "path_ok s work" "low_ok s" "scanned bs s work" "found_ok bs s"
  using assms unfolding tarjan_inv_def by blast+

lemma stack_num_less: "frames bs s \<Longrightarrow> v \<in> set (t_stack s) \<Longrightarrow> num s v < t_next s"
  using framesD(5,6,8) [of bs s v] by (auto simp: num_def)

lemma scannedD:
  assumes "scanned bs s work" "v \<in> set (t_stack s)" "j < length (bsuccs (bs ! v))"
    "\<And>si. (v, si) \<in> set work \<Longrightarrow> j < si" "live bs (bsuccs (bs ! v) ! j)"
  shows "t_index s ! (bsuccs (bs ! v) ! j) \<noteq> None"
    and "bsuccs (bs ! v) ! j \<in> set (t_stack s) \<Longrightarrow>
      num s v \<le> num s (bsuccs (bs ! v) ! j) \<or> t_lowlink s ! v \<le> num s (bsuccs (bs ! v) ! j)"
  using assms unfolding scanned_def Let_def by blast+

lemma descending_cong:
  "(\<And>v. v \<in> set vs \<Longrightarrow> f v = g v) \<Longrightarrow> sorted_wrt (\<lambda>a b. f b < f a) vs = sorted_wrt (\<lambda>a b. (g b::nat) < g a) vs"
  by (induction vs) auto

text \<open>Numbering a fresh block.\<close>

lemma num_visit: "v \<noteq> w \<Longrightarrow> num (visit w s) v = num s v"
  by (simp add: num_def visit_def)

lemma t_lowlink_visit: "t_lowlink (visit w s) = (t_lowlink s)[w := t_next s]"
  by (simp add: visit_def)

lemma num_visit_same: "frames bs s \<Longrightarrow> w < length bs \<Longrightarrow> num (visit w s) w = t_next s"
  by (simp add: num_def visit_def framesD(1))

lemma fresh_not_on_stack: "frames bs s \<Longrightarrow> t_index s ! w = None \<Longrightarrow> w \<notin> set (t_stack s)"
  using framesD(8) by blast

lemma frames_visit:
  assumes "frames bs s" "w < length bs" "live bs w" "t_index s ! w = None"
  shows "frames bs (visit w s)"
proof -
  note F = framesD [OF assms(1)]
  have out: "w \<notin> set (t_stack s)" using assms fresh_not_on_stack by blast
  have old: "num (visit w s) v = num s v" if "v \<in> set (t_stack s)" for v using that out by (auto intro: num_visit)
  have "sorted_wrt (\<lambda>a b. num (visit w s) b < num (visit w s) a) (w # t_stack s)"
    using F(9) stack_num_less [OF assms(1)] num_visit_same [OF assms(1,2)] descending_cong [of "t_stack s" "num (visit w s)" "num s"] old by simp
  then show ?thesis
    unfolding frames_def using F assms by (auto simp: visit_def nth_list_update less_Suc_eq)
qed

lemma t_work_simps [simp]:
  "frames bs (s\<lparr>t_work := x\<rparr>) = frames bs s" "path_ok (s\<lparr>t_work := x\<rparr>) work = path_ok s work"
  "low_ok (s\<lparr>t_work := x\<rparr>) = low_ok s" "scanned bs (s\<lparr>t_work := x\<rparr>) work = scanned bs s work"
  "found_ok bs (s\<lparr>t_work := x\<rparr>) = found_ok bs s" "num (s\<lparr>t_work := x\<rparr>) = num s"
  by (simp_all add: frames_def path_ok_def low_ok_def scanned_def found_ok_def finished_def num_def fun_eq_iff)

lemma low_visit:
  assumes "frames bs s" "low_ok s" "w < length bs" "t_index s ! w = None"
  shows "low_ok (visit w s)"
proof -
  note out = fresh_not_on_stack [OF assms(1,4)]
  have old: "num (visit w s) v = num s v" "t_lowlink (visit w s) ! v = t_lowlink s ! v" if "v \<in> set (t_stack s)" for v
    using that out num_visit [of v w s] by (metis, metis (no_types, lifting) nth_list_update_neq t_lowlink_visit)
  have new: "num (visit w s) w = t_next s" "t_lowlink (visit w s) ! w = t_next s"
    using num_visit_same [OF assms(1,3)] assms(3) framesD(2) [OF assms(1)] by (auto simp: visit_def)
  have st: "t_stack (visit w s) = w # t_stack s" by (simp add: visit_def)
  show ?thesis using assms(2) old new by (fastforce simp: low_ok_def st)
qed

lemma finished_visit:
  assumes "frames bs s" "w < length bs" "t_index s ! w = None"
  shows "finished bs (visit w s) = finished bs s"
  using assms framesD(1) [OF assms(1)] by (auto simp: finished_def visit_def nth_list_update split: if_splits)

lemma found_visit:
  "frames bs s \<Longrightarrow> w < length bs \<Longrightarrow> t_index s ! w = None \<Longrightarrow> found_ok bs (visit w s) = found_ok bs s"
  by (simp add: found_ok_def finished_visit) (simp add: visit_def)

lemma scanned_visit:
  assumes "frames bs s" "scanned bs s work" "w < length bs" "t_index s ! w = None"
  shows "scanned bs (visit w s) ((w, 0) # work)"
  unfolding scanned_def Let_def
proof (intro ballI allI impI)
  fix v j assume v: "v \<in> set (t_stack (visit w s))" and j: "j < length (bsuccs (bs ! v))"
    and p: "\<forall>si. (v, si) \<in> set ((w, 0) # work) \<longrightarrow> j < si" and l: "live bs (bsuccs (bs ! v) ! j)"
  let ?x = "bsuccs (bs ! v) ! j"
  have "v \<noteq> w" using p by force
  then have v': "v \<in> set (t_stack s)" using v by (simp add: visit_def)
  have S: "t_index s ! ?x \<noteq> None" "?x \<in> set (t_stack s) \<Longrightarrow> num s v \<le> num s ?x \<or> t_lowlink s ! v \<le> num s ?x"
    using scannedD [OF assms(2) v' j _ l] p by auto
  have "?x \<noteq> w" using S(1) assms(4) by auto
  then show "t_index (visit w s) ! ?x \<noteq> None
      \<and> (?x \<in> set (t_stack (visit w s)) \<longrightarrow> num (visit w s) v \<le> num (visit w s) ?x \<or> t_lowlink (visit w s) ! v \<le> num (visit w s) ?x)"
    using S \<open>v \<noteq> w\<close> by (simp add: num_visit) (simp add: visit_def)
qed

text \<open>Popping a component.\<close>

lemma pop_component_split:
  "distinct (xs @ v # ys) \<Longrightarrow> \<forall>x \<in> set (xs @ v # ys). x < length on \<Longrightarrow>
   \<exists>on'. pop_component v (xs @ v # ys) on = Some (xs @ [v], ys, on') \<and> length on' = length on
     \<and> (\<forall>u < length on. on' ! u \<longleftrightarrow> on ! u \<and> u \<notin> set (xs @ [v]))"
proof (induction xs arbitrary: "on")
  case Nil
  then show ?case by (simp add: nth_list_update)
next
  case (Cons x xs)
  then obtain on' where "pop_component v (xs @ v # ys) (on[x := False]) = Some (xs @ [v], ys, on')"
    "length on' = length on" "\<forall>u < length on. on' ! u \<longleftrightarrow> (on[x := False]) ! u \<and> u \<notin> set (xs @ [v])"
    by (metis (no_types, lifting) append_Cons distinct.simps(2) length_list_update list.set_intros(2))
  then show ?case using Cons.prems by (auto simp: nth_list_update)
qed

lemma acyclic_extend:
  assumes "acyclic r" "r \<subseteq> P \<times> P" "v \<notin> P" "A \<subseteq> P"
  shows "acyclic (r \<union> {v} \<times> A)"
proof -
  have "y \<in> P \<and> (x = v \<or> (x, y) \<in> r\<^sup>+)" if "(x, y) \<in> (r \<union> {v} \<times> A)\<^sup>+" for x y
    using that
  proof (induction rule: trancl_induct)
    case (base y)
    then show ?case using assms(2,4) by auto
  next
    case (step y z)
    then have "(y, z) \<in> r" using assms(3) by auto
    then show ?case using step.IH assms(2) by (auto intro: trancl_into_trancl)
  qed
  then show ?thesis using assms(1,3) by (auto simp: acyclic_def)
qed

text \<open>Lowering a low link to the number of a block on the stack.\<close>

abbreviation lower :: "nat \<Rightarrow> nat \<Rightarrow> tarjan \<Rightarrow> tarjan" where
  "lower v x s \<equiv> s\<lparr>t_lowlink := (t_lowlink s)[v := min (t_lowlink s ! v) x]\<rparr>"

lemma lower_simps [simp]:
  "num (s\<lparr>t_lowlink := low\<rparr>) = num s" "path_ok (lower v x s) work = path_ok s work" "frames bs (lower v x s) = frames bs s"
  "found_ok bs (lower v x s) = found_ok bs s"
  by (simp_all add: num_def path_ok_def frames_def found_ok_def finished_def fun_eq_iff)

lemma nth_lower_le: "(xs::nat list)[v := min (xs ! v) x] ! u \<le> xs ! u"
  by (cases "u = v"; cases "v < length xs") (simp_all add: list_update_beyond)

lemma low_lower:
  assumes "frames bs s" "low_ok s" "v \<in> set (t_stack s)" "u \<in> set (t_stack s)"
  shows "low_ok (lower v (num s u) s)"
proof -
  have "v < length (t_lowlink s)" using framesD(2,6) [OF assms(1)] assms(3) by simp
  then show ?thesis using assms(2-4) unfolding low_ok_def by (auto simp: nth_list_update min_def)
qed

lemma scanned_lower: "scanned bs s work \<Longrightarrow> scanned bs (lower v x s) work"
  unfolding scanned_def Let_def by simp (meson nth_lower_le order_trans)

lemma path_ok_frame: "path_ok s ((v, a) # ws) = path_ok s ((v, b) # ws)"
  by (cases ws) (simp_all add: path_ok_def)

lemma path_okD:
  assumes "path_ok s work"
  shows "sorted_wrt (\<lambda>a b. num s b < num s a) (map fst work)" "(v, si) \<in> set work \<Longrightarrow> v \<in> set (t_stack s)"
    and "work = [] \<Longrightarrow> t_stack s = []" "work \<noteq> [] \<Longrightarrow> fst (last work) = last (t_stack s)"
  using assms unfolding path_ok_def by (force split: if_splits)+

lemma scanned_next:
  assumes "scanned bs s ((v, si) # ws)" "si < length (bsuccs (bs ! v))"
    and "live bs (bsuccs (bs ! v) ! si) \<Longrightarrow> t_index s ! (bsuccs (bs ! v) ! si) \<noteq> None"
    and "live bs (bsuccs (bs ! v) ! si) \<Longrightarrow> bsuccs (bs ! v) ! si \<in> set (t_stack s) \<Longrightarrow>
      num s v \<le> num s (bsuccs (bs ! v) ! si) \<or> t_lowlink s ! v \<le> num s (bsuccs (bs ! v) ! si)"
  shows "scanned bs s ((v, si + 1) # ws)"
  unfolding scanned_def Let_def
proof (intro ballI allI impI)
  fix u j assume u: "u \<in> set (t_stack s)" and j: "j < length (bsuccs (bs ! u))"
    and p: "\<forall>sj. (u, sj) \<in> set ((v, si + 1) # ws) \<longrightarrow> j < sj" and l: "live bs (bsuccs (bs ! u) ! j)"
  let ?x = "bsuccs (bs ! u) ! j"
  show "t_index s ! ?x \<noteq> None \<and> (?x \<in> set (t_stack s) \<longrightarrow> num s u \<le> num s ?x \<or> t_lowlink s ! u \<le> num s ?x)"
  proof (cases "u = v \<and> j = si")
    case True
    then show ?thesis using assms(3,4) l by simp
  next
    case False
    then have "j < sj" if "(u, sj) \<in> set ((v, si) # ws)" for sj using p that by (auto simp: less_Suc_eq)
    then show ?thesis using scannedD [OF assms(1) u j _ l] by blast
  qed
qed

lemma edges_inD: "edges_in bs \<Longrightarrow> v < length bs \<Longrightarrow> j < length (bsuccs (bs ! v)) \<Longrightarrow> bsuccs (bs ! v) ! j < length bs"
  using nth_mem by (fastforce simp: edges_in_def)

text \<open>Progress: fewer unnumbered blocks, or less left to scan.\<close>

definition scan_rel :: "marked_block list \<Rightarrow> (tarjan \<times> tarjan) set" where
  "scan_rel bs = inv_image (less_than <*lex*> less_than)
     (\<lambda>s. (card {v. v < length bs \<and> t_index s ! v = None}, \<Sum>(v, si) \<leftarrow> t_work s. length (bsuccs (bs ! v)) - si + 1))"

lemma wf_scan_rel: "wf (scan_rel bs)"
  by (auto simp: scan_rel_def)

definition numbers_kept :: "tarjan \<Rightarrow> tarjan \<Rightarrow> bool" where
  "numbers_kept s s' \<longleftrightarrow> (\<forall>v. t_index s ! v \<noteq> None \<longrightarrow> t_index s' ! v \<noteq> None)"

lemma visit_progress:
  assumes "frames bs s" "w < length bs" "t_index s ! w = None"
  shows "numbers_kept s (visit w s)" "t_index (visit w s) ! w \<noteq> None" "((visit w s)\<lparr>t_work := x\<rparr>, s) \<in> scan_rel bs"
proof -
  have ix: "t_index (visit w s) ! v = (if v = w then Some (t_next s) else t_index s ! v)" for v
    using assms framesD(1) [OF assms(1)] by (simp add: visit_def)
  then show "numbers_kept s (visit w s)" "t_index (visit w s) ! w \<noteq> None" by (simp_all add: numbers_kept_def)
  have "{v. v < length bs \<and> t_index (visit w s) ! v = None} \<subset> {v. v < length bs \<and> t_index s ! v = None}"
    using ix assms(2,3) by (auto simp: psubset_eq)
  then show "((visit w s)\<lparr>t_work := x\<rparr>, s) \<in> scan_rel bs" by (simp add: scan_rel_def psubset_card_mono)
qed

lemma path_push:
  assumes "frames bs s" "path_ok s ((v, a) # ws)" "w < length bs" "t_index s ! w = None"
  shows "path_ok (visit w s) ((w, 0) # (v, a) # ws)"
proof -
  let ?work = "(v, a) # ws"
  have st: "x \<in> set (t_stack s)" if "x \<in> set (map fst ?work)" for x using assms(2) that by (auto simp: path_ok_def)
  then have eq: "num (visit w s) x = num s x" if "x \<in> set (map fst ?work)" for x
    using num_visit [of x w s] st [OF that] fresh_not_on_stack [OF assms(1,4)] by metis
  have less: "num (visit w s) x < num (visit w s) w" if "x \<in> set (map fst ?work)" for x
    by (simp only: eq [OF that] num_visit_same [OF assms(1,3)] stack_num_less [OF assms(1) st [OF that]])
  have "sorted_wrt (\<lambda>a b. num (visit w s) b < num (visit w s) a) (map fst ?work)"
    using descending_cong [of "map fst ?work" "num (visit w s)" "num s", OF eq] path_okD(1) [OF assms(2)] by blast
  then have "sorted_wrt (\<lambda>a b. num (visit w s) b < num (visit w s) a) (w # map fst ?work)"
    unfolding sorted_wrt.simps using less by blast
  then show ?thesis
    using assms(2) unfolding path_ok_def by (auto simp: visit_def)
qed

lemma scanned_push:
  assumes "frames bs s" "scanned bs s ((v, si) # ws)" "v \<in> set (t_stack s)" "si < length (bsuccs (bs ! v))"
    and "bsuccs (bs ! v) ! si < length bs" "t_index s ! (bsuccs (bs ! v) ! si) = None"
  shows "scanned bs (visit (bsuccs (bs ! v) ! si) s) ((bsuccs (bs ! v) ! si, 0) # (v, si + 1) # ws)"
    (is "scanned bs (visit ?w s) _")
proof -
  have "v \<noteq> ?w" using fresh_not_on_stack [OF assms(1,6)] assms(3) by metis
  then have "num (visit ?w s) v \<le> num (visit ?w s) ?w"
    using num_visit_same [OF assms(1,5)] stack_num_less [OF assms(1,3)] by (simp add: num_visit)
  moreover have "scanned bs (visit ?w s) ((v, si) # (?w, 0) # ws)"
    using scanned_visit [OF assms(1,2,5,6)] by (simp add: scanned_def insert_commute)
  ultimately have "scanned bs (visit ?w s) ((v, si + 1) # (?w, 0) # ws)"
    using scanned_next [OF _ assms(4)] visit_progress(2) [OF assms(1,5,6)] by blast
  then show ?thesis by (simp add: scanned_def insert_commute)
qed

lemma advance_inv:
  assumes "edges_in bs" "tarjan_inv bs s" "t_work s = (v, si) # ws" "si < length (bsuccs (bs ! v))"
  shows "\<exists>s'. advance bs v si ws s = Some s' \<and> tarjan_inv bs s' \<and> numbers_kept s s' \<and> (s', s) \<in> scan_rel bs"
proof -
  note I = invD [OF assms(2,3)] and F = framesD [OF invD(1) [OF assms(2,3)]]
  let ?w = "bsuccs (bs ! v) ! si" and ?work = "(v, si + 1) # ws"
  have v: "v \<in> set (t_stack s)" using path_okD(2) [OF I(2)] by auto
  have w: "?w < length bs" using edges_inD [OF assms(1) F(6) [OF v] assms(4)] .
  have P: "path_ok s ?work" using I(2) path_ok_frame by blast
  have less: "(s'\<lparr>t_work := ?work\<rparr>, s) \<in> scan_rel bs \<and> numbers_kept s (s'\<lparr>t_work := ?work\<rparr>)" if "t_index s' = t_index s" for s'
    using assms(3,4) that by (simp add: scan_rel_def numbers_kept_def)
  show ?thesis
  proof (cases "live bs ?w \<and> t_index s ! ?w = None")
    case True
    let ?s = "visit ?w s"
    have "path_ok ?s ((?w, 0) # ?work)" "scanned bs ?s ((?w, 0) # ?work)"
      by (rule path_push [OF I(1) P w conjunct2 [OF True]], rule scanned_push [OF I(1,4) v assms(4) w conjunct2 [OF True]])
    then have "tarjan_inv bs (?s\<lparr>t_work := (?w, 0) # ?work\<rparr>)"
      using frames_visit [OF I(1) w] low_visit [OF I(1,3) w] found_visit [OF I(1) w] I(5) True by (simp add: tarjan_inv_def)
    then show ?thesis
      using visit_progress(1,3) [OF I(1) w] True w by (auto simp: advance_def Let_def numbers_kept_def)
  next
    case False
    show ?thesis
    proof (cases "live bs ?w \<and> ?w \<in> set (t_stack s)")
      case True
      let ?s = "lower v (num s ?w) s"
      have "t_lowlink ?s ! v \<le> num s ?w" using F(2,6) v by simp
      then have "scanned bs ?s ?work"
        using scanned_next [OF scanned_lower [OF I(4)] assms(4)] False by fastforce
      then have "tarjan_inv bs (?s\<lparr>t_work := ?work\<rparr>)"
        using I P low_lower [OF I(1,3) v] True by (simp add: tarjan_inv_def)
      then show ?thesis
        using less [of ?s] False True w F(4) by (auto simp: advance_def Let_def num_def)
    next
      case off: False
      have "scanned bs s ?work" by (rule scanned_next [OF I(4) assms(4)]) (use False off in auto)
      then have "tarjan_inv bs (s\<lparr>t_work := ?work\<rparr>)" using I P by (simp add: tarjan_inv_def)
      then show ?thesis using less [of s] False off w F(4) by (auto simp: advance_def Let_def)
    qed
  qed
qed

text \<open>Leaving a block.\<close>

lemma scanned_leave:
  assumes "scanned bs s ((v, si) # ws)" "\<not> si < length (bsuccs (bs ! v))"
  shows "scanned bs s ws"
  unfolding scanned_def Let_def
proof (intro ballI allI impI)
  fix u j assume u: "u \<in> set (t_stack s)" and j: "j < length (bsuccs (bs ! u))"
    and p: "\<forall>sj. (u, sj) \<in> set ws \<longrightarrow> j < sj" and l: "live bs (bsuccs (bs ! u) ! j)"
  let ?x = "bsuccs (bs ! u) ! j"
  have "j < sj" if "(u, sj) \<in> set ((v, si) # ws)" for sj using p that j assms(2) by auto
  then show "t_index s ! ?x \<noteq> None \<and> (?x \<in> set (t_stack s) \<longrightarrow> num s u \<le> num s ?x \<or> t_lowlink s ! u \<le> num s ?x)"
    using scannedD [OF assms(1) u j _ l] by blast
qed

lemma to_parent_ok:
  assumes "frames bs s" "low_ok s" "path_ok s ((v, si) # ws)" "scanned bs s work"
  defines "s1 \<equiv> s\<lparr>t_lowlink := to_parent v ws (t_lowlink s)\<rparr>"
  shows "frames bs s1 \<and> low_ok s1 \<and> scanned bs s1 work"
proof (cases ws)
  case Nil
  then show ?thesis using assms(1,2,4) by (simp add: s1_def to_parent_def)
next
  case (Cons f fs)
  obtain p b where f: "f = (p, b)" by (cases f)
  have st: "v \<in> set (t_stack s)" "p \<in> set (t_stack s)" using path_okD(2) [OF assms(3)] Cons f by auto
  obtain u where "u \<in> set (t_stack s)" "num s u = t_lowlink s ! v" using assms(2) st(1) by (auto simp: low_ok_def)
  then have "s1 = lower p (num s u) s" using Cons f by (simp add: s1_def to_parent_def)
  then show ?thesis using assms(1,4) low_lower [OF assms(1,2) st(2) \<open>u \<in> set (t_stack s)\<close>] scanned_lower by simp
qed

lemma root_low:
  assumes "frames bs s" "low_ok s" "path_ok s [(v, si)]"
  shows "t_lowlink s ! v = num s v"
proof -
  have v: "v \<in> set (t_stack s)" "v = last (t_stack s)" using path_okD(2,4) [OF assms(3)] by auto
  obtain u where u: "u \<in> set (t_stack s)" "num s u = t_lowlink s ! v" "num s u \<le> num s v"
    using assms(2) v(1) by (auto simp: low_ok_def)
  obtain xs where "t_stack s = xs @ [v]" using v by (metis append_butlast_last_id length_pos_if_in_set less_numeral_extra(3) list.size(3))
  then have "num s v \<le> num s u" using framesD(9) [OF assms(1)] u(1) by (auto simp: sorted_wrt_append)
  then show ?thesis using u by simp
qed

lemma split_stack:
  assumes "frames bs s" "t_stack s = xs @ v # ys"
  shows "x \<in> set xs \<Longrightarrow> num s v < num s x" "y \<in> set ys \<Longrightarrow> num s y < num s v" "distinct (t_stack s)"
proof -
  show "x \<in> set xs \<Longrightarrow> num s v < num s x" "y \<in> set ys \<Longrightarrow> num s y < num s v"
    using framesD(9) [OF assms(1)] assms(2) by (auto simp: sorted_wrt_append)
  have "distinct vs" if "sorted_wrt (\<lambda>a b. num s b < num s a) vs" for vs using that by (induction vs) auto
  then show "distinct (t_stack s)" using framesD(9) [OF assms(1)] .
qed

lemma below_v:
  "frames bs s \<Longrightarrow> t_stack s = xs @ v # ys \<Longrightarrow> u \<in> set (t_stack s) \<Longrightarrow> num s u < num s v \<Longrightarrow> u \<in> set ys"
  using split_stack(1) [of bs s xs v ys u] by auto

lemma path_pop:
  assumes "frames bs s" "path_ok s ((v, si) # ws)" "t_stack s = xs @ v # ys" "t_stack s' = ys" "num s' = num s"
  shows "path_ok s' ws"
proof -
  have "fst f \<in> set ys" if "f \<in> set ws" for f
    using below_v [OF assms(1,3), of "fst f"] path_okD(1) [OF assms(2)] assms(2) that by (auto simp: path_ok_def)
  moreover have "ws = [] \<Longrightarrow> ys = []"
    using path_okD(4) [OF assms(2)] split_stack(3) [OF assms(1,3)] assms(3) by (cases ys rule: rev_cases) auto
  moreover have "fst (last ws) = last ys" if "ws \<noteq> []"
    using path_okD(4) [OF assms(2)] calculation(1) [OF hd_in_set [OF that]] assms(3) that by (cases ys) simp_all
  ultimately show ?thesis
    using path_okD(1) [OF assms(2)] assms(4,5) unfolding path_ok_def by auto
qed

lemma low_pop:
  assumes "frames bs s" "low_ok s" "t_stack s = xs @ v # ys" "t_stack s' = ys" "num s' = num s" "t_lowlink s' = t_lowlink s"
  shows "low_ok s'"
  unfolding low_ok_def assms(4-6)
proof
  fix y assume y: "y \<in> set ys"
  then obtain u where u: "t_lowlink s ! y \<le> num s y" "u \<in> set (t_stack s)" "num s u = t_lowlink s ! y"
    using assms(2,3) by (auto simp: low_ok_def)
  then have "u \<in> set ys" using below_v [OF assms(1,3) u(2)] split_stack(2) [OF assms(1,3) y] by simp
  then show "t_lowlink s ! y \<le> num s y \<and> (\<exists>u \<in> set ys. num s u = t_lowlink s ! y)" using u by blast
qed

lemma found_pop:
  assumes "frames bs s" "scanned bs s ws" "found_ok bs s" "t_lowlink s ! v = num s v" "\<And>si. (v, si) \<notin> set ws"
    and "t_stack s = xs @ v # ys" "t_stack s' = ys" "t_index s' = t_index s"
    and "t_out s' = (if length (xs @ [v]) > 1 \<or> v \<in> set (bsuccs (bs ! v)) \<and> live bs v then t_out s @ [sort (xs @ [v])] else t_out s)"
    and "edges_in bs"
  shows "found_ok bs s'"
proof -
  note F = framesD [OF assms(1)] and D = split_stack [OF assms(1,6)]
  have "sort (xs @ [v]) \<noteq> []" by (metis length_0_conv length_sort snoc_eq_iff_butlast)
  then have "comps_ok bs (t_out s')"
    using assms(3) F(6,7) assms(6,9) by (auto simp: found_ok_def comps_ok_def)
  moreover have "live_edges bs `` finished bs s' \<subseteq> finished bs s'
      \<and> acyclic {(u, v) \<in> live_edges bs. u \<in> finished bs s'}" if o: "t_out s' = []"
  proof -
    have c: "xs = []" "v \<notin> set (bsuccs (bs ! v))" "t_out s = []"
      using o assms(9) F(7) [of v] assms(6) by (auto split: if_splits)
    have P: "finished bs s' = insert v (finished bs s)" "v \<notin> finished bs s"
      using assms(6-8) F(6,8) D(3) c(1) by (auto simp: finished_def)
    let ?P = "finished bs s" and ?r = "{(u, w) \<in> live_edges bs. u \<in> finished bs s}"
    have old: "live_edges bs `` ?P \<subseteq> ?P" "acyclic ?r" using assms(3) c(3) by (auto simp: found_ok_def)
    have new: "live_edges bs `` {v} \<subseteq> ?P"
    proof (rule subsetI)
      fix w assume "w \<in> live_edges bs `` {v}"
      then obtain j where j: "j < length (bsuccs (bs ! v))" "bsuccs (bs ! v) ! j = w" and l: "live bs w" and v: "v < length bs"
        by (auto simp: live_edges_def in_set_conv_nth)
      have st: "v \<in> set (t_stack s)" using assms(6) by simp
      have "t_index s ! w \<noteq> None \<and> (w \<in> set (t_stack s) \<longrightarrow> num s v \<le> num s w \<or> t_lowlink s ! v \<le> num s w)"
        using scannedD [OF assms(2) st j(1)] assms(5) l unfolding j(2) by simp
      then have S: "t_index s ! w \<noteq> None" "w \<in> set (t_stack s) \<Longrightarrow> num s v \<le> num s w" using assms(4) by auto
      have "w \<noteq> v" using nth_mem [OF j(1)] c(2) j(2) by auto
      then have "w \<notin> set (t_stack s)" using S(2) D(2) [of w] c(1) assms(6) by auto
      then show "w \<in> ?P" using S(1) edges_inD [OF assms(10) v j(1)] j(2) by (simp add: finished_def)
    qed
    have "{(u, w) \<in> live_edges bs. u \<in> finished bs s'} = ?r \<union> {v} \<times> (live_edges bs `` {v})" using P by auto
    moreover have "?r \<subseteq> ?P \<times> ?P" using old(1) by auto
    ultimately show ?thesis using acyclic_extend [OF old(2) _ P(2) new] P(1) old(1) new by auto
  qed
  ultimately show ?thesis by (simp add: found_ok_def)
qed

lemma retreat_inv:
  assumes "edges_in bs" "tarjan_inv bs s" "t_work s = (v, si) # ws" "\<not> si < length (bsuccs (bs ! v))"
  shows "\<exists>s'. retreat bs v ws s = Some s' \<and> tarjan_inv bs s' \<and> numbers_kept s s' \<and> (s', s) \<in> scan_rel bs"
proof -
  note I = invD [OF assms(2,3)]
  define s1 where "s1 = s\<lparr>t_lowlink := to_parent v ws (t_lowlink s)\<rparr>"
  have P: "path_ok s1 ((v, si) # ws)" and found: "found_ok bs s1" and same: "t_index s1 = t_index s" "t_stack s1 = t_stack s"
    "t_on_stack s1 = t_on_stack s" "t_out s1 = t_out s" "num s1 = num s"
    using I(2,5) by (auto simp: s1_def path_ok_def found_ok_def finished_def)
  have O: "frames bs s1" "low_ok s1" "scanned bs s1 ws"
    using to_parent_ok [OF I(1,3,2,4)] scanned_leave [OF _ assms(4)] by (auto simp: s1_def)
  have v: "v \<in> set (t_stack s1)" using path_okD(2) [OF P] by auto
  have less: "(s', s) \<in> scan_rel bs \<and> numbers_kept s s'" if "t_index s' = t_index s" "t_work s' = ws" for s'
    using assms(3) that by (simp add: scan_rel_def numbers_kept_def)
  have test: "Some (t_lowlink s1 ! v) = t_index s ! v \<longleftrightarrow> t_lowlink s1 ! v = num s1 v"
    using framesD(8) [OF O(1) v] same by (auto simp: num_def)
  show ?thesis
  proof (cases "t_lowlink s1 ! v = num s1 v")
    case False
    then have "ws \<noteq> []" using root_low [OF O(1,2)] P by blast
    then have "path_ok s1 ws" using P by (auto simp: path_ok_def)
    then have "tarjan_inv bs (s1\<lparr>t_work := ws\<rparr>)" using O found by (simp add: tarjan_inv_def)
    then show ?thesis using False test less [of "s1\<lparr>t_work := ws\<rparr>"] same(1) by (simp add: retreat_def s1_def)
  next
    case True
    obtain xs ys where st: "t_stack s1 = xs @ v # ys" using split_list [OF v] by blast
    obtain on' where pop: "pop_component v (t_stack s1) (t_on_stack s1) = Some (xs @ [v], ys, on')"
      "length on' = length bs" "\<forall>u < length bs. on' ! u \<longleftrightarrow> t_on_stack s1 ! u \<and> u \<notin> set (xs @ [v])"
      using pop_component_split [of xs v ys "t_on_stack s1"] split_stack(3) [OF O(1) st] framesD(3,6) [OF O(1)] st by auto
    define s' where "s' = s1\<lparr>t_work := ws, t_stack := ys, t_on_stack := on', t_out := (if length (xs @ [v]) > 1
      \<or> v \<in> set (bsuccs (bs ! v)) \<and> live bs v then t_out s1 @ [sort (xs @ [v])] else t_out s1)\<rparr>"
    have eq: "t_stack s' = ys" "t_index s' = t_index s1" "t_lowlink s' = t_lowlink s1" "num s' = num s1" "t_work s' = ws"
      "t_on_stack s' = on'" "t_next s' = t_next s1"
      by (auto simp: s'_def num_def)
    have off: "(v, b) \<notin> set ws" for b using path_okD(1) [OF P] by force
    have "found_ok bs s'"
      by (rule found_pop [OF O(1,3) found True off st eq(1,2) _ assms(1)]) (simp add: s'_def)
    moreover have "frames bs s'"
      using O(1) st pop(2,3) split_stack(3) [OF O(1) st] unfolding frames_def eq by (auto simp: sorted_wrt_append)
    moreover have "scanned bs s' ws"
    proof -
      have "set ys \<subseteq> set (t_stack s1)" using st by auto
      then show ?thesis using O(3) unfolding scanned_def eq Let_def by blast
    qed
    ultimately have "tarjan_inv bs s'"
      using path_pop [OF O(1) P st eq(1,4)] low_pop [OF O(1,2) st eq(1,4,3)] by (simp add: tarjan_inv_def eq)
    moreover have "retreat bs v ws s = Some s'"
      using True test pop(1) same(2,3) by (simp add: retreat_def s1_def s'_def Let_def)
    ultimately show ?thesis using less [of s'] eq(2,5) same(1) by auto
  qed
qed

lemma step_inv:
  assumes "edges_in bs" "tarjan_inv bs s" "t_work s \<noteq> []"
  shows "\<exists>s'. tarjan_step bs (t_work s) s = Some s' \<and> tarjan_inv bs s' \<and> numbers_kept s s' \<and> (s', s) \<in> scan_rel bs"
proof -
  obtain v si ws where w: "t_work s = (v, si) # ws" using assms(3) by (metis neq_Nil_conv surj_pair)
  show ?thesis using advance_inv [OF assms(1,2) w] retreat_inv [OF assms(1,2) w] w by simp
qed

lemma loop_inv:
  assumes "edges_in bs" "tarjan_inv bs s"
  shows "\<exists>s'. tarjan_loop bs s = Some s' \<and> tarjan_inv bs s' \<and> numbers_kept s s' \<and> t_work s' = []"
  using assms(2)
proof (induction s rule: wf_induct_rule [OF wf_scan_rel [of bs]])
  case (1 s)
  show ?case
  proof (cases "t_work s = []")
    case True
    then show ?thesis using 1 by (simp add: tarjan_loop.simps [of bs s] numbers_kept_def)
  next
    case False
    then obtain s' where s': "tarjan_step bs (t_work s) s = Some s'" "tarjan_inv bs s'" "numbers_kept s s'" "(s', s) \<in> scan_rel bs"
      using step_inv [OF assms(1) "1.prems"] by blast
    then show ?thesis
      using "1.IH" [OF s'(4,2)] False by (auto simp: tarjan_loop.simps [of bs s] numbers_kept_def)
  qed
qed

text \<open>Between two roots the stacks are empty.\<close>

lemma root_inv:
  assumes "edges_in bs" "tarjan_inv bs s" "t_work s = []" "r < length bs"
  shows "\<exists>s'. tarjan_root bs r s = Some s' \<and> tarjan_inv bs s' \<and> numbers_kept s s' \<and> t_work s' = []
    \<and> (live bs r \<longrightarrow> t_index s' ! r \<noteq> None)"
proof (cases "\<not> live bs r \<or> t_index s ! r \<noteq> None")
  case True
  then show ?thesis using assms by (auto simp: tarjan_root_def numbers_kept_def)
next
  case False
  note I = invD [OF assms(2,3)]
  let ?s = "(visit r s)\<lparr>t_work := [(r, 0)]\<rparr>"
  have "path_ok (visit r s) [(r, 0)]" using path_okD(3) [OF I(2)] by (simp add: path_ok_def visit_def)
  then have inv: "tarjan_inv bs ?s"
    using frames_visit [OF I(1) assms(4)] low_visit [OF I(1,3) assms(4)] found_visit [OF I(1) assms(4)]
      scanned_visit [OF I(1,4) assms(4)] I(5) False by (simp add: tarjan_inv_def)
  show ?thesis
    using loop_inv [OF assms(1) inv] visit_progress(1,2) [OF I(1) assms(4)] False
    by (auto simp: tarjan_root_def numbers_kept_def)
qed

lemma roots_inv:
  assumes "edges_in bs" "tarjan_inv bs s" "t_work s = []" "\<forall>r \<in> set rs. r < length bs"
  shows "\<exists>s'. tarjan_roots bs rs s = Some s' \<and> tarjan_inv bs s' \<and> numbers_kept s s' \<and> t_work s' = []
    \<and> (\<forall>r \<in> set rs. live bs r \<longrightarrow> t_index s' ! r \<noteq> None)"
  using assms(2-)
proof (induction rs arbitrary: s)
  case Nil
  then show ?case by (simp add: numbers_kept_def)
next
  case (Cons r rs)
  have "r < length bs" using Cons.prems(3) by simp
  then obtain s1 where s1: "tarjan_root bs r s = Some s1" "tarjan_inv bs s1" "numbers_kept s s1" "t_work s1 = []"
    "live bs r \<longrightarrow> t_index s1 ! r \<noteq> None" using root_inv [OF assms(1) Cons.prems(1,2)] by blast
  then show ?case using Cons.IH [OF s1(2,4)] Cons.prems(3) by (fastforce simp: numbers_kept_def)
qed

lemma start_inv: "tarjan_inv bs (tarjan_start (length bs))"
proof -
  have "finished bs (tarjan_start (length bs)) = {}" by (auto simp: finished_def tarjan_start_def)
  then show ?thesis
    by (simp add: tarjan_inv_def found_ok_def comps_ok_def acyclic_def)
      (simp add: frames_def path_ok_def low_ok_def scanned_def tarjan_start_def)
qed

text \<open>The search returns; it reports live blocks only, and reports something unless the live blocks are acyclic.\<close>

lemma components_spec:
  assumes "edges_in bs"
  obtains cs where "cyclic_components_avoiding_marked bs = Some cs" "comps_ok bs cs" "cs = [] \<Longrightarrow> acyclic (live_edges bs)"
proof -
  have w: "t_work (tarjan_start (length bs)) = []" by (simp add: tarjan_start_def)
  obtain s where s: "tarjan_roots bs [0..<length bs] (tarjan_start (length bs)) = Some s" "tarjan_inv bs s" "t_work s = []"
    "\<forall>r < length bs. live bs r \<longrightarrow> t_index s ! r \<noteq> None"
    using roots_inv [OF assms start_inv w, of "[0..<length bs]"] by auto
  note I = invD [OF s(2,3)]
  have "u \<in> finished bs s" if "(u, v) \<in> live_edges bs" for u v
    using that s(4) path_okD(3) [OF I(2)] by (auto simp: live_edges_def finished_def)
  then have "{(u, v) \<in> live_edges bs. u \<in> finished bs s} = live_edges bs" by auto
  then show ?thesis using that [of "t_out s"] s(1) I(5) by (simp add: cyclic_components_avoiding_marked_def found_ok_def)
qed

subsection \<open>Marking heads\<close>

lemma entry_fold:
  "fold (\<lambda>b e. if Q b then Some (case e of None \<Rightarrow> b | Some e' \<Rightarrow> min e' b) else e) ms e = Some h \<Longrightarrow>
   (h::nat) \<in> set ms \<or> e = Some h"
  by (induction ms arbitrary: e) (fastforce simp: min_def split: if_splits option.splits)+

lemma head_in_component: "ms \<noteq> [] \<Longrightarrow> \<exists>h \<in> set ms. pick_component_head bs ms = Some h"
  using entry_fold [of "\<lambda>b. \<exists>p \<in> set (bpreds (bs ! b)). p \<notin> set ms" ms None] min_list_Min [of ms] Min_in [of "set ms"]
  by (auto simp: pick_component_head_def Let_def split: option.splits)

text \<open>Only marks are added.\<close>

definition remarked :: "marked_block list \<Rightarrow> marked_block list \<Rightarrow> bool" where
  "remarked bs bs' \<longleftrightarrow> map block.truncate bs' = map block.truncate bs \<and> (\<forall>i < length bs. widen_here (bs ! i) \<longrightarrow> widen_here (bs' ! i))"

lemma remarked_trans: "remarked a b \<Longrightarrow> remarked b c \<Longrightarrow> remarked a c"
  unfolding remarked_def by (metis length_map)

lemma remarked_length: "remarked bs bs' \<Longrightarrow> length bs' = length bs"
  unfolding remarked_def by (metis length_map)

lemma truncate_succs: "block.truncate b = block.truncate b' \<Longrightarrow> bsuccs b = bsuccs b'"
  by (simp add: block.truncate_def)

lemma remarked_edges_in: "remarked bs bs' \<Longrightarrow> edges_in bs \<Longrightarrow> edges_in bs'"
proof -
  assume r: "remarked bs bs'" and e: "edges_in bs"
  have "bsuccs (bs' ! i) = bsuccs (bs ! i)" if "i < length bs" for i
    using r that remarked_length [OF r] by (metis nth_map remarked_def truncate_succs)
  then show "edges_in bs'" using e remarked_length [OF r] by (simp add: edges_in_def all_set_conv_all_nth)
qed

lemma remarked_mark:
  assumes "h < length bs" shows "remarked bs (bs[h := (bs ! h)\<lparr>widen_here := True\<rparr>])"
  using assms by (auto simp: remarked_def nth_list_update block.truncate_def intro!: nth_equalityI)

lemma mark_heads_spec:
  assumes "\<forall>c \<in> set cs. c \<noteq> [] \<and> (\<forall>v \<in> set c. v < length bs)"
  shows "\<exists>bs'. mark_heads cs bs = Some bs' \<and> remarked bs bs' \<and> (cs \<noteq> [] \<longrightarrow> (\<exists>v \<in> set (hd cs). widen_here (bs' ! v)))"
  using assms
proof (induction cs arbitrary: bs)
  case Nil
  then show ?case by (simp add: remarked_def)
next
  case (Cons c cs)
  obtain h where h: "h \<in> set c" "pick_component_head bs c = Some h" using head_in_component [of c bs] Cons.prems by auto
  let ?bs = "bs[h := (bs ! h)\<lparr>widen_here := True\<rparr>]"
  have hl: "h < length bs" using h(1) Cons.prems by simp
  obtain bs' where b: "mark_heads cs ?bs = Some bs'" "remarked ?bs bs'" using Cons.IH [of ?bs] Cons.prems by auto
  have "widen_here (bs' ! h)" using b(2) hl by (simp add: remarked_def)
  then show ?case using b h remarked_trans [OF remarked_mark [OF hl]] by auto
qed

lemma mark_nested_spec:
  assumes "edges_in bs"
  shows "\<exists>bs'. mark_nested_widening_points bs = Some bs' \<and> remarked bs bs' \<and> acyclic (live_edges bs')"
  using assms
proof (induction "card {v. v < length bs \<and> live bs v}" arbitrary: bs rule: less_induct)
  case less
  obtain cs where cs: "cyclic_components_avoiding_marked bs = Some cs" "comps_ok bs cs" "cs = [] \<Longrightarrow> acyclic (live_edges bs)"
    by (rule components_spec [OF less.prems]) blast
  show ?case
  proof (cases "cs = []")
    case True
    then show ?thesis using cs by (simp add: mark_nested_widening_points.simps [of bs] remarked_def)
  next
    case False
    obtain b1 v where b1: "mark_heads cs bs = Some b1" "remarked bs b1" and v: "v \<in> set (hd cs)" "widen_here (b1 ! v)"
      using mark_heads_spec [of cs bs] cs(2) False by (auto simp: comps_ok_def)
    have "v < length bs" "live bs v" using v(1) cs(2) False hd_in_set by (auto simp: comps_ok_def)
    then have "{v. v < length b1 \<and> live b1 v} \<subset> {v. v < length bs \<and> live bs v}"
      using b1(2) v(2) remarked_length [OF b1(2)] by (auto simp: remarked_def live_def)
    then obtain bs' where "mark_nested_widening_points b1 = Some bs'" "remarked b1 bs'" "acyclic (live_edges bs')"
      using less.hyps [of b1] remarked_edges_in [OF b1(2) less.prems] psubset_card_mono [of "{v. v < length bs \<and> live bs v}"] by auto
    then show ?thesis
      using cs(1) b1 False remarked_trans [OF b1(2)] by (auto simp: mark_nested_widening_points.simps [of bs])
  qed
qed

lemma closed_walk:
  assumes "c \<noteq> []" "\<And>i. i < length c \<Longrightarrow> (c ! i, c ! ((i + 1) mod length c)) \<in> r"
  shows "\<not> acyclic r"
proof -
  have "(c ! 0, c ! ((i + 1) mod length c)) \<in> r\<^sup>+" if "i < length c" for i
    using that
  proof (induction i)
    case 0
    then show ?case using assms(2) [of 0] by auto
  next
    case (Suc i)
    then show ?case using assms(2) [of "Suc i"] by (auto intro: trancl_into_trancl)
  qed
  from this [of "length c - 1"] show ?thesis using assms(1) by (auto simp: acyclic_def)
qed

subsection \<open>Property\<close>

text \<open>
  C20. Every loop has a widening point. On the blocks of a program whose graph is built, with whatever widening marks the
  earlier passes left, the last marking pass returns (no panic, no endless loop), changes nothing but adding marks, and
  afterwards every cycle of the graph, nested and irreducible ones included, goes through a marked block.
\<close>

theorem every_cycle_widened:
  assumes "build_graph prog = Ok r" "map block.truncate bs = ir_blocks r"
  shows "\<exists>bs'. mark_nested_widening_points bs = Some bs' \<and> map block.truncate bs' = ir_blocks r
    \<and> (\<forall>i < length bs. widen_here (bs ! i) \<longrightarrow> widen_here (bs' ! i))
    \<and> (\<forall>c. c \<noteq> [] \<and> (\<forall>i < length c. c ! i < length bs \<and> c ! ((i + 1) mod length c) \<in> set (bsuccs (bs' ! (c ! i))))
         \<longrightarrow> (\<exists>v \<in> set c. widen_here (bs' ! v)))"
proof -
  have "s < length bs" if "b \<in> set bs" "s \<in> set (bsuccs b)" for b s
  proof -
    have "block.truncate b \<in> set (ir_blocks r)" "bsuccs (block.truncate b) = bsuccs b"
      using that(1) by (simp_all flip: assms(2)) (simp add: block.truncate_def)
    then show ?thesis using block_edges_in [OF assms(1)] that(2) arg_cong [OF assms(2), of length] by auto
  qed
  then have "edges_in bs" by (simp add: edges_in_def)
  then obtain bs' where b: "mark_nested_widening_points bs = Some bs'" "remarked bs bs'" "acyclic (live_edges bs')"
    using mark_nested_spec by blast
  have "\<exists>v \<in> set c. widen_here (bs' ! v)"
    if c: "c \<noteq> []" "\<forall>i < length c. c ! i < length bs \<and> c ! ((i + 1) mod length c) \<in> set (bsuccs (bs' ! (c ! i)))" for c
  proof (rule ccontr)
    assume "\<not> ?thesis"
    then have "live bs' (c ! i)" if "i < length c" for i using that by (auto simp: live_def)
    then have "(c ! i, c ! ((i + 1) mod length c)) \<in> live_edges bs'" if "i < length c" for i
      using that c remarked_length [OF b(2)] by (simp add: live_edges_def)
    then show False using closed_walk [OF c(1)] b(3) by blast
  qed
  then show ?thesis using b assms(2) by (auto simp: remarked_def)
qed

text \<open>The loop of \<open>count_loop\<close> is block 1, which jumps to itself: it becomes a widening point.\<close>

theorem every_cycle_widened_witness:
  "\<exists>r bs'. build_graph count_loop = Ok r \<and> map bsuccs (ir_blocks r) = [[1], [1, 2], []]
    \<and> mark_nested_widening_points (map (\<lambda>b. block.extend b (marked_block.fields False)) (ir_blocks r)) = Some bs' \<and> widen_here (bs' ! 1)"
proof -
  have "case build_graph count_loop of Err _ \<Rightarrow> False | Ok r \<Rightarrow> map bsuccs (ir_blocks r) = [[1], [1, 2], []]" by code_simp
  then obtain r where r: "build_graph count_loop = Ok r" "map bsuccs (ir_blocks r) = [[1], [1, 2], []]"
    by (auto split: sum.splits)
  let ?bs = "map (\<lambda>b. block.extend b (marked_block.fields False)) (ir_blocks r)"
  have "block.truncate (block.extend b (marked_block.fields False)) = b" for b
    by (cases b) (simp add: block.truncate_def block.extend_def)
  then have t: "map block.truncate ?bs = ir_blocks r" by (simp add: comp_def)
  then obtain bs' where b: "mark_nested_widening_points ?bs = Some bs'" "map block.truncate bs' = ir_blocks r" and
    c: "\<And>c. c \<noteq> [] \<Longrightarrow> \<forall>i < length c. c ! i < length ?bs \<and> c ! ((i + 1) mod length c) \<in> set (bsuccs (bs' ! (c ! i)))
      \<Longrightarrow> \<exists>v \<in> set c. widen_here (bs' ! v)"
    using every_cycle_widened [OF r(1) t] by blast
  have "length bs' = 3" "length ?bs = 3" using r(2) b(2) by (metis length_map length_Cons list.size(3) numeral_3_eq_3, metis length_map length_Cons list.size(3) numeral_3_eq_3)
  moreover have "map bsuccs bs' = [[1], [1, 2], []]"
    using r(2) unfolding b(2) [symmetric] by (simp add: comp_def block.truncate_def)
  then have "bsuccs (bs' ! 1) = [1, 2]" using \<open>length bs' = 3\<close> by (metis nth_Cons_0 nth_Cons_Suc nth_map One_nat_def one_less_numeral_iff semiring_norm(77))
  ultimately have "widen_here (bs' ! 1)" using c [of "[1]"] by simp
  then show ?thesis using r b(1) by (intro exI [of _ r] exI [of _ bs'] conjI)
qed

end
