(* ===== verification/Bpf_Subprog.thy ===== *)
theory Bpf_Subprog
  imports Bpf_Cfg
begin

text \<open>
  The control-flow graph of \<open>Bpf_Cfg\<close> is well formed: blocks cover the instructions, edges and their
  inverse agree, and, what pass 2b of \<open>Ir::build\<close> (\<open>bpf/verifier/src/ir.rs\<close>) is there for, no edge leaves its subprogram.
\<close>

subsection \<open>Subprograms as intervals of slots\<close>

definition sub_of :: "nat list \<Rightarrow> nat \<Rightarrow> nat" where
  "sub_of entries s = length (takeWhile (\<lambda>e. e \<le> s) entries) - 1"

lemma strict_remdups_adj: "sorted xs \<Longrightarrow> sorted_wrt (<) (remdups_adj (xs :: 'a::linorder list))"
proof (induction xs rule: remdups_adj.induct)
  case (3 x y xs)
  show ?case
  proof (cases "x = y")
    case True
    then show ?thesis using 3 by simp
  next
    case False
    then have "x < y" using "3.prems" by auto
    moreover have "\<forall>z \<in> set (y # xs). y \<le> z" using "3.prems" by auto
    ultimately have "\<forall>z \<in> set (remdups_adj (y # xs)). x < z" by (metis order_less_le_trans remdups_adj_set)
    then show ?thesis using 3 False by simp
  qed
qed simp_all

lemma set_sort_dedup [simp]: "set (sort_dedup xs) = set xs"
  by (simp add: sort_dedup_def)

lemma sort_dedup_ne: "sort_dedup (x # xs) \<noteq> []"
  by (metis list.distinct(1) set_empty set_sort_dedup)

lemma entries_props:
  "sorted_wrt (<) (sort_dedup (0 # es))" "set (sort_dedup (0 # es)) = insert 0 (set es)" "sort_dedup (0 # es) ! 0 = (0 :: nat)"
    "sort_dedup (0 # es) \<noteq> ([] :: nat list)"
proof -
  show s: "sorted_wrt (<) (sort_dedup (0 # es))" by (simp only: sort_dedup_def strict_remdups_adj sorted_sort)
  show st: "set (sort_dedup (0 # es)) = insert 0 (set es)" by simp
  show ne: "sort_dedup (0 # es) \<noteq> []" by (rule sort_dedup_ne)
  obtain k where k: "k < length (sort_dedup (0 # es))" "sort_dedup (0 # es) ! k = 0" using st by (metis in_set_conv_nth insertI1)
  then show "sort_dedup (0 # es) ! 0 = 0" using sorted_wrt_nth_less [OF s, of 0 k] by (cases k) auto
qed

lemma sub_of_iff:
  assumes "sorted_wrt (<) entries" "entries \<noteq> []" "entries ! 0 = 0" "k < length entries"
  shows "sub_of entries s = k \<longleftrightarrow> entries ! k \<le> s \<and> (k + 1 < length entries \<longrightarrow> s < entries ! (k + 1))"
proof -
  let ?t = "takeWhile (\<lambda>e. e \<le> s) entries"
  have pos: "0 < length ?t" using assms(2,3) by (cases entries) auto
  have below: "entries ! j \<le> s" if "j < length ?t" for j
    using that set_takeWhileD [of "entries ! j" "\<lambda>e. e \<le> s" entries] by (metis nth_mem takeWhile_nth)
  have above: "s < entries ! j" if "length ?t \<le> j" "j < length entries" for j
  proof -
    have "\<not> entries ! length ?t \<le> s" using nth_length_takeWhile [of "\<lambda>e. e \<le> s" entries] that by simp
    then show ?thesis using sorted_wrt_nth_less [OF assms(1), of "length ?t" j] that by (cases "j = length ?t") auto
  qed
  have le: "length ?t \<le> length entries" by (rule length_takeWhile_le)
  show ?thesis
  proof
    assume "sub_of entries s = k"
    then have "length ?t = k + 1" using pos unfolding sub_of_def by linarith
    then show "entries ! k \<le> s \<and> (k + 1 < length entries \<longrightarrow> s < entries ! (k + 1))" using below [of k] above [of "k + 1"] by simp
  next
    assume a: "entries ! k \<le> s \<and> (k + 1 < length entries \<longrightarrow> s < entries ! (k + 1))"
    then have "k < length ?t" using above [of k] assms(4) by force
    moreover have "\<not> k + 1 < length ?t" using below [of "k + 1"] a le by force
    ultimately show "sub_of entries s = k" by (simp add: sub_of_def)
  qed
qed

lemma sub_of_less: "entries \<noteq> [] \<Longrightarrow> sub_of entries s < length entries"
  using length_takeWhile_le [of "\<lambda>e. e \<le> s" entries] by (cases entries) (auto simp: sub_of_def)

text \<open>The check of pass 2b keeps every edge inside.\<close>

lemma confine_nth:
  "confine entries len is sss = Ok () \<Longrightarrow> i < length is \<Longrightarrow> length sss = length is \<Longrightarrow> t \<in> set (sss ! i) \<Longrightarrow>
   fst (enclosing entries len (islot (is ! i))) \<le> t \<and> t < snd (enclosing entries len (islot (is ! i)))"
proof (induction entries len "is" sss arbitrary: i rule: confine.induct)
  case (1 entries len a "is" ss sss)
  obtain lo hi where e: "enclosing entries len (islot a) = (lo, hi)" by (rule prod.exhaust)
  have f: "List.find (\<lambda>t. t < lo \<or> t \<ge> hi) ss = None" "confine entries len is sss = Ok ()"
    using "1.prems"(1) e by (auto split: option.splits)
  show ?case
  proof (cases i)
    case 0
    then show ?thesis using f(1) e "1.prems"(4) by (auto simp: find_None_iff)
  next
    case (Suc j)
    then show ?thesis using "1.IH" [OF e [symmetric] refl f, of j] "1.prems"(2-4) by simp
  qed
qed auto

lemma confined_sub:
  assumes "confine entries len is sss = Ok ()" "i < length is" "length sss = length is" "t \<in> set (sss ! i)"
    and "sorted_wrt (<) entries" "entries \<noteq> []" "entries ! 0 = 0"
  shows "sub_of entries t = sub_of entries (islot (is ! i))"
proof -
  let ?k = "sub_of entries (islot (is ! i))"
  have "entries ! ?k \<le> t \<and> (?k + 1 < length entries \<longrightarrow> t < entries ! (?k + 1))"
    using confine_nth [OF assms(1-4)] by (auto simp: enclosing_def Let_def sub_of_def nth_opt_def split: if_splits)
  then show ?thesis using sub_of_iff [OF assms(5-7) sub_of_less [OF assms(6)]] by blast
qed

subsection \<open>Blocks and instructions\<close>

text \<open>The block number goes up by one at a leader and stays otherwise.\<close>

definition block_numbers :: "bool list \<Rightarrow> nat \<Rightarrow> block list \<Rightarrow> nat list \<Rightarrow> bool" where
  "block_numbers lead m bs bof \<longleftrightarrow>
     length bof = m \<and> set bof = {..<length bs} \<and> bof ! (m - 1) = length bs - 1
     \<and> (\<forall>i. i + 1 < m \<longrightarrow> bof ! (i + 1) = (if lead ! (i + 1) then bof ! i + 1 else bof ! i))"

lemma raw_block_numbers:
  assumes "lead ! 0"
  shows "0 < m \<Longrightarrow> case fold (block_step lead) [0..<m] ([], []) of (bs, bof) \<Rightarrow> block_numbers lead m bs bof"
proof (induction m)
  case (Suc m)
  show ?case
  proof (cases "m = 0")
    case True
    then show ?thesis using assms by (auto simp: block_step_def block_numbers_def Let_def)
  next
    case False
    obtain bs bof where f: "fold (block_step lead) [0..<m] ([], []) = (bs, bof)" by (rule prod.exhaust)
    then have "block_numbers lead m bs bof" using Suc.IH False by simp
    then have N: "length bof = m" "set bof = {..<length bs}" "bof ! (m - 1) = length bs - 1"
      "\<And>i. i + 1 < m \<Longrightarrow> bof ! (i + 1) = (if lead ! (i + 1) then bof ! i + 1 else bof ! i)"
      unfolding block_numbers_def by blast+
    have "bof \<noteq> []" using N(1) False by auto
    then have ne: "bs \<noteq> []" using N(2) by (metis lessThan_0 list.size(3) set_empty)
    define bs' where "bs' = fst (block_step lead m (bs, bof))"
    have st: "block_step lead m (bs, bof) = (bs', bof @ [length bs' - 1])"
      by (simp add: bs'_def block_step_def Let_def)
    have len: "length bs' = (if lead ! m then length bs + 1 else length bs)"
      using ne by (simp add: bs'_def block_step_def Let_def)
    have "(bof @ [length bs' - 1]) ! (i + 1) = (if lead ! (i + 1) then (bof @ [length bs' - 1]) ! i + 1 else (bof @ [length bs' - 1]) ! i)"
      if "i + 1 < Suc m" for i
    proof (cases "i + 1 < m")
      case True
      then show ?thesis using N(1) N(4) [OF True] by (simp add: nth_append)
    next
      case last: False
      then have "m = i + 1" using that by simp
      then show ?thesis using N(1,3) len ne by (simp add: nth_append)
    qed
    moreover have "set (bof @ [length bs' - 1]) = {..<length bs'}" 
      using N(2) len ne by (cases "lead ! m") (simp_all add: lessThan_Suc insert_absorb)
    ultimately show ?thesis using f st N(1) by (simp add: block_numbers_def nth_append)
  qed
qed simp

lemma block_numbersD:
  assumes "block_numbers lead m bs bof"
  shows "i + 1 < m \<Longrightarrow> bof ! (i + 1) = (if lead ! (i + 1) then bof ! i + 1 else bof ! i)"
    and "length bof = m" "set bof = {..<length bs}"
  using assms unfolding block_numbers_def by blast+

lemma block_numbers_mono:
  assumes "block_numbers lead m bs bof"
  shows "i \<le> j \<Longrightarrow> j < m \<Longrightarrow> bof ! i \<le> bof ! j \<and> (bof ! i = bof ! j \<longrightarrow> (\<forall>k. i < k \<and> k \<le> j \<longrightarrow> \<not> lead ! k))"
proof (induction j)
  case (Suc j)
  have s: "bof ! Suc j = (if lead ! Suc j then bof ! j + 1 else bof ! j)" 
    using block_numbersD(1) [OF assms, of j] Suc.prems(2) by simp
  show ?case
  proof (cases "i = Suc j")
    case False
    then have IH: "bof ! i \<le> bof ! j" "bof ! i = bof ! j \<Longrightarrow> i < k \<Longrightarrow> k \<le> j \<Longrightarrow> \<not> lead ! k" for k using Suc by simp_all
    show ?thesis
    proof (cases "lead ! Suc j")
      case True
      then show ?thesis using s IH(1) by simp
    next
      case False
      then show ?thesis using s IH by (metis le_Suc_eq)
    qed
  qed auto
qed auto

lemma block_numbers_run:
  assumes "block_numbers lead m bs bof" "blocks_ok lead m bs bof" "bof ! i = b"
  shows "i \<le> k \<Longrightarrow> k < m \<Longrightarrow> k < bend (bs ! b) \<Longrightarrow> bof ! k = b"
proof (induction k)
  case (Suc k)
  show ?case
  proof (cases "i = Suc k")
    case False
    then have k: "bof ! k = b" using Suc by simp
    then have "\<not> lead ! (k + 1)" using blocks_okD(6) [OF assms(2), of k] Suc.prems by simp
    then show ?thesis using block_numbersD(1) [OF assms(1), of k] k Suc.prems(2) by simp
  qed (use assms(3) in simp)
qed (use assms(3) in simp)

lemma leaders_entries:
  assumes "is \<noteq> []" "e \<in> set entries" "to_ir tab e < length is"
  shows "leaders tab is entries sss ! to_ir tab e"
proof -
  let ?l0 = "(replicate (length is) False)[0 := True]"
  have len: "length (fold (\<lambda>s l. l[to_ir tab s := True]) entries ?l0) = length is"
    by (induction entries rule: rev_induct) simp_all
  then show ?thesis
    using fold_mark [of "to_ir tab e" ?l0 "to_ir tab" entries] fold_mark_leaders [of "to_ir tab e"] assms
    by (simp add: leaders_def Let_def)
qed

text \<open>Slots grow with instructions.\<close>

lemma islot_mono:
  assumes "tiled prog (length prog) is tab" "i < j" "j < length is"
  shows "islot (is ! i) < islot (is ! j)"
  using assms(2,3)
proof (induction j)
  case (Suc j)
  have "islot (is ! Suc j) = next_slot (is ! j)" using tiledD(6) [OF assms(1), of j] Suc.prems by simp
  moreover have "islot (is ! j) < next_slot (is ! j)"
    using decode_fits [OF tiledD(3) [OF assms(1), of j]] Suc.prems by (simp add: next_slot_def)
  ultimately show ?case using Suc by (cases "i = j") auto
qed simp

lemma islot_le_iff:
  assumes "tiled prog (length prog) is tab" "i < length is" "j < length is"
  shows "islot (is ! i) \<le> islot (is ! j) \<longleftrightarrow> i \<le> j"
  using islot_mono [OF assms(1), of i j] islot_mono [OF assms(1), of j i] assms(2,3) by (cases i j rule: linorder_cases) auto

subsection \<open>Labels\<close>

definition label_one :: "nat list \<Rightarrow> nat \<times> nat \<Rightarrow> block list \<Rightarrow> block list" where
  "label_one bof p bs = bs[bof ! fst p := (bs ! (bof ! fst p))\<lparr>bsubprog := Some (snd p)\<rparr>]"

definition label_pairs :: "nat option list \<Rightarrow> nat list \<Rightarrow> nat \<Rightarrow> (nat \<times> nat) list" where
  "label_pairs tab entries n = concat (map (\<lambda>si. map (\<lambda>i. (i, si))
     [to_ir tab (entries ! si)..<(case nth_opt entries (si + 1) of Some s \<Rightarrow> to_ir tab s | None \<Rightarrow> n)]) [0..<length entries])"

lemma label_blocks_pairs: "label_blocks tab bof entries n bs = fold (label_one bof) (label_pairs tab entries n) bs"
proof -
  have "fold (\<lambda>si bs. fold (g si) (h si) bs) ks bs = fold (\<lambda>p. g (snd p) (fst p)) (concat (map (\<lambda>si. map (\<lambda>i. (i, si)) (h si)) ks)) bs"
    for g :: "nat \<Rightarrow> nat \<Rightarrow> block list \<Rightarrow> block list" and h ks bs
    by (induction ks arbitrary: bs) (simp_all add: fold_map comp_def)
  moreover have "label_one bof = (\<lambda>p bs. bs[bof ! fst p := (bs ! (bof ! fst p))\<lparr>bsubprog := Some (snd p)\<rparr>])"
    by (simp add: fun_eq_iff label_one_def)
  ultimately show ?thesis by (simp add: label_blocks_def label_pairs_def Let_def)
qed

lemma label_pairs_mem:
  "(i, si) \<in> set (label_pairs tab entries n) \<longleftrightarrow> si < length entries \<and> to_ir tab (entries ! si) \<le> i
     \<and> i < (if si + 1 < length entries then to_ir tab (entries ! (si + 1)) else n)"
proof -
  have "(i, si) \<in> set (concat (map (\<lambda>s. map (\<lambda>i. (i, s)) [lo s..<hi s]) [0..<len])) \<longleftrightarrow> si < len \<and> lo si \<le> i \<and> i < hi si"
    for lo hi :: "nat \<Rightarrow> nat" and len by (auto simp: image_iff)
  then show ?thesis by (simp add: label_pairs_def nth_opt_def)
qed

lemma label_edges: "map edges (fold (label_one bof) (label_pairs tab entries n) bs) = map edges bs"
  by (metis edges_label_blocks label_blocks_pairs)

lemma fold_label_one:
  "length (fold (label_one bof) ps bs) = length bs
   \<and> (b < length bs \<longrightarrow> bpreds (fold (label_one bof) ps bs ! b) = bpreds (bs ! b)
       \<and> (if \<exists>p \<in> set ps. bof ! fst p = b then \<exists>p \<in> set ps. bof ! fst p = b \<and> bsubprog (fold (label_one bof) ps bs ! b) = Some (snd p)
          else bsubprog (fold (label_one bof) ps bs ! b) = bsubprog (bs ! b)))"
proof (induction ps rule: rev_induct)
  case (snoc p ps)
  let ?f = "fold (label_one bof) ps bs"
  have f: "fold (label_one bof) (ps @ [p]) bs = ?f[bof ! fst p := (?f ! (bof ! fst p))\<lparr>bsubprog := Some (snd p)\<rparr>]"
    by (simp add: label_one_def)
  have len: "length ?f = length bs" using snoc by simp
  show ?case
  proof (cases "bof ! fst p = b")
    case True
    then show ?thesis using snoc f len by (auto simp: nth_list_update)
  next
    case False
    then show ?thesis using snoc f len by (auto simp: nth_list_update)
  qed
qed simp

lemma flow_pass_entries:
  "flow_pass tab is = Ok (sss, es, ts) \<Longrightarrow> x \<in> set es \<Longrightarrow> \<exists>k < length is. \<exists>ss e t. flow_insn tab (is ! k) = Ok (ss, e, t) \<and> x \<in> set e"
proof (induction "is" arbitrary: sss es ts)
  case (Cons i "is")
  obtain s e t ss' es' ts' where f: "flow_insn tab i = Ok (s, e, t)" "flow_pass tab is = Ok (ss', es', ts')" "es = e @ es'"
    using Cons.prems(1) by (auto simp: bind_Ok)
  show ?case
  proof (cases "x \<in> set e")
    case True
    then show ?thesis using f(1) by (intro exI [of _ 0]) simp
  next
    case False
    then obtain k where "k < length is" "\<exists>ss e t. flow_insn tab (is ! k) = Ok (ss, e, t) \<and> x \<in> set e"
      using Cons.IH [OF f(2)] Cons.prems(2) f(3) by auto
    then show ?thesis by (intro exI [of _ "Suc k"]) simp
  qed
qed simp

text \<open>An entry slot starts an instruction.\<close>

lemma entry_insn:
  assumes "tiled prog (length prog) is tab" "is \<noteq> []" "flow_pass tab is = Ok (sss, es, ts)" "e \<in> set (sort_dedup (0 # es))"
  shows "to_ir tab e < length is \<and> islot (is ! to_ir tab e) = e"
proof -
  have "e < length prog \<and> (\<exists>j. tab ! e = Some j)"
  proof (cases "e = 0")
    case True
    have z: "islot (is ! 0) = 0" using tiledD(8) [OF assms(1)] assms(2) by simp
    then have "tab ! 0 = Some 0" using tiledD(5) [OF assms(1), of 0] assms(2) by auto
    then show ?thesis using True z tiledD(4) [OF assms(1), of 0] assms(2) by auto
  next
    case False
    then have "e \<in> set es" using assms(4) by simp
    then show ?thesis using flow_pass_entries [OF assms(3)] flow_insn_targets [OF assms(1)] by (metis UnI2)
  qed
  then show ?thesis using tiledD(7) [OF assms(1), of e] by (auto simp: to_ir_def)
qed

lemma label_pairs_iff:
  assumes "tiled prog (length prog) is tab" "is \<noteq> []" "flow_pass tab is = Ok (sss, es, ts)" "i < length is"
  shows "(i, si) \<in> set (label_pairs tab (sort_dedup (0 # es)) (length is)) \<longleftrightarrow> si = sub_of (sort_dedup (0 # es)) (islot (is ! i))"
proof -
  let ?en = "sort_dedup (0 # es)"
  note P = entries_props [of es]
  note I = entry_insn [OF assms(1-3)]
  have cmp: "to_ir tab e \<le> i \<longleftrightarrow> e \<le> islot (is ! i)" if "e \<in> set ?en" for e
    using I [OF that] islot_le_iff [OF assms(1), of "to_ir tab e" i] assms(4) by simp
  have "(i, si) \<in> set (label_pairs tab ?en (length is)) \<longleftrightarrow> si < length ?en \<and> to_ir tab (?en ! si) \<le> i
      \<and> (si + 1 < length ?en \<longrightarrow> \<not> to_ir tab (?en ! (si + 1)) \<le> i)"
    using assms(4) by (auto simp: label_pairs_mem)
  also have "\<dots> \<longleftrightarrow> si < length ?en \<and> ?en ! si \<le> islot (is ! i) \<and> (si + 1 < length ?en \<longrightarrow> islot (is ! i) < ?en ! (si + 1))"
    using cmp nth_mem [of _ ?en] by (metis not_le)
  also have "\<dots> \<longleftrightarrow> si = sub_of ?en (islot (is ! i))"
    using sub_of_iff [OF P(1,4,3), of si] sub_of_less [OF P(4)] by metis
  finally show ?thesis .
qed

lemma label_pairs_range: "(i, si) \<in> set (label_pairs tab entries n) \<Longrightarrow>
  (\<forall>e \<in> set entries. to_ir tab e < n) \<Longrightarrow> i < n"
  using nth_mem [of "si + 1" entries] by (fastforce simp: label_pairs_mem split: if_splits)

text \<open>The blocks of a graph: what they cover, and the subprogram of an instruction's block.\<close>

lemma graph_blocks:
  assumes "build_graph prog = Ok r"
  obtains sss es ts bs where "tiled prog (length prog) (ir_insns r) (ir_of_slot r)" "ir_insns r \<noteq> []"
    "flow_pass (ir_of_slot r) (ir_insns r) = Ok (sss, es, ts)"
    "confine (sort_dedup (0 # es)) (length prog) (ir_insns r) sss = Ok ()"
    "blocks_ok (leaders (ir_of_slot r) (ir_insns r) (sort_dedup (0 # es)) sss) (length (ir_insns r)) bs (ir_block_of r)"
    "block_numbers (leaders (ir_of_slot r) (ir_insns r) (sort_dedup (0 # es)) sss) (length (ir_insns r)) bs (ir_block_of r)"
    "ir_blocks r = fold (label_one (ir_block_of r)) (label_pairs (ir_of_slot r) (sort_dedup (0 # es)) (length (ir_insns r)))
       (link_blocks (ir_of_slot r) (ir_block_of r) sss bs)"
    "ir_subprogs r = make_subprogs (ir_of_slot r) (ir_block_of r) (sort_dedup (0 # es))
       (call_edges (sort_dedup (0 # es)) (ir_block_of r) (ir_blocks r) (ir_insns r))"
proof -
  obtain sss es ts bs where F: "prog \<noteq> []" "tiled prog (length prog) (ir_insns r) (ir_of_slot r)"
    "flow_pass (ir_of_slot r) (ir_insns r) = Ok (sss, es, ts)"
    "confine (sort_dedup (0 # es)) (length prog) (ir_insns r) sss = Ok ()"
    and raw: "raw_blocks (leaders (ir_of_slot r) (ir_insns r) (sort_dedup (0 # es)) sss) = (bs, ir_block_of r)"
    and G: "ir_blocks r = label_blocks (ir_of_slot r) (ir_block_of r) (sort_dedup (0 # es)) (length (ir_insns r))
       (link_blocks (ir_of_slot r) (ir_block_of r) sss bs)"
    "ir_subprogs r = make_subprogs (ir_of_slot r) (ir_block_of r) (sort_dedup (0 # es))
       (call_edges (sort_dedup (0 # es)) (ir_block_of r) (ir_blocks r) (ir_insns r))"
    using assms by (rule build_graph_full)
  let ?L = "leaders (ir_of_slot r) (ir_insns r) (sort_dedup (0 # es)) sss"
  have ne: "ir_insns r \<noteq> []" using tiledD(8) [OF F(2)] F(1) by (auto split: if_splits)
  note L = leaders_props [OF ne, of ?L, OF refl]
  have "?L \<noteq> []" using L(1) ne by auto
  then have "blocks_ok ?L (length (ir_insns r)) bs (ir_block_of r)" "block_numbers ?L (length (ir_insns r)) bs (ir_block_of r)"
    using raw_blocks_ok [of ?L "length (ir_insns r)"] raw_block_numbers [of ?L "length (ir_insns r)"] L(1,2) raw ne
    by (simp_all add: raw_blocks_def)
  then show ?thesis using that F ne G by (simp add: label_blocks_pairs)
qed

text \<open>All instructions of a block are in one subprogram.\<close>

lemma same_block_same_sub:
  assumes "tiled prog (length prog) is tab" "is \<noteq> []" "flow_pass tab is = Ok (sss, es, ts)"
    and "block_numbers (leaders tab is (sort_dedup (0 # es)) sss) (length is) bs bof"
    and "i \<le> j" "j < length is" "bof ! i = bof ! j"
  shows "sub_of (sort_dedup (0 # es)) (islot (is ! i)) = sub_of (sort_dedup (0 # es)) (islot (is ! j))"
proof -
  let ?en = "sort_dedup (0 # es)"
  note P = entries_props [of es]
  have i: "i < length is" using assms(5,6) by simp
  have quiet: "\<not> leaders tab is ?en sss ! k" if "i < k" "k \<le> j" for k
    using block_numbers_mono [OF assms(4-6)] assms(7) that by blast
  have gap: "islot (is ! i) < e \<Longrightarrow> \<not> e \<le> islot (is ! j)" if e: "e \<in> set ?en" for e
  proof
    assume a: "islot (is ! i) < e" "e \<le> islot (is ! j)"
    note I = entry_insn [OF assms(1-3) e]
    have "i < to_ir tab e" "to_ir tab e \<le> j"
      using a I islot_le_iff [OF assms(1), of "to_ir tab e" i] islot_le_iff [OF assms(1), of "to_ir tab e" j] i assms(6) by auto
    then show False using quiet leaders_entries [OF assms(2) e] I by blast
  qed
  let ?k = "sub_of ?en (islot (is ! i))"
  note S = sub_of_iff [OF P(1,4,3) sub_of_less [OF P(4), of "islot (is ! i)"]]
  have "?en ! ?k \<le> islot (is ! i) \<and> (?k + 1 < length ?en \<longrightarrow> islot (is ! i) < ?en ! (?k + 1))" using S [of "islot (is ! i)"] by simp
  moreover have "islot (is ! i) \<le> islot (is ! j)" using islot_le_iff [OF assms(1) i assms(6)] assms(5) by simp
  ultimately have "?en ! ?k \<le> islot (is ! j) \<and> (?k + 1 < length ?en \<longrightarrow> islot (is ! j) < ?en ! (?k + 1))"
    using gap [of "?en ! (?k + 1)"] nth_mem [of "?k + 1" ?en] by force
  then show ?thesis using S [of "islot (is ! j)"] by simp
qed

text \<open>The label of a block is the subprogram of its instructions.\<close>

lemma block_label:
  assumes "build_graph prog = Ok r" "flow_pass (ir_of_slot r) (ir_insns r) = Ok (sss, es, ts)" "i < length (ir_insns r)"
  shows "ir_block_of r ! i < length (ir_blocks r)
    \<and> bsubprog (ir_blocks r ! (ir_block_of r ! i)) = Some (sub_of (sort_dedup (0 # es)) (islot (ir_insns r ! i)))"
proof -
  let ?en = "sort_dedup (0 # es)" and ?is = "ir_insns r" and ?bof = "ir_block_of r"
  obtain bs where T: "tiled prog (length prog) ?is (ir_of_slot r)" "?is \<noteq> []"
    and N: "block_numbers (leaders (ir_of_slot r) ?is ?en sss) (length ?is) bs ?bof"
    and B: "ir_blocks r = fold (label_one ?bof) (label_pairs (ir_of_slot r) ?en (length ?is)) (link_blocks (ir_of_slot r) ?bof sss bs)"
    by (rule graph_blocks [OF assms(1)]) (use assms(2) in auto)
  let ?ps = "label_pairs (ir_of_slot r) ?en (length ?is)" and ?b = "?bof ! i"
  note pairs = label_pairs_iff [OF T assms(2)]
  have b: "?b < length (link_blocks (ir_of_slot r) ?bof sss bs)"
    using block_numbersD(2,3) [OF N] assms(3) nth_mem [of i ?bof] by (simp add: link_blocks_def)
  have "(i, sub_of ?en (islot (?is ! i))) \<in> set ?ps" using pairs [OF assms(3)] by simp
  then have "\<exists>p \<in> set ?ps. ?bof ! fst p = ?b" by force
  then obtain p where p: "p \<in> set ?ps" "?bof ! fst p = ?b" "bsubprog (ir_blocks r ! ?b) = Some (snd p)"
    using fold_label_one [of ?bof ?ps "link_blocks (ir_of_slot r) ?bof sss bs" ?b] b unfolding B by auto
  have j: "fst p < length ?is"
    using label_pairs_range [of "fst p" "snd p"] p(1) entry_insn [OF T assms(2)] by (metis prod.collapse)
  then have "snd p = sub_of ?en (islot (?is ! fst p))" using pairs [OF j, of "snd p"] p(1) by simp
  moreover have "sub_of ?en (islot (?is ! fst p)) = sub_of ?en (islot (?is ! i))"
    using same_block_same_sub [OF T assms(2) N, of "fst p" i] same_block_same_sub [OF T assms(2) N, of i "fst p"] p(2) j assms(3)
    by (metis nat_le_linear)
  ultimately show ?thesis using p(3) b fold_label_one [of ?bof ?ps "link_blocks (ir_of_slot r) ?bof sss bs"] B by simp
qed

text \<open>The edges of a labelled block, read off its last instruction.\<close>

lemma block_edge_sources:
  assumes "build_graph prog = Ok r" "flow_pass (ir_of_slot r) (ir_insns r) = Ok (sss, es, ts)"
    and "confine (sort_dedup (0 # es)) (length prog) (ir_insns r) sss = Ok ()" "b < length (ir_blocks r)" "s \<in> set (bsuccs (ir_blocks r ! b))"
  shows "s < length (ir_blocks r) \<and> bsubprog (ir_blocks r ! s) = bsubprog (ir_blocks r ! b)"
proof -
  let ?en = "sort_dedup (0 # es)" and ?is = "ir_insns r" and ?bof = "ir_block_of r" and ?tab = "ir_of_slot r"
  let ?L = "leaders ?tab ?is ?en sss"
  obtain bs where T: "tiled prog (length prog) ?is ?tab" "?is \<noteq> []"
    and ok: "blocks_ok ?L (length ?is) bs ?bof" and N: "block_numbers ?L (length ?is) bs ?bof"
    and B: "ir_blocks r = fold (label_one ?bof) (label_pairs ?tab ?en (length ?is)) (link_blocks ?tab ?bof sss bs)"
    by (rule graph_blocks [OF assms(1)]) (use assms(2) in auto)
  have len: "length (ir_blocks r) = length bs" using fold_label_one B by (simp add: link_blocks_def)
  have "map edges (ir_blocks r) = map edges (link_blocks ?tab ?bof sss bs)" using label_edges B by simp
  then have "edges (ir_blocks r ! b) = edges (link_blocks ?tab ?bof sss bs ! b)"
    using assms(4) len by (metis (no_types, lifting) length_map nth_map)
  then have succs: "set (bsuccs (ir_blocks r ! b)) = (\<lambda>t. ?bof ! to_ir ?tab t) ` set (sss ! (bend (bs ! b) - 1))"
    using edges_link [of b bs ?tab ?bof sss] assms(4) len by (simp add: edges_def block_succs_def)
  let ?e = "bend (bs ! b) - 1"
  obtain i where i: "i < length ?is" "?bof ! i = b"
    using block_numbersD(2,3) [OF N] assms(4) len by (metis in_set_conv_nth lessThan_iff)
  have "length ?L = length ?is" using leaders_props(1) [OF T(2) refl] .
  then have e: "?e < length ?is" "i \<le> ?e" "?e < bend (bs ! b)"
    using blocks_okD(7) [OF ok nth_mem [of b bs]] blocks_okD(4) [OF ok i(1)] i assms(4) len by auto
  then have last: "?bof ! ?e = b" using block_numbers_run [OF N ok i(2), of ?e] by simp
  obtain t where t: "t \<in> set (sss ! ?e)" "s = ?bof ! to_ir ?tab t" using assms(5) succs by auto
  have tgt: "t < length prog" "?tab ! t = Some (to_ir ?tab t)" "to_ir ?tab t < length ?is" using flow_targets [OF T(1) assms(2) e(1) t(1)] by auto
  then have "islot (?is ! to_ir ?tab t) = t" using tiledD(7) [OF T(1)] by blast
  moreover have "sub_of ?en t = sub_of ?en (islot (?is ! ?e))"
    by (rule confined_sub [OF assms(3) e(1) _ t(1) entries_props(1,4,3)]) (simp add: flow_pass_nth [OF assms(2)])
  ultimately show ?thesis
    using block_label [OF assms(1,2) tgt(3)] block_label [OF assms(1,2) e(1)] t(2) last by simp
qed

lemma pred_iff:
  assumes "build_graph prog = Ok r" "b < length (ir_blocks r)"
  shows "p \<in> set (bpreds (ir_blocks r ! b)) \<longleftrightarrow> p < length (ir_blocks r) \<and> b \<in> set (bsuccs (ir_blocks r ! p))"
proof -
  obtain sss es ts bs where F: "flow_pass (ir_of_slot r) (ir_insns r) = Ok (sss, es, ts)"
    and B: "ir_blocks r = fold (label_one (ir_block_of r)) (label_pairs (ir_of_slot r) (sort_dedup (0 # es)) (length (ir_insns r)))
       (link_blocks (ir_of_slot r) (ir_block_of r) sss bs)"
    using assms(1) by (rule graph_blocks)
  let ?l = "link_blocks (ir_of_slot r) (ir_block_of r) sss bs"
  have len: "length (ir_blocks r) = length ?l" "length ?l = length bs" using fold_label_one B by (simp_all add: link_blocks_def)
  have preds: "bpreds (ir_blocks r ! b) = bpreds (?l ! b)" using fold_label_one [of _ _ ?l b] B len assms(2) by simp
  have "map edges (ir_blocks r) = map edges ?l" using label_edges B by simp
  then have succs: "bsuccs (ir_blocks r ! k) = bsuccs (?l ! k)" if "k < length bs" for k
    using that len by (metis (no_types, lifting) Pair_inject edges_def nth_map)
  show ?thesis
    using preds succs [of p] assms(2) len by (auto simp: link_blocks_def intro!: bexI [of _ p])
qed

subsection \<open>Property\<close>

text \<open>
  C21. The graph that the verifier builds is well formed. Every instruction lies inside the block it is assigned to and every
  block holds an instruction; predecessors are exactly the inverse of successors; every block belongs to one
  subprogram and so does the entry block of each subprogram; and no edge leaves its subprogram, the fact on which the
  verifier's order of analysis, its recursion check and its frame model rest.
\<close>

theorem graph_well_formed:
  assumes "build_graph prog = Ok r"
  shows "(\<forall>i < length (ir_insns r). ir_block_of r ! i < length (ir_blocks r)
        \<and> bstart (ir_blocks r ! (ir_block_of r ! i)) \<le> i \<and> i < bend (ir_blocks r ! (ir_block_of r ! i)))
    \<and> (\<forall>b < length (ir_blocks r).
        (\<exists>i < length (ir_insns r). ir_block_of r ! i = b)
        \<and> (\<forall>p. p \<in> set (bpreds (ir_blocks r ! b)) \<longleftrightarrow> p < length (ir_blocks r) \<and> b \<in> set (bsuccs (ir_blocks r ! p)))
        \<and> (\<exists>si < length (ir_subprogs r). bsubprog (ir_blocks r ! b) = Some si)
        \<and> (\<forall>s \<in> set (bsuccs (ir_blocks r ! b)). s < length (ir_blocks r) \<and> bsubprog (ir_blocks r ! s) = bsubprog (ir_blocks r ! b)))
    \<and> (\<forall>si < length (ir_subprogs r). entry_block (ir_subprogs r ! si) < length (ir_blocks r)
        \<and> bsubprog (ir_blocks r ! entry_block (ir_subprogs r ! si)) = Some si)"
proof -
  let ?is = "ir_insns r" and ?bof = "ir_block_of r" and ?tab = "ir_of_slot r"
  obtain sss es ts bs where T: "tiled prog (length prog) ?is ?tab" "?is \<noteq> []"
    and F: "flow_pass ?tab ?is = Ok (sss, es, ts)" and C: "confine (sort_dedup (0 # es)) (length prog) ?is sss = Ok ()"
    and N: "block_numbers (leaders ?tab ?is (sort_dedup (0 # es)) sss) (length ?is) bs ?bof"
    and B: "ir_blocks r = fold (label_one ?bof) (label_pairs ?tab (sort_dedup (0 # es)) (length ?is)) (link_blocks ?tab ?bof sss bs)"
    and S: "ir_subprogs r = make_subprogs ?tab ?bof (sort_dedup (0 # es)) (call_edges (sort_dedup (0 # es)) ?bof (ir_blocks r) ?is)"
    using assms by (rule graph_blocks)
  let ?en = "sort_dedup (0 # es)"
  note lab = block_label [OF assms F] and P = entries_props [of es]
  obtain bs' where ok: "blocks_ok (leaders ?tab ?is ?en sss) (length ?is) bs' ?bof" and
    blk: "\<And>k. k < length bs' \<Longrightarrow> bstart (ir_blocks r ! k) = bstart (bs' ! k)" "\<And>k. k < length bs' \<Longrightarrow> bend (ir_blocks r ! k) = bend (bs' ! k)"
    using build_graph_blocks [OF assms F] by metis
  have ins: "?bof ! i < length (ir_blocks r) \<and> bstart (ir_blocks r ! (?bof ! i)) \<le> i \<and> i < bend (ir_blocks r ! (?bof ! i))"
    if "i < length ?is" for i
    using lab [OF that] blk blocks_okD(2-4) [OF ok that] by simp
  have onto: "\<exists>i < length ?is. ?bof ! i = b" if "b < length (ir_blocks r)" for b
  proof -
    have "length (ir_blocks r) = length bs" using fold_label_one B by (simp add: link_blocks_def)
    then show ?thesis using that block_numbersD(2,3) [OF N] by (metis in_set_conv_nth lessThan_iff)
  qed
  have subs: "length (ir_subprogs r) = length ?en" by (simp add: S make_subprogs_def)
  have sub: "\<exists>si < length (ir_subprogs r). bsubprog (ir_blocks r ! b) = Some si" if "b < length (ir_blocks r)" for b
    using onto [OF that] lab sub_of_less [OF P(4)] subs by metis
  have ent: "entry_block (ir_subprogs r ! si) < length (ir_blocks r) \<and> bsubprog (ir_blocks r ! entry_block (ir_subprogs r ! si)) = Some si"
    if "si < length (ir_subprogs r)" for si
  proof -
    have si: "si < length ?en" using that subs by simp
    note I = entry_insn [OF T F nth_mem [OF si]]
    have "entry_block (ir_subprogs r ! si) = ?bof ! to_ir ?tab (?en ! si)" using si by (simp add: S make_subprogs_def)
    moreover have "sub_of ?en (?en ! si) = si"
      using sub_of_iff [OF P(1,4,3) si, of "?en ! si"] sorted_wrt_nth_less [OF P(1), of si "si + 1"] by simp
    ultimately show ?thesis using lab [of "to_ir ?tab (?en ! si)"] I by simp
  qed
  show ?thesis
    using ins onto pred_iff [OF assms] sub block_edge_sources [OF assms F C] ent by blast
qed

text \<open>A program with a subprogram.\<close>

definition call_once :: "insn list" where
  "call_once =
     [\<lparr>code = 0x85, regs = 0x10, off = 0, imm = 1\<rparr>,
      \<lparr>code = 0x95, regs = 0, off = 0, imm = 0\<rparr>,
      \<lparr>code = 0x95, regs = 0, off = 0, imm = 0\<rparr>]"

theorem graph_well_formed_witness:
  "\<exists>r. build_graph call_once = Ok r \<and> map bsubprog (ir_blocks r) = [Some 0, Some 1]
    \<and> bsubprog (ir_blocks r ! entry_block (ir_subprogs r ! 1)) = Some 1"
proof -
  have "case build_graph call_once of Err _ \<Rightarrow> False
      | Ok r \<Rightarrow> map bsubprog (ir_blocks r) = [Some 0, Some 1] \<and> length (ir_subprogs r) = 2" by code_simp
  then obtain r where r: "build_graph call_once = Ok r" "map bsubprog (ir_blocks r) = [Some 0, Some 1]" "length (ir_subprogs r) = 2"
    by (auto split: sum.splits)
  have "bsubprog (ir_blocks r ! entry_block (ir_subprogs r ! 1)) = Some 1" using graph_well_formed [OF r(1)] r(3) by simp
  then show ?thesis using r by (intro exI [of _ r] conjI)
qed

end
