(* ===== verification/Bpf_Order.thy ===== *)
theory Bpf_Order
  imports Bpf_Subprog
begin

text \<open>
  The orders in which the BPF verifier visits a program: \<open>topological_order\<close> of the call graph
  (\<open>bpf/verifier/src/fixpoint.rs\<close>), \<open>reachable_blocks\<close> (\<open>liveness.rs\<close>) and \<open>reverse_postorder\<close> of the blocks of a subprogram
  (\<open>ir.rs\<close>). A \<open>Vec\<close> used as a stack is a list with the top at its head. An outer \<open>None\<close> is a panic: an index out of range
  or a subtraction below zero.
\<close>

subsection \<open>Definitions\<close>

definition count_callers :: "subprog list \<Rightarrow> nat list" where
  "count_callers sps = fold (\<lambda>sp d. fold (\<lambda>c d. d[c := d ! c + 1]) (callees sp) d) sps (replicate (length sps) 0)"

text \<open>The inner loop: take one caller away from every callee.\<close>

fun release_callees :: "nat list \<Rightarrow> nat list \<Rightarrow> nat list \<Rightarrow> (nat list \<times> nat list) option" where
  "release_callees [] d ready = Some (d, ready)"
| "release_callees (c # cs) d ready =
     (if c \<ge> length d \<or> d ! c = 0 then None
      else let d' = d[c := d ! c - 1] in release_callees cs d' (if d' ! c = 0 then c # ready else ready))"

lemma release_sum:
  "release_callees cs d ready = Some (d', ready') \<Longrightarrow> sum_list d' + length ready' \<le> sum_list d + length ready"
proof (induction cs d ready rule: release_callees.induct)
  case (2 c cs d ready)
  have c: "c < length d" "d ! c \<noteq> 0" using "2.prems" by (auto split: if_splits)
  then have "sum_list (d[c := d ! c - 1]) + 1 = sum_list d"
    using member_le_sum_list [OF nth_mem [OF c(1)]] by (simp add: sum_list_update)
  then show ?case using "2.IH" "2.prems" c by (auto simp: Let_def split: if_splits)
qed simp

function kahn :: "subprog list \<Rightarrow> nat list \<Rightarrow> nat list \<Rightarrow> nat list \<Rightarrow> (nat list \<times> nat list) option" where
  "kahn sps d [] order = Some (order, d)"
| "kahn sps d (sp # ready) order =
     (if sp \<ge> length sps then None
      else case release_callees (callees (sps ! sp)) d ready of
             None \<Rightarrow> None
           | Some (d', ready') \<Rightarrow> kahn sps d' ready' (order @ [sp]))"
  by pat_completeness auto
termination
  by (relation "measure (\<lambda>(sps, d, ready, order). sum_list d + length ready)") (auto dest: release_sum)

definition topological_order :: "ir \<Rightarrow> (nat list, cfg_error) result option" where
  "topological_order r =
     (let sps = ir_subprogs r; n = length sps; d = count_callers sps in
      case kahn sps d (rev (filter (\<lambda>i. d ! i = 0) [0..<n])) [] of
        None \<Rightarrow> None
      | Some (order, d') \<Rightarrow>
          Some (if length order \<noteq> n
                then Err (Recursion (entry_slot (sps ! (case List.find (\<lambda>i. d' ! i > 0) [0..<n] of Some i \<Rightarrow> i | None \<Rightarrow> 0))))
                else Ok order))"

text \<open>Mark and push the successors that have not been seen.\<close>

fun push_unseen :: "nat list \<Rightarrow> bool list \<Rightarrow> nat list \<Rightarrow> (bool list \<times> nat list) option" where
  "push_unseen [] seen stack = Some (seen, stack)"
| "push_unseen (s # ss) seen stack =
     (if s \<ge> length seen then None
      else if seen ! s then push_unseen ss seen stack
      else push_unseen ss (seen[s := True]) (s # stack))"

definition unseen :: "bool list \<Rightarrow> nat" where
  "unseen seen = length (filter Not seen)"

lemma unseen_mark: "s < length seen \<Longrightarrow> \<not> seen ! s \<Longrightarrow> Suc (unseen (seen[s := True])) = unseen seen"
  unfolding unseen_def
proof (induction seen arbitrary: s)
  case (Cons b bs)
  then show ?case by (cases s) auto
qed simp

lemma push_unseen_measure:
  "push_unseen ss seen stack = Some (seen', stack') \<Longrightarrow> unseen seen' + length stack' = unseen seen + length stack"
  by (induction ss seen stack rule: push_unseen.induct) (auto simp: unseen_mark not_le split: if_splits)

function reach_loop :: "'a block_scheme list \<Rightarrow> bool list \<Rightarrow> nat list \<Rightarrow> bool list option" where
  "reach_loop bs seen [] = Some seen"
| "reach_loop bs seen (b # stack) =
     (if b \<ge> length bs then None
      else case push_unseen (bsuccs (bs ! b)) seen stack of
             None \<Rightarrow> None
           | Some (seen', stack') \<Rightarrow> reach_loop bs seen' stack')"
  by pat_completeness auto
termination
  by (relation "measure (\<lambda>(bs, seen, stack). unseen seen + length stack)") (auto dest: push_unseen_measure)

definition reachable_blocks :: "ir \<Rightarrow> nat option \<Rightarrow> bool list option" where
  "reachable_blocks r e =
     (let seen = replicate (length (ir_blocks r)) False in
      case e of
        None \<Rightarrow> Some seen
      | Some b \<Rightarrow> if b \<ge> length seen then None else reach_loop (ir_blocks r) (seen[b := True]) [b])"

text \<open>Depth-first search with frames of a block and the next successor to look at.\<close>

function postorder_loop :: "'a block_scheme list \<Rightarrow> bool list \<Rightarrow> nat list \<Rightarrow> (nat \<times> nat) list \<Rightarrow> (bool list \<times> nat list) option" where
  "postorder_loop bs seen post [] = Some (seen, post)"
| "postorder_loop bs seen post ((b, nxt) # stack) =
     (if b \<ge> length bs then None
      else if nxt < length (bsuccs (bs ! b))
      then (let s = bsuccs (bs ! b) ! nxt in
            if s \<ge> length seen then None
            else if \<not> seen ! s then postorder_loop bs (seen[s := True]) post ((s, 0) # (b, nxt + 1) # stack)
            else postorder_loop bs seen post ((b, nxt + 1) # stack))
      else postorder_loop bs seen (post @ [b]) stack)"
  by pat_completeness auto
termination
  by (relation "inv_image (less_than <*lex*> less_than)
       (\<lambda>(bs, seen, post, stack). (unseen seen, \<Sum>(b, nxt) \<leftarrow> stack. length (bsuccs (bs ! b)) - nxt + 1))")
    (auto simp: not_le dest: unseen_mark)

definition reverse_postorder :: "'a block_scheme list \<Rightarrow> nat \<Rightarrow> nat list option" where
  "reverse_postorder bs e =
     (if e \<ge> length bs then None
      else map_option (\<lambda>(seen, post). rev post)
        (postorder_loop bs ((replicate (length bs) False)[e := True]) [] [(e, 0)]))"

subsection \<open>The call graph\<close>

definition call_graph :: "subprog list \<Rightarrow> (nat \<times> nat) set" where
  "call_graph sps = {(a, c). a < length sps \<and> c \<in> set (callees (sps ! a))}"

lemma release_spec:
  "\<forall>c. count_list cs c \<le> (if c < length d then d ! c else 0) \<Longrightarrow>
   \<exists>d' new. release_callees cs d ready = Some (d', new @ ready) \<and> length d' = length d
     \<and> (\<forall>c < length d. d' ! c = d ! c - count_list cs c) \<and> distinct new \<and> set new = {c \<in> set cs. d ! c = count_list cs c}"
proof (induction cs arbitrary: d ready)
  case (Cons c cs)
  have c: "c < length d" "d ! c \<ge> Suc (count_list cs c)" using Cons.prems [rule_format, of c] by (auto split: if_splits)
  let ?d = "d[c := d ! c - 1]"
  have "\<forall>x. count_list cs x \<le> (if x < length ?d then ?d ! x else 0)"
    using Cons.prems c by (auto simp: nth_list_update split: if_splits)
  then obtain d' new where IH: "release_callees cs ?d (if ?d ! c = 0 then c # ready else ready)
      = Some (d', new @ (if ?d ! c = 0 then c # ready else ready))"
    "length d' = length d" "\<forall>x < length d. d' ! x = ?d ! x - count_list cs x" "distinct new"
    "set new = {x \<in> set cs. ?d ! x = count_list cs x}"
    using Cons.IH [of ?d "if ?d ! c = 0 then c # ready else ready"] unfolding length_list_update by blast
  have dx: "?d ! x = (if x = c then d ! c - 1 else d ! x)" for x using c(1) by simp
  have keep: "\<forall>x < length d. d' ! x = d ! x - count_list (c # cs) x" using IH(3) unfolding dx by auto
  show ?case
  proof (cases "?d ! c = 0")
    case True
    then have one: "count_list cs c = 0" "d ! c = 1" using c by simp_all
    then have cs: "c \<notin> set cs" by (simp add: count_list_0_iff)
    have "set (new @ [c]) = {x \<in> set (c # cs). d ! x = count_list (c # cs) x}"
      using one cs unfolding set_append IH(5) dx by auto
    moreover have "distinct (new @ [c])" using IH(4,5) cs by auto
    ultimately show ?thesis using IH(1,2) c True keep by (intro exI [of _ d'] exI [of _ "new @ [c]"]) simp
  next
    case False
    then have "c \<in> set cs \<or> d ! c \<noteq> Suc (count_list cs c)" using c count_list_0_iff [of cs c] by auto
    then have "set new = {x \<in> set (c # cs). d ! x = count_list (c # cs) x}"
      using c unfolding IH(5) dx by (auto intro: ccontr)
    then show ?thesis using IH(1,2,4) c False keep by (intro exI [of _ d'] exI [of _ new]) simp
  qed
qed simp

definition callees_in :: "subprog list \<Rightarrow> bool" where
  "callees_in sps \<longleftrightarrow> (\<forall>sp \<in> set sps. \<forall>c \<in> set (callees sp). c < length sps)"

text \<open>The calls into a subprogram from callers that are not yet ordered.\<close>

definition calls_from :: "subprog list \<Rightarrow> nat set \<Rightarrow> nat \<Rightarrow> nat" where
  "calls_from sps A c = (\<Sum>a \<in> A. count_list (callees (sps ! a)) c)"

lemma calls_from_remove: "finite A \<Longrightarrow> a \<in> A \<Longrightarrow> calls_from sps A c = count_list (callees (sps ! a)) c + calls_from sps (A - {a}) c"
  by (simp add: calls_from_def sum.remove)

lemma calls_from_0: "finite A \<Longrightarrow> calls_from sps A c = 0 \<longleftrightarrow> (\<forall>a \<in> A. c \<notin> set (callees (sps ! a)))"
  by (simp add: calls_from_def count_list_0_iff)

lemma count_callers_nth: "c < length sps \<Longrightarrow> length (count_callers sps) = length sps \<and> count_callers sps ! c = calls_from sps {..<length sps} c"
proof -
  have inner: "length (fold (\<lambda>c d. d[c := d ! c + 1]) cs d) = length d
      \<and> (x < length d \<longrightarrow> fold (\<lambda>c d. d[c := d ! c + 1]) cs d ! x = d ! x + count_list cs x)" for cs d and x :: nat
    by (induction cs arbitrary: d) (auto simp: nth_list_update)
  have outer: "length (fold (\<lambda>sp d. fold (\<lambda>c d. d[c := d ! c + 1]) (callees sp) d) ss d) = length d
      \<and> (x < length d \<longrightarrow> fold (\<lambda>sp d. fold (\<lambda>c d. d[c := d ! c + 1]) (callees sp) d) ss d ! x
          = d ! x + (\<Sum>sp \<leftarrow> ss. count_list (callees sp) x))" for ss d and x :: nat
    by (induction ss arbitrary: d) (auto simp: inner [simplified])
  assume "c < length sps"
  then show ?thesis
    using outer [of sps "replicate (length sps) 0" c]
    by (simp add: count_callers_def calls_from_def sum_list_sum_nth atLeast0LessThan)
qed

definition kahn_inv :: "subprog list \<Rightarrow> nat list \<Rightarrow> nat list \<Rightarrow> nat list \<Rightarrow> bool" where
  "kahn_inv sps d ready order \<longleftrightarrow>
     length d = length sps \<and> distinct (order @ ready) \<and> set (order @ ready) \<subseteq> {..<length sps}
     \<and> (\<forall>c < length sps. d ! c = calls_from sps ({..<length sps} - set order) c \<and> (d ! c = 0 \<longleftrightarrow> c \<in> set (order @ ready)))
     \<and> (\<forall>i < length order. \<forall>a. (a, order ! i) \<in> call_graph sps \<longrightarrow> a \<in> set (take i order))"

lemma kahn_step:
  assumes "callees_in sps" "kahn_inv sps d (sp # ready) order"
  shows "\<exists>d' ready'. release_callees (callees (sps ! sp)) d ready = Some (d', ready') \<and> kahn_inv sps d' ready' (order @ [sp])"
proof -
  let ?n = "length sps" and ?cs = "callees (sps ! sp)"
  let ?A = "{..<?n} - set order"
  have len: "length d = ?n" and dis: "distinct (order @ sp # ready)" and sub: "set (order @ sp # ready) \<subseteq> {..<?n}"
    and D: "\<And>c. c < ?n \<Longrightarrow> d ! c = calls_from sps ?A c" and Z: "\<And>c. c < ?n \<Longrightarrow> d ! c = 0 \<longleftrightarrow> c \<in> set (order @ sp # ready)"
    and T: "\<And>i a. i < length order \<Longrightarrow> (a, order ! i) \<in> call_graph sps \<Longrightarrow> a \<in> set (take i order)"
    using assms(2) by (auto simp: kahn_inv_def)
  have sp: "sp < ?n" "sp \<in> ?A" using dis sub by auto
  have in_n: "c < ?n" if "c \<in> set ?cs" for c using assms(1) sp(1) that by (auto simp: callees_in_def)
  have R: "calls_from sps ?A c = count_list ?cs c + calls_from sps ({..<?n} - set (order @ [sp])) c" for c
    using calls_from_remove [OF _ sp(2), of sps c] by (simp add: Diff_insert [symmetric] insert_commute)
  have "\<forall>c. count_list ?cs c \<le> (if c < length d then d ! c else 0)"
    using R D len in_n by (auto simp: count_list_0_iff)
  then obtain d' new where rel: "release_callees ?cs d ready = Some (d', new @ ready)" "length d' = ?n"
    "\<And>c. c < ?n \<Longrightarrow> d' ! c = d ! c - count_list ?cs c" "distinct new" "set new = {c \<in> set ?cs. d ! c = count_list ?cs c}"
    using release_spec [of ?cs d ready] len by auto
  have pos: "count_list ?cs c > 0" if "c \<in> set ?cs" for c using that count_list_0_iff [of ?cs c] by auto
  have old: "c \<notin> set (order @ sp # ready)" if "c \<in> set new" for c
    using that rel(5) Z [of c] in_n [of c] pos [of c] by auto
  have "d' ! c = calls_from sps ({..<?n} - set (order @ [sp])) c" if "c < ?n" for c
    using rel(3) [OF that] D [OF that] R [of c] by simp
  moreover have "d' ! c = 0 \<longleftrightarrow> c \<in> set ((order @ [sp]) @ new @ ready)" if c: "c < ?n" for c
    using rel(3) [OF c] rel(5) D [OF c] R [of c] Z [OF c] count_list_0_iff [of ?cs c] by auto
  moreover have "a \<in> set (take i (order @ [sp]))" if "i < length (order @ [sp])" "(a, (order @ [sp]) ! i) \<in> call_graph sps" for i a
  proof (cases "i < length order")
    case True
    then show ?thesis using T [of i a] that by (simp add: nth_append)
  next
    case False
    then have a: "a < ?n" "sp \<in> set (callees (sps ! a))" using that by (auto simp: call_graph_def nth_append split: if_splits)
    have "calls_from sps ?A sp = 0" using D [OF sp(1)] Z [OF sp(1)] by simp
    then have "a \<in> set order" using a by (auto simp: calls_from_0)
    then show ?thesis using False that(1) by simp
  qed
  moreover have "distinct ((order @ [sp]) @ new @ ready)" using dis old rel(4) by auto
  moreover have "set ((order @ [sp]) @ new @ ready) \<subseteq> {..<?n}" using sub rel(5) in_n by auto
  ultimately have "kahn_inv sps d' (new @ ready) (order @ [sp])" using rel(2) unfolding kahn_inv_def by blast
  then show ?thesis using rel(1) by blast
qed

lemma kahn_ends:
  "callees_in sps \<Longrightarrow> kahn_inv sps d ready order \<Longrightarrow> \<exists>order' d'. kahn sps d ready order = Some (order', d') \<and> kahn_inv sps d' [] order'"
proof (induction sps d ready order rule: kahn.induct)
  case (2 sps d sp ready order)
  obtain d' ready' where r: "release_callees (callees (sps ! sp)) d ready = Some (d', ready')" "kahn_inv sps d' ready' (order @ [sp])"
    using kahn_step [OF "2.prems"] by blast
  have "sp < length sps" using "2.prems"(2) by (simp add: kahn_inv_def)
  then show ?case using "2.IH" [OF _ r(1) refl "2.prems"(1) r(2)] r(1) by simp
qed simp

lemma kahn_start:
  assumes "callees_in sps"
  shows "kahn_inv sps (count_callers sps) (rev (filter (\<lambda>i. count_callers sps ! i = 0) [0..<length sps])) []"
proof -
  have "length (count_callers sps) = length sps"
    using count_callers_nth [of 0 sps] by (cases sps) (simp_all add: count_callers_def)
  then show ?thesis using count_callers_nth [of _ sps] by (auto simp: kahn_inv_def)
qed

lemma position_nth: "distinct xs \<Longrightarrow> i < length xs \<Longrightarrow> length (takeWhile (\<lambda>y. y \<noteq> xs ! i) xs) = i"
proof (induction xs arbitrary: i)
  case (Cons x xs)
  then show ?case by (cases i) auto
qed simp

text \<open>A list in which every vertex comes after its predecessors shows that there is no cycle.\<close>

lemma ordered_acyclic:
  assumes "distinct xs" "\<And>a c. (a, c) \<in> E \<Longrightarrow> c \<in> set xs"
    and "\<And>i a. i < length xs \<Longrightarrow> (a, xs ! i) \<in> E \<Longrightarrow> a \<in> set (take i xs)"
  shows "acyclic E"
proof -
  let ?pos = "\<lambda>v. length (takeWhile (\<lambda>y. y \<noteq> v) xs)"
  have "?pos a < ?pos c" if e: "(a, c) \<in> E" for a c
  proof -
    obtain i where i: "i < length xs" "c = xs ! i" using assms(2) [OF e] by (metis in_set_conv_nth)
    then obtain j where "j < i" "a = xs ! j" using assms(3) e by (metis (no_types, lifting) in_set_conv_nth length_take min_less_iff_conj nth_take)
    then show ?thesis using i position_nth [OF assms(1)] by simp
  qed
  then have "E \<subseteq> measure ?pos" by auto
  then have "wf E" using wf_subset by blast
  then show ?thesis by (rule wf_acyclic)
qed

text \<open>A nonempty finite set in which every vertex has a predecessor holds a cycle.\<close>

lemma closed_cyclic:
  assumes "finite U" "U \<noteq> {}" "\<And>c. c \<in> U \<Longrightarrow> \<exists>a \<in> U. (a, c) \<in> E"
  shows "\<not> acyclic E"
proof
  assume "acyclic E"
  then have "acyclic (E \<inter> U \<times> U)" using acyclic_subset by blast
  moreover have "finite (E \<inter> U \<times> U)" using assms(1) by simp
  ultimately have "wf (E \<inter> U \<times> U)" using finite_acyclic_wf by blast
  then obtain c where "c \<in> U" "\<forall>a. (a, c) \<in> E \<inter> U \<times> U \<longrightarrow> a \<notin> U" using assms(2) by (metis wfE_min' ex_in_conv)
  then show False using assms(3) by blast
qed

lemma kahn_full:
  assumes "callees_in sps" "kahn_inv sps d [] order"
  shows "length order = length sps \<Longrightarrow> acyclic (call_graph sps) \<and> set order = {..<length sps}"
    and "length order \<noteq> length sps \<Longrightarrow> \<not> acyclic (call_graph sps) \<and> (\<exists>c < length sps. d ! c > 0)"
proof -
  let ?n = "length sps" and ?U = "{..<length sps} - set order"
  have dis: "distinct order" and sub: "set order \<subseteq> {..<?n}"
    and D: "\<And>c. c < ?n \<Longrightarrow> d ! c = calls_from sps ?U c" and Z: "\<And>c. c < ?n \<Longrightarrow> d ! c = 0 \<longleftrightarrow> c \<in> set order"
    and T: "\<And>i a. i < length order \<Longrightarrow> (a, order ! i) \<in> call_graph sps \<Longrightarrow> a \<in> set (take i order)"
    using assms(2) by (auto simp: kahn_inv_def)
  have card: "card (set order) = length order" using distinct_card [OF dis] .
  show "acyclic (call_graph sps) \<and> set order = {..<?n}" if "length order = ?n"
  proof -
    have all: "set order = {..<?n}" using card_subset_eq [OF _ sub] card that by simp
    then have "c \<in> set order" if "(a, c) \<in> call_graph sps" for a c
      using that assms(1) by (auto simp: call_graph_def callees_in_def)
    then show ?thesis using ordered_acyclic [OF dis _ T] all by blast
  qed
  show "\<not> acyclic (call_graph sps) \<and> (\<exists>c < ?n. d ! c > 0)" if "length order \<noteq> ?n"
  proof -
    have "set order \<noteq> {..<?n}" using card that card_lessThan [of ?n] by metis
    then obtain c where c: "c \<in> ?U" using sub by auto
    have "\<exists>a \<in> ?U. (a, x) \<in> call_graph sps" if x: "x \<in> ?U" for x
    proof -
      have "calls_from sps ?U x \<noteq> 0" using x D [of x] Z [of x] by simp
      then obtain a where "a \<in> ?U" "x \<in> set (callees (sps ! a))" using calls_from_0 [of ?U sps x] by (metis finite_Diff finite_lessThan)
      then show ?thesis by (intro bexI [of _ a]) (simp_all add: call_graph_def)
    qed
    then have "\<not> acyclic (call_graph sps)" using closed_cyclic [of ?U "call_graph sps"] c by blast
    then show ?thesis using c Z [of c] by auto
  qed
qed

lemma build_graph_callees:
  assumes "build_graph prog = Ok r"
  shows "callees_in (ir_subprogs r)"
proof -
  obtain es where sps: "ir_subprogs r = make_subprogs (ir_of_slot r) (ir_block_of r) (sort_dedup (0 # es))
    (call_edges (sort_dedup (0 # es)) (ir_block_of r) (ir_blocks r) (ir_insns r))" using assms by (elim build_graph_full)
  have "entry_index (sort_dedup (0 # es)) t < length (sort_dedup (0 # es))" for t
    using sort_dedup_ne [of 0 es] by (auto simp: entry_index_def split: option.splits dest: position_eq_imp)
  then have "c < length (sort_dedup (0 # es))"
    if "(a, c) \<in> set (call_edges (sort_dedup (0 # es)) (ir_block_of r) (ir_blocks r) (ir_insns r))" for a c
    using that by (auto simp: call_edges_def split: decoded.splits call_target.splits)
  then show ?thesis unfolding sps by (auto simp: callees_in_def make_subprogs_def)
qed

subsection \<open>Reachable blocks\<close>

definition block_edges :: "'a block_scheme list \<Rightarrow> (nat \<times> nat) set" where
  "block_edges bs = {(u, v). u < length bs \<and> v \<in> set (bsuccs (bs ! u))}"

definition marked :: "bool list \<Rightarrow> nat set" where
  "marked seen = {v. v < length seen \<and> seen ! v}"

lemma marked_update: "s < length seen \<Longrightarrow> marked (seen[s := True]) = insert s (marked seen)"
  by (auto simp: marked_def nth_list_update)

lemma push_unseen_spec:
  "\<forall>s \<in> set ss. s < length seen \<Longrightarrow>
   \<exists>seen' new. push_unseen ss seen stack = Some (seen', new @ stack) \<and> length seen' = length seen
     \<and> marked seen' = marked seen \<union> set ss \<and> set new = set ss - marked seen"
proof (induction ss arbitrary: seen stack)
  case (Cons s ss)
  then have s: "s < length seen" by simp
  show ?case
  proof (cases "seen ! s")
    case True
    then have "insert s (marked seen) = marked seen" using s by (auto simp: marked_def)
    then show ?thesis using Cons.IH [of seen stack] Cons.prems s True by fastforce
  next
    case False
    obtain seen' new where "push_unseen ss (seen[s := True]) (s # stack) = Some (seen', new @ s # stack)"
      "length seen' = length seen" "marked seen' = marked (seen[s := True]) \<union> set ss" "set new = set ss - marked (seen[s := True])"
      using Cons.IH [of "seen[s := True]" "s # stack"] Cons.prems by auto
    then show ?thesis
      using s False by (intro exI [of _ seen'] exI [of _ "new @ [s]"]) (auto simp: marked_update, auto simp: marked_def)
  qed
qed simp

lemma reach_loop_spec:
  assumes "\<forall>b \<in> set bs. \<forall>s \<in> set (bsuccs b). s < length bs"
  shows "length seen = length bs \<Longrightarrow> set stack \<subseteq> marked seen \<Longrightarrow> marked seen \<subseteq> R \<Longrightarrow> block_edges bs `` R \<subseteq> R \<Longrightarrow>
    block_edges bs `` (marked seen - set stack) \<subseteq> marked seen \<Longrightarrow>
    \<exists>seen'. reach_loop bs seen stack = Some seen' \<and> length seen' = length bs \<and> marked seen \<subseteq> marked seen' \<and> marked seen' \<subseteq> R
      \<and> block_edges bs `` marked seen' \<subseteq> marked seen'"
  using assms
proof (induction bs seen stack rule: reach_loop.induct)
  case (2 bs seen b stack)
  have b: "b < length bs" "b \<in> R" using "2.prems"(1-3) by (auto simp: marked_def)
  then have r: "\<forall>s \<in> set (bsuccs (bs ! b)). s < length seen" using "2.prems"(1,6) nth_mem by metis
  obtain seen1 new where p: "push_unseen (bsuccs (bs ! b)) seen stack = Some (seen1, new @ stack)" "length seen1 = length seen"
    "marked seen1 = marked seen \<union> set (bsuccs (bs ! b))" "set new = set (bsuccs (bs ! b)) - marked seen"
    using push_unseen_spec [OF r] by blast
  have e: "block_edges bs `` {b} = set (bsuccs (bs ! b))" using b by (auto simp: block_edges_def)
  have "\<exists>seen'. reach_loop bs seen1 (new @ stack) = Some seen' \<and> length seen' = length bs \<and> marked seen1 \<subseteq> marked seen' \<and> marked seen' \<subseteq> R
      \<and> block_edges bs `` marked seen' \<subseteq> marked seen'"
  proof (rule "2.IH" [OF _ p(1) refl])
    show "\<not> length bs \<le> b" using b(1) by simp
    show "length seen1 = length bs" using p(2) "2.prems"(1) by simp
    show "set (new @ stack) \<subseteq> marked seen1" using p(3,4) "2.prems"(2) by auto
    have "set (bsuccs (bs ! b)) \<subseteq> R" using "2.prems"(4) e b(2) by blast
    then show "marked seen1 \<subseteq> R" using p(3) "2.prems"(3) by simp
    have "marked seen1 - set (new @ stack) \<subseteq> insert b (marked seen - set (b # stack))" using p(3,4) by auto
    then show "block_edges bs `` (marked seen1 - set (new @ stack)) \<subseteq> marked seen1" using "2.prems"(5) e p(3) by blast
  qed (use "2.prems" in simp_all)
  then show ?case using b(1) p(1,3) by auto
qed auto

lemma closure_least:
  assumes "e \<in> S" "S \<subseteq> E\<^sup>* `` {e}" "E `` S \<subseteq> S"
  shows "S = E\<^sup>* `` {e}"
proof -
  have "y \<in> S" if "(e, y) \<in> E\<^sup>*" for y using that by (induction rule: rtrancl_induct) (use assms in auto)
  then show ?thesis using assms(2) by auto
qed

lemma closure_closed: "E `` (E\<^sup>* `` {e}) \<subseteq> E\<^sup>* `` {e}"
  by (auto intro: rtrancl_into_rtrancl)

subsection \<open>Reverse postorder\<close>

text \<open>Every finished block has all its successors marked, and a predecessor that finishes later.\<close>

definition post_inv :: "'a block_scheme list \<Rightarrow> nat \<Rightarrow> bool list \<Rightarrow> nat list \<Rightarrow> (nat \<times> nat) list \<Rightarrow> bool" where
  "post_inv bs e seen post stack \<longleftrightarrow>
     length seen = length bs \<and> marked seen = set (post @ map fst stack) \<and> distinct (post @ map fst stack)
     \<and> marked seen \<subseteq> (block_edges bs)\<^sup>* `` {e}
     \<and> block_edges bs `` set post \<subseteq> marked seen
     \<and> (\<forall>(b, nxt) \<in> set stack. set (take nxt (bsuccs (bs ! b))) \<subseteq> marked seen)
     \<and> (\<forall>i < length post. post ! i = e \<or> (\<exists>u \<in> set (drop (Suc i) post) \<union> fst ` set stack. (u, post ! i) \<in> block_edges bs))
     \<and> (\<forall>i. Suc i < length stack \<longrightarrow> (fst (stack ! Suc i), fst (stack ! i)) \<in> block_edges bs)
     \<and> (if stack = [] then post \<noteq> [] \<and> last post = e else fst (last stack) = e)"

lemma post_invD:
  assumes "post_inv bs e seen post stack"
  shows "length seen = length bs" "marked seen = set (post @ map fst stack)" "distinct (post @ map fst stack)"
    "marked seen \<subseteq> (block_edges bs)\<^sup>* `` {e}" "block_edges bs `` set post \<subseteq> marked seen"
    "(b, nxt) \<in> set stack \<Longrightarrow> set (take nxt (bsuccs (bs ! b))) \<subseteq> marked seen"
    "i < length post \<Longrightarrow> post ! i = e \<or> (\<exists>u \<in> set (drop (Suc i) post) \<union> fst ` set stack. (u, post ! i) \<in> block_edges bs)"
    "Suc i < length stack \<Longrightarrow> (fst (stack ! Suc i), fst (stack ! i)) \<in> block_edges bs"
    "if stack = [] then post \<noteq> [] \<and> last post = e else fst (last stack) = e"
  using assms unfolding post_inv_def by (blast | fast)+

lemma post_invI:
  assumes "length seen = length bs" "marked seen = set (post @ map fst stack)" "distinct (post @ map fst stack)"
    "marked seen \<subseteq> (block_edges bs)\<^sup>* `` {e}" "block_edges bs `` set post \<subseteq> marked seen"
    "\<And>b nxt. (b, nxt) \<in> set stack \<Longrightarrow> set (take nxt (bsuccs (bs ! b))) \<subseteq> marked seen"
    "\<And>i. i < length post \<Longrightarrow> post ! i = e \<or> (\<exists>u \<in> set (drop (Suc i) post) \<union> fst ` set stack. (u, post ! i) \<in> block_edges bs)"
    "\<And>i. Suc i < length stack \<Longrightarrow> (fst (stack ! Suc i), fst (stack ! i)) \<in> block_edges bs"
    "if stack = [] then post \<noteq> [] \<and> last post = e else fst (last stack) = e"
  shows "post_inv bs e seen post stack"
  unfolding post_inv_def using assms by blast

lemma take_succ: "nxt < length xs \<Longrightarrow> set (take (Suc nxt) xs) = insert (xs ! nxt) (set (take nxt xs))"
  by (simp add: take_Suc_conv_app_nth)

lemma post_skip:
  assumes "post_inv bs e seen post ((b, nxt) # stack)" "nxt < length (bsuccs (bs ! b))" "bsuccs (bs ! b) ! nxt \<in> marked seen"
  shows "post_inv bs e seen post ((b, Suc nxt) # stack)"
proof -
  note I = post_invD [OF assms(1)]
  have f: "fst (((b, Suc nxt) # stack) ! i) = fst (((b, nxt) # stack) ! i)" for i by (cases i) simp_all
  show ?thesis
  proof (rule post_invI)
    show "set (take n (bsuccs (bs ! x))) \<subseteq> marked seen" if "(x, n) \<in> set ((b, Suc nxt) # stack)" for x n
      using that I(6) [of x n] I(6) [of b nxt] assms(2,3) by (auto simp: take_succ)
    show "Suc i < length ((b, Suc nxt) # stack) \<Longrightarrow>
      (fst (((b, Suc nxt) # stack) ! Suc i), fst (((b, Suc nxt) # stack) ! i)) \<in> block_edges bs" for i
      using I(8) [of i] f by simp
  qed (use I(1-5,7,9) in \<open>simp_all split: if_splits\<close>)
qed

lemma post_push:
  assumes "post_inv bs e seen post ((b, nxt) # stack)" "b < length bs" "nxt < length (bsuccs (bs ! b))"
    and "s = bsuccs (bs ! b) ! nxt" "s < length seen" "\<not> seen ! s"
  shows "post_inv bs e (seen[s := True]) post ((s, 0) # (b, Suc nxt) # stack)"
proof -
  note I = post_invD [OF assms(1)]
  have e: "(b, s) \<in> block_edges bs" using assms(2-4) by (simp add: block_edges_def)
  have M: "marked (seen[s := True]) = insert s (marked seen)" "s \<notin> marked seen"
    using marked_update [OF assms(5)] assms(6) by (auto simp: marked_def)
  have "b \<in> marked seen" using I(2) by simp
  then have "s \<in> (block_edges bs)\<^sup>* `` {e}" using I(4) e by (auto intro: rtrancl_into_rtrancl)
  moreover have "Suc i < length ((s, 0) # (b, Suc nxt) # stack) \<Longrightarrow>
      (fst (((s, 0) # (b, Suc nxt) # stack) ! Suc i), fst (((s, 0) # (b, Suc nxt) # stack) ! i)) \<in> block_edges bs" for i
    using e I(8) [of "i - 1"] by (cases i; cases "i - 1") simp_all
  moreover have "set (take n (bsuccs (bs ! x))) \<subseteq> insert s (marked seen)" if "(x, n) \<in> set ((s, 0) # (b, Suc nxt) # stack)" for x n
    using that I(6) [of x n] I(6) [of b nxt] assms(3,4) by (auto simp: take_succ)
  moreover have "post ! i = e \<or> (\<exists>u \<in> set (drop (Suc i) post) \<union> fst ` set ((s, 0) # (b, Suc nxt) # stack). (u, post ! i) \<in> block_edges bs)"
    if "i < length post" for i using I(7) [OF that] by auto
  ultimately show ?thesis
    by (intro post_invI) (use I(1-5,9) M in auto)
qed

lemma post_finish:
  assumes "post_inv bs e seen post ((b, nxt) # stack)" "\<not> nxt < length (bsuccs (bs ! b))"
  shows "post_inv bs e seen (post @ [b]) stack"
proof -
  note I = post_invD [OF assms(1)]
  have "block_edges bs `` {b} \<subseteq> marked seen" using I(6) [of b nxt] assms(2) by (auto simp: block_edges_def)
  moreover have "(post @ [b]) ! i = e \<or> (\<exists>u \<in> set (drop (Suc i) (post @ [b])) \<union> fst ` set stack. (u, (post @ [b]) ! i) \<in> block_edges bs)"
    if "i < length (post @ [b])" for i
  proof (cases "i < length post")
    case True
    then show ?thesis using I(7) [OF True] by (auto simp: nth_append)
  next
    case False
    then have "(post @ [b]) ! i = b" using that by (simp add: nth_append)
    moreover have "b = e \<or> (\<exists>u \<in> fst ` set stack. (u, b) \<in> block_edges bs)" using I(8) [of 0] I(9) by (cases stack) auto
    ultimately show ?thesis by auto
  qed
  moreover have "(fst (stack ! Suc i), fst (stack ! i)) \<in> block_edges bs" if "Suc i < length stack" for i using I(8) [of "Suc i"] that by simp
  moreover have "if stack = [] then b = e else fst (last stack) = e" using I(9) by (auto split: if_splits)
  moreover have "set (take n (bsuccs (bs ! x))) \<subseteq> marked seen" if "(x, n) \<in> set stack" for x n using that I(6) by simp
  ultimately show ?thesis by (intro post_invI) (use I(1-5) in auto)
qed

lemma postorder_loop_spec:
  assumes "\<forall>b \<in> set bs. \<forall>s \<in> set (bsuccs b). s < length bs" "post_inv bs e seen post stack"
  shows "\<exists>seen' post'. postorder_loop bs seen post stack = Some (seen', post') \<and> post_inv bs e seen' post' []"
  using assms
proof (induction bs seen post stack rule: postorder_loop.induct)
  case (2 bs seen post b nxt stack)
  note I = post_invD [OF "2.prems"(2)]
  have b: "b < length bs" using I(1,2) by (auto simp: marked_def)
  show ?case
  proof (cases "nxt < length (bsuccs (bs ! b))")
    case True
    define s where "s = bsuccs (bs ! b) ! nxt"
    have s: "s < length seen" using "2.prems"(1) b True I(1) nth_mem s_def by metis
    show ?thesis
    proof (cases "seen ! s")
      case seen: True
      have "s \<in> marked seen" using s seen by (simp add: marked_def)
      then show ?thesis
        using "2.IH"(2) [OF _ True s_def] post_skip [OF "2.prems"(2) True] "2.prems"(1) b s seen True by (simp add: Let_def s_def)
    next
      case False
      then show ?thesis
        using "2.IH"(1) [OF _ True s_def] post_push [OF "2.prems"(2) b True s_def s False] "2.prems"(1) b s True by (simp add: Let_def s_def)
    qed
  next
    case False
    then show ?thesis using "2.IH"(3) post_finish [OF "2.prems"(2) False] "2.prems"(1) b by simp
  qed
qed simp

lemma post_final:
  assumes "post_inv bs e seen post []"
  shows "distinct (rev post)" "set (rev post) = (block_edges bs)\<^sup>* `` {e}" "hd (rev post) = e" "rev post \<noteq> []"
    and "0 < i \<Longrightarrow> i < length (rev post) \<Longrightarrow> \<exists>u \<in> set (take i (rev post)). (u, rev post ! i) \<in> block_edges bs"
proof -
  note I = post_invD [OF assms]
  have ne: "post \<noteq> []" "last post = e" using I(9) by auto
  then show "rev post \<noteq> []" "hd (rev post) = e" by (simp_all add: hd_rev)
  show "distinct (rev post)" using I(3) by simp
  have "e \<in> set post" using ne last_in_set by blast
  then show "set (rev post) = (block_edges bs)\<^sup>* `` {e}"
    using closure_least [of e "set post" "block_edges bs"] I(2,4,5) by simp
  assume i: "0 < i" "i < length (rev post)"
  let ?j = "length post - Suc i"
  have j: "?j < length post" "post ! ?j = rev post ! i" using i by (simp_all add: rev_nth)
  have "post ! ?j \<noteq> e"
  proof
    assume "post ! ?j = e"
    then have "post ! ?j = post ! (length post - 1)" using ne by (simp add: last_conv_nth)
    then show False using nth_eq_iff_index_eq [of post ?j "length post - 1"] I(3) i j(1) by simp
  qed
  then obtain u where "u \<in> set (drop (Suc ?j) post)" "(u, post ! ?j) \<in> block_edges bs" using I(7) [OF j(1)] by auto
  moreover have "take i (rev post) = rev (drop (Suc ?j) post)" using i by (simp add: take_rev Suc_diff_Suc)
  ultimately show "\<exists>u \<in> set (take i (rev post)). (u, rev post ! i) \<in> block_edges bs" using j(2) by auto
qed

lemma topological_order_cases:
  assumes "build_graph prog = Ok r"
  shows "case topological_order r of
      None \<Rightarrow> False
    | Some (Ok order) \<Rightarrow> acyclic (call_graph (ir_subprogs r)) \<and> distinct order \<and> set order = {..<length (ir_subprogs r)}
        \<and> (\<forall>i < length order. \<forall>a. (a, order ! i) \<in> call_graph (ir_subprogs r) \<longrightarrow> a \<in> set (take i order))
    | Some (Err e) \<Rightarrow> \<not> acyclic (call_graph (ir_subprogs r)) \<and> (\<exists>sp \<in> set (ir_subprogs r). e = Recursion (entry_slot sp))"
proof -
  let ?sps = "ir_subprogs r"
  let ?n = "length ?sps" and ?d = "count_callers ?sps"
  note C = build_graph_callees [OF assms]
  obtain order d where k: "kahn ?sps ?d (rev (filter (\<lambda>i. ?d ! i = 0) [0..<?n])) [] = Some (order, d)" "kahn_inv ?sps d [] order"
    using kahn_ends [OF C kahn_start [OF C]] by blast
  show ?thesis
  proof (cases "length order = ?n")
    case True
    then show ?thesis using k kahn_full(1) [OF C k(2)] by (simp add: topological_order_def Let_def kahn_inv_def)
  next
    case False
    then obtain c where c: "c < ?n" "d ! c > 0" "\<not> acyclic (call_graph ?sps)" using kahn_full(2) [OF C k(2)] by blast
    then have "List.find (\<lambda>i. d ! i > 0) [0..<?n] \<noteq> None" by (auto simp: find_None_iff)
    then obtain i where i: "List.find (\<lambda>i. d ! i > 0) [0..<?n] = Some i" by blast
    then have "i < ?n" by (auto simp: find_Some_iff)
    then show ?thesis using k(1) False i c(3) by (auto simp: topological_order_def Let_def)
  qed
qed

lemma reachable_blocks_spec:
  assumes "build_graph prog = Ok r" "b < length (ir_blocks r)"
  shows "\<exists>seen. reachable_blocks r (Some b) = Some seen \<and> (\<forall>v < length (ir_blocks r). seen ! v \<longleftrightarrow> (b, v) \<in> (block_edges (ir_blocks r))\<^sup>*)"
proof -
  let ?bs = "ir_blocks r" and ?s0 = "(replicate (length (ir_blocks r)) False)[b := True]"
  let ?R = "(block_edges ?bs)\<^sup>* `` {b}"
  have E: "\<forall>b \<in> set ?bs. \<forall>s \<in> set (bsuccs b). s < length ?bs" using block_edges_in [OF assms(1)] by blast
  have m: "marked ?s0 = {b}" using assms(2) by (auto simp: marked_def nth_list_update)
  obtain seen where s: "reach_loop ?bs ?s0 [b] = Some seen" "length seen = length ?bs" "{b} \<subseteq> marked seen" "marked seen \<subseteq> ?R"
    "block_edges ?bs `` marked seen \<subseteq> marked seen"
    using reach_loop_spec [OF E, of ?s0 "[b]" ?R] closure_closed [of "block_edges ?bs" b] m by auto
  have "marked seen = ?R" using closure_least [OF _ s(4,5)] s(3) by simp
  then have "\<forall>v < length ?bs. seen ! v \<longleftrightarrow> (b, v) \<in> (block_edges ?bs)\<^sup>*" using s(2) by (auto simp: marked_def)
  moreover have "reachable_blocks r (Some b) = Some seen" using s(1) assms(2) by (simp add: reachable_blocks_def)
  ultimately show ?thesis by blast
qed

subsection \<open>Properties\<close>

text \<open>
  C23. The call order is exact. For a program whose graph is built, \<open>topological_order\<close> does not panic. It returns an
  order exactly when the call graph has no cycle; then every subprogram occurs once and after all its callers. Otherwise the
  program is refused as recursive, at the entry of one of its subprograms.
\<close>

theorem call_order_exact:
  assumes "build_graph prog = Ok r"
  shows "case topological_order r of
      None \<Rightarrow> False
    | Some (Ok order) \<Rightarrow> acyclic (call_graph (ir_subprogs r)) \<and> distinct order \<and> set order = {..<length (ir_subprogs r)}
        \<and> (\<forall>i < length order. \<forall>a. (a, order ! i) \<in> call_graph (ir_subprogs r) \<longrightarrow> a \<in> set (take i order))
    | Some (Err e) \<Rightarrow> \<not> acyclic (call_graph (ir_subprogs r)) \<and> (\<exists>sp \<in> set (ir_subprogs r). e = Recursion (entry_slot sp))"
  by (rule topological_order_cases [OF assms])

text \<open>A program that calls itself.\<close>

definition call_self :: "insn list" where
  "call_self =
     [\<lparr>code = 0x85, regs = 0x10, off = 0, imm = - 1\<rparr>,
      \<lparr>code = 0x95, regs = 0, off = 0, imm = 0\<rparr>]"

theorem call_order_exact_witness:
  "(\<exists>r. build_graph call_once = Ok r \<and> topological_order r = Some (Ok [0, 1]) \<and> acyclic (call_graph (ir_subprogs r)))
   \<and> (\<exists>r. build_graph call_self = Ok r \<and> topological_order r = Some (Err (Recursion 0)) \<and> \<not> acyclic (call_graph (ir_subprogs r)))"
proof (rule conjI)
  have "case build_graph call_once of Err _ \<Rightarrow> False | Ok r \<Rightarrow> topological_order r = Some (Ok [0, 1])" by code_simp
  then obtain r where r: "build_graph call_once = Ok r" "topological_order r = Some (Ok [0, 1])" by (auto split: sum.splits)
  then show "\<exists>r. build_graph call_once = Ok r \<and> topological_order r = Some (Ok [0, 1]) \<and> acyclic (call_graph (ir_subprogs r))"
    using call_order_exact [OF r(1)] by (intro exI [of _ r]) simp
  have "case build_graph call_self of Err _ \<Rightarrow> False | Ok r \<Rightarrow> topological_order r = Some (Err (Recursion 0))" by code_simp
  then obtain r where r: "build_graph call_self = Ok r" "topological_order r = Some (Err (Recursion 0))" by (auto split: sum.splits)
  then show "\<exists>r. build_graph call_self = Ok r \<and> topological_order r = Some (Err (Recursion 0)) \<and> \<not> acyclic (call_graph (ir_subprogs r))"
    using call_order_exact [OF r(1)] by (intro exI [of _ r]) simp
qed

text \<open>
  Blocks are visited exactly when they can be reached. From any entry block of a graph that was built,
  \<open>reachable_blocks\<close> marks the blocks on a path from the entry and no others; \<open>reverse_postorder\<close> lists the same blocks once
  each, starting with the entry, and every later block has a predecessor before it in the list.
\<close>

theorem block_visits_exact:
  assumes "build_graph prog = Ok r" "b < length (ir_blocks r)"
  shows "\<exists>seen order. reachable_blocks r (Some b) = Some seen \<and> reverse_postorder (ir_blocks r) b = Some order
    \<and> (\<forall>v < length (ir_blocks r). seen ! v \<longleftrightarrow> (b, v) \<in> (block_edges (ir_blocks r))\<^sup>*)
    \<and> distinct order \<and> set order = {v. (b, v) \<in> (block_edges (ir_blocks r))\<^sup>*} \<and> hd order = b
    \<and> (\<forall>i. 0 < i \<and> i < length order \<longrightarrow> (\<exists>u \<in> set (take i order). (u, order ! i) \<in> block_edges (ir_blocks r)))"
proof -
  let ?bs = "ir_blocks r" and ?s0 = "(replicate (length (ir_blocks r)) False)[b := True]"
  obtain seen where seen: "reachable_blocks r (Some b) = Some seen" "\<forall>v < length ?bs. seen ! v \<longleftrightarrow> (b, v) \<in> (block_edges ?bs)\<^sup>*"
    using reachable_blocks_spec [OF assms] by blast
  have E: "\<forall>b \<in> set ?bs. \<forall>s \<in> set (bsuccs b). s < length ?bs" using block_edges_in [OF assms(1)] by blast
  have "marked ?s0 = {b}" using assms(2) by (auto simp: marked_def nth_list_update)
  then have "post_inv ?bs b ?s0 [] [(b, 0)]" by (intro post_invI) auto
  then obtain seen' post where p: "postorder_loop ?bs ?s0 [] [(b, 0)] = Some (seen', post)" "post_inv ?bs b seen' post []"
    using postorder_loop_spec [OF E] by blast
  note F = post_final [OF p(2)]
  have "reverse_postorder ?bs b = Some (rev post)" using p(1) assms(2) by (simp add: reverse_postorder_def)
  moreover have "set (rev post) = {v. (b, v) \<in> (block_edges ?bs)\<^sup>*}" using F(2) by auto
  ultimately show ?thesis using seen F(1,3,5) by blast
qed

theorem block_visits_exact_witness:
  "\<exists>r. build_graph count_loop = Ok r \<and> reachable_blocks r (Some 1) = Some [False, True, True]
    \<and> reverse_postorder (ir_blocks r) 1 = Some [1, 2] \<and> (1, 2) \<in> (block_edges (ir_blocks r))\<^sup>*"
proof -
  have "case build_graph count_loop of Err _ \<Rightarrow> False | Ok r \<Rightarrow> length (ir_blocks r) = 3
      \<and> reachable_blocks r (Some 1) = Some [False, True, True] \<and> reverse_postorder (ir_blocks r) 1 = Some [1, 2]" by code_simp
  then obtain r where r: "build_graph count_loop = Ok r" "length (ir_blocks r) = 3"
    "reachable_blocks r (Some 1) = Some [False, True, True]" "reverse_postorder (ir_blocks r) 1 = Some [1, 2]"
    by (auto split: sum.splits)
  have "2 \<in> {v. (1, v) \<in> (block_edges (ir_blocks r))\<^sup>*}"
    using block_visits_exact [OF r(1), of 1] r(2-4) by auto
  then show ?thesis using r by (intro exI [of _ r]) simp
qed

end
