(* ===== verification/Bpf_Dom.thy ===== *)
theory Bpf_Dom
  imports Bpf_Widen Bpf_Order
begin

text \<open>
  Passes 6 and 7 of \<open>Ir::build\<close> in \<open>bpf/verifier/src/ir.rs\<close>: iterative dominators (\<open>compute_idoms\<close>, \<open>intersect\<close>, \<open>dominates\<close>), back
  edges, the components of the whole graph (\<open>tarjan_scc\<close>) and their entries, composed with the nested widening points of pass 7b into
  \<open>build_ir\<close>, the whole of \<open>Ir::build\<close>. The fields \<open>idom\<close>, \<open>rpo\<close>, \<open>scc\<close> and \<open>widen_here\<close> of the blocks are lists indexed by
  block, with \<open>None\<close> for the sentinel \<open>NONE\<close>. Loops are partial functions into \<open>option\<close>; \<open>None\<close> is a panic or divergence.
\<close>

subsection \<open>Dominators\<close>

declare tarjan_loop.simps [code] mark_nested_widening_points.simps [code]

text \<open>\<open>blocks[a].rpo > blocks[b].rpo\<close>, with the sentinel the greatest number.\<close>

fun rpo_after :: "nat option \<Rightarrow> nat option \<Rightarrow> bool" where
  "rpo_after (Some x) (Some y) = (x > y)"
| "rpo_after None (Some y) = True"
| "rpo_after r None = False"

text \<open>An inner loop of \<open>intersect\<close>: \<open>Inl\<close> is its early return.\<close>

partial_function (option) climb :: "nat option list \<Rightarrow> nat option list \<Rightarrow> nat \<Rightarrow> nat \<Rightarrow> (nat + nat) option" where
  "climb idom rpo a b =
     (if a \<ge> length rpo \<or> b \<ge> length rpo then None
      else if rpo_after (rpo ! a) (rpo ! b)
      then (case idom ! a of
              None \<Rightarrow> Some (Inl b)
            | Some nxt \<Rightarrow> if nxt = a then Some (Inl b) else climb idom rpo nxt b)
      else Some (Inr a))"

partial_function (option) intersect :: "nat option list \<Rightarrow> nat option list \<Rightarrow> nat \<Rightarrow> nat \<Rightarrow> nat option" where
  "intersect idom rpo a b =
     (if a = b then Some a
      else case climb idom rpo a b of
             None \<Rightarrow> None
           | Some (Inl r) \<Rightarrow> Some r
           | Some (Inr a') \<Rightarrow>
               (case climb idom rpo b a' of
                  None \<Rightarrow> None
                | Some (Inl r) \<Rightarrow> Some r
                | Some (Inr b') \<Rightarrow> intersect idom rpo a' b'))"

fun new_idom :: "nat option list \<Rightarrow> nat option list \<Rightarrow> nat list \<Rightarrow> nat option \<Rightarrow> nat option option" where
  "new_idom idom rpo [] acc = Some acc"
| "new_idom idom rpo (p # ps) acc =
     (if idom ! p = None then new_idom idom rpo ps acc
      else case acc of
             None \<Rightarrow> new_idom idom rpo ps (Some p)
           | Some d \<Rightarrow> (case intersect idom rpo p d of None \<Rightarrow> None | Some d' \<Rightarrow> new_idom idom rpo ps (Some d')))"

fun idom_round :: "block list \<Rightarrow> nat option list \<Rightarrow> nat list \<Rightarrow> nat option list \<times> bool \<Rightarrow> (nat option list \<times> bool) option" where
  "idom_round bs rpo [] (idom, changed) = Some (idom, changed)"
| "idom_round bs rpo (b # order) (idom, changed) =
     (case new_idom idom rpo (bpreds (bs ! b)) None of
        None \<Rightarrow> None
      | Some d \<Rightarrow>
          if d \<noteq> None \<and> idom ! b \<noteq> d then idom_round bs rpo order (idom[b := d], True)
          else idom_round bs rpo order (idom, changed))"

partial_function (option) idom_loop :: "block list \<Rightarrow> nat option list \<Rightarrow> nat list \<Rightarrow> nat option list \<Rightarrow> nat option list option" where
  "idom_loop bs rpo order idom =
     (case idom_round bs rpo order (idom, False) of
        None \<Rightarrow> None
      | Some (idom', changed) \<Rightarrow> if changed then idom_loop bs rpo order idom' else Some idom')"

definition compute_idoms :: "block list \<Rightarrow> nat option list \<Rightarrow> nat list \<Rightarrow> nat \<Rightarrow> nat option list \<Rightarrow> nat option list option" where
  "compute_idoms bs rpo order entry idom = idom_loop bs rpo (drop 1 order) (idom[entry := Some entry])"

partial_function (option) dominates :: "nat option list \<Rightarrow> nat \<Rightarrow> nat \<Rightarrow> bool option" where
  "dominates idom a cur =
     (if cur = a then Some True
      else if cur \<ge> length idom then None
      else case idom ! cur of
             None \<Rightarrow> Some False
           | Some nxt \<Rightarrow> if nxt = cur then Some False else dominates idom a nxt)"

declare climb.simps [code] intersect.simps [code] idom_loop.simps [code] dominates.simps [code]

subsection \<open>Pass 6\<close>

record annotations =
  an_idom :: "nat option list"
  an_rpo :: "nat option list"
  an_widen :: "bool list"
  an_back_edges :: "(nat \<times> nat) list"

fun back_edges_of :: "nat \<Rightarrow> nat list \<Rightarrow> annotations \<Rightarrow> annotations option" where
  "back_edges_of b [] an = Some an"
| "back_edges_of b (s # ss) an =
     (case dominates (an_idom an) s b of
        None \<Rightarrow> None
      | Some d \<Rightarrow> back_edges_of b ss (if d then an\<lparr>an_back_edges := an_back_edges an @ [(b, s)], an_widen := (an_widen an)[s := True]\<rparr> else an))"

fun fold_option :: "('a \<Rightarrow> 'b \<Rightarrow> 'b option) \<Rightarrow> 'a list \<Rightarrow> 'b \<Rightarrow> 'b option" where
  "fold_option f [] s = Some s"
| "fold_option f (x # xs) s = (case f x s of None \<Rightarrow> None | Some s' \<Rightarrow> fold_option f xs s')"

definition annotate_subprog :: "block list \<Rightarrow> nat \<Rightarrow> annotations \<Rightarrow> annotations option" where
  "annotate_subprog bs entry an =
     (case reverse_postorder bs entry of
        None \<Rightarrow> None
      | Some order \<Rightarrow>
          let rpo = fold (\<lambda>(k, b) r. r[b := Some k]) (enumerate 0 order) (an_rpo an) in
          (case compute_idoms bs rpo order entry (an_idom an) of
             None \<Rightarrow> None
           | Some idom \<Rightarrow>
               fold_option (\<lambda>b. back_edges_of b (bsuccs (bs ! b))) order (an\<lparr>an_rpo := rpo, an_idom := idom\<rparr>)))"

definition annotate :: "block list \<Rightarrow> nat list \<Rightarrow> annotations option" where
  "annotate bs entries =
     fold_option (annotate_subprog bs) entries
       \<lparr>an_idom = replicate (length bs) None, an_rpo = replicate (length bs) None,
        an_widen = replicate (length bs) False, an_back_edges = []\<rparr>"

subsection \<open>Pass 7\<close>

definition mark_blocks :: "block list \<Rightarrow> bool list \<Rightarrow> marked_block list" where
  "mark_blocks bs ws = map2 (\<lambda>b w. block.extend b \<lparr>widen_here = w\<rparr>) bs ws"

text \<open>
  \<open>tarjan_scc\<close> is the search of \<open>cyclic_components_avoiding_marked\<close> with no block marked; the components
  found are numbered in order.
\<close>

definition tarjan_scc :: "block list \<Rightarrow> nat option list option" where
  "tarjan_scc bs =
     map_option (\<lambda>comps. fold (\<lambda>(k, ms) scc. fold (\<lambda>m scc. scc[m := Some k]) ms scc) (enumerate 0 comps) (replicate (length bs) None))
       (cyclic_components_avoiding_marked (mark_blocks bs (replicate (length bs) False)))"

definition mark_scc_entries :: "block list \<Rightarrow> nat option list \<Rightarrow> bool list \<Rightarrow> bool list" where
  "mark_scc_entries bs scc ws =
     map (\<lambda>bi. ws ! bi \<or> scc ! bi \<noteq> None \<and> (\<exists>p \<in> set (bpreds (bs ! bi)). scc ! p \<noteq> scc ! bi)) [0..<length bs]"

record full_ir = ir +
  ir_back_edges :: "(nat \<times> nat) list"
  ir_widen :: "bool list"

definition build_ir :: "insn list \<Rightarrow> (full_ir, cfg_error) result option" where
  "build_ir prog =
     (case build_graph prog of
        Err e \<Rightarrow> Some (Err e)
      | Ok r \<Rightarrow>
          let bs = ir_blocks r in
          (case annotate bs (map entry_block (ir_subprogs r)) of
             None \<Rightarrow> None
           | Some an \<Rightarrow>
               (case tarjan_scc bs of
                  None \<Rightarrow> None
                | Some scc \<Rightarrow>
                    (case mark_nested_widening_points (mark_blocks bs (mark_scc_entries bs scc (an_widen an))) of
                       None \<Rightarrow> None
                     | Some bs' \<Rightarrow>
                         Some (Ok (ir.extend r \<lparr>ir_back_edges = an_back_edges an, ir_widen = map widen_here bs'\<rparr>))))))"

end
