(* ===== verification/Bpf_Lattice.thy ===== *)
theory Bpf_Lattice
  imports Bpf_Scalar
begin

text \<open>
  What the BPF verifier's fixpoint relies on in the numeric domain (\<open>join\<close>, \<open>meet\<close>, \<open>is_subset_of\<close> and \<open>widen\<close> of
  \<open>bpf/verifier/src/domain.rs\<close>), as an interface: a merge covers both of its arguments, and a
  subset test that succeeds is an inclusion of the concretisations. From these alone a merge that the fixpoint
  finds unchanged (\<open>!m.is_subset_of(old)\<close> is false) proves that the old state already covered the new one. Both the tnum and
  the reduced product implement the interface, and for both the meet is exact.
\<close>

subsection \<open>Interfaces\<close>

locale merge_domain =
  fixes wf :: "'a \<Rightarrow> bool"
    and gamma :: "'a \<Rightarrow> 'v \<Rightarrow> bool"
    and subset :: "'a \<Rightarrow> 'a \<Rightarrow> bool"
    and merge :: "'a \<Rightarrow> 'a \<Rightarrow> 'a"
  assumes merge_wf: "wf a \<Longrightarrow> wf b \<Longrightarrow> wf (merge a b)"
    and merge_left: "wf a \<Longrightarrow> wf b \<Longrightarrow> gamma a v \<Longrightarrow> gamma (merge a b) v"
    and merge_right: "wf a \<Longrightarrow> wf b \<Longrightarrow> gamma b v \<Longrightarrow> gamma (merge a b) v"
    and subset_sound: "wf a \<Longrightarrow> wf b \<Longrightarrow> subset a b \<Longrightarrow> gamma a v \<Longrightarrow> gamma b v"
begin

lemma unchanged_covers: "wf old \<Longrightarrow> wf new \<Longrightarrow> subset (merge old new) old \<Longrightarrow> gamma new v \<Longrightarrow> gamma old v"
  using merge_right [of old new v] subset_sound [of "merge old new" old v] merge_wf by blast

lemma fold_merge_wf: "wf acc \<Longrightarrow> (\<And>x. x \<in> set xs \<Longrightarrow> wf x) \<Longrightarrow> wf (foldl merge acc xs)"
  by (induction xs arbitrary: acc) (auto intro: merge_wf)

lemma fold_merge_covers:
  assumes "wf acc" "\<And>x. x \<in> set xs \<Longrightarrow> wf x" "gamma acc v \<or> (\<exists>x \<in> set xs. gamma x v)"
  shows "gamma (foldl merge acc xs) v"
  using assms
proof (induction xs arbitrary: acc)
  case (Cons x xs)
  have "gamma (merge acc x) v \<or> (\<exists>y \<in> set xs. gamma y v)"
    using Cons.prems merge_left [of acc x v] merge_right [of acc x v] by auto
  then show ?case using Cons.IH [of "merge acc x"] Cons.prems by (simp add: merge_wf)
qed simp

end

locale meet_domain = merge_domain +
  fixes meet :: "'a \<Rightarrow> 'a \<Rightarrow> 'a option"
  assumes meet_wf: "wf a \<Longrightarrow> wf b \<Longrightarrow> meet a b = Some c \<Longrightarrow> wf c"
    and meet_Some: "wf a \<Longrightarrow> wf b \<Longrightarrow> meet a b = Some c \<Longrightarrow> gamma c v \<longleftrightarrow> gamma a v \<and> gamma b v"
    and meet_None: "wf a \<Longrightarrow> wf b \<Longrightarrow> meet a b = None \<Longrightarrow> \<not> (gamma a v \<and> gamma b v)"
begin

lemma meet_exact: "wf a \<Longrightarrow> wf b \<Longrightarrow> (\<exists>c. meet a b = Some c \<and> gamma c v) \<longleftrightarrow> gamma a v \<and> gamma b v"
  using meet_Some meet_None by (metis option.exhaust)

lemma meet_of_merge:
  assumes "wf a" "wf b" "gamma a v"
  shows "\<exists>c. meet (merge a b) a = Some c \<and> gamma c v"
  using assms meet_exact [of "merge a b" a v] merge_wf merge_left by blast

end

subsection \<open>Tnums\<close>

interpretation tn: meet_domain tnum_ok tnum_contains tnum_is_subset_of tnum_join tnum_meet
proof unfold_locales
  show "tnum_is_subset_of a b \<Longrightarrow> tnum_contains a v \<Longrightarrow> tnum_contains b v" if "tnum_ok a" "tnum_ok b" for a b v
    using tnum_subset_exact [OF that] by blast
qed (auto simp: tnum_ok_join tnum_join_left tnum_join_right tnum_meet_exact dest: tnum_ok_meet tnum_meet_None)

subsection \<open>Scalars\<close>

lemma scalar_ok_mk: "tnum_ok t \<Longrightarrow> in_range \<lparr>stnum = t, smin = lo, smax = hi\<rparr> \<Longrightarrow> scalar_ok \<lparr>stnum = t, smin = lo, smax = hi\<rparr>"
  by (simp add: scalar_ok_def)

lemma scalar_join_ok: "scalar_ok a \<Longrightarrow> scalar_ok b \<Longrightarrow> scalar_ok (scalar_join a b)"
  unfolding scalar_join_def by (rule normalized_ok) (auto simp: scalar_ok_def in_range_def tnum_ok_join)

lemma scalar_join_sound:
  assumes "scalar_ok a" "scalar_ok b" "scalar_contains a v \<or> scalar_contains b v"
  shows "scalar_contains (scalar_join a b) v"
proof -
  have "models (scalar_join a b) v"
    unfolding scalar_join_def using assms
    by (intro normalized_sound)
      (auto simp: models_def scalar_ok_def in_range_def scalar_contains_def tnum_ok_join tnum_join_left tnum_join_right)
  then show ?thesis by (simp add: models_def)
qed

lemma scalar_meet_cases:
  assumes "scalar_ok a" "scalar_ok b"
  shows "(case scalar_meet a b of None \<Rightarrow> \<not> (scalar_contains a v \<and> scalar_contains b v)
    | Some c \<Rightarrow> scalar_ok c \<and> (scalar_contains c v \<longleftrightarrow> scalar_contains a v \<and> scalar_contains b v))"
proof (cases "tnum_meet (stnum a) (stnum b)")
  case None
  then show ?thesis using tnum_meet_None [OF None, of v] by (auto simp: scalar_meet_def scalar_contains_def)
next
  case (Some t)
  let ?s = "\<lparr>stnum = t, smin = max (smin a) (smin b), smax = min (smax a) (smax b)\<rparr>"
  have "scalar_ok ?s" using assms tnum_ok_meet [OF Some] by (auto simp: scalar_ok_def in_range_def)
  moreover have "scalar_contains ?s v \<longleftrightarrow> scalar_contains a v \<and> scalar_contains b v"
    using tnum_meet_exact [OF _ _ Some, of v] assms by (auto simp: scalar_contains_def scalar_ok_def)
  ultimately show ?thesis using normalize_exact [of ?s v] Some by (auto simp: scalar_meet_def split: option.splits)
qed

lemma scalar_subset_sound:
  "scalar_ok a \<Longrightarrow> scalar_ok b \<Longrightarrow> scalar_is_subset_of a b \<Longrightarrow> scalar_contains a v \<Longrightarrow> scalar_contains b v"
  using tnum_subset_exact [of "stnum a" "stnum b"] by (auto simp: scalar_is_subset_of_def scalar_contains_def scalar_ok_def)

interpretation sc: meet_domain scalar_ok scalar_contains scalar_is_subset_of scalar_join scalar_meet
proof unfold_locales
  fix a b c and v
  assume ok: "scalar_ok a" "scalar_ok b"
  show "scalar_ok c" if "scalar_meet a b = Some c"
    using scalar_meet_cases [OF ok] that by simp
  show "scalar_contains c v \<longleftrightarrow> scalar_contains a v \<and> scalar_contains b v" if "scalar_meet a b = Some c"
    using scalar_meet_cases [OF ok, of v] that by simp
  show "\<not> (scalar_contains a v \<and> scalar_contains b v)" if "scalar_meet a b = None"
    using scalar_meet_cases [OF ok, of v] that by simp
qed (auto simp: scalar_join_ok intro: scalar_join_sound scalar_subset_sound)

subsection \<open>Widening\<close>

definition thresholds_ok :: "int list \<Rightarrow> bool" where
  "thresholds_ok ts \<longleftrightarrow> (\<forall>t \<in> set ts. I64_MIN \<le> t \<and> t \<le> I64_MAX)"

lemma find_SomeD: "List.find P xs = Some x \<Longrightarrow> x \<in> set xs \<and> P x"
  by (auto simp: find_Some_iff)

lemma threshold_below:
  assumes "thresholds_ok ts" "I64_MIN \<le> c"
  shows "(case List.find (\<lambda>t. t \<le> c) (rev ts) of Some t \<Rightarrow> t | None \<Rightarrow> I64_MIN) \<le> c"
    "I64_MIN \<le> (case List.find (\<lambda>t. t \<le> c) (rev ts) of Some t \<Rightarrow> t | None \<Rightarrow> I64_MIN)"
  using assms by (auto simp: thresholds_ok_def split: option.split dest: find_SomeD)

lemma threshold_above:
  assumes "thresholds_ok ts" "c \<le> I64_MAX"
  shows "c \<le> (case List.find (\<lambda>t. c \<le> t) ts of Some t \<Rightarrow> t | None \<Rightarrow> I64_MAX)"
    "(case List.find (\<lambda>t. c \<le> t) ts of Some t \<Rightarrow> t | None \<Rightarrow> I64_MAX) \<le> I64_MAX"
  using assms by (auto simp: thresholds_ok_def split: option.split dest: find_SomeD)

lemma widen_models:
  assumes "scalar_ok s" "scalar_ok n" "thresholds_ok ts" "scalar_contains s v \<or> scalar_contains n v"
  shows "models (widen s n ts) v"
proof -
  define mn where "mn = (if smin n < smin s
      then case List.find (\<lambda>t. t \<le> smin n) (rev ts) of Some t \<Rightarrow> t | None \<Rightarrow> I64_MIN else smin s)"
  define mx where "mx = (if smax n > smax s
      then case List.find (\<lambda>t. t \<ge> smax n) ts of Some t \<Rightarrow> t | None \<Rightarrow> I64_MAX else smax s)"
  define t where "t = (let t = tnum_join (stnum s) (stnum n)
     in if smin n < smin s \<or> smax n > smax s then tnum_join t (derived_tnum mn mx) else t)"
  have r: "I64_MIN \<le> smin n" "smax n \<le> I64_MAX" "I64_MIN \<le> smin s" "smax s \<le> I64_MAX"
    using assms(1,2) by (auto simp: scalar_ok_def in_range_def)
  have mn: "mn \<le> smin n" "mn \<le> smin s" "I64_MIN \<le> mn"
    using threshold_below [OF assms(3) r(1)] r by (auto simp: mn_def)
  have mx: "smax n \<le> mx" "smax s \<le> mx" "mx \<le> I64_MAX"
    using threshold_above [OF assms(3) r(2)] r by (auto simp: mx_def)
  have t: "tnum_ok t" "tnum_contains t v"
    using assms(4) by (auto simp: t_def Let_def tnum_ok_join scalar_contains_def intro: tnum_join_left tnum_join_right)
  have "models (normalized \<lparr>stnum = t, smin = mn, smax = mx\<rparr>) v"
    using assms(4) mn mx t by (intro models_mk) (auto simp: scalar_contains_def)
  then show ?thesis unfolding widen_def Let_def t_def mn_def mx_def .
qed

subsection \<open>Properties\<close>

text \<open>
  The fixpoint's decision that a block's input did not change is sound: when the join or the widening of the old
  scalar with an incoming one is a subset of the old scalar, every value of the incoming scalar was already in the old
  one; and the merge always contains both.
\<close>

theorem unchanged_merge_covers:
  assumes "scalar_ok old" "scalar_ok new" "thresholds_ok ts" "m = scalar_join old new \<or> m = widen old new ts"
  shows "(scalar_contains old v \<or> scalar_contains new v \<longrightarrow> scalar_contains m v)
    \<and> (scalar_is_subset_of m old \<longrightarrow> scalar_contains new v \<longrightarrow> scalar_contains old v)"
proof -
  have m: "models m v" if "scalar_contains old v \<or> scalar_contains new v"
    using assms that widen_models [OF assms(1-3)] scalar_join_ok [OF assms(1,2)] sc.merge_left sc.merge_right
    by (auto simp: models_def)
  then have "scalar_is_subset_of m old \<Longrightarrow> scalar_contains new v \<Longrightarrow> scalar_contains old v"
    using scalar_subset_sound [of m old v] assms(1) by (auto simp: models_def)
  with m show ?thesis by (auto simp: models_def)
qed

theorem unchanged_merge_covers_witness:
  "scalar_contains (widen (scalar_constant 0) (scalar_constant 1) [0, 16]) 1"
  using unchanged_merge_covers [of "scalar_constant 0" "scalar_constant 1" "[0, 16]" "widen (scalar_constant 0) (scalar_constant 1) [0, 16]" 1]
  by (simp add: scalar_ok_def in_range_def scalar_constant_def thresholds_ok_def I64_MIN_def I64_MAX_def scalar_contains_def)

text \<open>
  Reduction and meet are exact. \<open>normalize\<close> keeps the set of values of a scalar, and answers \<open>None\<close> only for
  an empty one; the meet of two scalars contains exactly the common values, and is \<open>None\<close> only when there are none. The
  result satisfies the representation invariant.
\<close>

theorem reduction_and_meet_exact:
  assumes "scalar_ok a" "scalar_ok b"
  shows "(case Bpf_Scalar.normalize a of None \<Rightarrow> \<not> scalar_contains a v
      | Some s \<Rightarrow> scalar_ok s \<and> (scalar_contains s v \<longleftrightarrow> scalar_contains a v))
    \<and> (case scalar_meet a b of None \<Rightarrow> \<not> (scalar_contains a v \<and> scalar_contains b v)
      | Some c \<Rightarrow> scalar_ok c \<and> (scalar_contains c v \<longleftrightarrow> scalar_contains a v \<and> scalar_contains b v))"
  using normalize_exact [OF assms(1)] scalar_meet_cases [OF assms] by blast

theorem reduction_and_meet_exact_witness:
  "\<not> (\<exists>c. scalar_meet (scalar_constant 1) (scalar_constant 2) = Some c \<and> scalar_contains c 1)"
  using reduction_and_meet_exact [of "scalar_constant 1" "scalar_constant 2" 1]
  by (auto simp: scalar_ok_def in_range_def scalar_constant_def I64_MIN_def I64_MAX_def scalar_contains_def)

end
