(* ===== verification/Bpf_Value.thy ===== *)
theory Bpf_Value
  imports Bpf_Lattice
begin

text \<open>
  The values the BPF verifier tracks for a register or a spilled stack slot: \<open>PtrClass\<close>, \<open>PtrVal\<close> and \<open>AbsValue\<close> of
  \<open>bpf/verifier/src/state.rs\<close> with \<open>ValidityDomain\<close> and \<open>TypeKey\<close> of \<open>kfunc.rs\<close>. A pointer is a region and
  an offset that is a scalar of the numeric domain. Reference ids, which are instruction indices of type \<open>u32\<close>, are integers.

  The meaning of a value is relative to the regions that exist at run time: their base addresses per class, key and reference,
  their extents, whether they may be written, and how long they live. Shown: join, widening and the subset test
  of values keep that meaning, so values are another merge domain.
\<close>

subsection \<open>Definitions\<close>

datatype validity_domain = NonPreemptible | RcuRead | SleepableRcuRead | Owned | Static

fun survives_await :: "validity_domain \<Rightarrow> bool" where
  "survives_await NonPreemptible = False"
| "survives_await RcuRead = False"
| "survives_await SleepableRcuRead = True"
| "survives_await Owned = True"
| "survives_await Static = True"

definition requires_release :: "validity_domain \<Rightarrow> bool" where
  "requires_release d \<longleftrightarrow> d = Owned"

type_synonym type_key = u32

definition TypeKey_NONE :: type_key where "TypeKey_NONE = 0"

definition key_is_some :: "type_key \<Rightarrow> bool" where
  "key_is_some k \<longleftrightarrow> k \<noteq> 0"

definition NO_REF :: int where "NO_REF = 2 ^ 32 - 1"

datatype ptr_class = Class_Stack | Class_Ctx | Class_MapValue | Class_Mem | Class_MemEnd | Class_Object | Class_TraceObject
  | Class_Arena | Class_LockGuard | Class_Null

definition is_faulting :: "ptr_class \<Rightarrow> bool" where
  "is_faulting c \<longleftrightarrow> c = Class_Object \<or> c = Class_TraceObject \<or> c = Class_Arena"

record ptr_val =
  pclass :: ptr_class
  pkey :: type_key
  pdomain :: validity_domain
  poff :: scalar
  psize :: "u64 option"
  pnullable :: bool
  pref_id :: int
  preadonly :: bool

definition ptr_region :: "ptr_class \<Rightarrow> u64 \<Rightarrow> ptr_val" where
  "ptr_region c sz = \<lparr>pclass = c, pkey = TypeKey_NONE, pdomain = Static, poff = scalar_constant 0, psize = Some sz,
     pnullable = False, pref_id = NO_REF, preadonly = False\<rparr>"

definition frame_pointer :: ptr_val where
  "frame_pointer = \<lparr>pclass = Class_Stack, pkey = TypeKey_NONE, pdomain = Static, poff = scalar_constant 0, psize = None,
     pnullable = False, pref_id = NO_REF, preadonly = False\<rparr>"

definition ptr_survives_await :: "ptr_val \<Rightarrow> bool" where
  "ptr_survives_await p = survives_await (pdomain p)"

fun domain_rank :: "validity_domain \<Rightarrow> nat" where
  "domain_rank NonPreemptible = 0"
| "domain_rank RcuRead = 1"
| "domain_rank SleepableRcuRead = 2"
| "domain_rank Owned = 3"
| "domain_rank Static = 4"

definition weaker_domain :: "validity_domain \<Rightarrow> validity_domain \<Rightarrow> validity_domain" where
  "weaker_domain a b = (if domain_rank a \<le> domain_rank b then a else b)"

definition ptr_join :: "ptr_val \<Rightarrow> ptr_val \<Rightarrow> ptr_val option" where
  "ptr_join p q =
     (if pclass p \<noteq> pclass q \<or> pkey p \<noteq> pkey q \<or> pref_id p \<noteq> pref_id q then None
      else Some \<lparr>pclass = pclass p, pkey = pkey p, pdomain = weaker_domain (pdomain p) (pdomain q),
                 poff = scalar_join (poff p) (poff q),
                 psize = (case (psize p, psize q) of (Some a, Some b) \<Rightarrow> Some (min a b) | _ \<Rightarrow> None),
                 pnullable = (pnullable p \<or> pnullable q), pref_id = pref_id p, preadonly = (preadonly p \<or> preadonly q)\<rparr>)"

definition ptr_is_subset_of :: "ptr_val \<Rightarrow> ptr_val \<Rightarrow> bool" where
  "ptr_is_subset_of p q \<longleftrightarrow>
     pclass p = pclass q \<and> pkey p = pkey q \<and> pref_id p = pref_id q \<and> pdomain p = pdomain q
     \<and> scalar_is_subset_of (poff p) (poff q)
     \<and> (pnullable q \<or> \<not> pnullable p) \<and> (preadonly q \<or> \<not> preadonly p)
     \<and> (case (psize p, psize q) of (Some a, Some b) \<Rightarrow> a \<ge> b | (_, None) \<Rightarrow> True | (None, Some _) \<Rightarrow> False)"

definition ptr_widen :: "ptr_val \<Rightarrow> ptr_val \<Rightarrow> int list \<Rightarrow> ptr_val option" where
  "ptr_widen p q ts = map_option (\<lambda>j. j\<lparr>poff := widen (poff p) (poff q) ts\<rparr>) (ptr_join p q)"

datatype abs_value = NotInit | Scalar scalar | Ptr ptr_val

abbreviation UNKNOWN_SCALAR :: abs_value where "UNKNOWN_SCALAR \<equiv> Scalar Scalar_UNKNOWN"

definition ptr_or_scalar :: "ptr_val option \<Rightarrow> abs_value" where
  "ptr_or_scalar r = (case r of Some p \<Rightarrow> Ptr p | None \<Rightarrow> UNKNOWN_SCALAR)"

fun value_join :: "abs_value \<Rightarrow> abs_value \<Rightarrow> abs_value" where
  "value_join NotInit _ = NotInit"
| "value_join _ NotInit = NotInit"
| "value_join (Scalar a) (Scalar b) = Scalar (scalar_join a b)"
| "value_join (Ptr a) (Ptr b) = ptr_or_scalar (ptr_join a b)"
| "value_join _ _ = UNKNOWN_SCALAR"

fun value_widen :: "abs_value \<Rightarrow> abs_value \<Rightarrow> int list \<Rightarrow> abs_value" where
  "value_widen (Scalar a) (Scalar b) ts = Scalar (widen a b ts)"
| "value_widen (Ptr a) (Ptr b) ts = ptr_or_scalar (ptr_widen a b ts)"
| "value_widen a b ts = value_join a b"

fun value_is_subset_of :: "abs_value \<Rightarrow> abs_value \<Rightarrow> bool" where
  "value_is_subset_of _ NotInit = True"
| "value_is_subset_of NotInit _ = False"
| "value_is_subset_of (Scalar a) (Scalar b) = scalar_is_subset_of a b"
| "value_is_subset_of (Ptr a) (Ptr b) = ptr_is_subset_of a b"
| "value_is_subset_of _ _ = False"

subsection \<open>Meaning\<close>

text \<open>
  The regions of a run. A base address stands for one region; a pointer of a class, key and reference points into one of the
  bases given for them, or is null when it may be and the run has null pointers at all.
\<close>

record regions =
  bases :: "ptr_class \<Rightarrow> type_key \<Rightarrow> int \<Rightarrow> u64 set"
  extent :: "u64 \<Rightarrow> nat"
  writable :: "u64 \<Rightarrow> bool"
  lifetime :: "u64 \<Rightarrow> validity_domain"
  nulls :: bool

definition grants :: "regions \<Rightarrow> ptr_val \<Rightarrow> u64 \<Rightarrow> bool" where
  "grants E p b \<longleftrightarrow> b \<in> bases E (pclass p) (pkey p) (pref_id p) \<and> (\<forall>n. psize p = Some n \<longrightarrow> unat n \<le> extent E b)
     \<and> (\<not> preadonly p \<longrightarrow> writable E b) \<and> domain_rank (pdomain p) \<le> domain_rank (lifetime E b)"

definition gamma_ptr :: "regions \<Rightarrow> ptr_val \<Rightarrow> u64 \<Rightarrow> bool" where
  "gamma_ptr E p v \<longleftrightarrow> nulls E \<and> pnullable p \<and> v = 0 \<or> (\<exists>b d. grants E p b \<and> scalar_contains (poff p) d \<and> v = b + d)"

fun gamma_value :: "regions \<Rightarrow> abs_value \<Rightarrow> u64 \<Rightarrow> bool" where
  "gamma_value E NotInit v = True"
| "gamma_value E (Scalar s) v = scalar_contains s v"
| "gamma_value E (Ptr p) v = gamma_ptr E p v"

fun value_ok :: "abs_value \<Rightarrow> bool" where
  "value_ok NotInit = True"
| "value_ok (Scalar s) = scalar_ok s"
| "value_ok (Ptr p) = scalar_ok (poff p)"

lemma weaker_domain_le:
  "domain_rank (weaker_domain a b) \<le> domain_rank a" "domain_rank (weaker_domain a b) \<le> domain_rank b"
  by (simp_all add: weaker_domain_def)

lemma UNKNOWN_any [simp]: "scalar_contains Scalar_UNKNOWN v" "scalar_ok Scalar_UNKNOWN"
  using models_UNKNOWN [of v] models_UNKNOWN [of 0] by (simp_all add: models_def)

text \<open>A pointer that is weaker in every field but the offset.\<close>

lemma ptr_join_grants:
  assumes "ptr_join p q = Some j" "grants E p b \<or> grants E q b"
  shows "grants E j b"
  using assms weaker_domain_le [of "pdomain p" "pdomain q"]
  by (auto simp: ptr_join_def grants_def min_def word_le_nat_alt split: if_splits option.splits)

lemma ptr_join_off:
  assumes "ptr_join p q = Some j"
  shows "poff j = scalar_join (poff p) (poff q)" "pnullable j \<longleftrightarrow> pnullable p \<or> pnullable q"
  using assms by (auto simp: ptr_join_def split: if_splits)

lemma gamma_ptr_covers:
  assumes "\<And>b. grants E p b \<Longrightarrow> grants E j b" "pnullable p \<Longrightarrow> pnullable j"
    and "\<And>d. scalar_contains (poff p) d \<Longrightarrow> scalar_contains (poff j) d" "gamma_ptr E p v"
  shows "gamma_ptr E j v"
  using assms unfolding gamma_ptr_def by blast

lemma grants_off [simp]: "grants E (p\<lparr>poff := s\<rparr>) = grants E p"
  by (simp add: grants_def fun_eq_iff)

lemma ptr_join_covers:
  assumes "ptr_join p q = Some j" "scalar_ok (poff p)" "scalar_ok (poff q)" "gamma_ptr E p v \<or> gamma_ptr E q v"
  shows "gamma_ptr E j v"
  using assms(4) gamma_ptr_covers [of E p j v] gamma_ptr_covers [of E q j v] ptr_join_grants [OF assms(1)]
    ptr_join_off [OF assms(1)] scalar_join_sound [OF assms(2,3)] by auto

lemma ptr_widen_covers:
  assumes "ptr_widen p q ts = Some j" "scalar_ok (poff p)" "scalar_ok (poff q)" "thresholds_ok ts" "gamma_ptr E p v \<or> gamma_ptr E q v"
  shows "gamma_ptr E j v"
proof -
  obtain k where k: "ptr_join p q = Some k" "j = k\<lparr>poff := widen (poff p) (poff q) ts\<rparr>"
    using assms(1) by (auto simp: ptr_widen_def)
  show ?thesis
    using assms(5) gamma_ptr_covers [of E p j v] gamma_ptr_covers [of E q j v] ptr_join_grants [OF k(1)]
      ptr_join_off [OF k(1)] widen_models [OF assms(2-4)] by (auto simp: k(2) models_def)
qed

lemma ptr_subset_covers:
  assumes "ptr_is_subset_of p q" "scalar_ok (poff p)" "scalar_ok (poff q)" "gamma_ptr E p v"
  shows "gamma_ptr E q v"
proof (rule gamma_ptr_covers [OF _ _ _ assms(4)])
  show "grants E q b" if "grants E p b" for b
    using assms(1) that by (auto simp: ptr_is_subset_of_def grants_def word_le_nat_alt split: option.splits)
qed (use assms(1) scalar_subset_sound [OF assms(2,3)] in \<open>auto simp: ptr_is_subset_of_def\<close>)

subsection \<open>Values are a merge domain\<close>

lemma widen_ok:
  assumes "scalar_ok a" "scalar_ok b" "thresholds_ok ts"
  shows "scalar_ok (widen a b ts)"
  unfolding widen_def Let_def
  using assms threshold_below [OF assms(3), of "smin b"] threshold_above [OF assms(3), of "smax b"]
  by (intro normalized_ok scalar_ok_mk) (auto simp: scalar_ok_def in_range_def tnum_ok_join)

lemma value_join_NotInit [simp]: "value_join a NotInit = NotInit"
  by (cases a) simp_all

lemma value_join_ok: "value_ok a \<Longrightarrow> value_ok b \<Longrightarrow> value_ok (value_join a b)"
  by (cases "(a, b)" rule: value_join.cases)
    (auto simp: scalar_join_ok ptr_or_scalar_def ptr_join_def split: option.splits if_splits)

lemma value_widen_ok: "value_ok a \<Longrightarrow> value_ok b \<Longrightarrow> thresholds_ok ts \<Longrightarrow> value_ok (value_widen a b ts)"
  by (cases "(a, b, ts)" rule: value_widen.cases)
    (auto simp: widen_ok ptr_or_scalar_def ptr_widen_def split: option.splits)

lemma value_join_covers:
  "value_ok a \<Longrightarrow> value_ok b \<Longrightarrow> gamma_value E a v \<or> gamma_value E b v \<Longrightarrow> gamma_value E (value_join a b) v"
  by (cases "(a, b)" rule: value_join.cases)
    (auto simp: ptr_or_scalar_def scalar_join_sound intro: ptr_join_covers split: option.splits)

lemma value_widen_covers:
  "value_ok a \<Longrightarrow> value_ok b \<Longrightarrow> thresholds_ok ts \<Longrightarrow> gamma_value E a v \<or> gamma_value E b v \<Longrightarrow> gamma_value E (value_widen a b ts) v"
  using widen_models by (cases "(a, b, ts)" rule: value_widen.cases)
    (auto simp: ptr_or_scalar_def models_def intro: ptr_widen_covers split: option.splits)

lemma value_subset_covers:
  "value_ok a \<Longrightarrow> value_ok b \<Longrightarrow> value_is_subset_of a b \<Longrightarrow> gamma_value E a v \<Longrightarrow> gamma_value E b v"
  by (cases "(a, b)" rule: value_is_subset_of.cases) (auto intro: scalar_subset_sound ptr_subset_covers)

interpretation av: merge_domain value_ok "gamma_value E" value_is_subset_of value_join for E
  by unfold_locales (auto intro: value_join_ok value_join_covers value_subset_covers)

end
