(* ===== verification/Bpf_Transfer.thy ===== *)
theory Bpf_Transfer
  imports Bpf_Interp
begin

text \<open>
  Soundness of the transfer functions of the BPF verifier's numeric domain (\<open>bpf/verifier/src/domain.rs\<close>) against the
  concrete instruction semantics (\<open>bpf/verifier/src/interp.rs\<close>): whenever abstract operands contain the concrete
  operands, the abstract result contains the concrete result, for every operation at both widths. The 32-bit forms go
  through \<open>zext32\<close> and \<open>sext32\<close>, whose intervals are shown to be bounds of the low half of the value.
\<close>

subsection \<open>Subregister views\<close>

lemma sint_small: "(w :: u64) < push_bit 63 1 \<Longrightarrow> sint w = uint w"
  by (rule uint_small_sint) (simp add: word_less_def)

lemma sint_mono_small:
  assumes "lo \<le> w" "w \<le> hi" "uint (hi :: u64) < 2 ^ 63"
  shows "sint lo \<le> sint w" "sint w \<le> sint hi"
  using assms uint_small_sint [of lo] uint_small_sint [of w] uint_small_sint [of hi] by (auto simp: word_le_def)

lemma and_low32: "(w :: u64) AND 0xFFFFFFFF = take_bit 32 w"
  by (simp add: take_bit_eq_mask mask_eq_exp_minus_1)

lemma uint_take_bit32: "uint (take_bit 32 (w :: u64)) = take_bit 32 (uint w)"
  by (simp add: unsigned_take_bit_eq)

lemma take_bit32_le: "uint (take_bit 32 (w :: u64)) < 2 ^ 32"
  using take_bit_int_less_exp [of 32 "uint w"] by (simp add: uint_take_bit32)

lemma take_bit_between:
  fixes lo v hi :: u64
  assumes "lo \<le> v" "v \<le> hi" "drop_bit 32 lo = drop_bit 32 hi"
  shows "take_bit 32 lo \<le> take_bit 32 v" "take_bit 32 v \<le> take_bit 32 hi"
proof -
  have d: "drop_bit 32 v = drop_bit 32 hi" by (rule drop_bit_between [OF assms])
  have split: "uint w = uint (take_bit 32 w) + 2 ^ 32 * uint (drop_bit 32 w)" for w :: u64
  proof -
    have "uint w = take_bit 32 (uint w) + 2 ^ 32 * drop_bit 32 (uint w)"
      by (metis bits_ident push_bit_eq_mult add.commute mult.commute)
    then show ?thesis by (simp add: unsigned_take_bit_eq unsigned_drop_bit_eq take_bit_uint)
  qed
  show "take_bit 32 lo \<le> take_bit 32 v" "take_bit 32 v \<le> take_bit 32 hi"
    using assms d split [of lo] split [of v] split [of hi] by (auto simp: word_le_def)
qed

lemma tnum_meet_or_left:
  assumes "tnum_ok t" "tnum_contains t v" "tnum_contains r v"
  shows "tnum_ok (case tnum_meet t r of Some m \<Rightarrow> m | None \<Rightarrow> t)"
    "tnum_contains (case tnum_meet t r of Some m \<Rightarrow> m | None \<Rightarrow> t) v"
  using assms tnum_meet_Some [of t r _ v] tnum_ok_meet [of t r] by (auto split: option.split)

lemma tnum_zero_extend_32: "tnum_zero_extend t 32 = \<lparr>tvalue = take_bit 32 (tvalue t), tmask = take_bit 32 (tmask t)\<rparr>"
  by (simp add: tnum_zero_extend_def and_low32)

lemma zext32_sound:
  assumes "models s v"
  shows "models (zext32 s) (take_bit 32 v)"
proof -
  note M = modelsD [OF assms]
  let ?t = "tnum_zero_extend (stnum s) 32" and ?v = "take_bit 32 v"
  have t: "tnum_ok ?t" "tnum_contains ?t ?v" using M by (auto intro: tnum_ok_shift tnum_zero_extend_sound)
  show ?thesis
  proof (cases "drop_bit 32 (as_u64 (smin s)) = drop_bit 32 (as_u64 (smax s))")
    case True
    let ?lo = "take_bit 32 (as_u64 (smin s))" and ?hi = "take_bit 32 (as_u64 (smax s))"
    have "bit (as_u64 (smin s)) 63 = bit (as_u64 (smax s)) 63"
      using arg_cong [OF True, of "\<lambda>w. bit w 31"] by (simp add: bit_drop_bit_eq)
    then have "0 \<le> smin s \<or> smax s < 0" using M i64_bounds [of v] by (auto simp: sign_sint sint_as_u64)
    then have "as_u64 (smin s) \<le> v" "v \<le> as_u64 (smax s)" using M sint_between [of "smin s" v "smax s"] by auto
    then have b: "?lo \<le> ?v" "?v \<le> ?hi" using True by (auto intro: take_bit_between)
    have h: "uint ?hi < 2 ^ 63" using take_bit32_le [of "as_u64 (smax s)"] by simp
    show ?thesis
      unfolding zext32_def Let_def and_low32 if_P [OF True]
      by (intro models_mk tnum_meet_or_left [OF t tnum_from_unsigned_range_sound [OF b]] sint_mono_small [OF b h] i64_bounds)
  next
    case False
    have b: "tvalue ?t \<le> ?v" "?v \<le> tvalue ?t OR tmask ?t"
      using tnum_unsigned_bounds_sound [OF t(2)] by (auto simp: tnum_unsigned_bounds_def)
    have "tvalue ?t OR tmask ?t = take_bit 32 (tvalue ?t OR tmask ?t)"
      by (simp add: tnum_zero_extend_32 take_bit_or)
    then have h: "uint (tvalue ?t OR tmask ?t) < 2 ^ 63" using take_bit32_le [of "tvalue ?t OR tmask ?t"] by simp
    show ?thesis
      unfolding zext32_def Let_def tnum_unsigned_bounds_def split if_not_P [OF False]
      by (intro models_mk t sint_mono_small [OF b h] i64_bounds)
  qed
qed

text \<open>Reduction only tightens the interval, so a zero-extended value keeps its 32-bit bounds.\<close>

lemma normalize_loop_bounds: "normalize_loop n s = Some s' \<Longrightarrow> smin s \<le> smin s' \<and> smax s' \<le> smax s"
proof (induction n arbitrary: s)
  case (Suc n)
  then obtain u where u: "normalize_round s = Some u" by (auto split: option.splits)
  then have "smin s \<le> smin u" "smax u \<le> smax s"
    by (auto simp: normalize_round_def Let_def split: if_splits prod.splits option.splits)
  then show ?case using Suc u by (force split: if_splits)
qed (auto split: if_splits)

lemma normalized_bounds: "smin s \<le> smin (normalized s)" "smax (normalized s) \<le> smax s"
  using normalize_loop_bounds [of 3 s] by (auto simp: normalized_def normalize_def split: option.split)

lemma sint_take_bit32: "sint (take_bit 32 (w :: u64)) = take_bit 32 (uint w)"
  using take_bit32_le [of w] by (simp add: uint_small_sint uint_take_bit32)

lemma zext32_bounds: "0 \<le> smin (zext32 s)" "smax (zext32 s) < 2 ^ 32"
proof -
  have "\<exists>t lo hi. zext32 s = normalized \<lparr>stnum = t, smin = sint (take_bit 32 lo :: u64), smax = sint (take_bit 32 hi :: u64)\<rparr>"
  proof (cases "drop_bit 32 (as_u64 (smin s)) = drop_bit 32 (as_u64 (smax s))")
    case True
    show ?thesis unfolding zext32_def Let_def and_low32 if_P [OF True] by (intro exI, rule refl)
  next
    case False
    have "tvalue (tnum_zero_extend (stnum s) 32) = take_bit 32 (tvalue (stnum s))"
      "tvalue (tnum_zero_extend (stnum s) 32) OR tmask (tnum_zero_extend (stnum s) 32) = take_bit 32 (tvalue (stnum s) OR tmask (stnum s))"
      by (simp_all add: tnum_zero_extend_32 take_bit_or)
    then show ?thesis unfolding zext32_def Let_def tnum_unsigned_bounds_def split if_not_P [OF False] by metis
  qed
  then obtain t and lo hi :: u64
    where z: "zext32 s = normalized \<lparr>stnum = t, smin = sint (take_bit 32 lo), smax = sint (take_bit 32 hi)\<rparr>"
    by blast
  note N = normalized_bounds [of "\<lparr>stnum = t, smin = sint (take_bit 32 lo), smax = sint (take_bit 32 hi)\<rparr>"]
  show "0 \<le> smin (zext32 s)" using N(1) by (simp add: z sint_take_bit32 order_trans [rotated])
  show "smax (zext32 s) < 2 ^ 32"
    using N(2) take_bit_int_less_exp [of 32 "uint hi"] by (simp add: z sint_take_bit32)
qed

lemma sext_sint:
  assumes "0 < bits" "bits < 64"
  shows "sint (sext v bits) = signed_take_bit (bits - 1) (uint v)"
proof -
  obtain k where k: "bits = Suc k" using assms(1) by (cases bits) auto
  show ?thesis
    using assms(2) unfolding k
    by (intro bit_eqI)
      (auto simp: sext_def bit_signed_iff bit_signed_drop_bit_iff bit_push_bit_iff bit_signed_take_bit_iff bit_uint min_def
        not_le not_less less_Suc_eq split: if_splits)
qed

lemma sext_range:
  assumes "0 < bits" "bits < 64"
  shows "- (2 ^ (bits - 1)) \<le> sint (sext v bits)" "sint (sext v bits) \<le> 2 ^ (bits - 1) - 1"
  using signed_take_bit_int_greater_eq_minus_exp [of "bits - 1" "uint v"] signed_take_bit_int_less_exp [of "bits - 1" "uint v"]
  by (simp_all add: sext_sint [OF assms])

lemma i64_exp: "k < 64 \<Longrightarrow> I64_MIN \<le> - (2 ^ (k - 1)) \<and> 2 ^ (k - 1) - 1 \<le> I64_MAX"
  using power_increasing [of "k - 1" 63 "2 :: int"] by (auto simp: I64_MIN_def I64_MAX_def)

lemma sext_take_bit: "0 < bits \<Longrightarrow> sext (take_bit bits v) bits = sext v bits"
  by (auto simp: sext_def u64_eq_iff bit_signed_drop_bit_iff bit_push_bit_iff bit_take_bit_iff)

lemma scalar_sign_extend_sound:
  assumes "models s v" "0 < bits"
  shows "\<exists>r. scalar_sign_extend s bits = Some r \<and> models r (sext v bits)"
proof (cases "bits < 64")
  case True
  let ?t = "tnum_sign_extend (tnum_zero_extend (stnum s) bits) bits"
  have "tnum_contains ?t (sext v bits)" "tnum_ok ?t"
    using modelsD [OF assms(1)] tnum_sign_extend_sound [OF tnum_zero_extend_sound [of "stnum s" v bits] assms(2) True]
      sext_take_bit [OF assms(2), of v] True
    by (auto simp: sext_def intro: tnum_ok_shift)
  then have "models (normalized \<lparr>stnum = ?t, smin = - (2 ^ (bits - 1)), smax = 2 ^ (bits - 1) - 1\<rparr>) (sext v bits)"
    using sext_range [OF assms(2) True] i64_exp [OF True] by (intro models_mk) auto
  then show ?thesis using True assms(2) by (simp add: scalar_sign_extend_def Let_def)
next
  case False
  then show ?thesis using assms by (simp add: scalar_sign_extend_def sext_def)
qed

lemma unsigned_bounds_zext32:
  assumes "models s v" "unsigned_bounds (zext32 s) = (lo, hi)"
  shows "uint hi < 2 ^ 32"
proof -
  let ?z = "zext32 s"
  note Z = zext32_bounds [of s]
  have le: "0 \<le> smax ?z" using modelsD(3,4) [OF zext32_sound [OF assms(1)]] Z by linarith
  have "hi \<le> as_u64 (smax ?z)" using assms(2) Z by (auto simp: unsigned_bounds_def Let_def split: if_splits prod.splits)
  moreover have "uint (as_u64 (smax ?z)) = smax ?z"
    using uint_as_u64 [of "smax ?z"] Z le by (simp add: I64_MIN_def I64_MAX_def)
  ultimately show ?thesis using Z(2) by (simp add: word_le_def)
qed

lemma sext32_sound:
  assumes "models s v"
  shows "models (sext32 s) (sext v 32)"
proof -
  let ?w = "take_bit 32 v"
  obtain lo hi where b: "unsigned_bounds (zext32 s) = (lo, hi)" by (rule prod.exhaust)
  note Z = zext32_sound [OF assms] and h = unsigned_bounds_zext32 [OF assms b]
  note W = unsigned_bounds_sound [OF Z b]
  have sl: "sint lo = uint lo" "sint hi = uint hi" using W h by (auto intro!: uint_small_sint simp: word_le_def)
  have w: "uint ?w = take_bit 32 (uint v)" by (rule uint_take_bit32)
  have e: "sint (sext v 32) = uint ?w - 2 ^ 32 * of_bool (bit (uint v) 31)"
    by (simp add: sext_sint w signed_take_bit_eq_take_bit_minus)
  have b31: "bit (uint v) 31 \<longleftrightarrow> 2 ^ 31 \<le> uint ?w"
    using take_bit_Suc_from_most [of 31 "uint v"] take_bit_int_less_exp [of 31 "uint v"] by (simp add: w)
  have t: "tnum_contains (tnum_sign_extend (stnum (zext32 s)) 32) (sext v 32)" "tnum_ok (tnum_sign_extend (stnum (zext32 s)) 32)"
    using modelsD(1,2) [OF Z] tnum_sign_extend_sound [of "stnum (zext32 s)" ?w 32] sext_take_bit [of 32 v]
    by (auto simp: sext_def intro: tnum_ok_shift)
  have H: "hi < push_bit 31 1 \<longleftrightarrow> uint hi < 2 ^ 31" "lo \<ge> push_bit 31 1 \<longleftrightarrow> 2 ^ 31 \<le> uint lo"
    by (simp_all add: word_less_def word_le_def)
  have u: "uint lo \<le> uint ?w" "uint ?w \<le> uint hi" "0 \<le> uint lo" using W by (auto simp: word_le_def)
  moreover have "I64_MIN \<le> uint lo" by (rule order_trans [OF _ uint_ge_0]) (simp add: I64_MIN_def)
  ultimately show ?thesis
    unfolding sext32_def Let_def b split H sl
    using h e b31 t sext_range [of 32 v]
    by (auto intro!: models_mk simp: I64_MIN_def I64_MAX_def)
qed

subsection \<open>Shifts\<close>

lemma and_63: "(w :: u64) AND 63 = take_bit 6 w"
  by (simp add: take_bit_eq_mask mask_eq_exp_minus_1)

lemma shift_amount_sound:
  assumes "models b y" "shift_amount b = Some n"
  shows "n = unat (y AND 63)" "n < 64"
proof -
  obtain c where "as_const b = Some c" "n = unat (as_u64 c AND 63)" using assms(2) by (auto simp: shift_amount_def)
  then show n: "n = unat (y AND 63)" using as_const_sound [OF assms(1)] by simp
  have "unat (take_bit 6 y) = take_bit 6 (unat y)" by (rule unsigned_take_bit_eq)
  then show "n < 64" unfolding n and_63 using take_bit_nat_less_exp [of 6 "unat y"] by simp
qed

lemma drop_bit_mono: "a \<le> (b :: int) \<Longrightarrow> drop_bit n a \<le> drop_bit n b"
  unfolding drop_bit_eq_div by (rule zdiv_mono1) simp_all

lemma drop_bit_le: "0 \<le> (k :: int) \<Longrightarrow> drop_bit n k \<le> k"
  unfolding drop_bit_eq_div using zdiv_mono2 [of k 1 "2 ^ n"] by simp

lemma drop_bit_ge: "(k :: int) < 0 \<Longrightarrow> k \<le> drop_bit n k"
  unfolding drop_bit_eq_div using zdiv_mono2_neg [of k 1 "2 ^ n"] by simp

lemma drop_bit_i64: "I64_MIN \<le> k \<Longrightarrow> I64_MIN \<le> drop_bit n k" "k \<le> I64_MAX \<Longrightarrow> drop_bit n k \<le> I64_MAX"
proof -
  show "I64_MIN \<le> drop_bit n k" if "I64_MIN \<le> k"
    using that drop_bit_ge [of k n] drop_bit_mono [of 0 k n] by (cases "k < 0") (auto simp: I64_MIN_def intro: order_trans [of _ 0])
  show "drop_bit n k \<le> I64_MAX" if "k \<le> I64_MAX"
    using that drop_bit_le [of k n] drop_bit_mono [of k 0 n]
    by (cases "k < 0") (auto simp: I64_MAX_def intro: order_trans [of _ 0])
qed

lemma uint_drop_bit: "uint (drop_bit n (x :: u64)) = drop_bit n (uint x)"
  by (simp add: unsigned_drop_bit_eq take_bit_uint)

lemma sint_drop_bit_nonneg:
  assumes "0 \<le> sint (x :: u64)"
  shows "sint (drop_bit n x) = drop_bit n (sint x)"
proof -
  have x: "sint x = uint x" using assms sign_sint [of x] by (simp add: sint_nonneg_uint)
  have "drop_bit n (uint x) \<le> uint x" by (simp add: drop_bit_le)
  also have "\<dots> < 2 ^ 63" using i64_bounds(2) [of x] by (simp add: x I64_MAX_def)
  finally show ?thesis using uint_small_sint [of "drop_bit n x"] by (simp add: x uint_drop_bit)
qed

lemma sint_drop_bit_pos:
  assumes "0 < n"
  shows "sint (drop_bit n (x :: u64)) = drop_bit n (uint x)"
proof -
  have "drop_bit n (uint x) = drop_bit (n - 1) (drop_bit 1 (uint x))" using assms by (simp add: drop_bit_drop_bit)
  also have "\<dots> \<le> drop_bit 1 (uint x)" by (rule drop_bit_le) simp
  also have "\<dots> < 2 ^ 63" using uint_lt2p [of x] by (simp add: drop_bit_eq_div)
  finally show ?thesis using uint_small_sint [of "drop_bit n x"] by (simp add: uint_drop_bit)
qed

lemma scalar_shr_sound:
  assumes "models a x" "models b y"
  shows "models (scalar_shr a b) (drop_bit (unat (y AND 63)) x)"
proof (cases "shift_amount b")
  case (Some n)
  note A = modelsD [OF assms(1)] and N = shift_amount_sound [OF assms(2) Some]
  show ?thesis
  proof (cases "n = 0")
    case False
    then have neg_n: "0 < n" by simp
    let ?b = "if smin a \<ge> 0 then (drop_bit n (smin a), drop_bit n (smax a)) else (0, sint (drop_bit n (- 1 :: u64)))"
    have "fst ?b \<le> sint (drop_bit n x) \<and> sint (drop_bit n x) \<le> snd ?b \<and> I64_MIN \<le> fst ?b \<and> snd ?b \<le> I64_MAX"
    proof (cases "smin a \<ge> 0")
      case True
      then show ?thesis using A drop_bit_i64 by (auto simp: sint_drop_bit_nonneg intro: drop_bit_mono)
    next
      case neg: False
      have "uint x \<le> uint (- 1 :: u64)" by (simp add: word_le_def [symmetric])
      then have "sint (drop_bit n x) \<le> sint (drop_bit n (- 1 :: u64))"
        unfolding sint_drop_bit_pos [OF neg_n] by (rule drop_bit_mono)
      moreover have "0 \<le> sint (drop_bit n x)" unfolding sint_drop_bit_pos [OF neg_n] by simp
      ultimately show ?thesis unfolding if_not_P [OF neg] fst_conv snd_conv
        using i64_bounds by (simp add: I64_MIN_def)
    qed
    then show ?thesis using False Some N A
      by (auto simp: scalar_shr_def intro!: scalar_of_sound tnum_ok_shift tnum_shr_sound)
  qed (use assms(1) N Some in \<open>simp add: scalar_shr_def\<close>)
qed (simp add: scalar_shr_def)

lemma scalar_sar_sound:
  assumes "models a x" "models b y"
  shows "models (scalar_sar a b) (signed_drop_bit (unat (y AND 63)) x)"
proof (cases "shift_amount b")
  case (Some n)
  note A = modelsD [OF assms(1)] and N = shift_amount_sound [OF assms(2) Some]
  show ?thesis
    unfolding scalar_sar_def Some N(1) [symmetric] option.case
    using A N(2) drop_bit_i64
    by (intro scalar_of_sound tnum_ok_shift tnum_sar_sound) (auto simp: sint_signed_drop_bit_eq intro: drop_bit_mono)
qed (simp add: scalar_sar_def)

lemma shl_fits:
  assumes "0 \<le> k" "k \<le> m" "as_u64 m \<le> drop_bit n (as_u64 I64_MAX)" "m \<le> I64_MAX"
  shows "push_bit n k \<le> push_bit n m" "push_bit n m \<le> I64_MAX"
proof -
  have "uint (as_u64 m) = m" "uint (as_u64 I64_MAX) = I64_MAX"
    using assms uint_as_u64 [of m] uint_as_u64 [of I64_MAX] by (auto simp: I64_MIN_def I64_MAX_def)
  then have "m \<le> I64_MAX div 2 ^ n" using assms(3) unfolding word_le_def uint_drop_bit by (simp add: drop_bit_eq_div)
  then have "m * 2 ^ n \<le> (I64_MAX div 2 ^ n) * 2 ^ n" by (simp add: mult_right_mono)
  moreover have "0 \<le> I64_MAX mod 2 ^ n" by simp
  ultimately have "m * 2 ^ n \<le> I64_MAX" using minus_mod_eq_div_mult [of I64_MAX "2 ^ n"] by linarith
  then show "push_bit n m \<le> I64_MAX" by (simp add: push_bit_eq_mult)
  show "push_bit n k \<le> push_bit n m" using assms(2) by (simp add: push_bit_eq_mult mult_right_mono)
qed

lemma scalar_shl_sound:
  assumes "models a x" "models b y"
  shows "models (scalar_shl a b) (push_bit (unat (y AND 63)) x)"
proof (cases "shift_amount b")
  case (Some n)
  note A = modelsD [OF assms(1)] and N = shift_amount_sound [OF assms(2) Some]
  let ?c = "smin a \<ge> 0 \<and> as_u64 (smax a) \<le> drop_bit n (as_u64 I64_MAX)"
  let ?b = "if ?c then (sint (push_bit n (as_u64 (smin a))), sint (push_bit n (as_u64 (smax a)))) else (I64_MIN, I64_MAX)"
  have "fst ?b \<le> sint (push_bit n x) \<and> sint (push_bit n x) \<le> snd ?b \<and> I64_MIN \<le> fst ?b \<and> snd ?b \<le> I64_MAX"
  proof (cases ?c)
    case True
    then have x: "push_bit n (sint x) \<le> push_bit n (smax a)" "push_bit n (smax a) \<le> I64_MAX"
      using A shl_fits [of "sint x" "smax a" n] by auto
    moreover have "push_bit n x = as_u64 (push_bit n (sint x))" by (simp add: push_bit_eq_mult)
    moreover have lo: "I64_MIN \<le> push_bit n (smin a)" "push_bit n (smin a) \<le> push_bit n (sint x)"
      using True A order_trans [of I64_MIN 0 "smin a * 2 ^ n"] by (auto simp: push_bit_eq_mult I64_MIN_def intro: mult_right_mono)
    ultimately have "sint (push_bit n x) = push_bit n (sint x)" using sint_as_u64 [of "push_bit n (sint x)"] by simp
    moreover have "sint (push_bit n (as_u64 (smin a))) = push_bit n (smin a)" "sint (push_bit n (as_u64 (smax a))) = push_bit n (smax a)"
      using sint_as_u64 [of "push_bit n (smin a)", OF lo(1)] sint_as_u64 [of "push_bit n (smax a)", OF _ x(2)] x lo
      unfolding push_bit_eq_mult by (simp_all only: of_int_mult of_int_power of_int_numeral)
    ultimately show ?thesis unfolding if_P [OF True] fst_conv snd_conv using x lo by simp
  qed (use i64_bounds in auto)
  then show ?thesis
    unfolding scalar_shl_def Some N(1) [symmetric] option.case
    using A by (intro scalar_of_sound tnum_ok_shift tnum_shl_sound) auto
qed (simp add: scalar_shl_def)

subsection \<open>Division and byte order\<close>

lemma from_unsigned_range_sound:
  assumes "lo \<le> v" "v \<le> hi"
  shows "models (from_unsigned_range lo hi) v"
proof -
  let ?s = "lo \<le> as_u64 I64_MAX \<and> hi > as_u64 I64_MAX"
  have M: "uint (as_u64 I64_MAX) = 2 ^ 63 - 1" using uint_as_u64 [of I64_MAX] by (simp add: I64_MIN_def I64_MAX_def)
  have u: "uint lo \<le> uint v" "uint v \<le> uint hi" using assms by (simp_all add: word_le_def)
  have v: "sint lo \<le> sint v \<and> sint v \<le> sint hi" if "\<not> ?s"
    using that u unfolding word_le_def word_less_def M by (auto simp: sint_uint_sign bit63)
  have "tnum_contains (tnum_from_unsigned_range lo hi) v" by (rule tnum_from_unsigned_range_sound [OF assms])
  moreover have "\<not> lo > hi" using assms by simp
  ultimately show ?thesis
    unfolding from_unsigned_range_def Let_def using v i64_bounds
    by (simp add: scalar_of_sound tnum_ok_range)
qed

lemma unat_div_le:
  assumes "(a :: u64) \<le> a'" "b' \<le> b" "b' \<noteq> 0"
  shows "a div b \<le> a' div b'"
proof -
  have "unat a div unat b \<le> unat a' div unat b" using assms(1) by (simp add: word_le_nat_alt div_le_mono)
  also have "\<dots> \<le> unat a' div unat b'"
    using assms(2,3) by (intro div_le_mono2) (simp_all add: word_le_nat_alt unat_gt_0)
  finally show ?thesis unfolding word_le_nat_alt unat_div .
qed

lemma udiv_sound:
  assumes "models a x" "models b y"
  shows "models (udiv a b) (concrete_udiv x y)"
proof -
  obtain alo ahi blo bhi where b: "unsigned_bounds a = (alo, ahi)" "unsigned_bounds b = (blo, bhi)"
    by (metis prod.exhaust)
  note A = unsigned_bounds_sound [OF assms(1) b(1)] and B = unsigned_bounds_sound [OF assms(2) b(2)]
  have le: "x div y \<le> x" unfolding word_le_nat_alt unat_div by simp
  have hi: "concrete_udiv x y \<le> (if bhi = 0 then 0 else if blo = 0 then ahi else ahi div blo)"
    using A B le unat_div_le [of x ahi blo y] by (auto simp: concrete_udiv_def)
  have lo: "(if blo = 0 then 0 else alo div bhi) \<le> concrete_udiv x y"
    using A B unat_div_le [of alo x y bhi] by (auto simp: concrete_udiv_def)
  show ?thesis unfolding udiv_def Let_def b split by (rule from_unsigned_range_sound [OF lo hi])
qed

lemma umod_sound:
  assumes "models a x" "models b y"
  shows "models (umod a b) (concrete_umod x y)"
proof -
  obtain alo ahi blo bhi where b: "unsigned_bounds a = (alo, ahi)" "unsigned_bounds b = (blo, bhi)"
    by (metis prod.exhaust)
  note A = unsigned_bounds_sound [OF assms(1) b(1)] and B = unsigned_bounds_sound [OF assms(2) b(2)]
  have 1: "x mod y \<le> x" unfolding word_le_nat_alt unat_mod by simp
  have 2: "x mod y \<le> saturating_sub bhi 1" if "y \<noteq> 0"
  proof -
    have "unat x mod unat y < unat y" using that by (simp add: unat_gt_0)
    moreover have "unat y \<le> unat bhi" using B by (simp add: word_le_nat_alt)
    ultimately show ?thesis unfolding word_le_nat_alt unat_mod unat_saturating_sub by simp
  qed
  have "concrete_umod x y \<le> (if blo = 0 then ahi else min ahi (saturating_sub bhi 1))"
    using A B 1 2 by (auto simp: concrete_umod_def)
  then show ?thesis unfolding umod_def Let_def b split by (intro from_unsigned_range_sound) simp_all
qed

lemma sdiv_bounds:
  fixes a b :: int
  assumes "- M - 1 \<le> a" "a \<le> M" "\<not> (a = - M - 1 \<and> b = - 1)"
  shows "- M - 1 \<le> a sdiv b" "a sdiv b \<le> M"
proof -
  define q where "q = \<bar>a\<bar> div \<bar>b\<bar>"
  have r: "q \<le> \<bar>a\<bar>" using zdiv_mono2 [of "\<bar>a\<bar>" 1 "\<bar>b\<bar>"] by (cases "b = 0") (auto simp: q_def)
  have z: "0 \<le> q" by (cases "b = 0") (simp_all add: q_def pos_imp_zdiv_nonneg_iff)
  have s: "q < \<bar>a\<bar>" if "a = - M - 1" "b < 0" "a \<noteq> 0"
    using that assms int_div_less_self [of "\<bar>a\<bar>" "\<bar>b\<bar>"] by (auto simp: q_def)
  have d: "a sdiv b = sgn a * sgn b * q" by (simp add: signed_divide_int_def q_def)
  show "- M - 1 \<le> a sdiv b" unfolding d using r z assms by (auto simp: sgn_if split: if_splits)
  show "a sdiv b \<le> M" unfolding d using r z s assms by (cases "a = - M - 1") (auto simp: sgn_if split: if_splits)
qed

lemma smod_bounds:
  fixes a b :: int
  assumes "- M - 1 \<le> a" "a \<le> M" "0 \<le> M"
  shows "- M - 1 \<le> a smod b" "a smod b \<le> M"
proof -
  define q where "q = \<bar>a\<bar> mod \<bar>b\<bar>"
  have r: "0 \<le> q" "q \<le> \<bar>a\<bar>"
    by (cases "b = 0"; simp add: q_def zmod_le_nonneg_dividend)+
  have d: "a smod b = sgn a * q" by (simp add: signed_modulo_int_def q_def)
  show "- M - 1 \<le> a smod b" "a smod b \<le> M" unfolding d using r assms by (auto simp: sgn_if split: if_splits)
qed

lemma concrete_sdiv_range: "I64_MIN \<le> concrete_sdiv (sint (x :: u64)) b \<and> concrete_sdiv (sint x) b \<le> I64_MAX"
  using sdiv_bounds [of I64_MAX "sint x" b] i64_bounds [of x] by (auto simp: concrete_sdiv_def I64_MIN_def I64_MAX_def)

lemma concrete_smod_range: "I64_MIN \<le> concrete_smod (sint (x :: u64)) b \<and> concrete_smod (sint x) b \<le> I64_MAX"
  using smod_bounds [of I64_MAX "sint x" b] i64_bounds [of x] by (auto simp: concrete_smod_def I64_MIN_def I64_MAX_def)

lemma as_const_pair_sound:
  assumes "models a x" "models b y"
    and "\<And>c d. c = sint x \<Longrightarrow> d = sint y \<Longrightarrow> models (scalar_constant (f c d)) v" "models u v"
  shows "models (case (as_const a, as_const b) of (Some c, Some d) \<Rightarrow> scalar_constant (f c d) | _ \<Rightarrow> u) v"
  using assms as_const_sound [OF assms(1)] as_const_sound [OF assms(2)] by (auto split: option.split)

lemma sdiv_scalar_sound:
  assumes "models a x" "models b y"
  shows "models (sdiv_scalar a b) (as_u64 (concrete_sdiv (sint x) (sint y)))"
  unfolding sdiv_scalar_def using concrete_sdiv_range
  by (intro as_const_pair_sound [OF assms]) (auto intro: models_constant)

lemma smod_scalar_sound:
  assumes "models a x" "models b y"
  shows "models (smod_scalar a b) (as_u64 (concrete_smod (sint x) (sint y)))"
  unfolding smod_scalar_def using concrete_smod_range
  by (intro as_const_pair_sound [OF assms]) (auto intro: models_constant)

text \<open>A value of \<open>n\<close> bits.\<close>

lemma unsigned_bits_sound:
  assumes "take_bit n v = v"
  shows "models (unsigned_bits n) v"
proof (cases "n < 64")
  case True
  have m: "tnum_contains \<lparr>tvalue = 0, tmask = mask n\<rparr> v"
  proof -
    have "bit v i \<Longrightarrow> i < n" for i using arg_cong [OF assms, of "\<lambda>w. bit w i"] by (simp add: bit_take_bit_iff)
    then show ?thesis using True by (auto simp: tnum_contains_bits bit_simps)
  qed
  have "uint v = take_bit n (uint v)" by (metis assms unsigned_take_bit_eq)
  then have "uint v < 2 ^ n" using take_bit_int_less_exp [of n "uint v"] by simp
  moreover have "(2 :: int) ^ n \<le> 2 ^ 63" using True by (intro power_increasing) auto
  moreover have "uint (mask n :: u64) = 2 ^ n - 1"
    using True by (subst mask_eq_exp_minus_1 [symmetric], intro bit_eqI) (auto simp: bit_uint bit_mask_iff)
  ultimately have "sint v = uint v" "sint (mask n :: u64) = 2 ^ n - 1" "uint v \<le> 2 ^ n - 1" "(2 :: int) ^ n - 1 \<le> I64_MAX"
    by (auto simp: uint_small_sint I64_MAX_def)
  moreover have n0: "I64_MIN \<le> 0" "0 \<le> I64_MAX" "I64_MIN \<le> 2 ^ n - 1"
    using order_trans [of I64_MIN 0 "2 ^ n - 1"] by (simp_all add: I64_MIN_def I64_MAX_def)
  ultimately show ?thesis
    using m True by (simp add: unsigned_bits_def Let_def low_mask models_def scalar_ok_def scalar_contains_def in_range_def
      tnum_ok_def n0)
qed (simp add: unsigned_bits_def)

lemma low32_eq: "low32 v = take_bit 32 v"
  by (rule bit_word_eqI) (auto simp: bit_simps)

lemma word32_mod: "(word_of_int (k mod 2 ^ 64) :: u32) = word_of_int k"
  by (simp add: word_of_int_eq_iff take_bit_eq_mod mod_mod_cancel)

lemma ucast_word32: "(ucast (w :: u64) :: u32) = word_of_int (uint w)"
  by simp

lemma ucast_ops:
  "(ucast (a + b) :: u32) = ucast (a :: u64) + ucast b"
  "(ucast (a - b) :: u32) = ucast (a :: u64) - ucast b"
  "(ucast (a * b) :: u32) = ucast (a :: u64) * ucast b"
  "(ucast (- a) :: u32) = - ucast (a :: u64)"
  using word32_mod [of "uint a + uint b"] word32_mod [of "uint a - uint b"] word32_mod [of "uint a * uint b"]
    word32_mod [of "- uint a"]
  unfolding ucast_word32 uint_word_ariths len_num1 len_num0 by simp_all

lemma ucast_low32: "(ucast (low32 x) :: u32) = ucast x"
  by (rule bit_word_eqI) (auto simp: bit_simps)

lemma low32_ops:
  "take_bit 32 (take_bit 32 x + take_bit 32 y) = ucast (ucast (x :: u64) + ucast y :: u32)"
  "take_bit 32 (take_bit 32 x - take_bit 32 y) = ucast (ucast (x :: u64) - ucast y :: u32)"
  "take_bit 32 (take_bit 32 x * take_bit 32 y) = ucast (ucast (x :: u64) * ucast y :: u32)"
  "take_bit 32 (- take_bit 32 x) = ucast (- ucast (x :: u64) :: u32)"
  by (simp_all add: low32_eq [symmetric] ucast_ops ucast_low32)

lemma low32_bitwise:
  "take_bit 32 x OR take_bit 32 y = ucast (ucast (x :: u64) OR ucast y :: u32)"
  "take_bit 32 x AND take_bit 32 y = ucast (ucast (x :: u64) AND ucast y :: u32)"
  "take_bit 32 x XOR take_bit 32 y = ucast (ucast (x :: u64) XOR ucast y :: u32)"
  by (rule bit_word_eqI, auto simp: bit_simps)+

lemma and_31: "(w :: 'a::len word) AND 31 = take_bit 5 w"
  by (simp add: take_bit_eq_mask mask_eq_exp_minus_1)

lemma shift32_amount: "unat ((take_bit 32 y AND 31) AND 63) = unat ((ucast (y :: u64) :: u32) AND 31)"
proof -
  have "unat ((take_bit 32 y AND 31) AND 63) = take_bit 5 (unat y)"
    unfolding and_31 and_63 by (simp add: unsigned_take_bit_eq)
  moreover have "unat ((ucast y :: u32) AND 31) = take_bit 5 (unat y)"
    unfolding and_31 by (simp add: unsigned_take_bit_eq unsigned_ucast_eq)
  ultimately show ?thesis by simp
qed

subsection \<open>Instruction-level soundness\<close>

lemma alu_wide_sound: "models a x \<Longrightarrow> models b y \<Longrightarrow> models (alu_wide op a b) (alu64 op x y)"
  by (cases op)
    (simp_all add: alu_wide_def scalar_add_sound scalar_sub_sound scalar_mul_sound scalar_bitwise_sound scalar_shl_sound
      scalar_shr_sound scalar_sar_sound)

lemma amount32_sound:
  assumes "models b y"
  shows "models (scalar_and (zext32 b) (scalar_constant 31)) (take_bit 32 y AND 31)"
  using scalar_bitwise_sound(1) [OF zext32_sound [OF assms] models_constant [of 31]] by (simp add: I64_MIN_def I64_MAX_def)

lemma shl32: "k < 32 \<Longrightarrow> take_bit 32 (push_bit k (take_bit 32 x)) = ucast (push_bit k (ucast (x :: u64) :: u32))"
  by (rule bit_word_eqI) (auto simp: bit_simps)

lemma shr32: "drop_bit k (take_bit 32 x) = ucast (drop_bit k (ucast (x :: u64) :: u32))"
  by (rule bit_word_eqI) (auto simp: bit_simps)

lemma sar32:
  assumes "k < 32"
  shows "take_bit 32 (signed_drop_bit k (sext x 32)) = ucast (signed_drop_bit k (ucast (x :: u64) :: u32))"
  using assms by (intro bit_word_eqI) (auto simp: bit_simps sext_def)

lemma alu_narrow_sound:
  assumes "models a x" "models b y"
  shows "models (scalar_alu op False a b) (ucast (alu32 op (ucast x) (ucast y)))"
proof -
  let ?k = "unat ((ucast y :: u32) AND 31)"
  note A = zext32_sound [OF assms(1)] and B = zext32_sound [OF assms(2)] and S = sext32_sound [OF assms(1)]
  note amt = amount32_sound [OF assms(2)]
  have k: "?k < 32" using take_bit_nat_less_exp [of 5 "unat (ucast y :: u32)"] unfolding and_31 by (simp add: unsigned_take_bit_eq)
  show ?thesis
  proof (cases op)
    case Alu_Lsh
    then show ?thesis
      using zext32_sound [OF scalar_shl_sound [OF A amt]] by (simp add: scalar_alu_def shift32_amount shl32 [OF k])
  next
    case Alu_Rsh
    then show ?thesis using scalar_shr_sound [OF A amt] by (simp add: scalar_alu_def shift32_amount shr32)
  next
    case Alu_Arsh
    then show ?thesis
      using zext32_sound [OF scalar_sar_sound [OF S amt]] by (simp add: scalar_alu_def shift32_amount sar32 [OF k])
  qed (use A B in \<open>simp_all add: scalar_alu_def low32_ops [symmetric] low32_bitwise [symmetric] zext32_sound scalar_add_sound
        scalar_sub_sound scalar_mul_sound scalar_bitwise_sound\<close>)
qed

lemma sext_i32: "sint (sext x 32) = as_i32 x"
proof -
  have "sint (sext x 32) = signed_take_bit 31 (uint x)" using sext_sint [of 32 x] by simp
  also have "\<dots> = as_i32 x"
    by (rule bit_eqI) (auto simp: bit_signed_iff bit_signed_take_bit_iff bit_uint bit_ucast_iff min_def)
  finally show ?thesis .
qed

lemma const32_sound: "models (scalar_constant (as_u32 r)) (ucast (word_of_int r :: u32))"
proof -
  have "0 \<le> as_u32 r" "as_u32 r < 2 ^ 32" using uint_lt2p [of "word_of_int r :: u32"] by (simp_all add: as_u32_def)
  then have "models (scalar_constant (as_u32 r)) (as_u64 (as_u32 r))"
    by (intro models_constant) (simp_all add: I64_MIN_def I64_MAX_def)
  then show ?thesis by (simp add: as_u32_def)
qed

lemma bits32_sound: "models (unsigned_bits 32) (ucast (w :: u32))"
  by (rule unsigned_bits_sound, rule bit_word_eqI) (auto simp: bit_simps dest: bit_imp_le_length)

lemma word32_sint: "(word_of_int (sint (sext x 32)) :: u32) = ucast x"
  by (simp add: sext_i32)

lemma div_op_sound:
  assumes "models a x" "models b y"
  shows "models (div_op wide sg a b) (div_insn wide sg x y)"
proof -
  note Z = zext32_sound [OF assms(1)] zext32_sound [OF assms(2)]
  have 1: "models (zext32 (udiv (zext32 a) (zext32 b))) (low32 (concrete_udiv (low32 x) (low32 y)))"
    using zext32_sound [OF udiv_sound [OF Z]] by (simp only: low32_eq)
  have 2: "models (case (as_const (sext32 a), as_const (sext32 b)) of
      (Some c, Some d) \<Rightarrow> scalar_constant (as_u32 (concrete_sdiv32 (sint (word_of_int c :: u32)) (sint (word_of_int d :: u32))))
    | _ \<Rightarrow> unsigned_bits 32) (ucast (word_of_int (concrete_sdiv32 (as_i32 x) (as_i32 y)) :: u32))"
    by (rule as_const_pair_sound [OF sext32_sound [OF assms(1)] sext32_sound [OF assms(2)]])
      (simp_all only: word32_sint const32_sound bits32_sound)
  show ?thesis
    unfolding div_op_def div_insn_def
    using 1 2 udiv_sound [OF assms] sdiv_scalar_sound [OF assms] by (cases wide; cases sg) (simp_all only: if_True if_False)
qed

lemma mod_op_sound:
  assumes "models a x" "models b y"
  shows "models (mod_op wide sg a b) (rem_insn wide sg x y)"
proof -
  note Z = zext32_sound [OF assms(1)] zext32_sound [OF assms(2)]
  have 1: "models (zext32 (umod (zext32 a) (zext32 b))) (low32 (concrete_umod (low32 x) (low32 y)))"
    using zext32_sound [OF umod_sound [OF Z]] by (simp only: low32_eq)
  have 2: "models (case (as_const (sext32 a), as_const (sext32 b)) of
      (Some c, Some d) \<Rightarrow> scalar_constant (as_u32 (concrete_smod32 (sint (word_of_int c :: u32)) (sint (word_of_int d :: u32))))
    | _ \<Rightarrow> unsigned_bits 32) (ucast (word_of_int (concrete_smod32 (as_i32 x) (as_i32 y)) :: u32))"
    by (rule as_const_pair_sound [OF sext32_sound [OF assms(1)] sext32_sound [OF assms(2)]])
      (simp_all only: word32_sint const32_sound bits32_sound)
  show ?thesis
    unfolding mod_op_def rem_insn_def
    using 1 2 umod_sound [OF assms] smod_scalar_sound [OF assms] by (cases wide; cases sg) (simp_all only: if_True if_False)
qed

lemma neg_op_sound: "models a x \<Longrightarrow> models (neg_op wide a) (neg_value wide x)"
  using scalar_neg_sound [of a x] zext32_sound [OF scalar_neg_sound [OF zext32_sound [of a x]]]
  by (simp add: neg_op_def neg_value_def low32_ops(4) [symmetric])

lemma mov_op_sound:
  assumes "models a x" "sx \<noteq> Some 0"
  shows "\<exists>r. mov_op wide sx a = Some r \<and> models r (mov_value wide sx x)"
proof (cases sx)
  case None
  then show ?thesis using assms(1) zext32_sound [OF assms(1)] by (simp add: mov_op_def mov_value_def low32_eq)
next
  case (Some bits)
  then have "0 < unat bits" using assms(2) by (simp add: unat_gt_0)
  then obtain r where "scalar_sign_extend a (unat bits) = Some r" "models r (sext x (unat bits))"
    using scalar_sign_extend_sound [OF assms(1)] by blast
  then show ?thesis using Some zext32_sound [of r] by (simp add: mov_op_def mov_value_def low32_eq)
qed

lemma take_bit_le_bytes: "take_bit (8 * length bs) (from_le_bytes bs :: u64) = from_le_bytes bs"
proof (induction bs)
  case (Cons b bs)
  have "take_bit (8 * length (b # bs)) (ucast b OR push_bit 8 (from_le_bytes bs)) =
     (ucast b OR push_bit 8 (take_bit (8 * length bs) (from_le_bytes bs)) :: u64)"
    by (rule bit_word_eqI) (auto simp: bit_simps dest: bit_imp_le_length)
  then show ?case using Cons.IH by simp
qed simp

lemma bswap_sound:
  assumes "models a x"
  shows "models (bswap a width) (concrete_bswap x width)"
proof (cases "as_const a")
  case None
  have "take_bit (8 * n) (swap_bytes n x) = swap_bytes n x" for n
    using take_bit_le_bytes [of "rev (to_le_bytes n x)"] by (simp add: swap_bytes_def to_le_bytes_def)
  from unsigned_bits_sound [OF this [of 2]] unsigned_bits_sound [OF this [of 4]] show ?thesis
    using None by (simp add: bswap_def concrete_bswap_def)
next
  case (Some c)
  then have c: "x = as_u64 c" using as_const_sound [OF assms] by simp
  have "models (scalar_constant (sint (concrete_bswap x width))) (concrete_bswap x width)"
    using models_constant [OF i64_bounds, of "concrete_bswap x width"] by simp
  then show ?thesis using Some c by (simp add: bswap_def)
qed

lemma end_op_sound:
  assumes "models a x"
  shows "models (end_op ord width a) (end_insn ord width x)"
proof -
  have m: "(0xFFFF :: u64) = mask 16" by (simp add: mask_eq_exp_minus_1)
  have "take_bit 32 x AND 0xFFFF = ucast (ucast x :: u16)" unfolding m by (rule bit_word_eqI) (auto simp: bit_simps)
  moreover have "models (scalar_and (zext32 a) (scalar_constant 0xFFFF)) (take_bit 32 x AND 0xFFFF)"
    using scalar_bitwise_sound(1) [OF zext32_sound [OF assms] models_constant [of "0xFFFF"]]
    by (simp add: I64_MIN_def I64_MAX_def)
  ultimately show ?thesis
    using assms zext32_sound [OF assms] bswap_sound [OF assms]
    by (cases ord) (simp_all add: end_op_def end_insn_def Let_def low32_eq)
qed

subsection \<open>Properties\<close>

text \<open>
  C13. The verifier's ALU transfer function is sound: if two scalars contain the operands of an ALU instruction, the scalar
  computed for its result contains the value the instruction computes, for all nine operations in 64 and in 32 bits, with
  wrap-around and masked shift amounts.
\<close>

theorem alu_transfer_sound:
  assumes "models a x" "models b y"
  shows "models (scalar_alu op wide a b) (alu op wide x y)"
  using alu_wide_sound [OF assms] alu_narrow_sound [OF assms] by (cases wide) (simp_all add: alu_def scalar_alu_def)

theorem alu_transfer_sound_witness:
  "models (scalar_alu Alu_Arsh False (scalar_constant (- 16)) Scalar_UNKNOWN) (alu Alu_Arsh False (- 16) 2) \<and> alu Alu_Arsh False (- 16) 2 = 0xFFFFFFFC"
proof
  have "models (scalar_constant (- 16)) (- 16)" using models_constant [of "- 16"] by (simp add: I64_MIN_def I64_MAX_def)
  then show "models (scalar_alu Alu_Arsh False (scalar_constant (- 16)) Scalar_UNKNOWN) (alu Alu_Arsh False (- 16) 2)"
    by (rule alu_transfer_sound) simp
  show "alu Alu_Arsh False (- 16) 2 = 0xFFFFFFFC" by code_simp
qed

text \<open>
  The transfer functions of division and modulo are sound in both widths and both signednesses, including the
  instruction set's rules that a zero divisor gives zero (division) or the dividend (modulo) and that the most
  negative value divided by minus one is itself.
\<close>

theorem divmod_transfer_sound:
  assumes "models a x" "models b y"
  shows "models (div_op wide sg a b) (div_insn wide sg x y) \<and> models (mod_op wide sg a b) (rem_insn wide sg x y)"
  using div_op_sound [OF assms] mod_op_sound [OF assms] by blast

theorem divmod_transfer_sound_witness:
  "models (div_op True True (scalar_constant I64_MIN) (scalar_constant (- 1))) (as_u64 I64_MIN)"
  using divmod_transfer_sound [OF models_constant [of I64_MIN] models_constant [of "- 1"], of True True]
  by (simp add: div_insn_def concrete_sdiv_def sint_as_u64 I64_MIN_def I64_MAX_def)

text \<open>
  C24. The transfer functions of negation, of moves with and without sign extension and of byte-order conversion are
  sound in both widths. A move returns a scalar (it does not panic) for every sign-extension width but zero.
\<close>

theorem unary_transfer_sound:
  assumes "models a x"
  shows "models (neg_op wide a) (neg_value wide x)
    \<and> models (end_op ord width a) (end_insn ord width x)
    \<and> (sx \<noteq> Some 0 \<longrightarrow> (\<exists>r. mov_op wide sx a = Some r \<and> models r (mov_value wide sx x)))"
  using neg_op_sound [OF assms] end_op_sound [OF assms] mov_op_sound [OF assms] by blast

theorem unary_transfer_sound_witness:
  "\<exists>r. mov_op True (Some 8) (scalar_constant 0xFF) = Some r \<and> models r (- 1)"
proof -
  have "mov_value True (Some 8) 0xFF = - 1" by code_simp
  moreover have "models (scalar_constant 0xFF) 0xFF" using models_constant [of "0xFF"] by (simp add: I64_MIN_def I64_MAX_def)
  ultimately show ?thesis using unary_transfer_sound [of "scalar_constant 0xFF" "0xFF" True Little 16 "Some 8"] by simp
qed

end
