(* ===== verification/Bpf_Stack.thy ===== *)
theory Bpf_Stack
  imports Bpf_Value Bpf_Transfer "HOL-Library.Finite_Map"
begin

text \<open>
  The verifier's model of a stack frame: \<open>StackSlot\<close> and \<open>Stack\<close> of \<open>bpf/verifier/src/state.rs\<close>. Slot \<open>i\<close> covers the bytes
  \<open>[-8(i+1), -8i)\<close> below the frame pointer, with one initialisation bit per byte and a value when the slot was
  written as a whole. The sparse \<open>BTreeMap\<close> is a finite map. An \<open>i64\<close> offset is an integer and every cast to \<open>u32\<close> is written
  out; the callers keep offsets in the frame, where no cast truncates.

  Shown: the slot-wise initialisation test is the byte-wise one, and every operation of the frame is sound for a memory of bytes with a
  \<open>defined\<close> bit each, which the interpreter's stack implements.
\<close>

subsection \<open>Definitions\<close>

record frame_slot =
  fs_init :: u8
  fs_value :: abs_value
  fs_whole :: bool

definition EMPTY_slot :: frame_slot where
  "EMPTY_slot = \<lparr>fs_init = 0, fs_value = NotInit, fs_whole = False\<rparr>"

definition slot_join :: "frame_slot \<Rightarrow> frame_slot \<Rightarrow> frame_slot" where
  "slot_join a b =
     (let whole = fs_whole a \<and> fs_whole b
      in \<lparr>fs_init = fs_init a AND fs_init b, fs_value = (if whole then value_join (fs_value a) (fs_value b) else NotInit), fs_whole = whole\<rparr>)"

definition slot_widen :: "int list \<Rightarrow> frame_slot \<Rightarrow> frame_slot \<Rightarrow> frame_slot" where
  "slot_widen ts a b =
     (let whole = fs_whole a \<and> fs_whole b
      in \<lparr>fs_init = fs_init a AND fs_init b, fs_value = (if whole then value_widen (fs_value a) (fs_value b) ts else NotInit), fs_whole = whole\<rparr>)"

definition slot_is_subset_of :: "frame_slot \<Rightarrow> frame_slot \<Rightarrow> bool" where
  "slot_is_subset_of a b \<longleftrightarrow> fs_init b AND NOT (fs_init a) = 0
     \<and> (\<not> fs_whole b \<or> fs_whole a \<and> value_is_subset_of (fs_value a) (fs_value b))"

record frame =
  fslots :: "(nat, frame_slot) fmap"
  fdepth :: nat

definition frame_default :: frame where
  "frame_default = \<lparr>fslots = fmempty, fdepth = 0\<rparr>"

definition MAX_STACK_BYTES :: int where "MAX_STACK_BYTES = 16 * 1024"

text \<open>\<open>as u32\<close> of an \<open>i64\<close>.\<close>

definition to_u32 :: "int \<Rightarrow> nat" where
  "to_u32 i = nat (i mod 2 ^ 32)"

definition slot_index :: "int \<Rightarrow> nat" where
  "slot_index o' = to_u32 ((- o' - 1) sdiv 8)"

definition byte_in_slot :: "int \<Rightarrow> nat" where
  "byte_in_slot o' = to_u32 (o' + 8 * (int (slot_index o') + 1))"

definition slot_at :: "frame \<Rightarrow> nat \<Rightarrow> frame_slot" where
  "slot_at st i = (case fmlookup (fslots st) i of Some s \<Rightarrow> s | None \<Rightarrow> EMPTY_slot)"

definition note_depth :: "int \<Rightarrow> frame \<Rightarrow> frame" where
  "note_depth o' st = (if o' < 0 then st\<lparr>fdepth := max (fdepth st) (to_u32 (- o'))\<rparr> else st)"

text \<open>The body of the byte loops of \<open>write\<close> and \<open>write_unspecified\<close>.\<close>

definition write_byte :: "int \<Rightarrow> frame \<Rightarrow> frame" where
  "write_byte b st =
     (let idx = slot_index b; s = slot_at st idx
      in st\<lparr>fslots := fmupd idx \<lparr>fs_init = fs_init s OR push_bit (byte_in_slot b) 1, fs_value = NotInit, fs_whole = False\<rparr> (fslots st)\<rparr>)"

definition frame_write :: "int \<Rightarrow> size \<Rightarrow> abs_value \<Rightarrow> frame \<Rightarrow> frame" where
  "frame_write o' sz v st =
     (let st1 = note_depth o' st in
      if sz = Size_Dw \<and> o' smod 8 = 0
      then st1\<lparr>fslots := fmupd (slot_index o') \<lparr>fs_init = 0xFF, fs_value = v, fs_whole = True\<rparr> (fslots st1)\<rparr>
      else fold write_byte [o'..o' + int (size_bytes sz) - 1] st1)"

definition write_unspecified :: "int \<Rightarrow> u64 \<Rightarrow> frame \<Rightarrow> frame" where
  "write_unspecified o' len st = fold write_byte [o'..o' + sint len - 1] (note_depth o' st)"

definition forget_value :: "frame_slot \<Rightarrow> frame_slot" where
  "forget_value s = s\<lparr>fs_whole := False, fs_value := NotInit\<rparr>"

text \<open>
  The source requires \<open>lo < hi\<close>, with a debug assertion, and \<open>range_mut\<close> panics on an inverted range; the
  definition has no effect there. The verifier calls it with the bounds of an offset plus an access size.
\<close>

definition write_maybe :: "int \<Rightarrow> int \<Rightarrow> frame \<Rightarrow> frame" where
  "write_maybe lo hi st =
     (let st1 = note_depth lo st; fst' = slot_index (hi - 1); lst' = slot_index lo
      in st1\<lparr>fslots := fmmap_keys (\<lambda>i s. if fst' \<le> i \<and> i \<le> lst' then forget_value s else s) (fslots st1)\<rparr>)"

text \<open>The bits \<open>lo..hi\<close> of a slot: \<open>(((1u16 << hi) - 1) & !((1u16 << lo) - 1)) as u8\<close>.\<close>

definition want_mask :: "nat \<Rightarrow> nat \<Rightarrow> u8" where
  "want_mask lo hi = ucast ((push_bit hi 1 - 1) AND NOT (push_bit lo 1 - 1) :: u16)"

definition slot_wanted :: "frame \<Rightarrow> int \<Rightarrow> int \<Rightarrow> nat \<Rightarrow> bool" where
  "slot_wanted st o' fin idx =
     (let base = - 8 * (int idx + 1);
          lo = max o' base - base;
          hi = min fin (base + 8) - base;
          want = want_mask (nat lo) (nat hi)
      in fs_init (slot_at st idx) AND want = want)"

definition is_initialized :: "frame \<Rightarrow> int \<Rightarrow> u64 \<Rightarrow> bool" where
  "is_initialized st o' len =
     (if len = 0 then True
      else if unat len \<ge> 2 ^ 63 then False
      else
        (case i64_checked_add o' (int (unat len)) of
           None \<Rightarrow> False
         | Some fin \<Rightarrow>
             if o' \<ge> 0 \<or> fin > 0 \<or> o' < - MAX_STACK_BYTES then False
             else list_all (slot_wanted st o' fin) [slot_index (fin - 1)..<slot_index o' + 1]))"

lemma is_initialized_code [code]:
  "is_initialized st o' len =
     (if len = 0 then True
      else if uint len \<ge> 2 ^ 63 then False
      else
        (case i64_checked_add o' (uint len) of
           None \<Rightarrow> False
         | Some fin \<Rightarrow>
             if o' \<ge> 0 \<or> fin > 0 \<or> o' < - MAX_STACK_BYTES then False
             else list_all (slot_wanted st o' fin) [slot_index (fin - 1)..<slot_index o' + 1]))"
  by (simp add: is_initialized_def word_le_nat_alt flip: of_nat_le_iff [where 'a = int])

definition frame_read :: "frame \<Rightarrow> int \<Rightarrow> size \<Rightarrow> abs_value" where
  "frame_read st o' sz =
     (let s = slot_at st (slot_index o') in
      if sz = Size_Dw \<and> o' smod 8 = 0 \<and> fs_whole s \<and> fs_init s = 0xFF then fs_value s
      else Scalar (unsigned_bits (size_bits sz)))"

definition clobber :: "frame \<Rightarrow> frame" where
  "clobber st = st\<lparr>fslots := fmmap forget_value (fslots st)\<rparr>"

text \<open>The traversal that \<open>join\<close> and \<open>widen\<close> of \<open>Stack\<close> share: combined slots that are empty get no entry.\<close>

definition merge_slots :: "(frame_slot \<Rightarrow> frame_slot \<Rightarrow> frame_slot) \<Rightarrow> frame \<Rightarrow> frame \<Rightarrow> frame" where
  "merge_slots f a b =
     (let out = fmmap_keys (\<lambda>i s. f s (slot_at b i)) (fslots a)
      in \<lparr>fslots = fmfilter (\<lambda>i. fmlookup out i \<noteq> Some EMPTY_slot) out, fdepth = max (fdepth a) (fdepth b)\<rparr>)"

definition frame_join :: "frame \<Rightarrow> frame \<Rightarrow> frame" where
  "frame_join a b = merge_slots slot_join a b"

definition frame_widen :: "int list \<Rightarrow> frame \<Rightarrow> frame \<Rightarrow> frame" where
  "frame_widen ts a b = merge_slots (slot_widen ts) a b"

definition frame_is_subset_of :: "frame \<Rightarrow> frame \<Rightarrow> bool" where
  "frame_is_subset_of a b = fmpred (\<lambda>i s. slot_is_subset_of (slot_at a i) s) (fslots b)"

subsection \<open>Offsets\<close>

text \<open>The offsets of the frame.\<close>

definition in_frame :: "int \<Rightarrow> bool" where
  "in_frame b \<longleftrightarrow> - MAX_STACK_BYTES \<le> b \<and> b < 0"

lemma slot_index_frame: "in_frame b \<Longrightarrow> slot_index b = nat ((- b - 1) div 8)"
  by (auto simp: slot_index_def to_u32_def in_frame_def MAX_STACK_BYTES_def signed_divide_int_def sgn_if)

lemma int_slot_index: "in_frame b \<Longrightarrow> int (slot_index b) = (- b - 1) div 8"
  by (simp add: slot_index_frame in_frame_def)

lemma byte_in_slot_frame: "in_frame b \<Longrightarrow> int (byte_in_slot b) = b mod 8"
proof -
  assume b: "in_frame b"
  have "b + 8 * ((- b - 1) div 8 + 1) = b mod 8" by presburger
  then show ?thesis by (simp add: byte_in_slot_def int_slot_index [OF b] to_u32_def)
qed

lemma byte_in_slot_less: "in_frame b \<Longrightarrow> byte_in_slot b < 8"
  using byte_in_slot_frame [of b] by linarith

text \<open>The offset of byte \<open>n\<close> of slot \<open>i\<close>; every offset of the frame is one of these.\<close>

definition offset_of :: "nat \<Rightarrow> nat \<Rightarrow> int" where
  "offset_of i n = - 8 * (int i + 1) + int n"

lemma slot_offset:
  assumes "in_frame b"
  shows "slot_index b = i \<and> byte_in_slot b = n \<longleftrightarrow> b = offset_of i n \<and> n < 8"
proof -
  have "(- b - 1) div 8 = int i \<and> b mod 8 = int n \<longleftrightarrow> b = offset_of i n \<and> n < 8"
  proof
    assume "(- b - 1) div 8 = int i \<and> b mod 8 = int n"
    then have "- 1 - b div 8 = int i" "b mod 8 = int n" by presburger+
    then show "b = offset_of i n \<and> n < 8" using div_mult_mod_eq [of b 8] pos_mod_bound [of 8 b] by (simp add: offset_of_def)
  next
    assume "b = offset_of i n \<and> n < 8"
    then have "b = - 8 * (int i + 1) + int n" "int n < 8" by (simp_all add: offset_of_def)
    then show "(- b - 1) div 8 = int i \<and> b mod 8 = int n"
      using int_div_pos_eq [of "- b - 1" 8 "int i" "7 - int n"] int_mod_pos_eq [of b 8 "- int i - 1" "int n"] by simp
  qed
  then show ?thesis
    unfolding int_slot_index [OF assms, symmetric] byte_in_slot_frame [OF assms, symmetric] of_nat_eq_iff .
qed

lemma slot_index_offset: "in_frame (offset_of i n) \<Longrightarrow> n < 8 \<Longrightarrow> slot_index (offset_of i n) = i \<and> byte_in_slot (offset_of i n) = n"
  using slot_offset by blast

lemma aligned_offset: "in_frame b \<Longrightarrow> b smod 8 = 0 \<longleftrightarrow> b = offset_of (slot_index b) 0"
proof -
  assume b: "in_frame b"
  have "b smod 8 = 0 \<longleftrightarrow> b mod 8 = 0"
    by (simp add: signed_modulo_int_def signed_divide_int_def sgn_if) presburger
  also have "\<dots> \<longleftrightarrow> b = offset_of (slot_index b) 0"
    using byte_in_slot_frame [OF b] slot_offset [OF b, of "slot_index b" "byte_in_slot b"] slot_offset [OF b, of "slot_index b" 0] by auto
  finally show ?thesis .
qed

subsection \<open>Slots after an operation\<close>

text \<open>What a frame says: which bytes are initialised, and which slots hold a value.\<close>

definition init_at :: "frame \<Rightarrow> int \<Rightarrow> bool" where
  "init_at st b \<longleftrightarrow> bit (fs_init (slot_at st (slot_index b))) (byte_in_slot b)"

definition spilled :: "frame \<Rightarrow> nat \<Rightarrow> abs_value option" where
  "spilled st i = (if fs_whole (slot_at st i) then Some (fs_value (slot_at st i)) else None)"

lemma slot_at_note_depth [simp]: "slot_at (note_depth o' st) i = slot_at st i"
  by (simp add: slot_at_def note_depth_def)

lemma note_depth_view [simp]: "init_at (note_depth o' st) b = init_at st b" "spilled (note_depth o' st) i = spilled st i"
  by (simp_all add: init_at_def spilled_def)

lemma slot_at_write_byte:
  "slot_at (write_byte b st) i = (if i = slot_index b
     then \<lparr>fs_init = fs_init (slot_at st i) OR push_bit (byte_in_slot b) 1, fs_value = NotInit, fs_whole = False\<rparr> else slot_at st i)"
  by (simp add: slot_at_def write_byte_def Let_def)

lemma init_at_write_byte: "in_frame b \<Longrightarrow> in_frame c \<Longrightarrow> init_at (write_byte b st) c \<longleftrightarrow> init_at st c \<or> c = b"
  using slot_offset [of c "slot_index b" "byte_in_slot b"] slot_offset [of b "slot_index b" "byte_in_slot b"] byte_in_slot_less [of c]
  by (auto simp: init_at_def slot_at_write_byte bit_or_iff bit_push_bit_iff bit_exp_iff)

lemma spilled_write_byte: "spilled (write_byte b st) i = (if i = slot_index b then None else spilled st i)"
  by (simp add: spilled_def slot_at_write_byte)

lemma init_at_write_bytes:
  "(\<And>b. b \<in> set bs \<Longrightarrow> in_frame b) \<Longrightarrow> in_frame c \<Longrightarrow> init_at (fold write_byte bs st) c \<longleftrightarrow> init_at st c \<or> c \<in> set bs"
  by (induction bs arbitrary: st) (auto simp: init_at_write_byte)

lemma spilled_write_bytes:
  "spilled (fold write_byte bs st) i = (if i \<in> slot_index ` set bs then None else spilled st i)"
  by (induction bs arbitrary: st) (auto simp: spilled_write_byte)

lemma slot_at_forget [simp]: "forget_value EMPTY_slot = EMPTY_slot"
  by (simp add: forget_value_def EMPTY_slot_def)

lemma slot_at_map:
  "(\<And>i. f i EMPTY_slot = EMPTY_slot) \<Longrightarrow> slot_at (st\<lparr>fslots := fmmap_keys f (fslots st)\<rparr>) i = f i (slot_at st i)"
  by (simp add: slot_at_def split: option.splits)

lemma slot_at_write_maybe:
  "slot_at (write_maybe lo hi st) i = (if slot_index (hi - 1) \<le> i \<and> i \<le> slot_index lo then forget_value (slot_at st i) else slot_at st i)"
  unfolding write_maybe_def Let_def
  by (subst slot_at_map [where f = "\<lambda>i s. if slot_index (hi - 1) \<le> i \<and> i \<le> slot_index lo then forget_value s else s"]) auto

lemma write_maybe_view:
  "init_at (write_maybe lo hi st) b = init_at st b"
  "spilled (write_maybe lo hi st) i = (if slot_index (hi - 1) \<le> i \<and> i \<le> slot_index lo then None else spilled st i)"
  by (simp_all add: init_at_def spilled_def slot_at_write_maybe forget_value_def)

lemma slot_at_clobber: "slot_at (clobber st) i = forget_value (slot_at st i)"
  by (simp add: slot_at_def clobber_def split: option.splits)

lemma clobber_view: "init_at (clobber st) b = init_at st b" "spilled (clobber st) i = None"
  by (simp_all add: init_at_def spilled_def slot_at_clobber forget_value_def)

lemma slot_at_merge:
  assumes "\<And>s. f EMPTY_slot s = EMPTY_slot"
  shows "slot_at (merge_slots f a b) i = f (slot_at a i) (slot_at b i)"
proof (cases "fmlookup (fslots a) i")
  case None
  then have a: "slot_at a i = EMPTY_slot" by (simp add: slot_at_def)
  have "fmlookup (fslots (merge_slots f a b)) i = None" using None by (simp add: merge_slots_def Let_def)
  then show ?thesis by (simp add: a assms slot_at_def [of "merge_slots f a b"])
next
  case (Some s)
  then have a: "slot_at a i = s" by (simp add: slot_at_def)
  have "fmlookup (fslots (merge_slots f a b)) i = (if f s (slot_at b i) = EMPTY_slot then None else Some (f s (slot_at b i)))"
    using Some by (simp add: merge_slots_def Let_def)
  then show ?thesis by (simp add: a slot_at_def [of "merge_slots f a b"])
qed

lemma slot_at_join: "slot_at (frame_join a b) i = slot_join (slot_at a i) (slot_at b i)"
  unfolding frame_join_def by (rule slot_at_merge) (simp add: slot_join_def EMPTY_slot_def)

lemma slot_at_widen: "slot_at (frame_widen ts a b) i = slot_widen ts (slot_at a i) (slot_at b i)"
  unfolding frame_widen_def by (rule slot_at_merge) (simp add: slot_widen_def EMPTY_slot_def)

text \<open>How \<open>spilled\<close> combines two values of a slot.\<close>

fun both :: "('a \<Rightarrow> 'a \<Rightarrow> 'b) \<Rightarrow> 'a option \<Rightarrow> 'a option \<Rightarrow> 'b option" where
  "both f (Some x) (Some y) = Some (f x y)"
| "both f _ _ = None"

lemma both_SomeD: "both f p q = Some z \<Longrightarrow> \<exists>x y. p = Some x \<and> q = Some y \<and> z = f x y"
  by (cases "(f, p, q)" rule: both.cases) auto

lemma join_view:
  "init_at (frame_join a b) o' \<longleftrightarrow> init_at a o' \<and> init_at b o'"
  "spilled (frame_join a b) i = both value_join (spilled a i) (spilled b i)"
  by (simp_all add: init_at_def spilled_def slot_at_join slot_join_def bit_and_iff Let_def)

lemma widen_view:
  "init_at (frame_widen ts a b) o' \<longleftrightarrow> init_at a o' \<and> init_at b o'"
  "spilled (frame_widen ts a b) i = both (\<lambda>x y. value_widen x y ts) (spilled a i) (spilled b i)"
  by (simp_all add: init_at_def spilled_def slot_at_widen slot_widen_def bit_and_iff Let_def)

lemma subset_slots:
  assumes "frame_is_subset_of a b"
  shows "slot_is_subset_of (slot_at a i) (slot_at b i)"
  using assms
  by (auto simp: frame_is_subset_of_def slot_at_def [of b] slot_is_subset_of_def EMPTY_slot_def fmpred_iff split: option.splits)

lemma subset_view:
  assumes "frame_is_subset_of a b"
  shows "init_at b o' \<Longrightarrow> init_at a o'"
    "spilled b i = Some v \<Longrightarrow> \<exists>u. spilled a i = Some u \<and> value_is_subset_of u v"
proof -
  show "init_at a o'" if "init_at b o'"
  proof -
    have "fs_init (slot_at b (slot_index o')) AND NOT (fs_init (slot_at a (slot_index o'))) = 0"
      using subset_slots [OF assms] by (simp add: slot_is_subset_of_def)
    then have "bit (fs_init (slot_at b (slot_index o')) AND NOT (fs_init (slot_at a (slot_index o')))) (byte_in_slot o') = False" by simp
    then show ?thesis using that by (auto simp: init_at_def bit_and_iff bit_not_iff dest: bit_imp_le_length)
  qed
  show "\<exists>u. spilled a i = Some u \<and> value_is_subset_of u v" if "spilled b i = Some v"
    using subset_slots [OF assms, of i] that by (auto simp: slot_is_subset_of_def spilled_def split: if_splits)
qed

subsection \<open>The initialisation test\<close>

lemma bit_want_mask: "hi \<le> 8 \<Longrightarrow> bit (want_mask lo hi) n \<longleftrightarrow> lo \<le> n \<and> n < hi"
  by (auto simp: want_mask_def mask_eq_exp_minus_1 [symmetric] push_bit_of_1 bit_simps)

lemma and_want: "x AND w = w \<longleftrightarrow> (\<forall>n. bit (w :: u8) n \<longrightarrow> bit x n)"
  by (metis bit_and_iff bit_eqI)

lemma slot_wanted_iff:
  assumes "in_frame o'" "fin \<le> 0"
  shows "slot_wanted st o' fin idx \<longleftrightarrow> (\<forall>b. o' \<le> b \<and> b < fin \<and> slot_index b = idx \<longrightarrow> init_at st b)"
proof -
  let ?base = "offset_of idx 0" and ?init = "fs_init (slot_at st idx)"
  have "slot_wanted st o' fin idx \<longleftrightarrow> (\<forall>n. nat (max o' ?base - ?base) \<le> n \<and> n < nat (min fin (?base + 8) - ?base) \<longrightarrow> bit ?init n)"
    by (simp add: slot_wanted_def Let_def and_want bit_want_mask offset_of_def)
  also have "\<dots> \<longleftrightarrow> (\<forall>n. o' \<le> offset_of idx n \<and> offset_of idx n < fin \<and> n < 8 \<longrightarrow> bit ?init n)"
    by (intro all_cong1 arg_cong2 [where f = "(\<longrightarrow>)"] refl)
      (auto simp: offset_of_def nat_le_iff zless_nat_eq_int_zless max_def min_def)
  also have "\<dots> \<longleftrightarrow> (\<forall>b. o' \<le> b \<and> b < fin \<and> slot_index b = idx \<longrightarrow> init_at st b)"
  proof -
    have f: "in_frame b" if "o' \<le> b" "b < fin" for b using assms that by (auto simp: in_frame_def)
    have "slot_index b = idx \<longleftrightarrow> b = offset_of idx (byte_in_slot b) \<and> byte_in_slot b < 8" if "o' \<le> b" "b < fin" for b
      using slot_offset [OF f [OF that], of idx "byte_in_slot b"] by auto
    moreover have "slot_index (offset_of idx n) = idx \<and> byte_in_slot (offset_of idx n) = n"
      if "o' \<le> offset_of idx n" "offset_of idx n < fin" "n < 8" for n
      using slot_index_offset [OF f [OF that(1,2)] that(3)] .
    ultimately show ?thesis unfolding init_at_def by metis
  qed
  finally show ?thesis .
qed

lemma slot_index_antimono: "in_frame b \<Longrightarrow> in_frame c \<Longrightarrow> b \<le> c \<Longrightarrow> slot_index c \<le> slot_index b"
  by (simp add: slot_index_frame nat_mono zdiv_mono1)

text \<open>The initialisation test of a range, byte by byte.\<close>

lemma is_initialized_iff:
  assumes "len \<noteq> 0" "I64_MIN \<le> o'" "o' \<le> I64_MAX"
  shows "is_initialized st o' len \<longleftrightarrow>
    in_frame o' \<and> o' + int (unat len) \<le> 0 \<and> (\<forall>b. o' \<le> b \<and> b < o' + int (unat len) \<longrightarrow> init_at st b)"
proof (cases "in_frame o' \<and> o' + int (unat len) \<le> 0")
  case True
  let ?fin = "o' + int (unat len)"
  have l: "0 < unat len" using assms(1) by (simp add: unat_gt_0)
  have small: "unat len \<le> 16384" using True unfolding in_frame_def MAX_STACK_BYTES_def by linarith
  have "is_initialized st o' len \<longleftrightarrow> list_all (slot_wanted st o' ?fin) [slot_index (?fin - 1)..<slot_index o' + 1]"
  proof -
    have "0 \<le> I64_MAX" by (simp add: I64_MAX_def)
    then have "I64_MIN \<le> ?fin" "?fin \<le> I64_MAX" using True assms(2) by linarith+
    then have "i64_checked_add o' (int (unat len)) = Some ?fin" by (simp add: i64_checked_add_def)
    then show ?thesis using True assms(1) small by (simp add: is_initialized_def in_frame_def del: upt_Suc of_nat_unat)
  qed
  also have "\<dots> \<longleftrightarrow> (\<forall>b. o' \<le> b \<and> b < ?fin \<longrightarrow> init_at st b)"
  proof -
    have "slot_index (?fin - 1) \<le> slot_index b \<and> slot_index b \<le> slot_index o'" if "o' \<le> b" "b < ?fin" for b
      using that True slot_index_antimono [of b "?fin - 1"] slot_index_antimono [of o' b] l by (auto simp: in_frame_def)
    moreover have "list_all (slot_wanted st o' ?fin) [slot_index (?fin - 1)..<slot_index o' + 1]
        \<longleftrightarrow> (\<forall>i. slot_index (?fin - 1) \<le> i \<and> i \<le> slot_index o' \<longrightarrow> slot_wanted st o' ?fin i)"
      by (auto simp: list_all_iff less_Suc_eq_le simp del: upt_Suc)
    ultimately show ?thesis using True slot_wanted_iff [of o' ?fin st] by metis
  qed
  finally show ?thesis using True by simp
next
  case False
  have "\<not> is_initialized st o' len"
    using False assms by (auto simp: is_initialized_def i64_checked_add_def in_frame_def split: option.splits if_splits)
  then show ?thesis using False by blast
qed

subsection \<open>Meaning\<close>

text \<open>A frame's memory: the bytes below the frame pointer, and which of them have been written.\<close>

record memory =
  mem_defined :: "int \<Rightarrow> bool"
  mem_byte :: "int \<Rightarrow> u8"

definition word_at :: "memory \<Rightarrow> nat \<Rightarrow> u64" where
  "word_at M i = from_le_bytes (map (\<lambda>n. mem_byte M (offset_of i n)) [0..<8])"

definition gamma_frame :: "regions \<Rightarrow> frame \<Rightarrow> memory \<Rightarrow> bool" where
  "gamma_frame E st M \<longleftrightarrow> (\<forall>b. in_frame b \<and> init_at st b \<longrightarrow> mem_defined M b)
     \<and> (\<forall>i v. in_frame (offset_of i 0) \<and> spilled st i = Some v \<longrightarrow> gamma_value E v (word_at M i))"

definition frame_ok :: "frame \<Rightarrow> bool" where
  "frame_ok st \<longleftrightarrow> (\<forall>i v. spilled st i = Some v \<longrightarrow> value_ok v)"

lemma gamma_frameI:
  assumes "\<And>b. in_frame b \<Longrightarrow> init_at st b \<Longrightarrow> mem_defined M b"
    and "\<And>i v. in_frame (offset_of i 0) \<Longrightarrow> spilled st i = Some v \<Longrightarrow> gamma_value E v (word_at M i)"
  shows "gamma_frame E st M"
  using assms by (simp add: gamma_frame_def)

lemma gamma_frameD:
  assumes "gamma_frame E st M"
  shows "in_frame b \<Longrightarrow> init_at st b \<Longrightarrow> mem_defined M b"
    "in_frame (offset_of i 0) \<Longrightarrow> spilled st i = Some v \<Longrightarrow> gamma_value E v (word_at M i)"
  using assms by (simp_all add: gamma_frame_def)

lemma default_view [simp]: "init_at frame_default b = False" "spilled frame_default i = None"
  by (simp_all add: init_at_def spilled_def slot_at_def frame_default_def EMPTY_slot_def)

lemma default_frame: "gamma_frame E frame_default M" "frame_ok frame_default"
  by (simp_all add: gamma_frame_def frame_ok_def)

subsection \<open>Frames are a merge domain\<close>

lemma frame_join_ok: "frame_ok a \<Longrightarrow> frame_ok b \<Longrightarrow> frame_ok (frame_join a b)"
  by (auto simp: frame_ok_def join_view dest!: both_SomeD intro: value_join_ok)

lemma frame_widen_ok: "frame_ok a \<Longrightarrow> frame_ok b \<Longrightarrow> thresholds_ok ts \<Longrightarrow> frame_ok (frame_widen ts a b)"
  by (auto simp: frame_ok_def widen_view dest!: both_SomeD intro: value_widen_ok)

lemma frame_join_covers:
  assumes "frame_ok a" "frame_ok b" "gamma_frame E a M \<or> gamma_frame E b M"
  shows "gamma_frame E (frame_join a b) M"
proof (rule gamma_frameI)
  show "mem_defined M o'" if "in_frame o'" "init_at (frame_join a b) o'" for o'
    using assms(3) that by (auto simp: join_view gamma_frame_def)
  show "gamma_value E v (word_at M i)" if i: "in_frame (offset_of i 0)" "spilled (frame_join a b) i = Some v" for i v
  proof -
    obtain x y where xy: "spilled a i = Some x" "spilled b i = Some y" "v = value_join x y"
      using i(2) by (auto simp: join_view dest!: both_SomeD)
    then have "value_ok x" "value_ok y" using assms(1,2) by (auto simp: frame_ok_def)
    moreover have "gamma_value E x (word_at M i) \<or> gamma_value E y (word_at M i)"
      using assms(3) gamma_frameD(2) [OF _ i(1)] xy by blast
    ultimately show ?thesis using xy(3) by (simp add: value_join_covers)
  qed
qed

lemma frame_widen_covers:
  assumes "frame_ok a" "frame_ok b" "thresholds_ok ts" "gamma_frame E a M \<or> gamma_frame E b M"
  shows "gamma_frame E (frame_widen ts a b) M"
proof (rule gamma_frameI)
  show "mem_defined M o'" if "in_frame o'" "init_at (frame_widen ts a b) o'" for o'
    using assms(4) that by (auto simp: widen_view gamma_frame_def)
  show "gamma_value E v (word_at M i)" if i: "in_frame (offset_of i 0)" "spilled (frame_widen ts a b) i = Some v" for i v
  proof -
    obtain x y where xy: "spilled a i = Some x" "spilled b i = Some y" "v = value_widen x y ts"
      using i(2) by (auto simp: widen_view dest!: both_SomeD)
    then have "value_ok x" "value_ok y" using assms(1,2) by (auto simp: frame_ok_def)
    moreover have "gamma_value E x (word_at M i) \<or> gamma_value E y (word_at M i)"
      using assms(4) gamma_frameD(2) [OF _ i(1)] xy by blast
    ultimately show ?thesis using xy(3) assms(3) by (simp add: value_widen_covers)
  qed
qed

lemma frame_subset_covers:
  assumes "frame_ok a" "frame_ok b" "frame_is_subset_of a b" "gamma_frame E a M"
  shows "gamma_frame E b M"
proof (rule gamma_frameI)
  show "mem_defined M o'" if "in_frame o'" "init_at b o'" for o'
    using gamma_frameD(1) [OF assms(4) that(1)] subset_view(1) [OF assms(3) that(2)] by blast
  show "gamma_value E v (word_at M i)" if i: "in_frame (offset_of i 0)" "spilled b i = Some v" for i v
  proof -
    obtain u where u: "spilled a i = Some u" "value_is_subset_of u v" using subset_view(2) [OF assms(3) i(2)] by blast
    then show ?thesis
      using assms(1,2) i(2) gamma_frameD(2) [OF assms(4) i(1) u(1)] value_subset_covers [of u v] by (auto simp: frame_ok_def)
  qed
qed

interpretation fr: merge_domain frame_ok "gamma_frame E" frame_is_subset_of frame_join for E
  by unfold_locales (auto intro: frame_join_ok frame_join_covers frame_subset_covers)

subsection \<open>Operations on the memory\<close>

definition mem_put :: "int \<Rightarrow> u8 list \<Rightarrow> memory \<Rightarrow> memory" where
  "mem_put o' bs M = \<lparr>mem_defined = (\<lambda>b. o' \<le> b \<and> b < o' + int (length bs) \<or> mem_defined M b),
     mem_byte = (\<lambda>b. if o' \<le> b \<and> b < o' + int (length bs) then bs ! nat (b - o') else mem_byte M b)\<rparr>"

lemma word_at_put_same: "length bs = 8 \<Longrightarrow> word_at (mem_put (offset_of i 0) bs M) i = from_le_bytes bs"
  unfolding word_at_def
  by (rule arg_cong [where f = from_le_bytes], rule nth_equalityI) (auto simp: mem_put_def offset_of_def)

lemma word_at_put_other:
  "(\<And>n. n < 8 \<Longrightarrow> \<not> (o' \<le> offset_of i n \<and> offset_of i n < o' + int (length bs))) \<Longrightarrow> word_at (mem_put o' bs M) i = word_at M i"
  unfolding word_at_def by (rule arg_cong [where f = from_le_bytes]) (auto simp: mem_put_def)

lemma write_whole_view:
  assumes "in_frame o'" "o' = offset_of k 0"
    and w: "\<And>i. slot_at st' i = (if i = k then \<lparr>fs_init = 0xFF, fs_value = v, fs_whole = True\<rparr> else slot_at st i)"
  shows "in_frame b \<Longrightarrow> init_at st' b \<longleftrightarrow> init_at st b \<or> o' \<le> b \<and> b < o' + 8"
    and "spilled st' i = (if i = k then Some v else spilled st i)"
proof -
  show "init_at st' b \<longleftrightarrow> init_at st b \<or> o' \<le> b \<and> b < o' + 8" if b: "in_frame b"
  proof -
    have "slot_index b = k \<longleftrightarrow> o' \<le> b \<and> b < o' + 8"
    proof
      assume "slot_index b = k"
      then have "b = offset_of k (byte_in_slot b)" "byte_in_slot b < 8" using slot_offset [OF b] by blast+
      then show "o' \<le> b \<and> b < o' + 8" unfolding assms(2) offset_of_def by linarith
    next
      assume r: "o' \<le> b \<and> b < o' + 8"
      then have "b = offset_of k (nat (b - o'))" "nat (b - o') < 8" unfolding assms(2) offset_of_def by auto
      then show "slot_index b = k" using slot_offset [OF b] by blast
    qed
    then show ?thesis using byte_in_slot_less [OF b]
      by (auto simp: init_at_def w bit_simps mask_eq_exp_minus_1 [symmetric] numeral_eq_Suc less_Suc_eq)
  qed
qed (simp add: spilled_def w)

lemma write_range_view:
  assumes "in_frame o'" "o' + n \<le> 0"
  shows "in_frame b \<Longrightarrow> init_at (fold write_byte [o'..o' + n - 1] st) b \<longleftrightarrow> init_at st b \<or> o' \<le> b \<and> b < o' + n"
    and "spilled (fold write_byte [o'..o' + n - 1] st) i = Some u \<longleftrightarrow>
      spilled st i = Some u \<and> (\<forall>k < 8. \<not> (o' \<le> offset_of i k \<and> offset_of i k < o' + n))"
proof -
  have f: "in_frame b" if "o' \<le> b" "b < o' + n" for b using assms that by (auto simp: in_frame_def)
  show "init_at (fold write_byte [o'..o' + n - 1] st) b \<longleftrightarrow> init_at st b \<or> o' \<le> b \<and> b < o' + n" if "in_frame b"
    using init_at_write_bytes [of "[o'..o' + n - 1]" b st] that f by auto
  have "i \<in> slot_index ` {o'..o' + n - 1} \<longleftrightarrow> (\<exists>k < 8. o' \<le> offset_of i k \<and> offset_of i k < o' + n)"
  proof
    assume "i \<in> slot_index ` {o'..o' + n - 1}"
    then obtain b where "o' \<le> b" "b < o' + n" "slot_index b = i" by auto
    then show "\<exists>k < 8. o' \<le> offset_of i k \<and> offset_of i k < o' + n" using slot_offset [OF f, of b i "byte_in_slot b"] by metis
  next
    assume "\<exists>k < 8. o' \<le> offset_of i k \<and> offset_of i k < o' + n"
    then obtain k where k: "k < 8" "o' \<le> offset_of i k" "offset_of i k < o' + n" by blast
    then show "i \<in> slot_index ` {o'..o' + n - 1}" using slot_index_offset [OF f [OF k(2,3)] k(1)] by (auto intro!: image_eqI)
  qed
  then show "spilled (fold write_byte [o'..o' + n - 1] st) i = Some u \<longleftrightarrow>
      spilled st i = Some u \<and> (\<forall>k < 8. \<not> (o' \<le> offset_of i k \<and> offset_of i k < o' + n))"
    by (auto simp: spilled_write_bytes)
qed

lemma frame_write_view:
  assumes "in_frame o'" "o' + int (size_bytes sz) \<le> 0"
  shows "in_frame b \<Longrightarrow> init_at (frame_write o' sz v st) b \<longleftrightarrow> init_at st b \<or> o' \<le> b \<and> b < o' + int (size_bytes sz)"
    and "spilled (frame_write o' sz v st) i = Some u \<Longrightarrow> sz = Size_Dw \<and> o' = offset_of i 0 \<and> u = v
      \<or> spilled st i = Some u \<and> (\<forall>n < 8. \<not> (o' \<le> offset_of i n \<and> offset_of i n < o' + int (size_bytes sz)))"
proof (atomize (full), cases "sz = Size_Dw \<and> o' smod 8 = 0")
  case True
  let ?k = "slot_index o'" and ?st = "frame_write o' sz v st"
  have o: "o' = offset_of ?k 0" using aligned_offset [OF assms(1)] True by blast
  have "slot_at ?st i = (if i = ?k then \<lparr>fs_init = 0xFF, fs_value = v, fs_whole = True\<rparr> else slot_at st i)" for i
    using True by (simp add: frame_write_def Let_def slot_at_def note_depth_def)
  note view = write_whole_view [OF assms(1) o this]
  have "\<not> (o' \<le> offset_of i n \<and> offset_of i n < o' + 8)" if "i \<noteq> ?k" "n < 8" for i n
    using that o unfolding offset_of_def by (cases "i < ?k") auto
  then show "(in_frame b \<longrightarrow> init_at ?st b = (init_at st b \<or> o' \<le> b \<and> b < o' + int (size_bytes sz)))
    \<and> (spilled ?st i = Some u \<longrightarrow> sz = Size_Dw \<and> o' = offset_of i 0 \<and> u = v
      \<or> spilled st i = Some u \<and> (\<forall>n < 8. \<not> (o' \<le> offset_of i n \<and> offset_of i n < o' + int (size_bytes sz))))"
    using view True o by (auto split: if_splits)
next
  case False
  let ?st = "frame_write o' sz v st"
  have st: "?st = fold write_byte [o'..o' + int (size_bytes sz) - 1] (note_depth o' st)"
    unfolding frame_write_def Let_def if_not_P [OF False] ..
  show "(in_frame b \<longrightarrow> init_at ?st b = (init_at st b \<or> o' \<le> b \<and> b < o' + int (size_bytes sz)))
    \<and> (spilled ?st i = Some u \<longrightarrow> sz = Size_Dw \<and> o' = offset_of i 0 \<and> u = v
      \<or> spilled st i = Some u \<and> (\<forall>n < 8. \<not> (o' \<le> offset_of i n \<and> offset_of i n < o' + int (size_bytes sz))))"
    unfolding st using write_range_view [OF assms, where st = "note_depth o' st"] by simp
qed

lemma frame_write_sound:
  assumes g: "gamma_frame E st M" and o: "in_frame o'" "o' + int (size_bytes sz) \<le> 0" and v: "gamma_value E v w"
  shows "gamma_frame E (frame_write o' sz v st) (mem_put o' (take (size_bytes sz) (to_le_bytes 8 w)) M)" (is "gamma_frame E ?st ?M")
proof (rule gamma_frameI)
  have len: "length (take (size_bytes sz) (to_le_bytes 8 w)) = size_bytes sz" using size_bytes_le [of sz] by simp
  show "mem_defined ?M b" if "in_frame b" "init_at ?st b" for b
    using frame_write_view(1) [OF o that(1)] that gamma_frameD(1) [OF g that(1)] unfolding mem_put_def len by auto
  show "gamma_value E u (word_at ?M i)" if i: "in_frame (offset_of i 0)" "spilled ?st i = Some u" for i u
    using frame_write_view(2) [OF o i(2)]
  proof
    assume "sz = Size_Dw \<and> o' = offset_of i 0 \<and> u = v"
    moreover have "from_le_bytes (to_le_bytes 8 w) = w" using u64_of_bytes_take [of 8 w] by (simp add: u64_of_bytes_def take_bit_word_eq_self)
    ultimately show ?thesis using v word_at_put_same [of "to_le_bytes 8 w" i M] by simp
  next
    assume "spilled st i = Some u \<and> (\<forall>n < 8. \<not> (o' \<le> offset_of i n \<and> offset_of i n < o' + int (size_bytes sz)))"
    then show ?thesis using gamma_frameD(2) [OF g i(1)] word_at_put_other [of o' i _ M] by (simp add: len)
  qed
qed

text \<open>A store whose place is only known to lie in a range.\<close>

lemma write_maybe_sound:
  assumes g: "gamma_frame E st M" and r: "in_frame lo" "hi \<le> 0" "lo \<le> o'" "o' + int (length bs) \<le> hi" "bs \<noteq> []"
  shows "gamma_frame E (write_maybe lo hi st) (mem_put o' bs M)"
proof (rule gamma_frameI)
  show "mem_defined (mem_put o' bs M) b" if "in_frame b" "init_at (write_maybe lo hi st) b" for b
    using that gamma_frameD(1) [OF g that(1)] by (simp add: write_maybe_view mem_put_def)
  show "gamma_value E u (word_at (mem_put o' bs M) i)" if i: "in_frame (offset_of i 0)" "spilled (write_maybe lo hi st) i = Some u" for i u
  proof -
    have s: "spilled st i = Some u" "\<not> (slot_index (hi - 1) \<le> i \<and> i \<le> slot_index lo)"
      using i(2) by (auto simp: write_maybe_view split: if_splits)
    have "\<not> (o' \<le> offset_of i n \<and> offset_of i n < o' + int (length bs))" if "n < 8" for n
    proof
      assume a: "o' \<le> offset_of i n \<and> offset_of i n < o' + int (length bs)"
      then have f: "in_frame (offset_of i n)" "in_frame (hi - 1)" using r by (auto simp: in_frame_def)
      then have "slot_index (hi - 1) \<le> slot_index (offset_of i n)" "slot_index (offset_of i n) \<le> slot_index lo"
        using a r by (auto intro: slot_index_antimono)
      then show False using s(2) slot_index_offset [OF f(1) that] by simp
    qed
    then show ?thesis using gamma_frameD(2) [OF g i(1) s(1)] word_at_put_other [of o' i bs M] by simp
  qed
qed

text \<open>Bytes that a callee fills, and a frame a callee may have overwritten.\<close>

lemma write_unspecified_sound:
  assumes g: "gamma_frame E st M" and o: "in_frame o'" "o' + int (unat len) \<le> 0"
    and M': "\<And>b. o' \<le> b \<Longrightarrow> b < o' + int (unat len) \<Longrightarrow> mem_defined M' b"
      "\<And>b. mem_defined M b \<Longrightarrow> mem_defined M' b" "\<And>b. \<not> (o' \<le> b \<and> b < o' + int (unat len)) \<Longrightarrow> mem_byte M' b = mem_byte M b"
  shows "gamma_frame E (write_unspecified o' len st) M'"
proof -
  have "int (unat len) \<le> 16384" using o unfolding in_frame_def MAX_STACK_BYTES_def by linarith
  then have l: "sint len = int (unat len)" using uint_small_sint [of len] by simp
  have st: "write_unspecified o' len st = fold write_byte [o'..o' + int (unat len) - 1] (note_depth o' st)"
    by (simp only: write_unspecified_def l)
  note view = write_range_view [OF o, where st = "note_depth o' st"]
  show ?thesis unfolding st
  proof (rule gamma_frameI)
    show "mem_defined M' b" if "in_frame b" "init_at (fold write_byte [o'..o' + int (unat len) - 1] (note_depth o' st)) b" for b
      using view(1) [OF that(1)] that(2) gamma_frameD(1) [OF g that(1)] M'(1,2) by auto
    show "gamma_value E u (word_at M' i)"
      if i: "in_frame (offset_of i 0)" "spilled (fold write_byte [o'..o' + int (unat len) - 1] (note_depth o' st)) i = Some u" for i u
    proof -
      have s: "spilled st i = Some u" "\<forall>k < 8. \<not> (o' \<le> offset_of i k \<and> offset_of i k < o' + int (unat len))"
        using view(2) i(2) by simp_all
      then have "word_at M' i = word_at M i" unfolding word_at_def by (intro arg_cong [where f = from_le_bytes] map_cong refl M'(3)) simp
      then show ?thesis using gamma_frameD(2) [OF g i(1) s(1)] by simp
    qed
  qed
qed

lemma clobber_sound: "gamma_frame E st M \<Longrightarrow> (\<And>b. mem_defined M b \<Longrightarrow> mem_defined M' b) \<Longrightarrow> gamma_frame E (clobber st) M'"
  by (auto simp: gamma_frame_def clobber_view)

text \<open>Reading bytes that are initialised.\<close>

definition mem_get :: "memory \<Rightarrow> int \<Rightarrow> nat \<Rightarrow> u8 list" where
  "mem_get M o' n = map (\<lambda>k. mem_byte M (o' + int k)) [0..<n]"

lemma u64_of_bytes_small: "length bs \<le> 8 \<Longrightarrow> take_bit (8 * length bs) (u64_of_bytes bs) = u64_of_bytes bs"
  by (rule bit_word_eqI)
    (auto simp: u64_of_bytes_def bit_from_le_bytes bit_take_bit_iff nth_append less_mult_imp_div_less not_less div_le_dividend
      split: if_splits)

lemma frame_read_sound:
  assumes g: "gamma_frame E st M" and o: "in_frame o'" "o' + int (size_bytes sz) \<le> 0"
  shows "gamma_value E (frame_read st o' sz) (u64_of_bytes (mem_get M o' (size_bytes sz)))"
proof (cases "sz = Size_Dw \<and> o' smod 8 = 0 \<and> fs_whole (slot_at st (slot_index o')) \<and> fs_init (slot_at st (slot_index o')) = 0xFF")
  case True
  then have i: "o' = offset_of (slot_index o') 0" "spilled st (slot_index o') = Some (fs_value (slot_at st (slot_index o')))"
    using aligned_offset [OF o(1)] by (simp_all add: spilled_def)
  have "mem_get M o' 8 = map (\<lambda>n. mem_byte M (offset_of (slot_index o') n)) [0..<8]"
    unfolding mem_get_def by (rule map_cong) (use i(1) in \<open>simp_all add: offset_of_def\<close>)
  then have "u64_of_bytes (mem_get M o' 8) = word_at M (slot_index o')" by (simp add: u64_of_bytes_def word_at_def)
  then show ?thesis using gamma_frameD(2) [OF g _ i(2)] o(1) i(1) True by (simp add: frame_read_def)
next
  case False
  have "take_bit (size_bits sz) (u64_of_bytes (mem_get M o' (size_bytes sz))) = u64_of_bytes (mem_get M o' (size_bytes sz))"
    using u64_of_bytes_small [of "mem_get M o' (size_bytes sz)"] by (simp add: mem_get_def size_bits_def mult.commute)
  then have "models (unsigned_bits (size_bits sz)) (u64_of_bytes (mem_get M o' (size_bytes sz)))" by (rule unsigned_bits_sound)
  then show ?thesis unfolding frame_read_def Let_def if_not_P [OF False] by (simp add: models_def)
qed

subsection \<open>The interpreter's stack\<close>

definition machine_memory :: "machine \<Rightarrow> memory" where
  "machine_memory m = \<lparr>mem_defined = (\<lambda>b. in_frame b \<and> mdefined m ! nat (int STACK_BYTES + b)),
     mem_byte = (\<lambda>b. if in_frame b then mstack m ! nat (int STACK_BYTES + b) else 0)\<rparr>"

lemma stack_address:
  assumes "sint addr = int STACK_BYTES + o'" "in_frame o'" "o' + int (size_bytes sz) \<le> 0"
  shows "addr < CTX_BASE" "stack_slot addr sz = Ok (nat (int STACK_BYTES + o'))"
proof -
  have s: "0 \<le> sint addr" "sint addr < int STACK_BYTES"
    using assms by (auto simp: in_frame_def MAX_STACK_BYTES_def STACK_BYTES_def)
  then have "uint addr = sint addr" using sign_sint [of addr] sint_nonneg_uint [of addr] by simp
  then have "uint addr < uint CTX_BASE" using s(2) by (simp add: CTX_BASE_def STACK_BYTES_def)
  then show "addr < CTX_BASE" by (simp add: word_less_def)
  show "stack_slot addr sz = Ok (nat (int STACK_BYTES + o'))" using s assms by (simp add: slot_Ok nat_add_distrib)
qed

lemma store_memory:
  assumes "machine_ok m" "sint addr = int STACK_BYTES + o'" "in_frame o'" "o' + int (size_bytes sz) \<le> 0"
  shows "\<exists>m'. store m addr sz v = Ok m' \<and> machine_ok m' \<and> mregs m' = mregs m \<and> mctx m' = mctx m
    \<and> machine_memory m' = mem_put o' (take (size_bytes sz) (to_le_bytes 8 v)) (machine_memory m)"
proof -
  let ?i = "nat (int STACK_BYTES + o')" and ?bs = "take (size_bytes sz) (to_le_bytes 8 v)"
  let ?m = "m\<lparr>mstack := range_put ?i ?bs (mstack m), mdefined := range_put ?i (replicate (size_bytes sz) True) (mdefined m)\<rparr>"
  have st: "store m addr sz v = Ok ?m" using stack_address [OF assms(2-4)] by (simp add: store_def Let_def)
  have len: "length ?bs = size_bytes sz" using size_bytes_le [of sz] by simp
  have i: "int ?i = int STACK_BYTES + o'" "?i + size_bytes sz \<le> STACK_BYTES"
    using assms(3,4) by (auto simp: in_frame_def MAX_STACK_BYTES_def STACK_BYTES_def)
  have "mem_defined (machine_memory ?m) b = mem_defined (mem_put o' ?bs (machine_memory m)) b
      \<and> mem_byte (machine_memory ?m) b = mem_byte (mem_put o' ?bs (machine_memory m)) b" for b
  proof (cases "in_frame b")
    case True
    let ?k = "nat (int STACK_BYTES + b)"
    have k: "int ?k = int STACK_BYTES + b" "?k < STACK_BYTES"
      using True by (auto simp: in_frame_def MAX_STACK_BYTES_def STACK_BYTES_def)
    have r: "?i \<le> ?k \<and> ?k < ?i + size_bytes sz \<longleftrightarrow> o' \<le> b \<and> b < o' + int (size_bytes sz)" "?k - ?i = nat (b - o')"
      using i(1) k(1) by linarith+
    show ?thesis
      using True r k i assms(1) len nat_less_iff [of "b - o'" "size_bytes sz"]
      by (auto simp: machine_memory_def mem_put_def nth_range_put machine_ok_def)
  next
    case False
    then have "\<not> (o' \<le> b \<and> b < o' + int (size_bytes sz))" using assms(3,4) by (auto simp: in_frame_def)
    then show ?thesis using False unfolding machine_memory_def mem_put_def len by auto
  qed
  then have "machine_memory ?m = mem_put o' ?bs (machine_memory m)" by (intro memory.equality ext) simp_all
  then show ?thesis using st store_ok [OF assms(1) st] by blast
qed

lemma load_memory:
  assumes "machine_ok m" "sint addr = int STACK_BYTES + o'" "in_frame o'" "o' + int (size_bytes sz) \<le> 0"
    and "\<And>b. o' \<le> b \<Longrightarrow> b < o' + int (size_bytes sz) \<Longrightarrow> mem_defined (machine_memory m) b"
  shows "load m addr sz = Ok (u64_of_bytes (mem_get (machine_memory m) o' (size_bytes sz)))"
proof -
  let ?i = "nat (int STACK_BYTES + o')"
  have i: "int ?i = int STACK_BYTES + o'" "?i + size_bytes sz \<le> STACK_BYTES"
    using assms(3,4) by (auto simp: in_frame_def MAX_STACK_BYTES_def STACK_BYTES_def)
  have idx: "in_frame (o' + int k) \<and> nat (int STACK_BYTES + (o' + int k)) = ?i + k" if "k < size_bytes sz" for k
  proof
    show "in_frame (o' + int k)" using that assms(3,4) by (simp add: in_frame_def)
    show "nat (int STACK_BYTES + (o' + int k)) = ?i + k" using i(1) by linarith
  qed
  have "range_get ?i (size_bytes sz) (mstack m) = mem_get (machine_memory m) o' (size_bytes sz)"
    using i assms(1) idx by (intro nth_equalityI) (auto simp: range_get_def mem_get_def machine_memory_def machine_ok_def)
  moreover have "list_all (\<lambda>d. d) (range_get ?i (size_bytes sz) (mdefined m))"
  proof -
    have "mdefined m ! (?i + k)" if "k < size_bytes sz" for k
      using assms(5) [of "o' + int k"] idx [OF that] that by (simp add: machine_memory_def)
    then show ?thesis using i assms(1) by (simp add: list_all_length range_get_def machine_ok_def)
  qed
  ultimately show ?thesis using load_stack [OF stack_address [OF assms(2-4)], of m] by simp
qed

subsection \<open>Properties\<close>

text \<open>
  C17. The slot-wise initialisation test equals the byte-wise one for every offset of an \<open>i64\<close> and every length of a \<open>u64\<close>: an
  empty range is initialised, and any other range is exactly when it lies in the frame and each of its bytes has its bit set. A range that
  leaves the frame or whose end overflows is not initialised.
\<close>

theorem initialization_test_exact:
  assumes "I64_MIN \<le> o'" "o' \<le> I64_MAX"
  shows "is_initialized st o' len \<longleftrightarrow> len = 0 \<or>
    - MAX_STACK_BYTES \<le> o' \<and> o' + int (unat len) \<le> 0
    \<and> (\<forall>b \<in> {o'..<o' + int (unat len)}. bit (fs_init (slot_at st (slot_index b))) (byte_in_slot b))"
proof (cases "len = 0")
  case True
  then show ?thesis by (simp add: is_initialized_def)
next
  case False
  then have "0 < unat len" by (simp add: unat_gt_0)
  then have "in_frame o' \<and> o' + int (unat len) \<le> 0 \<longleftrightarrow> - MAX_STACK_BYTES \<le> o' \<and> o' + int (unat len) \<le> 0"
    unfolding in_frame_def by linarith
  then show ?thesis using is_initialized_iff [OF False assms, of st] False by (auto simp: init_at_def)
qed

theorem initialization_test_exact_witness:
  "is_initialized (frame_write (- 8) Size_W NotInit frame_default) (- 8) 4 \<and> \<not> is_initialized (frame_write (- 8) Size_W NotInit frame_default) (- 8) 5"
proof -
  let ?st = "frame_write (- 8) Size_W NotInit frame_default"
  have f: "in_frame (- 8)" "in_frame (- 4)" by (simp_all add: in_frame_def MAX_STACK_BYTES_def)
  have i: "in_frame b \<Longrightarrow> init_at ?st b \<longleftrightarrow> - 8 \<le> b \<and> b < - 4" for b
    using frame_write_view(1) [OF f(1), of Size_W b NotInit frame_default] by simp
  have "is_initialized ?st (- 8) 4"
    using initialization_test_exact [of "- 8" ?st 4] i
    by (auto simp: I64_MIN_def I64_MAX_def MAX_STACK_BYTES_def init_at_def [symmetric] in_frame_def)
  moreover have "\<not> is_initialized ?st (- 8) 5"
    using initialization_test_exact [of "- 8" ?st 5] i [OF f(2)]
    by (auto simp: I64_MIN_def I64_MAX_def MAX_STACK_BYTES_def init_at_def [symmetric] intro!: bexI [of _ "- 4"])
  ultimately show ?thesis ..
qed

text \<open>
  The frame model is sound for the interpreter's stack. When a frame describes the stack of a machine: a load of bytes that the frame has as
  initialised returns, and the value the frame reads describes what it returns; a store inside the frame succeeds, and
  the frame after \<open>write\<close> describes the stack after it; and the frame after \<open>write_maybe\<close> describes the stack after a store anywhere in the range.
\<close>

theorem frame_model_sound:
  assumes "machine_ok m" "gamma_frame E st (machine_memory m)" "sint addr = int STACK_BYTES + o'"
    and "- MAX_STACK_BYTES \<le> o'" "o' + int (size_bytes sz) \<le> 0"
  shows "(is_initialized st o' (of_nat (size_bytes sz)) \<longrightarrow> (\<exists>w. load m addr sz = Ok w \<and> gamma_value E (frame_read st o' sz) w))
    \<and> (\<exists>m'. store m addr sz w = Ok m'
         \<and> (gamma_value E v w \<longrightarrow> gamma_frame E (frame_write o' sz v st) (machine_memory m'))
         \<and> (- MAX_STACK_BYTES \<le> lo \<and> lo \<le> o' \<and> o' + int (size_bytes sz) \<le> hi \<and> hi \<le> 0
            \<longrightarrow> gamma_frame E (write_maybe lo hi st) (machine_memory m')))"
proof
  have n: "0 < size_bytes sz" by (cases sz) simp_all
  then have o: "in_frame o'" using assms(4,5) by (simp add: in_frame_def)
  have u: "unat (of_nat (size_bytes sz) :: u64) = size_bytes sz" by (cases sz) simp_all
  show "is_initialized st o' (of_nat (size_bytes sz)) \<longrightarrow> (\<exists>w. load m addr sz = Ok w \<and> gamma_value E (frame_read st o' sz) w)"
  proof
    assume "is_initialized st o' (of_nat (size_bytes sz))"
    then have "\<forall>b. o' \<le> b \<and> b < o' + int (size_bytes sz) \<longrightarrow> init_at st b"
      using is_initialized_iff [of "of_nat (size_bytes sz)" o' st] o n u
      by (auto simp: in_frame_def MAX_STACK_BYTES_def I64_MIN_def I64_MAX_def unat_eq_0 [symmetric])
    then have "mem_defined (machine_memory m) b" if "o' \<le> b" "b < o' + int (size_bytes sz)" for b
      using that gamma_frameD(1) [OF assms(2)] assms(4,5) by (auto simp: in_frame_def)
    from load_memory [OF assms(1,3) o assms(5) this] frame_read_sound [OF assms(2) o assms(5)]
    show "\<exists>w. load m addr sz = Ok w \<and> gamma_value E (frame_read st o' sz) w" by blast
  qed
  let ?bs = "take (size_bytes sz) (to_le_bytes 8 w)"
  obtain m' where m': "store m addr sz w = Ok m'" "machine_memory m' = mem_put o' ?bs (machine_memory m)"
    using store_memory [OF assms(1,3) o assms(5)] by blast
  have len: "length ?bs = size_bytes sz" using size_bytes_le [of sz] by simp
  then have "?bs \<noteq> []" using n by (metis length_greater_0_conv)
  then have "gamma_frame E (write_maybe lo hi st) (machine_memory m')"
    if "- MAX_STACK_BYTES \<le> lo" "lo \<le> o'" "o' + int (size_bytes sz) \<le> hi" "hi \<le> 0"
    using write_maybe_sound [OF assms(2), of lo hi o' ?bs] that o len m'(2) by (simp add: in_frame_def)
  then show "\<exists>m'. store m addr sz w = Ok m'
         \<and> (gamma_value E v w \<longrightarrow> gamma_frame E (frame_write o' sz v st) (machine_memory m'))
         \<and> (- MAX_STACK_BYTES \<le> lo \<and> lo \<le> o' \<and> o' + int (size_bytes sz) \<le> hi \<and> hi \<le> 0
            \<longrightarrow> gamma_frame E (write_maybe lo hi st) (machine_memory m'))"
    using m' frame_write_sound [OF assms(2) o assms(5)] by auto
qed

definition no_regions :: regions where
  "no_regions = \<lparr>bases = (\<lambda>_ _ _. {}), extent = (\<lambda>_. 0), writable = (\<lambda>_. False), lifetime = (\<lambda>_. Static), nulls = True\<rparr>"

theorem frame_model_sound_witness:
  "\<exists>m'. store machine_new 0x3FF8 Size_Dw 7 = Ok m' \<and> gamma_frame no_regions (frame_write (- 8) Size_Dw (Scalar (scalar_constant 7)) frame_default) (machine_memory m')"
proof -
  have "machine_ok machine_new" by (simp add: machine_ok_def machine_new_def)
  moreover have "sint (0x3FF8 :: u64) = int STACK_BYTES + (- 8)" using uint_small_sint [of "0x3FF8"] by (simp add: STACK_BYTES_def)
  moreover have "scalar_contains (scalar_constant 7) 7" using models_constant [of 7] by (simp add: models_def I64_MIN_def I64_MAX_def)
  ultimately show ?thesis
    using frame_model_sound [of machine_new no_regions frame_default "0x3FF8" "- 8" Size_Dw 7 "Scalar (scalar_constant 7)" "- 8" 0] default_frame(1)
    by (auto simp: MAX_STACK_BYTES_def)
qed

end
