(* ===== verification/Bpf_State.thy ===== *)
theory Bpf_State
  imports Bpf_Stack
begin

text \<open>
  The verifier's state at a program point: \<open>Ref\<close> and \<open>AbsState\<close> of \<open>bpf/verifier/src/state.rs\<close>, eleven registers, the current frame and
  the references that must be released before exit, kept sorted by id. \<open>binary_search_by_key\<close> is the loop of the standard library.

  Shown: the reference list is the set of its ids under every operation; at an await every value that does not survive
  one is forgotten and nothing else changes; and join, widening and the subset test of states are sound for the registers, the
  memory and the references a program may still hold.
\<close>

subsection \<open>Definitions\<close>

record vref =
  rid :: int
  ris_lock :: bool
  rdomain :: validity_domain

record abs_state =
  aregs :: "abs_value list"
  astack :: frame
  arefs :: "vref list"

definition entry_state :: "u64 \<Rightarrow> abs_state" where
  "entry_state ctx_size =
     \<lparr>aregs = (replicate 11 NotInit)[1 := Ptr ((ptr_region Class_Ctx ctx_size)\<lparr>preadonly := True\<rparr>), 10 := Ptr frame_pointer],
      astack = frame_default, arefs = []\<rparr>"

text \<open>\<open>binary_search_by_key\<close>: the position of an element with the key, or the place to insert it.\<close>

function search_base :: "('a \<Rightarrow> 'k::linorder) \<Rightarrow> 'a list \<Rightarrow> 'k \<Rightarrow> nat \<Rightarrow> nat \<Rightarrow> nat" where
  "search_base key xs k base sz =
     (if sz > 1
      then (let half = sz div 2; mid = base + half
            in search_base key xs k (if key (xs ! mid) > k then base else mid) (sz - half))
      else base)"
  by pat_completeness auto
termination
  by (relation "measure (\<lambda>(key, xs, k, base, sz). sz)") (auto simp: Let_def)

definition binary_search_by_key :: "('a \<Rightarrow> 'k::linorder) \<Rightarrow> 'a list \<Rightarrow> 'k \<Rightarrow> (nat, nat) result" where
  "binary_search_by_key key xs k =
     (if xs = [] then Err 0
      else (let base = search_base key xs k 0 (length xs); x = key (xs ! base)
            in if x = k then Ok base else Err (base + (if x < k then 1 else 0))))"

definition insert_at :: "nat \<Rightarrow> 'a \<Rightarrow> 'a list \<Rightarrow> 'a list" where
  "insert_at p x xs = take p xs @ x # drop p xs"

definition remove_at :: "nat \<Rightarrow> 'a list \<Rightarrow> 'a list" where
  "remove_at p xs = take p xs @ drop (p + 1) xs"

definition insert_ref :: "vref \<Rightarrow> vref list \<Rightarrow> vref list" where
  "insert_ref r rs = (case binary_search_by_key rid rs (rid r) of Err p \<Rightarrow> insert_at p r rs | Ok _ \<Rightarrow> rs)"

definition acquire :: "vref \<Rightarrow> abs_state \<Rightarrow> abs_state" where
  "acquire r st = st\<lparr>arefs := insert_ref r (arefs st)\<rparr>"

definition release :: "int \<Rightarrow> abs_state \<Rightarrow> abs_state \<times> bool" where
  "release k st =
     (case binary_search_by_key rid (arefs st) k of
        Ok p \<Rightarrow> (st\<lparr>arefs := remove_at p (arefs st)\<rparr>, True)
      | Err _ \<Rightarrow> (st, False))"

definition ref_held :: "vref list \<Rightarrow> int \<Rightarrow> bool" where
  "ref_held rs k = (case binary_search_by_key rid rs k of Ok _ \<Rightarrow> True | Err _ \<Rightarrow> False)"

definition holds :: "abs_state \<Rightarrow> int \<Rightarrow> bool" where
  "holds st k = ref_held (arefs st) k"

definition live_locks :: "abs_state \<Rightarrow> nat" where
  "live_locks st = length (filter ris_lock (arefs st))"

fun unsize_packet :: "abs_value \<Rightarrow> abs_value" where
  "unsize_packet (Ptr p) = Ptr (if pclass p = Class_Mem \<and> key_is_some (pkey p) then p\<lparr>psize := None\<rparr> else p)"
| "unsize_packet v = v"

definition invalidate_packet_bounds :: "abs_state \<Rightarrow> abs_state" where
  "invalidate_packet_bounds st = st\<lparr>aregs := map unsize_packet (aregs st)\<rparr>"

text \<open>Forget the pointers that satisfy a condition, in a register and in a slot.\<close>

fun ptr_such :: "(ptr_val \<Rightarrow> bool) \<Rightarrow> abs_value \<Rightarrow> bool" where
  "ptr_such P (Ptr p) = P p"
| "ptr_such P v = False"

definition kill_slot :: "(ptr_val \<Rightarrow> bool) \<Rightarrow> frame_slot \<Rightarrow> frame_slot" where
  "kill_slot P s = (if ptr_such P (fs_value s) then s\<lparr>fs_value := NotInit, fs_whole := False\<rparr> else s)"

definition kill_slots :: "(ptr_val \<Rightarrow> bool) \<Rightarrow> frame \<Rightarrow> frame" where
  "kill_slots P st = st\<lparr>fslots := fmmap (kill_slot P) (fslots st)\<rparr>"

definition kill_ref :: "int \<Rightarrow> abs_state \<Rightarrow> abs_state" where
  "kill_ref k st = st\<lparr>aregs := map (\<lambda>v. if ptr_such (\<lambda>p. pref_id p = k) v then NotInit else v) (aregs st),
                       astack := kill_slots (\<lambda>p. pref_id p = k) (astack st)\<rparr>"

definition killed_regs :: "abs_value list \<Rightarrow> (nat \<times> validity_domain) list" where
  "killed_regs rs = concat (map (\<lambda>i. case rs ! i of Ptr p \<Rightarrow> if ptr_survives_await p then [] else [(i, pdomain p)] | _ \<Rightarrow> []) [0..<length rs])"

definition kill_at_await :: "abs_state \<Rightarrow> abs_state \<times> (nat \<times> validity_domain) list" where
  "kill_at_await st =
     (st\<lparr>aregs := map (\<lambda>v. if ptr_such (\<lambda>p. \<not> ptr_survives_await p) v then NotInit else v) (aregs st),
          astack := kill_slots (\<lambda>p. \<not> ptr_survives_await p) (astack st)\<rparr>,
      killed_regs (aregs st))"

definition union_refs :: "vref list \<Rightarrow> vref list \<Rightarrow> vref list" where
  "union_refs a b = fold insert_ref b a"

definition state_join :: "abs_state \<Rightarrow> abs_state \<Rightarrow> abs_state" where
  "state_join a b = \<lparr>aregs = map (\<lambda>i. value_join (aregs a ! i) (aregs b ! i)) [0..<11],
     astack = frame_join (astack a) (astack b), arefs = union_refs (arefs a) (arefs b)\<rparr>"

definition state_widen :: "int list \<Rightarrow> u16 \<Rightarrow> abs_state \<Rightarrow> abs_state \<Rightarrow> abs_state" where
  "state_widen ts precise a b =
     (let j = state_join a b
      in \<lparr>aregs = map (\<lambda>i. value_widen (aregs a ! i) (aregs j ! i) (if bit precise i then ts else [])) [0..<11],
          astack = frame_widen ts (astack a) (astack j), arefs = arefs j\<rparr>)"

definition state_is_subset_of :: "abs_state \<Rightarrow> abs_state \<Rightarrow> bool" where
  "state_is_subset_of a b \<longleftrightarrow> list_all2 value_is_subset_of (aregs a) (aregs b) \<and> frame_is_subset_of (astack a) (astack b)
     \<and> list_all (\<lambda>r. holds a (rid r)) (arefs b) \<and> list_all (\<lambda>r. holds b (rid r)) (arefs a)"

subsection \<open>Binary search\<close>

declare search_base.simps [simp del]

lemma search_base_between:
  assumes "sorted_wrt (<) (map key xs)" "1 \<le> sz" "base + sz \<le> length xs"
    and "base = 0 \<or> key (xs ! base) \<le> k" "base + sz = length xs \<or> k < key (xs ! (base + sz))"
  shows "\<exists>b. search_base key xs k base sz = b \<and> b < length xs \<and> (b = 0 \<or> key (xs ! b) \<le> k)
    \<and> (b + 1 = length xs \<or> k < key (xs ! (b + 1)))"
  using assms
proof (induction key xs k base sz rule: search_base.induct)
  case (1 key xs k base sz)
  show ?case
  proof (cases "sz > 1")
    case False
    then have "sz = 1" using "1.prems"(2) by simp
    then show ?thesis using "1.prems" by (subst search_base.simps) auto
  next
    case True
    let ?half = "sz div 2" and ?mid = "base + sz div 2"
    have eq: "search_base key xs k base sz = search_base key xs k (if key (xs ! ?mid) > k then base else ?mid) (sz - ?half)"
      using True by (subst search_base.simps) (simp add: Let_def)
    have half: "1 \<le> sz - ?half" "1 \<le> ?half" "?half + (sz - ?half) = sz" "?half \<le> sz - ?half" using True by auto
    have up: "k < key (xs ! (base + (sz - ?half)))" if "k < key (xs ! ?mid)"
    proof (cases "?half = sz - ?half")
      case True
      then show ?thesis using that by simp
    next
      case False
      then have "?mid < base + (sz - ?half)" "base + (sz - ?half) < length xs" using False half "1.prems"(3) by linarith+
      then have "key (xs ! ?mid) < key (xs ! (base + (sz - ?half)))"
        using sorted_wrt_nth_less [OF "1.prems"(1)] by simp
      then show ?thesis using that by simp
    qed
    show ?thesis unfolding eq
      by (rule "1.IH" [OF True refl refl]) (use "1.prems" half up in \<open>auto split: if_splits\<close>)
  qed
qed

definition by_key :: "('a \<Rightarrow> 'k::linorder) \<Rightarrow> 'a list \<Rightarrow> bool" where
  "by_key key xs \<longleftrightarrow> sorted_wrt (<) (map key xs)"

lemma by_key_less: "by_key key xs \<Longrightarrow> i < j \<Longrightarrow> j < length xs \<Longrightarrow> key (xs ! i) < key (xs ! j)"
  using sorted_wrt_nth_less [of "(<)" "map key xs" i j] by (simp add: by_key_def)

lemma binary_search_cases:
  assumes "by_key key xs"
  shows "case binary_search_by_key key xs k of
      Ok p \<Rightarrow> p < length xs \<and> key (xs ! p) = k
    | Err p \<Rightarrow> p \<le> length xs \<and> (\<forall>i < p. key (xs ! i) < k) \<and> (\<forall>i. p \<le> i \<and> i < length xs \<longrightarrow> k < key (xs ! i))"
proof (cases "xs = []")
  case True
  then show ?thesis by (simp add: binary_search_by_key_def)
next
  case False
  then obtain b where b: "search_base key xs k 0 (length xs) = b" "b < length xs" "b = 0 \<or> key (xs ! b) \<le> k"
      "b + 1 = length xs \<or> k < key (xs ! (b + 1))"
    using search_base_between [of key xs "length xs" 0 k] assms by (auto simp: by_key_def Suc_le_eq)
  have below: "key (xs ! i) < key (xs ! b)" if "i < b" for i using by_key_less [OF assms that b(2)] .
  have above: "k < key (xs ! i)" if "b < i" "i < length xs" for i
    using b(4) that by_key_less [OF assms, of "b + 1" i] by (cases "i = b + 1") auto
  consider "key (xs ! b) = k" | "key (xs ! b) < k" | "k < key (xs ! b)" using less_linear by blast
  then show ?thesis
  proof cases
    case 1
    then show ?thesis using False b by (simp add: binary_search_by_key_def Let_def)
  next
    case 2
    then show ?thesis using False b below above
      by (auto simp: binary_search_by_key_def Let_def less_Suc_eq dest: less_trans)
  next
    case 3
    then have "b = 0" using b(3) by auto
    then have "k < key (xs ! i)" if "i < length xs" for i using 3 above [of i] that by (cases i) auto
    then show ?thesis using 3 False b \<open>b = 0\<close> by (simp add: binary_search_by_key_def Let_def Suc_le_eq)
  qed
qed

subsection \<open>References\<close>

abbreviation ids :: "vref list \<Rightarrow> int set" where "ids rs \<equiv> rid ` set rs"

abbreviation refs_sorted :: "vref list \<Rightarrow> bool" where "refs_sorted \<equiv> by_key rid"

lemma ref_held_iff: "refs_sorted rs \<Longrightarrow> ref_held rs k \<longleftrightarrow> k \<in> ids rs"
proof (cases "binary_search_by_key rid rs k")
  case (Inl p)
  assume "refs_sorted rs"
  then have p: "\<forall>i < p. rid (rs ! i) < k" "\<forall>i. p \<le> i \<and> i < length rs \<longrightarrow> k < rid (rs ! i)"
    using binary_search_cases [of rid rs k] Inl by simp_all
  have "rid (rs ! i) \<noteq> k" if "i < length rs" for i
    using p(1) [rule_format, of i] p(2) [rule_format, of i] that by linarith
  then have "k \<notin> ids rs" by (metis imageE in_set_conv_nth)
  then show ?thesis using Inl by (simp add: ref_held_def)
next
  case (Inr p)
  assume "refs_sorted rs"
  then show ?thesis using binary_search_cases [of rid rs k] Inr by (auto simp: ref_held_def)
qed

lemma insert_ref_spec:
  assumes "refs_sorted rs"
  shows "refs_sorted (insert_ref r rs)" "set (insert_ref r rs) = (if rid r \<in> ids rs then set rs else insert r (set rs))"
proof -
  note h = ref_held_iff [OF assms, of "rid r"]
  have "refs_sorted (insert_ref r rs) \<and> set (insert_ref r rs) = (if rid r \<in> ids rs then set rs else insert r (set rs))"
  proof (cases "binary_search_by_key rid rs (rid r)")
    case (Inr p)
    then show ?thesis using assms h by (auto simp: insert_ref_def ref_held_def)
  next
    case (Inl p)
    then have p: "p \<le> length rs" "\<forall>i < p. rid (rs ! i) < rid r" "\<forall>i. p \<le> i \<and> i < length rs \<longrightarrow> rid r < rid (rs ! i)"
      using binary_search_cases [OF assms, of "rid r"] by simp_all
    have "rid (rs ! i) < rid (rs ! (p + j))" if "i < p" "j < length rs - p" for i j
      using p(2) [rule_format, OF that(1)] p(3) [rule_format, of "p + j"] that(2) by linarith
    then have "sorted_wrt (<) (map rid (take p rs) @ rid r # map rid (drop p rs))"
      using assms p unfolding sorted_wrt_append
      by (auto simp: by_key_def take_map [symmetric] drop_map [symmetric] sorted_wrt_take sorted_wrt_drop in_set_conv_nth
          dest: sorted_wrt_nth_less intro: less_trans)
    moreover have "set (take p rs) \<union> set (drop p rs) = set rs" by (metis append_take_drop_id set_append)
    ultimately show ?thesis using Inl h by (auto simp: insert_ref_def insert_at_def by_key_def ref_held_def)
  qed
  then show "refs_sorted (insert_ref r rs)" "set (insert_ref r rs) = (if rid r \<in> ids rs then set rs else insert r (set rs))"
    by blast+
qed

lemma insert_ref_ids: "refs_sorted rs \<Longrightarrow> ids (insert_ref r rs) = insert (rid r) (ids rs)"
  by (auto simp: insert_ref_spec)

lemma union_refs_spec:
  "refs_sorted a \<Longrightarrow> refs_sorted (union_refs a b) \<and> ids (union_refs a b) = ids a \<union> ids b"
  unfolding union_refs_def by (induction b arbitrary: a) (auto simp: insert_ref_spec(1) insert_ref_ids)

lemma remove_at_spec:
  assumes "refs_sorted rs" "p < length rs"
  shows "refs_sorted (remove_at p rs) \<and> ids (remove_at p rs) = ids rs - {rid (rs ! p)}"
proof -
  have rs: "rs = take p rs @ rs ! p # drop (Suc p) rs" using assms(2) by (rule id_take_nth_drop)
  have s: "sorted_wrt (<) (map rid (take p rs) @ rid (rs ! p) # map rid (drop (Suc p) rs))"
    using assms(1) unfolding by_key_def by (subst (asm) rs) simp
  have "ids rs = ids (take p rs) \<union> insert (rid (rs ! p)) (ids (drop (Suc p) rs))" by (subst rs) (simp add: image_Un)
  moreover have "rid (rs ! p) \<notin> ids (take p rs)" "rid (rs ! p) \<notin> ids (drop (Suc p) rs)"
    using s by (auto simp: sorted_wrt_append)
  ultimately show ?thesis using s by (auto simp: remove_at_def by_key_def sorted_wrt_append)
qed

lemma release_spec':
  assumes "refs_sorted (arefs st)"
  shows "snd (release k st) \<longleftrightarrow> k \<in> ids (arefs st)" "refs_sorted (arefs (fst (release k st)))"
    "ids (arefs (fst (release k st))) = ids (arefs st) - {k}" "aregs (fst (release k st)) = aregs st" "astack (fst (release k st)) = astack st"
  using binary_search_cases [OF assms, of k] ref_held_iff [OF assms, of k] remove_at_spec [OF assms] assms
  by (auto simp: release_def ref_held_def split: sum.splits)

subsection \<open>Killing values\<close>

lemma ptr_such_iff: "ptr_such P v \<longleftrightarrow> (\<exists>p. v = Ptr p \<and> P p)"
  by (cases v) simp_all

lemma kill_slots_view:
  "init_at (kill_slots P st) b = init_at st b"
  "spilled (kill_slots P st) i = (case spilled st i of Some v \<Rightarrow> if ptr_such P v then None else Some v | None \<Rightarrow> None)"
proof -
  have "slot_at (kill_slots P st) i = kill_slot P (slot_at st i)" for i
    by (simp add: slot_at_def kill_slots_def kill_slot_def EMPTY_slot_def split: option.splits)
  then show "init_at (kill_slots P st) b = init_at st b"
    "spilled (kill_slots P st) i = (case spilled st i of Some v \<Rightarrow> if ptr_such P v then None else Some v | None \<Rightarrow> None)"
    by (simp_all add: init_at_def spilled_def kill_slot_def)
qed

lemma kill_slots_sound: "gamma_frame E st M \<Longrightarrow> gamma_frame E (kill_slots P st) M"
  by (auto simp: gamma_frame_def kill_slots_view split: option.splits if_splits)

lemma kill_slots_ok: "frame_ok st \<Longrightarrow> frame_ok (kill_slots P st)"
  by (auto simp: frame_ok_def kill_slots_view split: option.splits if_splits)

lemma set_killed_regs: "set (killed_regs rs) = {(i, pdomain p) | i p. i < length rs \<and> rs ! i = Ptr p \<and> \<not> survives_await (pdomain p)}"
  by (auto simp: killed_regs_def ptr_survives_await_def split: abs_value.splits if_splits) (metis, force)

subsection \<open>Meaning\<close>

text \<open>
  A configuration: the registers, the memory of the frame, and the references that are held. The references of a state are those that
  may be held: a program point where none is listed is one where every reference has been released.
\<close>

record config =
  cregs :: "u64 list"
  cmem :: memory
  cheld :: "int set"

definition gamma_regs :: "regions \<Rightarrow> abs_value list \<Rightarrow> u64 list \<Rightarrow> bool" where
  "gamma_regs E vs ws \<longleftrightarrow> (\<forall>i < 11. gamma_value E (vs ! i) (ws ! i))"

definition gamma_state :: "regions \<Rightarrow> abs_state \<Rightarrow> config \<Rightarrow> bool" where
  "gamma_state E st c \<longleftrightarrow> gamma_regs E (aregs st) (cregs c) \<and> gamma_frame E (astack st) (cmem c) \<and> cheld c \<subseteq> ids (arefs st)"

definition state_ok :: "abs_state \<Rightarrow> bool" where
  "state_ok st \<longleftrightarrow> length (aregs st) = 11 \<and> (\<forall>i < 11. value_ok (aregs st ! i)) \<and> frame_ok (astack st) \<and> refs_sorted (arefs st)"

lemma state_okD:
  assumes "state_ok st"
  shows "length (aregs st) = 11" "i < 11 \<Longrightarrow> value_ok (aregs st ! i)" "frame_ok (astack st)" "refs_sorted (arefs st)"
  using assms by (simp_all add: state_ok_def)

lemma thresholds_ok_Nil [simp]: "thresholds_ok []"
  by (simp add: thresholds_ok_def)

lemma state_join_ok: "state_ok a \<Longrightarrow> state_ok b \<Longrightarrow> state_ok (state_join a b)"
  by (auto simp: state_ok_def state_join_def union_refs_spec intro: value_join_ok frame_join_ok)

lemma state_join_covers:
  assumes "state_ok a" "state_ok b" "gamma_state E a c \<or> gamma_state E b c"
  shows "gamma_state E (state_join a b) c"
proof -
  have "gamma_regs E (aregs (state_join a b)) (cregs c)"
    using assms value_join_covers [of "aregs a ! i" "aregs b ! i" for i]
    by (auto simp: gamma_state_def gamma_regs_def state_join_def state_ok_def)
  moreover have "gamma_frame E (astack (state_join a b)) (cmem c)"
    using assms frame_join_covers [of "astack a" "astack b"] by (auto simp: gamma_state_def state_join_def state_ok_def)
  moreover have "ids (arefs (state_join a b)) = ids (arefs a) \<union> ids (arefs b)"
    using union_refs_spec [OF state_okD(4) [OF assms(1)]] by (simp add: state_join_def)
  ultimately show ?thesis using assms(3) by (auto simp: gamma_state_def)
qed

lemma state_widen_ok: "state_ok a \<Longrightarrow> state_ok b \<Longrightarrow> thresholds_ok ts \<Longrightarrow> state_ok (state_widen ts pr a b)"
  using state_join_ok [of a b] by (auto simp: state_ok_def state_widen_def Let_def intro: value_widen_ok frame_widen_ok)

lemma state_widen_covers:
  assumes "state_ok a" "state_ok b" "thresholds_ok ts" "gamma_state E a c \<or> gamma_state E b c"
  shows "gamma_state E (state_widen ts pr a b) c"
proof -
  let ?j = "state_join a b"
  have j: "state_ok ?j" "gamma_state E ?j c" using state_join_ok state_join_covers assms by blast+
  have "gamma_regs E (aregs (state_widen ts pr a b)) (cregs c)"
    using assms(1,3) j value_widen_covers [of "aregs a ! i" "aregs ?j ! i" for i]
    by (auto simp: gamma_state_def gamma_regs_def state_widen_def state_ok_def Let_def)
  moreover have "gamma_frame E (astack (state_widen ts pr a b)) (cmem c)"
    using assms(1,3) j frame_widen_covers [of "astack a" "astack ?j" ts] by (auto simp: gamma_state_def state_widen_def state_ok_def Let_def)
  ultimately show ?thesis using j(2) by (auto simp: gamma_state_def state_widen_def Let_def)
qed

lemma state_subset_covers:
  assumes "state_ok a" "state_ok b" "state_is_subset_of a b" "gamma_state E a c"
  shows "gamma_state E b c"
proof -
  have "gamma_regs E (aregs b) (cregs c)"
    using assms value_subset_covers [of "aregs a ! i" "aregs b ! i" for i]
    by (auto simp: gamma_state_def gamma_regs_def state_is_subset_of_def state_ok_def list_all2_conv_all_nth)
  moreover have "gamma_frame E (astack b) (cmem c)"
    using assms frame_subset_covers [of "astack a" "astack b"] by (auto simp: gamma_state_def state_is_subset_of_def state_ok_def)
  moreover have "ids (arefs a) \<subseteq> ids (arefs b)"
    using assms(3) ref_held_iff [OF state_okD(4) [OF assms(2)]] by (auto simp: state_is_subset_of_def holds_def list_all_iff)
  ultimately show ?thesis using assms(4) by (auto simp: gamma_state_def)
qed

interpretation stt: merge_domain state_ok "gamma_state E" state_is_subset_of state_join for E
  by unfold_locales (auto intro: state_join_ok state_join_covers state_subset_covers)

subsection \<open>Properties\<close>

text \<open>
  C15. Merging states is sound, for any regions of the run. The join and the widening of two states, at any precision mask, describe every
  configuration that either of them describes (a reference that may be held on either path may be held after it); and when
  the fixpoint finds the merge to be a subset of the old state, the old state already described every configuration of the new one.
\<close>

theorem state_merge_covers:
  assumes "state_ok old" "state_ok new" "thresholds_ok ts" "s = state_join old new \<or> s = state_widen ts precise old new"
  shows "state_ok s \<and> (gamma_state E old c \<or> gamma_state E new c \<longrightarrow> gamma_state E s c)
    \<and> (state_is_subset_of s old \<longrightarrow> gamma_state E new c \<longrightarrow> gamma_state E old c)"
proof -
  have ok: "state_ok s" using assms state_join_ok state_widen_ok by blast
  have g: "gamma_state E s c" if "gamma_state E old c \<or> gamma_state E new c"
    using assms that state_join_covers state_widen_covers by blast
  then show ?thesis using ok state_subset_covers [OF ok assms(1)] by blast
qed

lemma entry_state_ok: "state_ok (entry_state n)"
proof -
  have "scalar_ok (scalar_constant 0)" using models_constant [of 0] by (simp add: models_def I64_MIN_def I64_MAX_def)
  then show ?thesis
    by (auto simp: state_ok_def entry_state_def default_frame by_key_def less_Suc_eq numeral_eq_Suc ptr_region_def frame_pointer_def)
qed

theorem state_merge_covers_witness:
  "state_ok (state_widen [0, 16] 0xFFFF (entry_state 8) (entry_state 16))"
  using state_merge_covers [of "entry_state 8" "entry_state 16" "[0, 16]" "state_widen [0, 16] 0xFFFF (entry_state 8) (entry_state 16)" "0xFFFF"]
  by (simp add: entry_state_ok thresholds_ok_def I64_MIN_def I64_MAX_def)

text \<open>
  C18. The reference list behaves as the set of its ids. On a sorted list \<open>holds\<close> is membership; acquiring adds the id, keeps the entry already there when
  the site has acquired before, and leaves the others; releasing removes exactly that id and reports whether it
  was held; and the union for a join holds the ids of both lists. All of them keep the list sorted, so that the binary searches stay valid.
\<close>

theorem references_exact:
  assumes "by_key rid (arefs st)"
  shows "(holds st k \<longleftrightarrow> k \<in> rid ` set (arefs st))
    \<and> by_key rid (arefs (acquire r st))
    \<and> set (arefs (acquire r st)) = (if holds st (rid r) then set (arefs st) else insert r (set (arefs st)))
    \<and> by_key rid (arefs (fst (release k st)))
    \<and> rid ` set (arefs (fst (release k st))) = rid ` set (arefs st) - {k} \<and> (snd (release k st) \<longleftrightarrow> holds st k)
    \<and> by_key rid (union_refs (arefs st) b) \<and> rid ` set (union_refs (arefs st) b) = rid ` set (arefs st) \<union> rid ` set b"
  using ref_held_iff [OF assms] insert_ref_spec [OF assms, of r] release_spec' [OF assms, of k] union_refs_spec [OF assms, of b]
  by (simp add: holds_def acquire_def)

theorem references_exact_witness:
  "\<not> holds (fst (release 3 (acquire \<lparr>rid = 3, ris_lock = True, rdomain = NonPreemptible\<rparr> (entry_state 0)))) 3"
proof -
  let ?st = "acquire \<lparr>rid = 3, ris_lock = True, rdomain = NonPreemptible\<rparr> (entry_state 0)"
  have s: "by_key rid (arefs (entry_state 0))" by (simp add: by_key_def entry_state_def)
  have a: "by_key rid (arefs ?st)" using references_exact [OF s] by blast
  then have "by_key rid (arefs (fst (release 3 ?st)))" "3 \<notin> rid ` set (arefs (fst (release 3 ?st)))"
    using references_exact [OF a, where k = 3] by blast+
  then show ?thesis using references_exact by blast
qed

text \<open>
  C16. Sleep safety. After \<open>kill_at_await\<close> every pointer still tracked, in a register or in a slot, survives an await; every other register and
  spilled value is as it was, no byte loses its initialisation and no reference is dropped; the reported registers are exactly those killed, with
  their domains; and the state still describes every configuration it described.
\<close>

theorem await_kills_exactly:
  assumes "kill_at_await st = (st', killed)" "length (aregs st) = 11"
  shows "(\<forall>p. Ptr p \<in> set (aregs st') \<or> (\<exists>i. spilled (astack st') i = Some (Ptr p)) \<longrightarrow> survives_await (pdomain p))
    \<and> (\<forall>i < length (aregs st). aregs st' ! i = (if i \<in> fst ` set killed then NotInit else aregs st ! i))
    \<and> set killed = {(i, pdomain p) | i p. i < length (aregs st) \<and> aregs st ! i = Ptr p \<and> \<not> survives_await (pdomain p)}
    \<and> (\<forall>i v. spilled (astack st) i = Some v \<and> (\<forall>p. v = Ptr p \<longrightarrow> survives_await (pdomain p)) \<longrightarrow> spilled (astack st') i = Some v)
    \<and> init_at (astack st') = init_at (astack st) \<and> arefs st' = arefs st \<and> (gamma_state E st c \<longrightarrow> gamma_state E st' c)"
proof -
  let ?P = "\<lambda>p. \<not> ptr_survives_await p"
  have st': "aregs st' = map (\<lambda>v. if ptr_such ?P v then NotInit else v) (aregs st)" "astack st' = kill_slots ?P (astack st)"
    "arefs st' = arefs st" and k: "killed = killed_regs (aregs st)"
    using assms(1) by (auto simp: kill_at_await_def)
  have idx: "i \<in> fst ` set killed \<longleftrightarrow> i < length (aregs st) \<and> ptr_such ?P (aregs st ! i)" for i
    unfolding k set_killed_regs by (force simp: ptr_such_iff ptr_survives_await_def image_iff)
  have "gamma_value E (if ptr_such ?P v then NotInit else v) w" if "gamma_value E v w" for v w using that by simp
  then have g: "gamma_state E st' c" if "gamma_state E st c"
    using that assms(2) kill_slots_sound unfolding gamma_state_def gamma_regs_def st' by auto
  have "survives_await (pdomain p)" if "Ptr p \<in> set (aregs st') \<or> (\<exists>i. spilled (astack st') i = Some (Ptr p))" for p
    using that by (auto simp: st' kill_slots_view ptr_survives_await_def split: if_splits option.splits)
  moreover have "aregs st' ! i = (if i \<in> fst ` set killed then NotInit else aregs st ! i)" if "i < length (aregs st)" for i
    using that by (simp add: idx st')
  moreover have "spilled (astack st') i = Some v" if "spilled (astack st) i = Some v" "\<forall>p. v = Ptr p \<longrightarrow> survives_await (pdomain p)" for i v
    using that by (auto simp: st' kill_slots_view ptr_such_iff ptr_survives_await_def)
  moreover have "init_at (astack st') = init_at (astack st)" by (rule ext) (simp add: st' kill_slots_view)
  ultimately show ?thesis using g st'(3) set_killed_regs [of "aregs st", folded k] by blast
qed

definition guard_state :: abs_state where
  "guard_state = (entry_state 8)\<lparr>aregs := (aregs (entry_state 8))[6 := Ptr ((ptr_region Class_LockGuard 0)\<lparr>pdomain := NonPreemptible, pref_id := 4\<rparr>)]\<rparr>"

theorem await_kills_exactly_witness:
  "aregs (fst (kill_at_await guard_state)) ! 6 = NotInit \<and> snd (kill_at_await guard_state) = [(6, NonPreemptible)]"
proof -
  have "kill_at_await guard_state = (fst (kill_at_await guard_state), snd (kill_at_await guard_state))" by simp
  moreover have l: "length (aregs guard_state) = 11" by (simp add: guard_state_def entry_state_def)
  moreover have k: "snd (kill_at_await guard_state) = [(6, NonPreemptible)]"
    by (simp add: kill_at_await_def killed_regs_def guard_state_def entry_state_def ptr_survives_await_def ptr_region_def frame_pointer_def
        upt_rec numeral_eq_Suc)
  ultimately have "\<forall>i < length (aregs guard_state). aregs (fst (kill_at_await guard_state)) ! i
      = (if i \<in> fst ` set (snd (kill_at_await guard_state)) then NotInit else aregs guard_state ! i)"
    using await_kills_exactly by blast
  then show ?thesis using k l by simp
qed

end
