(* ===== verification/Bpf_Kfunc.thy ===== *)
theory Bpf_Kfunc
  imports Bpf_State
begin

text \<open>
  The contract of a kernel function that a BPF program may call, \<open>bpf/verifier/src/kfunc.rs\<close>: parameter and return types with their flags
  and validity domains, execution contexts, and \<open>validate\<close>, which the verifier runs over every descriptor before it relies on it.
  A \<open>&'static str\<close> is a string, an address a natural number. An early return of an error is the branch of an \<open>if\<close>.
\<close>

subsection \<open>Definitions\<close>

text \<open>\<open>fnv1a32_nonzero\<close> and the type key of a map handle.\<close>

definition fnv1a32_nonzero :: "string \<Rightarrow> u32" where
  "fnv1a32_nonzero s = (let hash = fold (\<lambda>c h. (h XOR of_char c) * 0x01000193) s 0x811C9DC5 in if hash = 0 then 1 else hash)"

definition MAP_HANDLE_TYPE_NAME :: string where "MAP_HANDLE_TYPE_NAME = ''narf_bpf_map''"

definition MAP_HANDLE_TYPE_KEY :: type_key where "MAP_HANDLE_TYPE_KEY = fnv1a32_nonzero MAP_HANDLE_TYPE_NAME"

datatype ptr_kind = Kind_Object | Kind_TraceObject | Kind_Mem | Kind_MemEnd | Kind_Arena | Kind_Ctx | Kind_MapValue | Kind_LockGuard

datatype type_kind = Type_Scalar u8 bool | Type_Ptr ptr_kind type_key | Type_Void

type_synonym arg_flags = u16

definition NULLABLE :: arg_flags where "NULLABLE = push_bit 0 1"
definition UNINIT :: arg_flags where "UNINIT = push_bit 1 1"
definition SIZED_BY_NEXT :: arg_flags where "SIZED_BY_NEXT = push_bit 2 1"
definition CONST_ARG :: arg_flags where "CONST_ARG = push_bit 3 1"
definition READONLY :: arg_flags where "READONLY = push_bit 4 1"
definition ANY_TRACE_OBJECT :: arg_flags where "ANY_TRACE_OBJECT = push_bit 5 1"
definition OBJECT_FIELD_OFFSET :: arg_flags where "OBJECT_FIELD_OFFSET = push_bit 6 1"

definition flags_contain :: "arg_flags \<Rightarrow> arg_flags \<Rightarrow> bool" where
  "flags_contain f g \<longleftrightarrow> f AND g = g"

record arg_desc =
  akind :: type_kind
  adomain :: validity_domain
  aflags :: arg_flags

definition SCALAR64 :: arg_desc where
  "SCALAR64 = \<lparr>akind = Type_Scalar 64 False, adomain = Static, aflags = 0\<rparr>"

abbreviation has_flag :: "arg_desc \<Rightarrow> arg_flags \<Rightarrow> bool" where
  "has_flag a g \<equiv> flags_contain (aflags a) g"

fun is_scalar :: "type_kind \<Rightarrow> bool" where
  "is_scalar (Type_Scalar bits sg) = True"
| "is_scalar k = False"

fun is_ptr_kind :: "ptr_kind \<Rightarrow> type_kind \<Rightarrow> bool" where
  "is_ptr_kind kd (Type_Ptr k key) = (k = kd)"
| "is_ptr_kind kd t = False"

definition consumes_in_arg_position :: "arg_desc \<Rightarrow> bool" where
  "consumes_in_arg_position a =
     (case akind a of
        Type_Ptr kd key \<Rightarrow>
          (case kd of
             Kind_LockGuard \<Rightarrow> True
           | Kind_Object \<Rightarrow> requires_release (adomain a)
           | Kind_Mem \<Rightarrow> requires_release (adomain a)
           | _ \<Rightarrow> False)
      | _ \<Rightarrow> False)"

datatype exec_context = Atomic_ctx | Sleepable_ctx

fun permits :: "exec_context \<Rightarrow> exec_context \<Rightarrow> bool" where
  "permits Sleepable_ctx _ = True"
| "permits Atomic_ctx Atomic_ctx = True"
| "permits Atomic_ctx Sleepable_ctx = False"

record kfunc_desc =
  kid :: int
  kname :: string
  kaddr :: nat
  kargs :: "arg_desc list"
  kret :: arg_desc
  kmay_suspend :: bool
  kcontext :: exec_context

definition MAX_KFUNC_ARGS :: nat where "MAX_KFUNC_ARGS = 5"

datatype kfunc_error =
    TooManyArgs nat
  | NullAddress
  | SuspendingAtomicShim
  | MissingSizeArg nat
  | ScalarWithDomain nat
  | ConstOnNonScalar nat
  | AnyTraceObjectOnWrongType nat
  | FieldOffsetOnWrongType nat
  | UnpairedTraceObject nat
  | UnpairedFieldOffset nat
  | VoidArgument nat
  | SleepableLockGuard
  | UntypedLockGuard
  | NonNullableLockGuard
  | TraceObjectReturn
  | SleepableLockGuardArg nat
  | UntypedLockGuardArg nat
  | BadScalarWidth int u8
  | AcquiredMemWithoutConstSize

definition validate_type :: "arg_desc \<Rightarrow> int \<Rightarrow> (unit, kfunc_error) result" where
  "validate_type a at =
     (case akind a of
        Type_Scalar bits _ \<Rightarrow> if bits \<notin> {8, 16, 32, 64} then Err (BadScalarWidth at bits) else Ok ()
      | _ \<Rightarrow> Ok ())"

text \<open>The body of the loop over the arguments.\<close>

definition validate_arg :: "arg_desc list \<Rightarrow> nat \<Rightarrow> (unit, kfunc_error) result" where
  "validate_arg args i =
     (let a = args ! i in
      bind_result (validate_type a (int i)) (\<lambda>_.
        if has_flag a SIZED_BY_NEXT \<and> \<not> (case nth_opt args (i + 1) of Some n \<Rightarrow> is_scalar (akind n) | None \<Rightarrow> False)
        then Err (MissingSizeArg i)
        else if is_scalar (akind a) \<and> adomain a \<noteq> Static then Err (ScalarWithDomain i)
        else if akind a = Type_Void then Err (VoidArgument i)
        else if akind a = Type_Ptr Kind_LockGuard TypeKey_NONE then Err (UntypedLockGuardArg i)
        else if has_flag a CONST_ARG \<and> \<not> is_scalar (akind a) then Err (ConstOnNonScalar i)
        else if has_flag a ANY_TRACE_OBJECT \<and> akind a \<noteq> Type_Ptr Kind_TraceObject TypeKey_NONE then Err (AnyTraceObjectOnWrongType i)
        else if has_flag a OBJECT_FIELD_OFFSET \<and> (\<not> has_flag a CONST_ARG \<or> \<not> is_scalar (akind a)) then Err (FieldOffsetOnWrongType i)
        else if is_ptr_kind Kind_LockGuard (akind a) \<and> survives_await (adomain a) then Err (SleepableLockGuardArg i)
        else Ok ()))"

text \<open>The first error of a loop over indices.\<close>

fun for_each :: "(nat \<Rightarrow> (unit, 'e) result) \<Rightarrow> nat list \<Rightarrow> (unit, 'e) result" where
  "for_each f [] = Ok ()"
| "for_each f (i # is) = bind_result (f i) (\<lambda>_. for_each f is)"

definition count_flag :: "arg_flags \<Rightarrow> arg_desc list \<Rightarrow> nat" where
  "count_flag f as = length (filter (\<lambda>a. has_flag a f) as)"

definition validate_trace_object :: "arg_desc list \<Rightarrow> nat \<Rightarrow> (unit, kfunc_error) result" where
  "validate_trace_object args i =
     (if has_flag (args ! i) ANY_TRACE_OBJECT \<and> count_flag OBJECT_FIELD_OFFSET (drop (i + 1) args) \<noteq> 1
      then Err (UnpairedTraceObject i) else Ok ())"

definition validate_field_offset :: "arg_desc list \<Rightarrow> nat \<Rightarrow> (unit, kfunc_error) result" where
  "validate_field_offset args i =
     (if has_flag (args ! i) OBJECT_FIELD_OFFSET
         \<and> (count_flag ANY_TRACE_OBJECT (take i args) \<noteq> 1 \<or> count_flag SIZED_BY_NEXT (take i args) \<noteq> 1)
      then Err (UnpairedFieldOffset i) else Ok ())"

definition validate :: "kfunc_desc \<Rightarrow> (unit, kfunc_error) result" where
  "validate d =
     (let args = kargs d; ret = kret d in
      if length args > MAX_KFUNC_ARGS then Err (TooManyArgs (length args))
      else if kaddr d = 0 then Err NullAddress
      else if kmay_suspend d \<and> kcontext d \<noteq> Sleepable_ctx then Err SuspendingAtomicShim
      else bind_result (validate_type ret (2 ^ 64 - 1)) (\<lambda>_.
        if is_ptr_kind Kind_TraceObject (akind ret) then Err TraceObjectReturn
        else if akind ret = Type_Ptr Kind_LockGuard TypeKey_NONE then Err UntypedLockGuard
        else if is_ptr_kind Kind_LockGuard (akind ret) \<and> \<not> has_flag ret NULLABLE then Err NonNullableLockGuard
        else
          bind_result (for_each (validate_arg args) [0..<length args]) (\<lambda>_.
          bind_result (for_each (validate_trace_object args) [0..<length args]) (\<lambda>_.
          bind_result (for_each (validate_field_offset args) [0..<length args]) (\<lambda>_.
            if is_ptr_kind Kind_LockGuard (akind ret) \<and> survives_await (adomain ret) then Err SleepableLockGuard
            else if is_ptr_kind Kind_Mem (akind ret) \<and> consumes_in_arg_position ret \<and> count_flag CONST_ARG args \<noteq> 1
            then Err AcquiredMemWithoutConstSize
            else Ok ())))))"

subsection \<open>What validation gives\<close>

lemma for_each_Ok: "for_each f is = Ok u \<longleftrightarrow> (\<forall>i \<in> set is. f i = Ok ())"
  by (induction "is") (auto elim!: bind_result.elims)

end
