(* ===== verification/Bpf_Branch.thy ===== *)
theory Bpf_Branch
  imports Bpf_Interp
begin

text \<open>
  Branch refinement of the BPF verifier: \<open>Pred\<close> of \<open>bpf/verifier/src/fixpoint.rs\<close>, which adds the negation of
  \<open>JSET\<close> to the comparisons of the instruction set, and the part of \<open>refine\<close> that constrains two scalars on one
  edge of a conditional jump. \<open>None\<close> is an infeasible edge; saturating \<open>i64\<close> arithmetic is on integers.

  Shown: \<open>negate\<close> and \<open>swap_operands\<close> are exact, and an edge that a concrete pair of values takes is never
  refined away: both refined scalars still contain the values.
\<close>

datatype pred = Pred_Eq | Pred_Ne | Pred_Gt | Pred_Ge | Pred_Lt | Pred_Le | Pred_Sgt | Pred_Sge | Pred_Slt | Pred_Sle
  | Pred_Set | Pred_NotSet

fun pred_of :: "cond_op \<Rightarrow> pred" where
  "pred_of Cond_Eq = Pred_Eq"
| "pred_of Cond_Ne = Pred_Ne"
| "pred_of Cond_Gt = Pred_Gt"
| "pred_of Cond_Ge = Pred_Ge"
| "pred_of Cond_Lt = Pred_Lt"
| "pred_of Cond_Le = Pred_Le"
| "pred_of Cond_Sgt = Pred_Sgt"
| "pred_of Cond_Sge = Pred_Sge"
| "pred_of Cond_Slt = Pred_Slt"
| "pred_of Cond_Sle = Pred_Sle"
| "pred_of Cond_Set = Pred_Set"

fun negate :: "pred \<Rightarrow> pred" where
  "negate Pred_Eq = Pred_Ne"
| "negate Pred_Ne = Pred_Eq"
| "negate Pred_Gt = Pred_Le"
| "negate Pred_Ge = Pred_Lt"
| "negate Pred_Lt = Pred_Ge"
| "negate Pred_Le = Pred_Gt"
| "negate Pred_Sgt = Pred_Sle"
| "negate Pred_Sge = Pred_Slt"
| "negate Pred_Slt = Pred_Sge"
| "negate Pred_Sle = Pred_Sgt"
| "negate Pred_Set = Pred_NotSet"
| "negate Pred_NotSet = Pred_Set"

fun swap_operands :: "pred \<Rightarrow> pred" where
  "swap_operands Pred_Eq = Pred_Eq"
| "swap_operands Pred_Ne = Pred_Ne"
| "swap_operands Pred_Gt = Pred_Lt"
| "swap_operands Pred_Ge = Pred_Le"
| "swap_operands Pred_Lt = Pred_Gt"
| "swap_operands Pred_Le = Pred_Ge"
| "swap_operands Pred_Sgt = Pred_Slt"
| "swap_operands Pred_Sge = Pred_Sle"
| "swap_operands Pred_Slt = Pred_Sgt"
| "swap_operands Pred_Sle = Pred_Sge"
| "swap_operands Pred_Set = Pred_Set"
| "swap_operands Pred_NotSet = Pred_NotSet"

definition is_unsigned :: "pred \<Rightarrow> bool" where
  "is_unsigned p \<longleftrightarrow> p \<in> {Pred_Eq, Pred_Ne, Pred_Gt, Pred_Ge, Pred_Lt, Pred_Le, Pred_Set, Pred_NotSet}"

definition i64_saturating_add :: "int \<Rightarrow> int \<Rightarrow> int" where
  "i64_saturating_add a b = max I64_MIN (min I64_MAX (a + b))"

definition refinable :: "bool \<Rightarrow> pred \<Rightarrow> scalar \<Rightarrow> bool" where
  "refinable wide p v \<longleftrightarrow> wide \<or> smin v \<ge> 0 \<and> smax v \<le> (if is_unsigned p then 0xFFFFFFFF else 0x7FFFFFFF)"

definition refine_pair :: "pred \<Rightarrow> scalar \<Rightarrow> scalar \<Rightarrow> scalar option \<times> scalar option" where
  "refine_pair p a b =
     (let au = unsigned_bounds a; bu = unsigned_bounds b in
      case p of
        Pred_Eq \<Rightarrow> (refine_eq a b, refine_eq b a)
      | Pred_Ne \<Rightarrow> (refine_ne a b, refine_ne b a)
      | Pred_Gt \<Rightarrow> (refine_unsigned_min a (saturating_add (fst bu) 1), refine_unsigned_max b (saturating_sub (snd au) 1))
      | Pred_Ge \<Rightarrow> (refine_unsigned_min a (fst bu), refine_unsigned_max b (snd au))
      | Pred_Lt \<Rightarrow> (refine_unsigned_max a (saturating_sub (snd bu) 1), refine_unsigned_min b (saturating_add (fst au) 1))
      | Pred_Le \<Rightarrow> (refine_unsigned_max a (snd bu), refine_unsigned_min b (fst au))
      | Pred_Sgt \<Rightarrow> (refine_signed_min a (i64_saturating_add (smin b) 1), refine_signed_max b (i64_saturating_add (smax a) (- 1)))
      | Pred_Sge \<Rightarrow> (refine_signed_min a (smin b), refine_signed_max b (smax a))
      | Pred_Slt \<Rightarrow> (refine_signed_max a (i64_saturating_add (smax b) (- 1)), refine_signed_min b (i64_saturating_add (smin a) 1))
      | Pred_Sle \<Rightarrow> (refine_signed_max a (smax b), refine_signed_min b (smin a))
      | Pred_Set \<Rightarrow> (refine_bits_set a b, Some b)
      | Pred_NotSet \<Rightarrow> (refine_bits_clear a b, Some b))"

definition refine_scalars :: "bool \<Rightarrow> pred \<Rightarrow> scalar \<Rightarrow> scalar \<Rightarrow> (scalar \<times> scalar) option" where
  "refine_scalars wide p a b =
     (if \<not> refinable wide p a \<or> \<not> refinable wide p b then Some (a, b)
      else (case refine_pair p a b of
              (Some na, Some nb) \<Rightarrow> Some (na, nb)
            | _ \<Rightarrow> None))"

subsection \<open>Predicates\<close>

fun pred_holds :: "pred \<Rightarrow> 'a::len word \<Rightarrow> 'a word \<Rightarrow> bool" where
  "pred_holds Pred_Eq a b = (a = b)"
| "pred_holds Pred_Ne a b = (a \<noteq> b)"
| "pred_holds Pred_Gt a b = (b < a)"
| "pred_holds Pred_Ge a b = (b \<le> a)"
| "pred_holds Pred_Lt a b = (a < b)"
| "pred_holds Pred_Le a b = (a \<le> b)"
| "pred_holds Pred_Sgt a b = (sint b < sint a)"
| "pred_holds Pred_Sge a b = (sint b \<le> sint a)"
| "pred_holds Pred_Slt a b = (sint a < sint b)"
| "pred_holds Pred_Sle a b = (sint a \<le> sint b)"
| "pred_holds Pred_Set a b = (a AND b \<noteq> 0)"
| "pred_holds Pred_NotSet a b = (a AND b = 0)"

lemma pred_of_cond: "pred_holds (pred_of c) a b \<longleftrightarrow> cond_at c a b"
  by (cases c) simp_all

lemma negate_exact: "pred_holds (negate p) a b \<longleftrightarrow> \<not> pred_holds p a b"
  by (cases p) auto

lemma swap_operands_exact: "pred_holds (swap_operands p) b a \<longleftrightarrow> pred_holds p a b"
  by (cases p) (auto simp: and.commute)

subsection \<open>Refinement keeps the values that take the edge\<close>

definition keeps :: "scalar option \<Rightarrow> u64 \<Rightarrow> bool" where
  "keeps r v \<longleftrightarrow> (\<exists>s. r = Some s \<and> models s v)"

lemma keeps_Some [simp]: "keeps (Some s) v \<longleftrightarrow> models s v"
  by (simp add: keeps_def)

lemma keeps_normalize: "models s v \<Longrightarrow> keeps (normalize s) v"
  unfolding keeps_def by (rule normalize_sound)

lemma models_iff:
  "models s v \<longleftrightarrow> tnum_ok (stnum s) \<and> in_range s \<and> tnum_contains (stnum s) v \<and> smin s \<le> sint v \<and> sint v \<le> smax s"
  by (auto simp: models_def scalar_ok_def scalar_contains_def)

lemma keeps_signed_min: "models s v \<Longrightarrow> c \<le> sint v \<Longrightarrow> keeps (refine_signed_min s c) v"
  unfolding refine_signed_min_def using i64_bounds [of v]
  by (intro keeps_normalize) (auto simp: models_iff in_range_def)

lemma keeps_signed_max: "models s v \<Longrightarrow> sint v \<le> c \<Longrightarrow> keeps (refine_signed_max s c) v"
  unfolding refine_signed_max_def using i64_bounds [of v]
  by (intro keeps_normalize) (auto simp: models_iff in_range_def)

lemma keeps_meet:
  assumes "models s v" "tnum_ok t" "tnum_contains t v" "lo \<le> sint v" "sint v \<le> hi" "I64_MIN \<le> lo" "hi \<le> I64_MAX"
  shows "keeps (case tnum_meet (stnum s) t of None \<Rightarrow> None | Some t' \<Rightarrow> normalize \<lparr>stnum = t', smin = lo, smax = hi\<rparr>) v"
proof -
  have c: "tnum_contains (stnum s) v" using assms(1) by (simp add: models_iff)
  then obtain t' where t: "tnum_meet (stnum s) t = Some t'" using tnum_meet_None assms(3) by (metis option.exhaust)
  then have "models \<lparr>stnum = t', smin = lo, smax = hi\<rparr> v"
    using assms c tnum_meet_Some [OF t] tnum_ok_meet [OF t] i64_bounds [of v] by (auto simp: models_iff in_range_def)
  then show ?thesis using t by (simp add: keeps_normalize)
qed

lemma keeps_eq: "models s v \<Longrightarrow> models o' v \<Longrightarrow> keeps (refine_eq s o') v"
  unfolding refine_eq_def scalar_meet_def
  by (rule keeps_meet) (auto simp: models_iff in_range_def)

lemma sign_le: "bit (v :: u64) 63 \<Longrightarrow> v \<le> w \<Longrightarrow> bit w 63"
  by (auto simp: bit63 word_le_def)

lemma keeps_unsigned_max:
  assumes "models s v" "v \<le> c"
  shows "keeps (refine_unsigned_max s c) v"
proof (cases "bit c 63")
  case False
  then have v: "\<not> bit v 63" using sign_le [OF _ assms(2)] by blast
  have b: "0 \<le> sint v" "sint v \<le> sint c"
    using sign_sint [of v] v sint_le_same_sign [of v c] False assms(2) by auto
  have c: "c < SIGN" using False by (simp add: less_SIGN)
  show ?thesis
    unfolding refine_unsigned_max_def if_P [OF c]
    using assms b i64_bounds [of c]
    by (intro keeps_meet tnum_ok_range tnum_from_unsigned_range_sound) (auto simp: models_iff in_range_def I64_MIN_def)
next
  case True
  have n: "sint v \<le> sint c" if "sint v < 0"
    using that sign_sint [of v] sint_le_same_sign [of v c] True assms(2) by simp
  have c: "\<not> c < SIGN" using True by (simp add: less_SIGN)
  have "models (s\<lparr>smax := min (smax s) (sint c)\<rparr>) v" if "smax s < 0"
    using that assms(1) n i64_bounds [of c] by (auto simp: models_iff in_range_def min_def)
  then show ?thesis
    unfolding refine_unsigned_max_def if_not_P [OF c] using assms(1) by (auto intro: keeps_normalize)
qed

lemma keeps_unsigned_min:
  assumes "models s v" "c \<le> v"
  shows "keeps (refine_unsigned_min s c) v"
proof (cases "bit c 63")
  case True
  then have "bit v 63" using sign_le assms(2) by blast
  then have "sint c \<le> sint v" "sint v \<le> - 1" using True sint_le_same_sign [of c v] assms(2) sign_sint [of v] by auto
  then have "models (s\<lparr>smin := max (smin s) (sint c), smax := min (smax s) (- 1)\<rparr>) v"
    using assms(1) i64_bounds [of c] i64_bounds [of v] by (auto simp: models_iff in_range_def max_def min_def)
  then show ?thesis
    using True assms(1) by (auto simp: refine_unsigned_min_def not_less [symmetric] less_SIGN intro: keeps_normalize)
next
  case False
  have "models (s\<lparr>smin := max (smin s) (sint c)\<rparr>) v" if "0 \<le> smin s"
  proof -
    have "0 \<le> sint v" using that assms(1) by (auto simp: models_iff)
    then have "sint c \<le> sint v" using sign_sint [of v] sint_le_same_sign [of c v] False assms(2) by simp
    then show ?thesis using assms(1) i64_bounds [of v] by (auto simp: models_iff in_range_def max_def)
  qed
  then show ?thesis
    using False assms(1) by (auto simp: refine_unsigned_min_def not_less [symmetric] less_SIGN intro: keeps_normalize)
qed

lemma keeps_ne:
  assumes "models s v" "models o' w" "v \<noteq> w"
  shows "keeps (refine_ne s o') v"
proof (cases "as_const o'")
  case (Some c)
  have "c \<noteq> sint v" using as_const_sound [OF assms(2) Some] assms(3) by (metis as_u64_sint)
  then show ?thesis
    unfolding refine_ne_def i64_checked_add_def
    using assms(1) Some i64_bounds [of v] by (auto intro!: keeps_normalize simp: models_iff in_range_def)
qed (use assms in \<open>simp add: refine_ne_def\<close>)

lemma keeps_bits_clear:
  assumes "models s v" "models o' w" "v AND w = 0"
  shows "keeps (refine_bits_clear s o') v"
proof (cases "as_const o'")
  case (Some c)
  have "w = as_u64 c" using as_const_sound [OF assms(2) Some] by simp
  then have t: "tnum_contains \<lparr>tvalue = 0, tmask = NOT (as_u64 c)\<rparr> v" using assms(3) by (simp add: tnum_contains_def)
  have "keeps (case tnum_meet (stnum s) \<lparr>tvalue = 0, tmask = NOT (as_u64 c)\<rparr> of None \<Rightarrow> None
      | Some t' \<Rightarrow> normalize \<lparr>stnum = t', smin = smin s, smax = smax s\<rparr>) v"
    using assms(1) t by (intro keeps_meet) (auto simp: models_iff in_range_def tnum_ok_def)
  then show ?thesis using Some by (cases s) (auto simp: refine_bits_clear_def split: option.splits)
qed (use assms in \<open>simp add: refine_bits_clear_def\<close>)

lemma keeps_bits_set:
  assumes "models s v" "models o' w" "v AND w \<noteq> 0"
  shows "keeps (refine_bits_set s o') v"
proof (cases "as_const o'")
  case (Some c)
  have "w = as_u64 c" using as_const_sound [OF assms(2) Some] by simp
  moreover obtain i where "i < 64" "bit v i" "bit w i" using assms(3) by (auto simp: u64_eq_iff bit_and_iff)
  moreover from this have "bit (tvalue (stnum s) OR tmask (stnum s)) i"
    using assms(1) tnum_containsD [of "stnum s" v i] by (auto simp: models_iff bit_or_iff)
  ultimately have "(tvalue (stnum s) OR tmask (stnum s)) AND as_u64 c \<noteq> 0"
    by (auto simp: u64_eq_iff bit_and_iff simp del: bit_of_int_iff)
  then show ?thesis using Some assms(1) by (simp add: refine_bits_set_def)
qed (use assms in \<open>simp add: refine_bits_set_def\<close>)

lemma saturating_above: "(b :: u64) < a \<Longrightarrow> lo \<le> b \<Longrightarrow> saturating_add lo 1 \<le> a"
  unfolding word_le_nat_alt word_less_nat_alt unat_saturating_add by simp

lemma saturating_below: "(a :: u64) < b \<Longrightarrow> b \<le> hi \<Longrightarrow> a \<le> saturating_sub hi 1"
  unfolding word_le_nat_alt word_less_nat_alt unat_saturating_sub by simp

lemma refine_pair_sound:
  assumes "models a x" "models b y" "pred_holds p x y"
  shows "keeps (fst (refine_pair p a b)) x \<and> keeps (snd (refine_pair p a b)) y"
proof -
  obtain alo ahi blo bhi where u: "unsigned_bounds a = (alo, ahi)" "unsigned_bounds b = (blo, bhi)"
    by (metis prod.exhaust)
  note A = unsigned_bounds_sound [OF assms(1) u(1)] and B = unsigned_bounds_sound [OF assms(2) u(2)]
  have s: "smin a \<le> sint x" "sint x \<le> smax a" "smin b \<le> sint y" "sint y \<le> smax b"
    using assms(1,2) by (auto simp: models_iff)
  note K = keeps_signed_min keeps_signed_max keeps_unsigned_min keeps_unsigned_max keeps_eq keeps_ne keeps_bits_set
    keeps_bits_clear saturating_above saturating_below
  show ?thesis
    using assms A B s i64_bounds [of x] i64_bounds [of y]
    by (cases p) (auto simp: refine_pair_def u i64_saturating_add_def and.commute intro!: K intro: order_trans)
qed

text \<open>A 32-bit comparison agrees with the 64-bit one on the values that are refinable.\<close>

lemma refinable_small:
  assumes "models s v" "refinable False p s"
  shows "uint v < (if is_unsigned p then 2 ^ 32 else 2 ^ 31)" "sint v = uint v"
proof -
  have b: "0 \<le> smin s" "smin s \<le> sint v" "sint v \<le> smax s"
    "smax s \<le> (if is_unsigned p then 0xFFFFFFFF else 0x7FFFFFFF)"
    using assms by (simp_all add: models_iff refinable_def)
  then have "0 \<le> sint v" by linarith
  then have "\<not> bit v 63" using sign_sint [of v] by simp
  then show "sint v = uint v" by (rule sint_nonneg_uint)
  moreover have "sint v \<le> (if is_unsigned p then 0xFFFFFFFF else 0x7FFFFFFF)"
    using b(3,4) by (rule order_trans)
  ultimately show "uint v < (if is_unsigned p then 2 ^ 32 else 2 ^ 31)" by (cases "is_unsigned p") simp_all
qed

lemma uint_ucast32: "uint (v :: u64) < 2 ^ 32 \<Longrightarrow> uint (ucast v :: u32) = uint v"
  by (simp add: unsigned_ucast_eq take_bit_int_eq_self)

lemma sint_ucast32:
  assumes "uint (v :: u64) < 2 ^ 31"
  shows "sint (ucast v :: u32) = uint v"
proof -
  have "sint (ucast v :: u32) = signed_take_bit 31 (uint (ucast v :: u32))" by (simp add: sint_uint)
  also have "\<dots> = uint v"
    using assms uint_ucast32 [of v] order_trans [of "- (2 ^ 31)" 0 "uint v"] by (simp add: signed_take_bit_int_eq_self)
  finally show ?thesis .
qed

lemma pred_narrow_unsigned:
  assumes "is_unsigned p" "uint (x :: u64) < 2 ^ 32" "uint y < 2 ^ 32"
  shows "pred_holds p (ucast x :: u32) (ucast y) \<longleftrightarrow> pred_holds p x y"
proof -
  note U = uint_ucast32 [OF assms(2)] uint_ucast32 [OF assms(3)]
  have "(ucast x AND ucast y :: u32) = 0 \<longleftrightarrow> x AND y = 0"
    by (simp add: word_uint_eq_iff [where 'a = 32] word_uint_eq_iff [where 'a = 64] unsigned_and_eq U)
  then show ?thesis
    using assms(1) U by (cases p) (simp_all add: is_unsigned_def word_le_def word_less_def word_uint_eq_iff)
qed

lemma pred_narrow:
  assumes "models a x" "models b y" "refinable False p a" "refinable False p b"
  shows "pred_holds p (ucast x :: u32) (ucast y) \<longleftrightarrow> pred_holds p x y"
proof (cases "is_unsigned p")
  case True
  then show ?thesis using refinable_small(1) [OF assms(1,3)] refinable_small(1) [OF assms(2,4)] by (simp add: pred_narrow_unsigned)
next
  case False
  note X = refinable_small [OF assms(1,3)] and Y = refinable_small [OF assms(2,4)]
  have "sint (ucast x :: u32) = sint x" "sint (ucast y :: u32) = sint y" using X Y False by (simp_all add: sint_ucast32)
  then show ?thesis using False by (cases p) (simp_all add: is_unsigned_def)
qed

text \<open>
  C14. Branch refinement is sound. When two scalars contain the operands of a conditional jump, the edge the jump takes
  is never declared infeasible and both refined scalars still contain the operands: on the taken edge for the
  jump's own predicate, on the fall-through edge for its negation, at either width.
\<close>

theorem branch_refinement_sound:
  assumes "models a x" "models b y"
  shows "\<exists>na nb. refine_scalars wide (if cond c wide x y then pred_of c else negate (pred_of c)) a b = Some (na, nb)
    \<and> models na x \<and> models nb y"
proof -
  define edge where "edge = (if cond c wide x y then pred_of c else negate (pred_of c))"
  have h: "if wide then pred_holds edge x y else pred_holds edge (ucast x :: u32) (ucast y)"
    by (simp add: edge_def cond_def pred_of_cond negate_exact)
  show ?thesis
  proof (cases "refinable wide edge a \<and> refinable wide edge b")
    case True
    then have "pred_holds edge x y" using h pred_narrow [OF assms] by (cases wide) auto
    from refine_pair_sound [OF assms this] True show ?thesis unfolding edge_def [symmetric]
      by (cases "refine_pair edge a b") (auto simp: refine_scalars_def keeps_def)
  next
    case False
    then show ?thesis using assms unfolding edge_def [symmetric] by (auto simp: refine_scalars_def)
  qed
qed

theorem branch_refinement_sound_witness:
  "\<exists>na nb. refine_scalars True Pred_Lt (scalar_constant 3) Scalar_UNKNOWN = Some (na, nb) \<and> models na 3 \<and> models nb 7"
  using branch_refinement_sound [of "scalar_constant 3" 3 Scalar_UNKNOWN 7 True Cond_Lt] models_constant [of 3]
  by (simp add: cond_def I64_MIN_def I64_MAX_def)

end
