(* ===== verification/Bpf_Liveness.thy ===== *)
theory Bpf_Liveness
  imports Bpf_Cfg
begin

text \<open>
  Liveness and precision, \<open>bpf/verifier/src/liveness.rs\<close>, with the register sets of an instruction (\<open>Ir::defs\<close> in
  \<open>ir.rs\<close>). Register sets are 16-bit masks as in the source. The backward iteration is a partial function into \<open>option\<close>: shown
  are that it returns for every graph, that its result is the least solution of the data-flow equations, and that
  liveness is sound for the reference machine: registers that are not live cannot influence how a run ends.
\<close>

unbundle bit_operations_syntax

subsection \<open>Definitions\<close>

record def_use =
  du_defs :: u16
  du_uses :: u16
  du_address :: bool
  du_condition :: bool

definition no_def_use :: def_use where
  "no_def_use = \<lparr>du_defs = 0, du_uses = 0, du_address = False, du_condition = False\<rparr>"

definition reg_bit :: "reg \<Rightarrow> u16" where
  "reg_bit r = push_bit (reg_usize r) 1"

definition du_def :: "reg \<Rightarrow> def_use \<Rightarrow> def_use" where
  "du_def r d = d\<lparr>du_defs := du_defs d OR reg_bit r\<rparr>"

definition du_use :: "reg \<Rightarrow> def_use \<Rightarrow> def_use" where
  "du_use r d = d\<lparr>du_uses := du_uses d OR reg_bit r\<rparr>"

fun du_use_src :: "source \<Rightarrow> def_use \<Rightarrow> def_use" where
  "du_use_src (SrcReg r) d = du_use r d"
| "du_use_src (Imm i) d = d"

fun defs :: "decoded \<Rightarrow> def_use" where
  "defs (Alu wide op dst src) = du_use_src src (du_use dst (du_def dst no_def_use))"
| "defs (Div wide sg dst src) = du_use_src src (du_use dst (du_def dst no_def_use))"
| "defs (Mod wide sg dst src) = du_use_src src (du_use dst (du_def dst no_def_use))"
| "defs (Neg wide dst) = du_use dst (du_def dst no_def_use)"
| "defs (End dst ord width) = du_use dst (du_def dst no_def_use)"
| "defs (Mov wide dst src sx) = du_use_src src (du_def dst no_def_use)"
| "defs (AddrSpaceCast dst src dst_as src_as) = du_use src (du_def dst no_def_use)"
| "defs (Load sz sx dst src o') = (du_use src (du_def dst no_def_use))\<lparr>du_address := True\<rparr>"
| "defs (Store sz dst o' src) = (du_use_src src (du_use dst no_def_use))\<lparr>du_address := True\<rparr>"
| "defs (Atomic sz op dst src o') =
     (let d = (du_use src (du_use dst no_def_use))\<lparr>du_address := True\<rparr>;
          d = (if atomic_writes_src op then du_def src d else d)
      in if op = Atomic_Cmpxchg then du_def (Reg 0) (du_use (Reg 0) d) else d)"
| "defs (LoadImm64 dst v) = du_def dst no_def_use"
| "defs (JumpCond wide c dst src o') = (du_use_src src (du_use dst no_def_use))\<lparr>du_condition := True\<rparr>"
| "defs (Jump o') = no_def_use"
| "defs (MayGoto o') = no_def_use"
| "defs (Call t) =
     fold (\<lambda>r. du_def (Reg r)) [0, 1, 2, 3, 4, 5] (fold (\<lambda>r. du_use (Reg r)) [1, 2, 3, 4, 5] no_def_use)"
| "defs Exit = du_use (Reg 0) no_def_use"

record masks =
  before :: "u16 list"
  after :: "u16 list"

definition before_has :: "masks \<Rightarrow> nat \<Rightarrow> nat \<Rightarrow> bool" where
  "before_has ms i r \<longleftrightarrow> before ms ! i AND push_bit r 1 \<noteq> 0"

definition after_has :: "masks \<Rightarrow> nat \<Rightarrow> nat \<Rightarrow> bool" where
  "after_has ms i r \<longleftrightarrow> after ms ! i AND push_bit r 1 \<noteq> 0"

text \<open>The union over the successors, and what it becomes before the instruction.\<close>

definition out_mask :: "ir \<Rightarrow> u16 list \<Rightarrow> nat \<Rightarrow> u16" where
  "out_mask r b i = fold (\<lambda>s m. m OR b ! s) (successors r i) 0"

definition transfer_mask :: "def_use \<Rightarrow> bool \<Rightarrow> u16 \<Rightarrow> u16" where
  "transfer_mask du sd out =
     (let nb = out AND NOT (du_defs du) in if sd \<or> du_defs du AND out \<noteq> 0 then nb OR du_uses du else nb)"

definition backward_insn :: "ir \<Rightarrow> (nat \<Rightarrow> bool) \<Rightarrow> nat \<Rightarrow> masks \<times> bool \<Rightarrow> masks \<times> bool" where
  "backward_insn r seed i st =
     (let (ms, changed) = st;
          out = out_mask r (before ms) i;
          nb = transfer_mask (defs (iop (ir_insns r ! i))) (seed i) out
      in if out \<noteq> after ms ! i \<or> nb \<noteq> before ms ! i
         then (\<lparr>before = (before ms)[i := nb], after = (after ms)[i := out]\<rparr>, True) else (ms, changed))"

definition backward_round :: "ir \<Rightarrow> (nat \<Rightarrow> bool) \<Rightarrow> masks \<Rightarrow> masks \<times> bool" where
  "backward_round r seed ms = fold (backward_insn r seed) (rev [0..<length (ir_insns r)]) (ms, False)"

partial_function (option) backward_loop :: "ir \<Rightarrow> (nat \<Rightarrow> bool) \<Rightarrow> masks \<Rightarrow> masks option" where
  "backward_loop r seed ms =
     (case backward_round r seed ms of (ms', changed) \<Rightarrow> if changed then backward_loop r seed ms' else Some ms')"

declare backward_loop.simps [code]

definition backward :: "ir \<Rightarrow> (nat \<Rightarrow> bool) \<Rightarrow> masks option" where
  "backward r seed =
     (let z = replicate (length (ir_insns r)) 0 in backward_loop r seed \<lparr>before = z, after = z\<rparr>)"

definition liveness :: "ir \<Rightarrow> masks option" where
  "liveness r = backward r (\<lambda>_. True)"

definition is_call :: "decoded \<Rightarrow> bool" where
  "is_call op = (case op of Call _ \<Rightarrow> True | _ \<Rightarrow> False)"

definition precision :: "ir \<Rightarrow> masks option" where
  "precision r =
     (let seeds = map (\<lambda>i. let du = defs (iop i) in du_address du \<or> du_condition du \<or> is_call (iop i)) (ir_insns r)
      in backward r (\<lambda>i. seeds ! i))"

subsection \<open>The iteration\<close>

text \<open>Inclusion of masks.\<close>

definition mask_le :: "u16 \<Rightarrow> u16 \<Rightarrow> bool" where
  "mask_le x y \<longleftrightarrow> (\<forall>k. bit x k \<longrightarrow> bit y k)"

lemma mask_le_refl [simp]: "mask_le x x" "mask_le 0 x"
  by (simp_all add: mask_le_def)

lemma mask_le_trans: "mask_le x y \<Longrightarrow> mask_le y z \<Longrightarrow> mask_le x z"
  by (simp add: mask_le_def)

lemma mask_le_antisym: "mask_le x y \<Longrightarrow> mask_le y x \<Longrightarrow> x = y"
  unfolding mask_le_def by (rule bit_word_eqI) blast

lemma mask_le_unat: "mask_le x y \<Longrightarrow> unat x \<le> unat y"
proof -
  assume "mask_le x y"
  then have "x = x AND y" by (intro bit_word_eqI) (auto simp: mask_le_def bit_and_iff)
  then have "x \<le> y" by (metis word_and_le1 and.commute)
  then show ?thesis by (simp add: word_le_nat_alt)
qed

lemma out_mask_bit: "bit (out_mask r b i) k \<longleftrightarrow> (\<exists>s \<in> set (successors r i). bit (b ! s) k)"
proof -
  have "bit (fold (\<lambda>s m. m OR b ! s) ss m) k \<longleftrightarrow> bit m k \<or> (\<exists>s \<in> set ss. bit (b ! s) k)" for ss m
    by (induction ss arbitrary: m) (auto simp: bit_or_iff)
  then show ?thesis by (simp add: out_mask_def)
qed

lemma out_mask_mono: "(\<And>s. mask_le (b ! s) (b' ! s)) \<Longrightarrow> mask_le (out_mask r b i) (out_mask r b' i)"
  by (auto simp: mask_le_def out_mask_bit)

lemma transfer_mask_mono: "mask_le x y \<Longrightarrow> mask_le (transfer_mask du sd x) (transfer_mask du sd y)"
proof -
  assume a: "mask_le x y"
  have "du_defs du AND y \<noteq> 0" if "du_defs du AND x \<noteq> 0"
    using that a by (auto simp: bit_eq_iff bit_and_iff mask_le_def)
  then show ?thesis using a by (auto simp: transfer_mask_def Let_def mask_le_def bit_and_iff bit_or_iff)
qed

lemma mask_room:
  "mask_le x y \<Longrightarrow> 2 ^ 16 - unat y \<le> 2 ^ 16 - unat x"
  "mask_le x y \<Longrightarrow> x \<noteq> y \<Longrightarrow> 2 ^ 16 - unat y < 2 ^ 16 - unat x"
proof -
  assume le: "mask_le x y"
  show "2 ^ 16 - unat y \<le> 2 ^ 16 - unat x" using mask_le_unat [OF le] by simp
  assume "x \<noteq> y"
  then have "unat x < unat y" using mask_le_unat [OF le] unsigned_word_eqI le_neq_implies_less by blast
  then show "2 ^ 16 - unat y < 2 ^ 16 - unat x" using unsigned_less [of y, where ?'a = nat] by simp
qed

text \<open>What the equations prescribe at an instruction.\<close>

abbreviation eq_out :: "ir \<Rightarrow> masks \<Rightarrow> nat \<Rightarrow> u16" where
  "eq_out r ms i \<equiv> out_mask r (before ms) i"

abbreviation eq_in :: "ir \<Rightarrow> (nat \<Rightarrow> bool) \<Rightarrow> masks \<Rightarrow> nat \<Rightarrow> u16" where
  "eq_in r seed ms i \<equiv> transfer_mask (defs (iop (ir_insns r ! i))) (seed i) (eq_out r ms i)"

definition solved_at :: "ir \<Rightarrow> (nat \<Rightarrow> bool) \<Rightarrow> masks \<Rightarrow> nat \<Rightarrow> bool" where
  "solved_at r seed ms i \<longleftrightarrow> after ms ! i = eq_out r ms i \<and> before ms ! i = eq_in r seed ms i"

definition solution :: "ir \<Rightarrow> (nat \<Rightarrow> bool) \<Rightarrow> masks \<Rightarrow> bool" where
  "solution r seed ms \<longleftrightarrow> length (before ms) = length (ir_insns r) \<and> length (after ms) = length (ir_insns r)
     \<and> (\<forall>i < length (ir_insns r). solved_at r seed ms i)"

definition grows :: "masks \<Rightarrow> masks \<Rightarrow> bool" where
  "grows ms ms' \<longleftrightarrow> (\<forall>i. mask_le (before ms ! i) (before ms' ! i) \<and> mask_le (after ms ! i) (after ms' ! i))"

text \<open>Below the equations: what the masks hold, the equations would put there too.\<close>

definition rising :: "ir \<Rightarrow> (nat \<Rightarrow> bool) \<Rightarrow> masks \<Rightarrow> bool" where
  "rising r seed ms \<longleftrightarrow> length (before ms) = length (ir_insns r) \<and> length (after ms) = length (ir_insns r)
     \<and> (\<forall>i < length (ir_insns r). mask_le (after ms ! i) (eq_out r ms i) \<and> mask_le (before ms ! i) (eq_in r seed ms i))"

definition room :: "nat \<Rightarrow> masks \<Rightarrow> nat" where
  "room n ms = (\<Sum>i < n. (2 ^ 16 - unat (before ms ! i)) + (2 ^ 16 - unat (after ms ! i)))"

lemma grows_refl [simp]: "grows ms ms"
  by (simp add: grows_def)

lemma grows_trans: "grows a b \<Longrightarrow> grows b c \<Longrightarrow> grows a c"
  unfolding grows_def using mask_le_trans by blast

lemma room_grows: "grows ms ms' \<Longrightarrow> room n ms' \<le> room n ms"
  unfolding room_def grows_def by (intro sum_mono add_mono mask_room(1)) auto

lemma room_less:
  assumes "grows ms ms'" "i < n" "before ms' ! i \<noteq> before ms ! i \<or> after ms' ! i \<noteq> after ms ! i"
  shows "room n ms' < room n ms"
  unfolding room_def
proof (rule sum_strict_mono_ex1)
  have g: "mask_le (before ms ! j) (before ms' ! j)" "mask_le (after ms ! j) (after ms' ! j)" for j
    using assms(1) by (auto simp: grows_def)
  show "\<forall>j \<in> {..<n}. 2 ^ 16 - unat (before ms' ! j) + (2 ^ 16 - unat (after ms' ! j))
      \<le> 2 ^ 16 - unat (before ms ! j) + (2 ^ 16 - unat (after ms ! j))"
    using mask_room(1) [OF g(1)] mask_room(1) [OF g(2)] add_mono by blast
  show "\<exists>j \<in> {..<n}. 2 ^ 16 - unat (before ms' ! j) + (2 ^ 16 - unat (after ms' ! j))
      < 2 ^ 16 - unat (before ms ! j) + (2 ^ 16 - unat (after ms ! j))"
    using assms(2,3) mask_room(1) [OF g(1), of i] mask_room(1) [OF g(2), of i]
      mask_room(2) [OF g(1), of i] mask_room(2) [OF g(2), of i]
    by (metis add_le_less_mono add_less_le_mono lessThan_iff)
qed simp

lemma rising_grow:
  assumes "rising r seed ms" "grows ms ms'" "length (before ms') = length (before ms)" "length (after ms') = length (after ms)"
    and "\<And>j. j < length (ir_insns r) \<Longrightarrow> mask_le (after ms' ! j) (eq_out r ms j) \<and> mask_le (before ms' ! j) (eq_in r seed ms j)"
  shows "rising r seed ms'"
proof -
  have o: "mask_le (eq_out r ms j) (eq_out r ms' j)" for j using assms(2) by (intro out_mask_mono) (simp add: grows_def)
  have "mask_le (after ms' ! j) (eq_out r ms' j) \<and> mask_le (before ms' ! j) (eq_in r seed ms' j)" if "j < length (ir_insns r)" for j
    using assms(5) [OF that] o transfer_mask_mono [OF o] mask_le_trans by blast
  then show ?thesis using assms(1,3,4) by (simp add: rising_def)
qed

lemma nth_update_if: "i < length xs \<Longrightarrow> xs[i := v] ! j = (if j = i then v else xs ! j)"
  by simp

lemma insn_step:
  assumes "rising r seed ms" "i < length (ir_insns r)" "backward_insn r seed i (ms, ch) = (ms', ch')"
  shows "rising r seed ms'" "grows ms ms'" "ch' \<Longrightarrow> ch \<or> room (length (ir_insns r)) ms' < room (length (ir_insns r)) ms"
    "\<not> ch' \<Longrightarrow> \<not> ch \<and> ms' = ms \<and> solved_at r seed ms i"
proof -
  let ?n = "length (ir_insns r)"
  have len: "length (before ms) = ?n" "length (after ms) = ?n"
    and low: "\<And>j. j < ?n \<Longrightarrow> mask_le (after ms ! j) (eq_out r ms j) \<and> mask_le (before ms ! j) (eq_in r seed ms j)"
    using assms(1) by (auto simp: rising_def)
  show "\<not> ch' \<Longrightarrow> \<not> ch \<and> ms' = ms \<and> solved_at r seed ms i"
    using assms(3) by (auto simp: backward_insn_def Let_def solved_at_def split: if_splits)
  define new where "new = \<lparr>before = (before ms)[i := eq_in r seed ms i], after = (after ms)[i := eq_out r ms i]\<rparr>"
  have g: "grows ms new"
    using low [OF assms(2)] by (simp add: grows_def new_def nth_update_if len assms(2))
  have "rising r seed new"
    by (rule rising_grow [OF assms(1) g]) (use low in \<open>simp_all add: new_def nth_update_if len assms(2)\<close>)
  moreover have ms': "ms' = new \<and> (after ms ! i \<noteq> eq_out r ms i \<or> before ms ! i \<noteq> eq_in r seed ms i) \<or> ms' = ms \<and> ch' = ch"
    using assms(3) by (auto simp: backward_insn_def Let_def new_def split: if_splits)
  ultimately show "rising r seed ms'" "grows ms ms'" using assms(1) g by auto
  show "ch' \<Longrightarrow> ch \<or> room ?n ms' < room ?n ms"
    using ms' room_less [OF g assms(2)] len assms(2) by (auto simp: new_def)
qed

lemma round_step:
  assumes "rising r seed ms" "\<forall>i \<in> set is. i < length (ir_insns r)" "fold (backward_insn r seed) is (ms, ch) = (ms', ch')"
  shows "rising r seed ms' \<and> grows ms ms' \<and> (ch' \<longrightarrow> ch \<or> room (length (ir_insns r)) ms' < room (length (ir_insns r)) ms)
    \<and> (\<not> ch' \<longrightarrow> \<not> ch \<and> ms' = ms \<and> (\<forall>i \<in> set is. solved_at r seed ms i))"
  using assms
proof (induction "is" arbitrary: ms ch)
  case (Cons i "is")
  obtain m1 c1 where m1: "backward_insn r seed i (ms, ch) = (m1, c1)" by (rule prod.exhaust)
  have i: "i < length (ir_insns r)" using Cons.prems(2) by simp
  note S = insn_step [OF Cons.prems(1) i m1]
  have IH: "rising r seed ms' \<and> grows m1 ms' \<and> (ch' \<longrightarrow> c1 \<or> room (length (ir_insns r)) ms' < room (length (ir_insns r)) m1)
    \<and> (\<not> ch' \<longrightarrow> \<not> c1 \<and> ms' = m1 \<and> (\<forall>i \<in> set is. solved_at r seed m1 i))"
    using Cons.IH [OF S(1), of c1] Cons.prems(2,3) m1 by simp
  moreover have "ch' \<longrightarrow> ch \<or> room (length (ir_insns r)) ms' < room (length (ir_insns r)) ms"
    using IH S(3) room_grows [OF S(2)] room_grows [of m1 ms'] by (meson order_le_less_trans order_less_le_trans)
  ultimately show ?case using S(2,4) grows_trans [of ms m1 ms'] by auto
qed simp

text \<open>The loop returns a solution above where it starts.\<close>

lemma backward_loop_solves:
  "rising r seed ms \<Longrightarrow> \<exists>ms'. backward_loop r seed ms = Some ms' \<and> solution r seed ms' \<and> grows ms ms'"
proof (induction "room (length (ir_insns r)) ms" arbitrary: ms rule: less_induct)
  case less
  obtain m1 c1 where m1: "backward_round r seed ms = (m1, c1)" by (rule prod.exhaust)
  note R = round_step [OF less.prems _ m1 [unfolded backward_round_def]]
  show ?case
  proof (cases c1)
    case True
    then obtain ms' where "backward_loop r seed m1 = Some ms'" "solution r seed ms'" "grows m1 ms'"
      using less.hyps [of m1] R by auto
    then show ?thesis using m1 True R grows_trans [of ms m1 ms'] by (auto simp: backward_loop.simps [of r seed ms])
  next
    case False
    then have "solution r seed ms" "m1 = ms" using R less.prems by (auto simp: solution_def rising_def)
    then show ?thesis using m1 False by (simp add: backward_loop.simps [of r seed ms])
  qed
qed

text \<open>Everything stays below every solution.\<close>

lemma out_mask_below:
  "(\<And>s. s \<in> set (successors r i) \<Longrightarrow> mask_le (b ! s) (b' ! s)) \<Longrightarrow> mask_le (out_mask r b i) (out_mask r b' i)"
  by (auto simp: mask_le_def out_mask_bit)

definition below :: "ir \<Rightarrow> masks \<Rightarrow> masks \<Rightarrow> bool" where
  "below r ms sol \<longleftrightarrow> (\<forall>i < length (ir_insns r). mask_le (before ms ! i) (before sol ! i) \<and> mask_le (after ms ! i) (after sol ! i))"

definition succs_in :: "ir \<Rightarrow> bool" where
  "succs_in r \<longleftrightarrow> (\<forall>i < length (ir_insns r). \<forall>s \<in> set (successors r i). s < length (ir_insns r))"

lemma insn_below:
  assumes "succs_in r" "solution r seed sol" "below r (fst st) sol" "i < length (ir_insns r)"
    and "length (before (fst st)) = length (ir_insns r)" "length (after (fst st)) = length (ir_insns r)"
  shows "below r (fst (backward_insn r seed i st)) sol"
proof -
  have "mask_le (eq_out r (fst st) i) (eq_out r sol i)"
    using assms(1,3,4) by (intro out_mask_below) (auto simp: succs_in_def below_def)
  then have "mask_le (eq_out r (fst st) i) (after sol ! i)" "mask_le (eq_in r seed (fst st) i) (before sol ! i)"
    using assms(2,4) transfer_mask_mono by (auto simp: solution_def solved_at_def)
  then show ?thesis
    using assms(3-6) by (auto simp: backward_insn_def Let_def below_def nth_update_if split: prod.splits)
qed

lemma insn_lengths:
  "length (before (fst (backward_insn r seed i st))) = length (before (fst st))"
  "length (after (fst (backward_insn r seed i st))) = length (after (fst st))"
  by (simp_all add: backward_insn_def Let_def split: prod.splits)

lemma fold_below:
  assumes "succs_in r" "solution r seed sol" "\<forall>i \<in> set is. i < length (ir_insns r)" "below r (fst st) sol"
    and "length (before (fst st)) = length (ir_insns r)" "length (after (fst st)) = length (ir_insns r)"
  shows "below r (fst (fold (backward_insn r seed) is st)) sol"
  using assms(3-)
proof (induction "is" arbitrary: st)
  case (Cons i "is")
  show ?case
    using Cons.IH [of "backward_insn r seed i st"] insn_below [OF assms(1,2) Cons.prems(2)] Cons.prems by (simp add: insn_lengths)
qed simp

lemma loop_below:
  assumes "succs_in r" "solution r seed sol"
  shows "rising r seed ms \<Longrightarrow> below r ms sol \<Longrightarrow> backward_loop r seed ms = Some ms' \<Longrightarrow> below r ms' sol"
proof (induction "room (length (ir_insns r)) ms" arbitrary: ms rule: less_induct)
  case less
  obtain m1 c1 where m1: "backward_round r seed ms = (m1, c1)" by (rule prod.exhaust)
  note R = round_step [OF less.prems(1) _ m1 [unfolded backward_round_def]]
  have b: "below r m1 sol"
    using fold_below [OF assms, of "rev [0..<length (ir_insns r)]" "(ms, False)"] less.prems(1,2) m1
    by (simp add: backward_round_def rising_def)
  show ?case
  proof (cases c1)
    case True
    then show ?thesis using less.hyps [of m1] R b less.prems(3) m1 by (simp add: backward_loop.simps [of r seed ms])
  next
    case False
    then show ?thesis using b less.prems(3) m1 by (simp add: backward_loop.simps [of r seed ms])
  qed
qed

lemma rising_zero: "rising r seed \<lparr>before = replicate (length (ir_insns r)) 0, after = replicate (length (ir_insns r)) 0\<rparr>"
  by (simp add: rising_def)

lemma backward_solves: "\<exists>ms. backward r seed = Some ms \<and> solution r seed ms"
  using backward_loop_solves [OF rising_zero] by (auto simp: backward_def Let_def)

lemma backward_least:
  "succs_in r \<Longrightarrow> solution r seed sol \<Longrightarrow> backward r seed = Some ms \<Longrightarrow> below r ms sol"
  using loop_below [OF _ _ rising_zero] by (simp add: backward_def Let_def below_def)

subsection \<open>Soundness for the reference machine\<close>

text \<open>Two machines that differ in registers outside a mask only.\<close>

definition agree :: "u16 \<Rightarrow> machine \<Rightarrow> machine \<Rightarrow> bool" where
  "agree rs m1 m2 \<longleftrightarrow> m2 = m1\<lparr>mregs := mregs m2\<rparr> \<and> length (mregs m1) = 11 \<and> length (mregs m2) = 11
     \<and> (\<forall>k < 11. bit rs k \<longrightarrow> mregs m1 ! k = mregs m2 ! k)"

lemma agree_mono: "agree rs m1 m2 \<Longrightarrow> mask_le rs' rs \<Longrightarrow> agree rs' m1 m2"
  by (auto simp: agree_def mask_le_def)

lemma reg_ok_11: "reg_ok r \<Longrightarrow> reg_usize r < 11"
  by (simp add: reg_ok_def reg_usize_def NUM_REGS_def word_less_nat_alt)

lemma bit_reg_bit: "reg_ok r \<Longrightarrow> bit (reg_bit r) k \<longleftrightarrow> k = reg_usize r"
  using reg_ok_11 [of r] by (auto simp: reg_bit_def bit_exp_iff)

lemma agree_get: "agree rs m1 m2 \<Longrightarrow> reg_ok r \<Longrightarrow> bit rs (reg_usize r) \<Longrightarrow> get_reg m2 r = get_reg m1 r"
  using reg_ok_11 [of r] by (simp add: agree_def get_reg_def)

lemma agree_set:
  assumes "agree rs m1 m2" "\<And>k. bit out k \<Longrightarrow> k \<noteq> reg_usize dst \<Longrightarrow> bit rs k"
  shows "agree out (set_reg m1 dst v) (set_reg m2 dst v)"
proof -
  have "m2 = m1\<lparr>mregs := mregs m2\<rparr>" using assms(1) by (simp add: agree_def)
  then have "set_reg m2 dst v = (set_reg m1 dst v)\<lparr>mregs := mregs (set_reg m2 dst v)\<rparr>"
    by (metis (no_types, lifting) machine.ext_inject machine.surjective machine.update_convs(1) set_reg_def)
  moreover have "mregs (set_reg m1 dst v) ! k = mregs (set_reg m2 dst v) ! k" if "k < 11" "bit out k" for k
    using assms that by (cases "k = reg_usize dst") (auto simp: agree_def set_reg_def)
  ultimately show ?thesis using assms(1) by (simp add: agree_def set_reg_def)
qed

lemma bit_transfer_mask:
  "bit (transfer_mask du True out) k \<longleftrightarrow> bit out k \<and> \<not> bit (du_defs du) k \<or> bit (du_uses du) k"
  using bit_imp_le_length [of out k] by (auto simp: transfer_mask_def Let_def bit_simps)

lemma du_bits [simp]:
  "reg_ok r \<Longrightarrow> bit (du_defs (du_def r d)) k \<longleftrightarrow> k = reg_usize r \<or> bit (du_defs d) k"
  "reg_ok r \<Longrightarrow> bit (du_uses (du_use r d)) k \<longleftrightarrow> k = reg_usize r \<or> bit (du_uses d) k"
  "du_uses (du_def r d) = du_uses d" "du_defs (du_use r d) = du_defs d" "du_defs (du_use_src src d) = du_defs d"
  "source_ok src \<Longrightarrow> bit (du_uses (du_use_src src d)) k \<longleftrightarrow> (\<exists>r. src = SrcReg r \<and> k = reg_usize r) \<or> bit (du_uses d) k"
  "du_defs no_def_use = 0" "du_uses no_def_use = 0"
  by (cases src; auto simp: du_def_def du_use_def bit_or_iff bit_reg_bit no_def_use_def)+

lemma load_regs: "load (m\<lparr>mregs := x\<rparr>) a sz = load m a sz"
  by (cases "stack_slot a sz") (simp_all add: load_def ctx_load_def Let_def)

lemma store_regs: "store (m\<lparr>mregs := x\<rparr>) a sz v = (case store m a sz v of Err t \<Rightarrow> Err t | Ok m' \<Rightarrow> Ok (m'\<lparr>mregs := x\<rparr>))"
  by (cases "stack_slot a sz") (auto simp: store_def Let_def)

text \<open>One instruction: same outcome, and agreement on what is live after it.\<close>

definition live_after :: "u16 \<Rightarrow> outcome \<Rightarrow> u16" where
  "live_after out y = (case y of Continue _ \<Rightarrow> out | Return _ \<Rightarrow> 0)"

definition agree_on :: "u16 \<Rightarrow> machine \<times> outcome \<Rightarrow> machine \<times> outcome \<Rightarrow> bool" where
  "agree_on out p q \<longleftrightarrow> snd p = snd q \<and> agree (live_after out (snd p)) (fst p) (fst q)"

lemma agree_on_simps [simp]:
  "agree_on out (m1, Continue pc) (m2, y) \<longleftrightarrow> y = Continue pc \<and> agree out m1 m2"
  "agree_on out (m1, Return x) (m2, y) \<longleftrightarrow> y = Return x \<and> agree 0 m1 m2"
  by (auto simp: agree_on_def live_after_def)

lemma agree_0: "agree rs m1 m2 \<Longrightarrow> agree 0 m1 m2"
  by (rule agree_mono) simp_all

lemma agree_load: "agree rs m1 m2 \<Longrightarrow> load m2 a sz = load m1 a sz"
  by (metis agree_def load_regs)

lemma agree_store:
  assumes "agree rs m1 m2"
  shows "(\<exists>t. store m1 a sz v = Err t \<and> store m2 a sz v = Err t)
    \<or> (\<exists>m1' m2'. store m1 a sz v = Ok m1' \<and> store m2 a sz v = Ok m2' \<and> agree rs m1' m2')"
proof -
  have m2: "m2 = m1\<lparr>mregs := mregs m2\<rparr>" using assms by (simp add: agree_def)
  have st: "store m2 a sz v = (case store m1 a sz v of Err t \<Rightarrow> Err t | Ok m' \<Rightarrow> Ok (m'\<lparr>mregs := mregs m2\<rparr>))"
    using store_regs [of "mregs m2" m1 a sz v] m2 by simp
  have "mregs m' = mregs m1" if "store m1 a sz v = Ok m'" for m'
    using that by (auto simp: store_def Let_def split: if_splits elim!: bind_result.elims)
  then show ?thesis using st assms by (cases "store m1 a sz v") (auto simp: agree_def)
qed

lemma exec_agree:
  assumes "representable op" "agree (transfer_mask (defs op) True out) m1 m2"
  shows "agree_on out (exec op nxt m1) (exec op nxt m2)"
proof -
  note B = bit_transfer_mask
  note z = agree_0 [OF assms(2)]
  note G = agree_get [OF assms(2)] and S = agree_set [OF assms(2)]
  have M: "agree out m1 m2" if "du_defs (defs op) = 0"
    by (rule agree_mono [OF assms(2)]) (use that in \<open>auto simp: mask_le_def B\<close>)
  show ?thesis
  proof (cases op)
    case (Alu wide op' dst src)
    then show ?thesis using assms(1) by (cases src) (auto simp: G B intro!: S)
  next
    case (Neg wide dst)
    then show ?thesis using assms(1) by (auto simp: G B intro!: S)
  next
    case (Mov wide dst src sx)
    then show ?thesis using assms(1) by (cases src) (auto simp: G B intro!: S)
  next
    case (Div wide sg dst src)
    then show ?thesis using assms(1) by (cases src) (auto simp: G B intro!: S)
  next
    case (Mod wide sg dst src)
    then show ?thesis using assms(1) by (cases src) (auto simp: G B intro!: S)
  next
    case (End dst ord width)
    then show ?thesis using assms(1) by (auto simp: G B intro!: S)
  next
    case (Load sz sx dst src o')
    then show ?thesis using assms(1) z by (auto simp: G B agree_load [OF assms(2)] intro!: S split: sum.splits)
  next
    case (Store sz dst o' src)
    then have "agree out m1 m2" using M by (cases src) (auto simp: du_use_def no_def_use_def)
    then show ?thesis
      using Store assms(1) z agree_store [of out m1 m2 "get_reg m1 dst + scast o'" sz "val m1 src True"]
      by (cases src) (auto simp: G B)
  next
    case (LoadImm64 dst v)
    then show ?thesis using assms(1) z by (cases v) (auto simp: B intro!: S)
  next
    case (JumpCond wide c dst src o')
    then have "agree out m1 m2" using M by (cases src) (auto simp: du_use_def no_def_use_def)
    then show ?thesis using JumpCond assms(1) by (cases src) (auto simp: G B)
  next
    case Exit
    then show ?thesis using z by (simp add: G B reg_ok_def NUM_REGS_def)
  qed (use M z in simp_all)
qed

lemma step_agree:
  assumes "build_graph prog = Ok r" "length prog \<le> 2 ^ 16" "pc < length prog" "ir_of_slot r ! pc = Some k"
    and "solution r (\<lambda>_. True) ls" "agree (before ls ! k) m1 m2" "step prog pc m1 = (m1', y)" "step prog pc m2 = (m2', y')"
  shows "y' = y \<and> agree 0 m1' m2' \<and> (\<forall>pc'. y = Continue pc' \<longrightarrow>
    pc' < length prog \<and> (\<exists>k'. ir_of_slot r ! pc' = Some k' \<and> agree (before ls ! k') m1' m2'))"
proof -
  have T: "tiled prog (length prog) (ir_insns r) (ir_of_slot r)" using assms(1) by (elim build_graph_Ok)
  have k: "k < length (ir_insns r)" "islot (ir_insns r ! k) = pc" using tiledD(7) [OF T assms(3,4)] by auto
  let ?op = "iop (ir_insns r ! k)"
  have d: "decode prog pc = Some (Ok (?op, iwidth (ir_insns r ! k)))" using tiledD(3) [OF T k(1)] k(2) by simp
  then have "representable ?op" by (auto simp: decode_def split: option.splits dest: decode_slot_range)
  moreover have "before ls ! k = transfer_mask (defs ?op) True (after ls ! k)" and A: "after ls ! k = out_mask r (before ls) k"
    using assms(5) k(1) by (auto simp: solution_def solved_at_def)
  ultimately have E: "agree_on (after ls ! k) (m1', y) (m2', y')"
    using exec_agree [of ?op "after ls ! k" m1 m2 "pc + iwidth (ir_insns r ! k)"] assms(3,6-8) d by (simp add: step_def)
  then have "y' = y \<and> agree 0 m1' m2'" by (cases y) (auto dest: agree_0)
  moreover have "pc' < length prog \<and> (\<exists>k'. ir_of_slot r ! pc' = Some k' \<and> agree (before ls ! k') m1' m2')" if y: "y = Continue pc'" for pc'
  proof -
    obtain k' where k': "pc' < length prog" "k' \<in> set (successors r k)" "ir_of_slot r ! pc' = Some k'"
      using step_follows_edges(2) [OF assms(1-4,7) y] by blast
    then have "mask_le (before ls ! k') (after ls ! k)" by (auto simp: A mask_le_def out_mask_bit)
    then show ?thesis using k' E y agree_mono by auto
  qed
  ultimately show ?thesis by blast
qed

lemma agree_fuel: "agree rs m1 m2 \<Longrightarrow> mfuel m2 = mfuel m1 \<and> agree rs (m1\<lparr>mfuel := f\<rparr>) (m2\<lparr>mfuel := f\<rparr>)"
  by (cases m1; cases m2) (auto simp: agree_def)

lemma run_agree:
  assumes "build_graph prog = Ok r" "length prog \<le> 2 ^ 16" "solution r (\<lambda>_. True) ls"
    and "pc < length prog" "ir_of_slot r ! pc = Some k" "agree (before ls ! k) m1 m2"
  shows "snd (run_from prog pc m2) = snd (run_from prog pc m1) \<and> agree 0 (fst (run_from prog pc m1)) (fst (run_from prog pc m2))"
  using assms
proof (induction prog pc m1 arbitrary: k m2 rule: run_from.induct)
  case (1 prog pc m1)
  let ?n1 = "m1\<lparr>mfuel := mfuel m1 - 1\<rparr>" and ?n2 = "m2\<lparr>mfuel := mfuel m1 - 1\<rparr>"
  have fuel: "mfuel m2 = mfuel m1" and ag: "agree (before ls ! k) ?n1 ?n2" using agree_fuel [OF "1.prems"(6)] by auto
  obtain m1' y where s1: "step prog pc ?n1 = (m1', y)" by (rule prod.exhaust)
  obtain m2' y' where s2: "step prog pc ?n2 = (m2', y')" by (rule prod.exhaust)
  note S = step_agree [OF "1.prems"(1,2,4,5,3) ag s1 s2]
  note R = run_from.simps [of prog pc m1] run_from.simps [of prog pc m2]
  show ?case
  proof (cases "mfuel m1 = 0")
    case True
    then show ?thesis using fuel agree_0 [OF "1.prems"(6)] R by simp
  next
    case False
    show ?thesis
    proof (cases y)
      case (Continue pc')
      then obtain k' where k': "pc' < length prog" "ir_of_slot r ! pc' = Some k'" "agree (before ls ! k') m1' m2'" using S by blast
      then show ?thesis
        using "1.IH" [OF False s1 [symmetric] Continue "1.prems"(1-3) k'] False fuel s1 s2 S Continue R by simp
    next
      case (Return x)
      then show ?thesis using False fuel s1 s2 S R by simp
    qed
  qed
qed

lemma has_bit: "before_has ms i x \<longleftrightarrow> bit (before ms ! i) x" "after_has ms i x \<longleftrightarrow> bit (after ms ! i) x"
  by (simp_all add: before_has_def after_has_def bit_iff_and_push_bit_not_eq_0)

lemma successors_in:
  assumes "build_graph prog = Ok r"
  shows "succs_in r"
proof -
  obtain sss es ts where T: "tiled prog (length prog) (ir_insns r) (ir_of_slot r)"
    and F: "flow_pass (ir_of_slot r) (ir_insns r) = Ok (sss, es, ts)" using assms by (elim build_graph_Ok)
  show ?thesis using successors_exact [OF assms F] flow_targets [OF T F] by (auto simp: succs_in_def)
qed

subsection \<open>Properties\<close>

text \<open>
  C22. Liveness is sound for the reference machine. Start the machine at any instruction of a program whose graph is built,
  twice, with register files that agree on the registers the analysis reports live there. Both runs end the same
  way, with the same value or the same trap, and leave the same stack, context and fuel: a register that is not live cannot matter.
\<close>

theorem dead_registers_irrelevant:
  assumes "build_graph prog = Ok r" "length prog \<le> 2 ^ 16" "liveness r = Some ls"
    and "pc < length prog" "ir_of_slot r ! pc = Some k" "length (mregs m) = 11" "length file = 11"
    and "\<And>x. x < 11 \<Longrightarrow> before_has ls k x \<Longrightarrow> file ! x = mregs m ! x"
  shows "snd (run_from prog pc (m\<lparr>mregs := file\<rparr>)) = snd (run_from prog pc m)
    \<and> (fst (run_from prog pc (m\<lparr>mregs := file\<rparr>)))\<lparr>mregs := []\<rparr> = (fst (run_from prog pc m))\<lparr>mregs := []\<rparr>"
proof -
  have sol: "solution r (\<lambda>_. True) ls" using backward_solves [of r "\<lambda>_. True"] assms(3) by (auto simp: liveness_def)
  have "agree (before ls ! k) m (m\<lparr>mregs := file\<rparr>)" using assms(6-8) by (auto simp: agree_def has_bit)
  note A = run_agree [OF assms(1,2) sol assms(4,5) this]
  have "m2\<lparr>mregs := []\<rparr> = m1\<lparr>mregs := []\<rparr>" if "agree 0 m1 m2" for m1 m2
    using that unfolding agree_def by (metis machine.surjective machine.update_convs(1))
  then show ?thesis using A by blast
qed

text \<open>In \<open>count_loop\<close> no register is live at the entry, and r0 alone at the loop head.\<close>

theorem dead_registers_irrelevant_witness:
  "\<exists>r. build_graph count_loop = Ok r \<and> map_option before (liveness r) = Some [0, 1, 1, 1]
    \<and> snd (run_from count_loop 1 (machine_new\<lparr>mregs := 0 # replicate 10 7\<rparr>)) = snd (run_from count_loop 1 machine_new)"
proof -
  have "case build_graph count_loop of Err _ \<Rightarrow> False | Ok r \<Rightarrow> map_option before (liveness r) = Some [0, 1, 1, 1]
      \<and> ir_of_slot r ! 1 = Some 1" by code_simp
  then obtain r where r: "build_graph count_loop = Ok r" "map_option before (liveness r) = Some [0, 1, 1, 1]" "ir_of_slot r ! 1 = Some 1"
    by (auto split: sum.splits)
  then obtain ls where ls: "liveness r = Some ls" "before ls = [0, 1, 1, 1]" by auto
  have "snd (run_from count_loop 1 (machine_new\<lparr>mregs := 0 # replicate 10 7\<rparr>)) = snd (run_from count_loop 1 machine_new)"
  proof -
    have "x = 0" if "before_has ls 1 x" for x
      using that by (simp add: has_bit ls(2) bit_1_iff)
    then have same: "(0 # replicate 10 7) ! x = mregs machine_new ! x" if "before_has ls 1 x" for x
      using that by (fastforce simp: machine_new_def)
    show ?thesis
      using dead_registers_irrelevant [OF r(1) _ ls(1) _ r(3) _ _ same] by (simp add: count_loop_def machine_new_def)
  qed
  then show ?thesis using r by (intro exI [of _ r] conjI)
qed

text \<open>
  Both analyses end, with the best possible answer. For every graph and seed the backward iteration returns, its
  result satisfies the data-flow equations at every instruction, and it is contained in every other solution of them (for a graph
  that was built).
\<close>

theorem backward_least_solution:
  assumes "build_graph prog = Ok r"
  shows "\<exists>ms. backward r seed = Some ms \<and> solution r seed ms
    \<and> (\<forall>sol. solution r seed sol \<longrightarrow> (\<forall>i < length (ir_insns r). \<forall>x.
         (before_has ms i x \<longrightarrow> before_has sol i x) \<and> (after_has ms i x \<longrightarrow> after_has sol i x)))"
proof -
  obtain ms where ms: "backward r seed = Some ms" "solution r seed ms" using backward_solves by blast
  have "below r ms sol" if "solution r seed sol" for sol
    using backward_least [OF successors_in [OF assms] that ms(1)] .
  then show ?thesis using ms by (auto simp: has_bit below_def mask_le_def)
qed

theorem backward_least_solution_witness:
  "\<exists>r ms. build_graph count_loop = Ok r \<and> precision r = Some ms \<and> length (before ms) = 4"
proof -
  have "case build_graph count_loop of Err _ \<Rightarrow> False | Ok r \<Rightarrow> length (ir_insns r) = 4" by code_simp
  then obtain r where r: "build_graph count_loop = Ok r" "length (ir_insns r) = 4" by (auto split: sum.splits)
  then obtain ms where "precision r = Some ms" "length (before ms) = 4"
    using backward_least_solution [OF r(1)] unfolding precision_def Let_def solution_def by metis
  then show ?thesis using r(1) by (intro exI [of _ r] exI [of _ ms] conjI)
qed

end
