(* ===== verification/Bpf_Verifier.thy ===== *)
theory Bpf_Verifier
  imports Bpf_Dom Bpf_Kfunc Bpf_Branch Bpf_Liveness
begin

text \<open>
  The forward analysis of the BPF verifier: \<open>Program\<close>, \<open>VerifyError\<close> and \<open>verify\<close> of \<open>bpf/verifier/src/lib.rs\<close>, and the transfer functions,
  calls, branch refinement, block walk, worklist and result of \<open>fixpoint.rs\<close>. The names follow the source; \<open>Analysis\<close> is split into
  what it only reads (\<open>env\<close>) and what it accumulates (\<open>analysis\<close>).

  A run of the verifier ends in a \<open>verdict\<close>: it accepts with a result, rejects with a \<open>VerifyError\<close>, or panics. Slots,
  instruction and block indices and register numbers are natural numbers; \<open>i64\<close> values are integers and \<open>u64\<close> sizes are words.
\<close>

subsection \<open>Verdicts\<close>

datatype verify_error =
    Cfg cfg_error
  | BadCtxField nat kfunc_error
  | BadObjectDescriptor nat
  | UninitRegister nat nat
  | WriteToFramePointer nat
  | OutOfBounds nat
  | UnknownKfunc nat int
  | KfuncSignature nat nat arg_desc
  | ContextMismatch nat exec_context exec_context
  | PointerCrossesAwait nat nat validity_domain
  | LeakedReference nat nat
  | ReleaseOfUnacquired nat nat
  | TooManyLocks nat
  | NotAPointer nat nat
  | PointerArithmetic nat nat
  | PossiblyNull nat nat
  | WriteToReadOnly nat
  | UninitStack nat int
  | StackTooDeep nat nat
  | CallDepth nat nat
  | KfuncDescriptor kfunc_error
  | OpaqueDeref nat nat
  | TypedFieldMismatch nat nat
  | ArenaOutOfWindow nat nat
  | FixpointDiverged nat int
  | UnknownMap nat int
  | MapValueOffset nat int nat
  | BadAddrSpaceCast nat u16 u16
  | NotImplemented string

datatype 'a verdict = Panic | Reject verify_error | Accept 'a

fun bindv :: "'a verdict \<Rightarrow> ('a \<Rightarrow> 'b verdict) \<Rightarrow> 'b verdict" where
  "bindv Panic f = Panic"
| "bindv (Reject e) f = Reject e"
| "bindv (Accept x) f = f x"

lemma bindv_Accept: "bindv r f = Accept y \<longleftrightarrow> (\<exists>x. r = Accept x \<and> f x = Accept y)"
  by (cases r) auto

definition or_panic :: "'a option \<Rightarrow> 'a verdict" where
  "or_panic r = (case r of Some x \<Rightarrow> Accept x | None \<Rightarrow> Panic)"

definition or_reject :: "'a option \<Rightarrow> verify_error \<Rightarrow> 'a verdict" where
  "or_reject r e = (case r of Some x \<Rightarrow> Accept x | None \<Rightarrow> Reject e)"

lemma or_Accept [simp]: "or_panic r = Accept x \<longleftrightarrow> r = Some x" "or_reject r e = Accept x \<longleftrightarrow> r = Some x"
  by (auto simp: or_panic_def or_reject_def split: option.splits)

fun foldv :: "('a \<Rightarrow> 's \<Rightarrow> 's verdict) \<Rightarrow> 'a list \<Rightarrow> 's \<Rightarrow> 's verdict" where
  "foldv f [] s = Accept s"
| "foldv f (x # xs) s = bindv (f x s) (foldv f xs)"

subsection \<open>Programs\<close>

record map_desc =
  md_fd :: int
  md_fd_array_idx :: "int option"
  md_key_size :: nat
  md_value_size :: nat
  md_max_entries :: nat

record object_field =
  fld_offset :: nat
  fld_size :: nat

record object_desc =
  od_key :: type_key
  od_size :: nat
  od_fields :: "object_field list"

record program =
  pr_insns :: "insn list"
  pr_context :: exec_context
  pr_ctx_fields :: "arg_desc list"
  pr_kfuncs :: "kfunc_desc list"
  pr_maps :: "map_desc list"
  pr_objects :: "object_desc list"

record fault_site =
  fsite_insn :: nat
  fsite_dst :: "nat option"
  fsite_arena :: bool

record typed_load_site =
  tsite_insn :: nat
  tsite_offset :: nat
  tsite_size :: nat

record kfunc_call_site =
  csite_insn :: nat
  csite_id :: int
  csite_addr :: nat
  csite_may_suspend :: bool
  csite_context :: exec_context

record env =
  e_ir :: full_ir
  e_prog :: program
  e_live :: masks
  e_prec :: masks

record analysis =
  fault_sites :: "fault_site list"
  bare_access_sites :: "nat list"
  typed_load_sites :: "typed_load_site list"
  kfunc_calls :: "kfunc_call_site list"
  uses_arena :: bool
  an_entry :: "abs_state option list"
  an_depth :: "nat list"
  an_current :: nat

definition ARENA_WINDOW_BYTES :: u64 where "ARENA_WINDOW_BYTES = push_bit 30 4"
definition MAX_CALL_DEPTH :: nat where "MAX_CALL_DEPTH = 8"
definition DEFAULT_FUEL :: u64 where "DEFAULT_FUEL = push_bit 20 1"

subsection \<open>Registers and operands\<close>

abbreviation R0 :: reg where "R0 \<equiv> Reg 0"

definition is_frame_ptr :: "reg \<Rightarrow> bool" where
  "is_frame_ptr r \<longleftrightarrow> reg_index r = 10"

definition get_value :: "abs_state \<Rightarrow> nat \<Rightarrow> reg \<Rightarrow> abs_value verdict" where
  "get_value st at r = (case aregs st ! reg_usize r of NotInit \<Rightarrow> Reject (UninitRegister at (reg_usize r)) | v \<Rightarrow> Accept v)"

definition get_scalar :: "abs_state \<Rightarrow> nat \<Rightarrow> reg \<Rightarrow> scalar verdict" where
  "get_scalar st at r =
     bindv (get_value st at r) (\<lambda>v. case v of Scalar s \<Rightarrow> Accept s | _ \<Rightarrow> Reject (PointerArithmetic at (reg_usize r)))"

definition get_ptr :: "abs_state \<Rightarrow> nat \<Rightarrow> reg \<Rightarrow> ptr_val verdict" where
  "get_ptr st at r =
     bindv (get_value st at r) (\<lambda>v. case v of Ptr p \<Rightarrow> Accept p | _ \<Rightarrow> Reject (NotAPointer at (reg_usize r)))"

definition map_by_fd :: "env \<Rightarrow> nat \<Rightarrow> int \<Rightarrow> map_desc verdict" where
  "map_by_fd e at fd = or_reject (List.find (\<lambda>d. md_fd d = fd) (pr_maps (e_prog e))) (UnknownMap at fd)"

definition map_by_idx :: "env \<Rightarrow> nat \<Rightarrow> int \<Rightarrow> map_desc verdict" where
  "map_by_idx e at idx = or_reject (List.find (\<lambda>d. md_fd_array_idx d = Some idx) (pr_maps (e_prog e))) (UnknownMap at idx)"

definition map_handle :: abs_value where
  "map_handle = Ptr \<lparr>pclass = Class_Object, pkey = MAP_HANDLE_TYPE_KEY, pdomain = Static, poff = scalar_constant 0, psize = None,
     pnullable = False, pref_id = NO_REF, preadonly = True\<rparr>"

definition map_value_ptr :: "nat \<Rightarrow> map_desc \<Rightarrow> int \<Rightarrow> abs_value verdict" where
  "map_value_ptr at d value_offset =
     (if value_offset < 0 \<or> nat value_offset \<ge> md_value_size d then Reject (MapValueOffset at value_offset (md_value_size d))
      else Accept (Ptr \<lparr>pclass = Class_MapValue, pkey = TypeKey_NONE, pdomain = Static, poff = scalar_constant value_offset,
             psize = Some (of_nat (md_value_size d)), pnullable = False, pref_id = NO_REF, preadonly = False\<rparr>))"

definition set_value :: "abs_state \<Rightarrow> nat \<Rightarrow> reg \<Rightarrow> abs_value \<Rightarrow> abs_state verdict" where
  "set_value st at r v =
     (if is_frame_ptr r then Reject (WriteToFramePointer at) else Accept (st\<lparr>aregs := (aregs st)[reg_usize r := v]\<rparr>))"

fun source_value :: "abs_state \<Rightarrow> nat \<Rightarrow> source \<Rightarrow> bool \<Rightarrow> abs_value verdict" where
  "source_value st at (SrcReg r) wide = get_value st at r"
| "source_value st at (Imm k) wide = Accept (Scalar (scalar_constant (if wide then sint k else uint k)))"

definition scalar_source :: "abs_state \<Rightarrow> nat \<Rightarrow> source \<Rightarrow> bool \<Rightarrow> scalar verdict" where
  "scalar_source st at src wide =
     bindv (source_value st at src wide) (\<lambda>v. case v of
         Scalar s \<Rightarrow> Accept s
       | _ \<Rightarrow> Reject (PointerArithmetic at (case src of SrcReg r \<Rightarrow> reg_usize r | Imm _ \<Rightarrow> 0)))"

subsection \<open>Arithmetic\<close>

type_synonym astate = "analysis \<times> abs_state"

definition set_in :: "analysis \<Rightarrow> abs_state \<Rightarrow> nat \<Rightarrow> reg \<Rightarrow> abs_value \<Rightarrow> astate verdict" where
  "set_in a st at r v = bindv (set_value st at r v) (\<lambda>st'. Accept (a, st'))"

definition arena_offset :: "alu_op \<Rightarrow> ptr_val \<Rightarrow> abs_value \<Rightarrow> scalar" where
  "arena_offset op p s =
     (case (op, s) of
        (Alu_Add, Scalar b) \<Rightarrow> scalar_add (poff p) b
      | (Alu_Sub, Scalar b) \<Rightarrow> scalar_sub (poff p) b
      | _ \<Rightarrow> Scalar_UNKNOWN)"

definition alu_value :: "nat \<Rightarrow> bool \<Rightarrow> alu_op \<Rightarrow> reg \<Rightarrow> abs_value \<Rightarrow> abs_value \<Rightarrow> abs_value verdict" where
  "alu_value at wide op dst d s =
     (let bad = Reject (PointerArithmetic at (reg_usize dst)) in
      case (d, s) of
        (Scalar x, Scalar y) \<Rightarrow> Accept (Scalar (scalar_alu op wide x y))
      | (Ptr p, _) \<Rightarrow>
          if pclass p = Class_Arena then Accept (Ptr (p\<lparr>poff := arena_offset op p s\<rparr>))
          else
            (case s of
               Scalar y \<Rightarrow>
                 if wide \<and> pclass p \<noteq> Class_MemEnd
                 then (if op = Alu_Add then Accept (Ptr (p\<lparr>poff := scalar_add (poff p) y\<rparr>))
                       else if op = Alu_Sub then Accept (Ptr (p\<lparr>poff := scalar_sub (poff p) y\<rparr>))
                       else bad)
                 else bad
             | Ptr q \<Rightarrow>
                 if wide \<and> op = Alu_Sub \<and> pclass p = pclass q \<and> pref_id p = pref_id q \<and> pclass p \<noteq> Class_Null
                 then Accept (Scalar (scalar_sub (poff p) (poff q)))
                 else bad
             | NotInit \<Rightarrow> bad)
      | _ \<Rightarrow> bad)"

definition touch_arena :: "abs_value \<Rightarrow> analysis \<Rightarrow> analysis" where
  "touch_arena v a = (case v of Ptr p \<Rightarrow> if pclass p = Class_Arena then a\<lparr>uses_arena := True\<rparr> else a | _ \<Rightarrow> a)"

definition alu_step :: "analysis \<Rightarrow> abs_state \<Rightarrow> nat \<Rightarrow> bool \<Rightarrow> alu_op \<Rightarrow> reg \<Rightarrow> source \<Rightarrow> astate verdict" where
  "alu_step a st at wide op dst src =
     bindv (get_value st at dst) (\<lambda>d.
     bindv (source_value st at src wide) (\<lambda>s.
     bindv (alu_value at wide op dst d s) (\<lambda>v. set_in (touch_arena d a) st at dst v)))"

definition addr_space_cast :: "analysis \<Rightarrow> abs_state \<Rightarrow> nat \<Rightarrow> reg \<Rightarrow> reg \<Rightarrow> u16 \<Rightarrow> u16 \<Rightarrow> astate verdict" where
  "addr_space_cast a st at dst src dst_as src_as =
     (if \<not> (dst_as = 0 \<and> src_as = 1 \<or> dst_as = 1 \<and> src_as = 0) then Reject (BadAddrSpaceCast at dst_as src_as)
      else
        bindv (get_ptr st at src) (\<lambda>p.
          if pclass p \<noteq> Class_Arena then Reject (NotAPointer at (reg_usize src))
          else set_in (a\<lparr>uses_arena := True\<rparr>) st at dst (Ptr (p\<lparr>poff := Scalar_UNKNOWN\<rparr>))))"

subsection \<open>Memory\<close>

datatype resolved = Const int | StackRange int int | Opaque | TypedField

definition typed_field_load :: "env \<Rightarrow> analysis \<Rightarrow> nat \<Rightarrow> reg \<Rightarrow> ptr_val \<Rightarrow> scalar \<Rightarrow> size \<Rightarrow> bool \<Rightarrow> (analysis \<times> resolved) verdict" where
  "typed_field_load e a at r p addr sz write =
     (let mismatch = Reject (TypedFieldMismatch at (reg_usize r)) in
      if write then mismatch
      else if as_const (poff p) \<noteq> Some 0 then mismatch
      else
        (case as_const addr of
           None \<Rightarrow> mismatch
         | Some v \<Rightarrow>
             if v < 0 \<or> v \<ge> 2 ^ 32 then mismatch
             else if (case List.find (\<lambda>ob. od_key ob = pkey p) (pr_objects (e_prog e)) of
                        Some ob \<Rightarrow> \<exists>f \<in> set (od_fields ob). fld_offset f = nat v \<and> fld_size f = size_bytes sz
                      | None \<Rightarrow> False)
             then Accept (a\<lparr>typed_load_sites := typed_load_sites a @ [\<lparr>tsite_insn = at, tsite_offset = nat v, tsite_size = size_bytes sz\<rparr>]\<rparr>, TypedField)
             else mismatch))"

definition past_region :: "scalar \<Rightarrow> u64 \<Rightarrow> u64 \<Rightarrow> bool" where
  "past_region addr len region \<longleftrightarrow> smin addr < 0 \<or> saturating_add (as_u64 (smax addr)) len > region"

definition access_faulting ::
  "env \<Rightarrow> analysis \<Rightarrow> nat \<Rightarrow> reg \<Rightarrow> ptr_val \<Rightarrow> scalar \<Rightarrow> size \<Rightarrow> bool \<Rightarrow> nat option \<Rightarrow> (analysis \<times> resolved) verdict" where
  "access_faulting e a at r p addr sz write fault_dst =
     (if pclass p = Class_Object then Reject (OpaqueDeref at (reg_usize r))
      else if pclass p = Class_TraceObject then typed_field_load e a at r p addr sz write
      else if past_region addr (of_nat (size_bytes sz)) ARENA_WINDOW_BYTES then Reject (ArenaOutOfWindow at (reg_usize r))
      else Accept (a\<lparr>uses_arena := True,
             fault_sites := fault_sites a @ [\<lparr>fsite_insn = at, fsite_dst = fault_dst, fsite_arena = True\<rparr>]\<rparr>, Opaque))"

definition access_stack :: "analysis \<Rightarrow> nat \<Rightarrow> scalar \<Rightarrow> size \<Rightarrow> (analysis \<times> resolved) verdict" where
  "access_stack a at addr sz =
     (let lo = smin addr in
      case i64_checked_add (smax addr) (int (size_bytes sz)) of
        None \<Rightarrow> Reject (OutOfBounds at)
      | Some hi \<Rightarrow>
          if lo \<ge> 0 \<or> lo < - MAX_STACK_BYTES \<or> hi > 0 then Reject (OutOfBounds at)
          else Accept (a\<lparr>bare_access_sites := bare_access_sites a @ [at]\<rparr>,
                 case as_const addr of Some c \<Rightarrow> Const c | None \<Rightarrow> StackRange lo hi))"

definition access ::
  "env \<Rightarrow> analysis \<Rightarrow> abs_state \<Rightarrow> nat \<Rightarrow> reg \<Rightarrow> u16 \<Rightarrow> size \<Rightarrow> bool \<Rightarrow> nat option \<Rightarrow> (analysis \<times> resolved) verdict" where
  "access e a st at r o' sz write fault_dst =
     bindv (get_ptr st at r) (\<lambda>p.
       if pnullable p \<or> pclass p = Class_Null then Reject (PossiblyNull at (reg_usize r))
       else if write \<and> preadonly p then Reject (WriteToReadOnly at)
       else
         (let addr = scalar_add (poff p) (scalar_constant (sint o')) in
          if is_faulting (pclass p) then access_faulting e a at r p addr sz write fault_dst
          else if pclass p = Class_Stack then access_stack a at addr sz
          else
            (case psize p of
               None \<Rightarrow> Reject (OutOfBounds at)
             | Some region \<Rightarrow>
                 if past_region addr (of_nat (size_bytes sz)) region then Reject (OutOfBounds at)
                 else if pclass p = Class_Ctx
                 then (case as_const addr of
                         None \<Rightarrow> Reject (OutOfBounds at)
                       | Some c \<Rightarrow> Accept (a\<lparr>bare_access_sites := bare_access_sites a @ [at]\<rparr>, Const c))
                 else Accept (if pclass p = Class_Mem then a\<lparr>bare_access_sites := bare_access_sites a @ [at]\<rparr> else a, Opaque))))"

definition class_of_kind :: "ptr_kind \<Rightarrow> ptr_class" where
  "class_of_kind kd =
     (case kd of
        Kind_Object \<Rightarrow> Class_Object | Kind_TraceObject \<Rightarrow> Class_TraceObject | Kind_Mem \<Rightarrow> Class_Mem | Kind_MemEnd \<Rightarrow> Class_MemEnd
      | Kind_Arena \<Rightarrow> Class_Arena | Kind_Ctx \<Rightarrow> Class_Ctx | Kind_MapValue \<Rightarrow> Class_MapValue | Kind_LockGuard \<Rightarrow> Class_LockGuard)"

definition value_of :: "arg_desc \<Rightarrow> int \<Rightarrow> abs_value" where
  "value_of d ref_id =
     (case akind d of
        Type_Void \<Rightarrow> NotInit
      | Type_Scalar bits sg \<Rightarrow> Scalar (if sg then signed_bits (unat bits) else unsigned_bits (unat bits))
      | Type_Ptr kd key \<Rightarrow>
          Ptr \<lparr>pclass = class_of_kind kd, pkey = key, pdomain = adomain d, poff = scalar_constant 0,
               psize = (if kd = Kind_LockGuard then Some 0 else None), pnullable = has_flag d NULLABLE, pref_id = ref_id,
               preadonly = has_flag d READONLY\<rparr>)"

definition ctx_field :: "env \<Rightarrow> nat \<Rightarrow> int \<Rightarrow> size \<Rightarrow> abs_value verdict" where
  "ctx_field e at c sz =
     (if sz \<noteq> Size_Dw \<or> c smod 8 \<noteq> 0 then Reject (OutOfBounds at)
      else (case nth_opt (pr_ctx_fields (e_prog e)) (nat (c sdiv 8)) of
              None \<Rightarrow> Reject (OutOfBounds at)
            | Some f \<Rightarrow> Accept (value_of f NO_REF)))"

definition note_frame_depth :: "nat \<Rightarrow> analysis \<Rightarrow> analysis" where
  "note_frame_depth d a = a\<lparr>an_depth := (an_depth a)[an_current a := max (an_depth a ! an_current a) d]\<rparr>"

definition load_value :: "env \<Rightarrow> analysis \<Rightarrow> abs_state \<Rightarrow> nat \<Rightarrow> size \<Rightarrow> ptr_class \<Rightarrow> resolved \<Rightarrow> (analysis \<times> abs_value) verdict" where
  "load_value e a st at sz cls res =
     (let width = Scalar (unsigned_bits (size_bits sz)) in
      case (cls, res) of
        (Class_Stack, Const c) \<Rightarrow>
          if \<not> is_initialized (astack st) c (of_nat (size_bytes sz)) then Reject (UninitStack at c)
          else Accept (a, frame_read (astack st) c sz)
      | (Class_Stack, StackRange lo hi) \<Rightarrow>
          if \<not> is_initialized (astack st) lo (as_u64 (hi - lo)) then Reject (UninitStack at lo)
          else Accept (note_frame_depth (to_u32 (- lo)) a, width)
      | (Class_Ctx, Const c) \<Rightarrow> bindv (ctx_field e at c sz) (\<lambda>v. Accept (a, v))
      | _ \<Rightarrow> Accept (a, width))"

definition extend_loaded :: "size \<Rightarrow> bool \<Rightarrow> abs_value \<Rightarrow> abs_value verdict" where
  "extend_loaded sz sx v =
     (case v of Scalar s \<Rightarrow> if sx then or_panic (map_option Scalar (scalar_sign_extend s (size_bits sz))) else Accept v | _ \<Rightarrow> Accept v)"

definition load_step :: "env \<Rightarrow> analysis \<Rightarrow> abs_state \<Rightarrow> nat \<Rightarrow> size \<Rightarrow> bool \<Rightarrow> reg \<Rightarrow> reg \<Rightarrow> u16 \<Rightarrow> astate verdict" where
  "load_step e a st at sz sx dst src o' =
     bindv (get_ptr st at src) (\<lambda>p.
     bindv (access e a st at src o' sz False (Some (reg_usize dst))) (\<lambda>(a1, res).
     bindv (load_value e a1 st at sz (pclass p) res) (\<lambda>(a2, v).
     bindv (extend_loaded sz sx v) (\<lambda>v'. set_in a2 st at dst v'))))"

text \<open>What a store does to the frame, for \<open>store\<close> and \<open>atomic\<close>.\<close>

definition store_frame :: "analysis \<Rightarrow> abs_state \<Rightarrow> size \<Rightarrow> ptr_class \<Rightarrow> resolved \<Rightarrow> abs_value \<Rightarrow> astate" where
  "store_frame a st sz cls res v =
     (case (cls, res) of
        (Class_Stack, Const c) \<Rightarrow>
          (let s = frame_write c sz v (astack st) in (note_frame_depth (fdepth s) a, st\<lparr>astack := s\<rparr>))
      | (Class_Stack, StackRange lo hi) \<Rightarrow>
          (let s = write_maybe lo hi (astack st) in (note_frame_depth (fdepth s) a, st\<lparr>astack := s\<rparr>))
      | _ \<Rightarrow> (a, st))"

definition stored_value :: "size \<Rightarrow> abs_value \<Rightarrow> abs_value" where
  "stored_value sz v = (case v of Ptr p \<Rightarrow> if sz \<noteq> Size_Dw then UNKNOWN_SCALAR else v | _ \<Rightarrow> v)"

definition store_step :: "env \<Rightarrow> analysis \<Rightarrow> abs_state \<Rightarrow> nat \<Rightarrow> size \<Rightarrow> reg \<Rightarrow> u16 \<Rightarrow> source \<Rightarrow> astate verdict" where
  "store_step e a st at sz dst o' src =
     bindv (source_value st at src True) (\<lambda>v.
     bindv (get_ptr st at dst) (\<lambda>p.
     bindv (access e a st at dst o' sz True None) (\<lambda>(a1, res).
       Accept (store_frame a1 st sz (pclass p) res (stored_value sz v)))))"

definition writes_src :: "atomic_op \<Rightarrow> bool" where
  "writes_src op =
     (case op of
        Atomic_Add f \<Rightarrow> f | Atomic_Or f \<Rightarrow> f | Atomic_And f \<Rightarrow> f | Atomic_Xor f \<Rightarrow> f
      | Atomic_Xchg \<Rightarrow> True | Atomic_LoadAcquire \<Rightarrow> True | Atomic_Cmpxchg \<Rightarrow> False | Atomic_StoreRelease \<Rightarrow> False)"

definition atomic_step :: "env \<Rightarrow> analysis \<Rightarrow> abs_state \<Rightarrow> nat \<Rightarrow> size \<Rightarrow> atomic_op \<Rightarrow> reg \<Rightarrow> reg \<Rightarrow> u16 \<Rightarrow> astate verdict" where
  "atomic_step e a st at sz op dst src o' =
     bindv (get_scalar st at src) (\<lambda>_.
     bindv (if op = Atomic_Cmpxchg then bindv (get_scalar st at R0) (\<lambda>_. Accept ()) else Accept ()) (\<lambda>_.
     bindv (get_ptr st at dst) (\<lambda>p.
     bindv (access e a st at dst o' sz True None) (\<lambda>(a1, res).
       let width = Scalar (unsigned_bits (size_bits sz)); (a2, st1) = store_frame a1 st sz (pclass p) res width in
       bindv (if writes_src op then set_value st1 at src width else Accept st1) (\<lambda>st2.
       bindv (if op = Atomic_Cmpxchg then set_value st2 at R0 width else Accept st2) (\<lambda>st3. Accept (a2, st3)))))))"

subsection \<open>Calls between subprograms\<close>

text \<open>An argument as the callee sees it: a pointer into the caller's frame becomes a bounded region.\<close>

definition callee_arg :: "nat \<Rightarrow> abs_value \<Rightarrow> analysis \<times> bool \<Rightarrow> (abs_value \<times> analysis \<times> bool) verdict" where
  "callee_arg at v s =
     (case v of
        Ptr p \<Rightarrow>
          if pclass p = Class_Stack
          then (case as_const (poff p) of
                  None \<Rightarrow> Reject (OutOfBounds at)
                | Some o' \<Rightarrow>
                    let room = nat (max (signed_take_bit 63 (- o')) 0) in
                    if int room > MAX_STACK_BYTES then Reject (OutOfBounds at)
                    else Accept (Ptr (ptr_region Class_Mem (of_nat room)), note_frame_depth room (fst s), True))
          else Accept (v, s)
      | _ \<Rightarrow> Accept (v, s))"

fun callee_args :: "nat \<Rightarrow> abs_state \<Rightarrow> nat list \<Rightarrow> abs_value list \<times> analysis \<times> bool \<Rightarrow> (abs_value list \<times> analysis \<times> bool) verdict" where
  "callee_args at st [] s = Accept s"
| "callee_args at st (k # ks) (rs, s) =
     bindv (callee_arg at (aregs st ! k) s) (\<lambda>(v, s'). callee_args at st ks (rs[k := v], s'))"

definition clear_args :: "abs_value list \<Rightarrow> abs_value list" where
  "clear_args rs = fold (\<lambda>k rs. rs[k := NotInit]) [1, 2, 3, 4, 5] rs"

definition call_subprog :: "env \<Rightarrow> analysis \<Rightarrow> abs_state \<Rightarrow> nat \<Rightarrow> nat \<Rightarrow> int \<Rightarrow> astate verdict" where
  "call_subprog e a st at nxt o' =
     (let target = to_u32 (int nxt + o') in
      bindv (or_reject (position (\<lambda>s. entry_slot s = target) (ir_subprogs (e_ir e))) (Cfg (BadTarget at (int target)))) (\<lambda>callee.
      bindv (callee_args at st [1, 2, 3, 4, 5] ((replicate 11 NotInit)[10 := Ptr frame_pointer], a, False)) (\<lambda>(rs, a1, passed).
        let ent = \<lparr>aregs = rs, astack = frame_default, arefs = []\<rparr>;
            a2 = a1\<lparr>an_entry := (an_entry a1)[callee := Some (case an_entry a1 ! callee of None \<Rightarrow> ent | Some prev \<Rightarrow> state_join prev ent)]\<rparr>;
            st1 = (if passed then st\<lparr>astack := clobber (astack st)\<rparr> else st)
        in Accept (a2, st1\<lparr>aregs := clear_args ((aregs st1)[0 := UNKNOWN_SCALAR])\<rparr>))))"

subsection \<open>Calls to kernel functions\<close>

fun find_map :: "('a \<Rightarrow> 'b option) \<Rightarrow> 'a list \<Rightarrow> 'b option" where
  "find_map f [] = None"
| "find_map f (x # xs) = (case f x of Some y \<Rightarrow> Some y | None \<Rightarrow> find_map f xs)"

definition try_u32 :: "int \<Rightarrow> nat option" where
  "try_u32 v = (if 0 \<le> v \<and> v < 2 ^ 32 then Some (nat v) else None)"

definition arg_reg :: "nat \<Rightarrow> reg option" where
  "arg_reg k = reg_new (of_nat k + 1)"

definition arg_value :: "abs_state \<Rightarrow> nat \<Rightarrow> nat \<Rightarrow> abs_value option" where
  "arg_value st at k =
     (case arg_reg k of None \<Rightarrow> None | Some r \<Rightarrow> (case get_value st at r of Accept v \<Rightarrow> Some v | _ \<Rightarrow> None))"

definition object_field_matches :: "env \<Rightarrow> abs_state \<Rightarrow> nat \<Rightarrow> nat \<Rightarrow> kfunc_desc \<Rightarrow> scalar \<Rightarrow> bool" where
  "object_field_matches e st at field_arg desc offset =
     (case Option.bind (as_const offset) try_u32 of
        None \<Rightarrow> False
      | Some o' \<Rightarrow>
          (case find_map (\<lambda>i.
                  if \<not> has_flag (kargs desc ! i) ANY_TRACE_OBJECT then None
                  else case arg_value st at i of Some (Ptr p) \<Rightarrow> if pclass p = Class_TraceObject then Some p else None | _ \<Rightarrow> None)
                (rev [0..<field_arg]) of
             None \<Rightarrow> False
           | Some ob \<Rightarrow>
               (case find_map (\<lambda>i.
                       if \<not> has_flag (kargs desc ! i) SIZED_BY_NEXT then None
                       else case arg_value st at (i + 1) of Some (Scalar s) \<Rightarrow> Option.bind (as_const s) try_u32 | _ \<Rightarrow> None)
                     [0..<field_arg] of
                  None \<Rightarrow> False
                | Some width \<Rightarrow>
                    (case List.find (\<lambda>c. od_key c = pkey ob) (pr_objects (e_prog e)) of
                       Some od \<Rightarrow> \<exists>f \<in> set (od_fields od). fld_offset f = o' \<and> fld_size f = width
                     | None \<Rightarrow> False))))"

definition check_mem_arg :: "analysis \<Rightarrow> abs_state \<Rightarrow> nat \<Rightarrow> nat \<Rightarrow> kfunc_desc \<Rightarrow> ptr_val \<Rightarrow> astate verdict" where
  "check_mem_arg a st at k desc p =
     (let arg = kargs desc ! k; bad = Reject (KfuncSignature at k arg) in
      if \<not> has_flag arg SIZED_BY_NEXT then bad
      else
        (case arg_reg (k + 1) of
           None \<Rightarrow> bad
         | Some len_reg \<Rightarrow>
             bindv (get_value st at len_reg) (\<lambda>lv.
               case lv of
                 Scalar len \<Rightarrow>
                   (let len_max = snd (unsigned_bounds len); writes = has_flag arg UNINIT in
                    case pclass p of
                      Class_Stack \<Rightarrow>
                        (case as_const (poff p) of
                           None \<Rightarrow> Reject (OutOfBounds at)
                         | Some o' \<Rightarrow>
                             if o' \<ge> 0 \<or> o' < - MAX_STACK_BYTES \<or> o' + uint len_max > 0 then Reject (OutOfBounds at)
                             else if writes
                             then (let s = write_unspecified o' len_max (astack st)
                                   in Accept (note_frame_depth (fdepth s) a, st\<lparr>astack := s\<rparr>))
                             else if \<not> is_initialized (astack st) o' len_max then Reject (UninitStack at o')
                             else Accept (a, st))
                    | Class_Arena \<Rightarrow>
                        if past_region (poff p) len_max ARENA_WINDOW_BYTES then Reject (OutOfBounds at)
                        else if writes \<and> preadonly p then Reject (WriteToReadOnly at)
                        else Accept (a\<lparr>uses_arena := True\<rparr>, st)
                    | cls \<Rightarrow>
                        if cls = Class_Mem \<or> cls = Class_MapValue \<or> cls = Class_Ctx
                        then (case psize p of
                                None \<Rightarrow> Reject (OutOfBounds at)
                              | Some sz \<Rightarrow>
                                  if past_region (poff p) len_max sz then Reject (OutOfBounds at)
                                  else if writes \<and> preadonly p then Reject (WriteToReadOnly at)
                                  else Accept (a, st))
                        else bad)
               | _ \<Rightarrow> bad)))"

text \<open>A pointer argument: lifetime, kind, offset or extent, then the release of a linear value.\<close>

definition check_ptr_arg :: "analysis \<Rightarrow> abs_state \<Rightarrow> nat \<Rightarrow> nat \<Rightarrow> kfunc_desc \<Rightarrow> reg \<Rightarrow> ptr_kind \<Rightarrow> type_key \<Rightarrow> ptr_val \<Rightarrow> astate verdict" where
  "check_ptr_arg a st at k desc r kd key p =
     (let arg = kargs desc ! k; bad = Reject (KfuncSignature at k arg) in
      if pnullable p \<and> \<not> has_flag arg NULLABLE then Reject (PossiblyNull at (reg_usize r))
      else if kmay_suspend desc \<and> \<not> survives_await (pdomain p) then Reject (PointerCrossesAwait at (reg_usize r) (pdomain p))
      else if weaker_domain (pdomain p) (adomain arg) \<noteq> adomain arg then bad
      else
        bindv (if kd = Kind_Mem \<and> consumes_in_arg_position arg
               then (if pclass p \<noteq> Class_Mem \<or> as_const (poff p) \<noteq> Some 0 then bad else Accept (a, st))
               else if kd = Kind_Mem then check_mem_arg a st at k desc p
               else if pclass p \<noteq> class_of_kind kd
                    \<or> (case kd of
                         Kind_Object \<Rightarrow> pkey p \<noteq> key
                       | Kind_LockGuard \<Rightarrow> pkey p \<noteq> key
                       | Kind_TraceObject \<Rightarrow> \<not> has_flag arg ANY_TRACE_OBJECT \<and> pkey p \<noteq> key
                       | _ \<Rightarrow> False) then bad
               else if as_const (poff p) \<noteq> Some 0 then bad
               else Accept (a, st))
          (\<lambda>(a1, st1).
            let a2 = touch_arena (Ptr p) a1 in
            if consumes_in_arg_position arg
            then (let (st2, was_held) = release (pref_id p) st1 in
                  if pref_id p = NO_REF \<or> \<not> was_held then Reject (ReleaseOfUnacquired at (reg_usize r))
                  else Accept (a2, kill_ref (pref_id p) st2))
            else Accept (a2, st1)))"

definition check_arg :: "env \<Rightarrow> nat \<Rightarrow> kfunc_desc \<Rightarrow> nat \<Rightarrow> astate \<Rightarrow> astate verdict" where
  "check_arg e at desc k s =
     (let (a, st) = s; arg = kargs desc ! k; bad = Reject (KfuncSignature at k arg) in
      bindv (or_panic (arg_reg k)) (\<lambda>r.
      bindv (get_value st at r) (\<lambda>v.
        case (akind arg, v) of
          (Type_Scalar _ _, Scalar x) \<Rightarrow>
            if has_flag arg CONST_ARG \<and> as_const x = None then bad
            else if has_flag arg OBJECT_FIELD_OFFSET \<and> \<not> object_field_matches e st at k desc x then bad
            else Accept (a, st)
        | (Type_Ptr kd key, Ptr p) \<Rightarrow> check_ptr_arg a st at k desc r kd key p
        | (Type_Ptr _ _, Scalar x) \<Rightarrow> if has_flag arg NULLABLE \<and> as_const x = Some 0 then Accept (a, st) else bad
        | _ \<Rightarrow> bad)))"

definition check_args :: "env \<Rightarrow> nat \<Rightarrow> kfunc_desc \<Rightarrow> astate \<Rightarrow> astate verdict" where
  "check_args e at desc s = foldv (check_arg e at desc) [0..<length (kargs desc)] s"

definition acquired_mem_size :: "abs_state \<Rightarrow> nat \<Rightarrow> kfunc_desc \<Rightarrow> u64 option verdict" where
  "acquired_mem_size st at desc =
     (if \<not> (is_ptr_kind Kind_Mem (akind (kret desc)) \<and> consumes_in_arg_position (kret desc)) then Accept None
      else
        bindv (or_reject (position (\<lambda>x. has_flag x CONST_ARG) (kargs desc)) (KfuncSignature at 0 (kret desc))) (\<lambda>idx.
          let sig_err = KfuncSignature at idx (kret desc) in
          bindv (or_reject (arg_reg idx) sig_err) (\<lambda>r.
          bindv (get_value st at r) (\<lambda>v.
            case v of
              Scalar x \<Rightarrow> bindv (or_reject (as_const x) sig_err) (\<lambda>c. Accept (Some (as_u64 c)))
            | _ \<Rightarrow> Reject sig_err))))"

definition stamp_size :: "u64 option \<Rightarrow> abs_value \<Rightarrow> abs_value" where
  "stamp_size sz v = (case (v, sz) of (Ptr p, Some n) \<Rightarrow> Ptr (p\<lparr>psize := Some n\<rparr>) | _ \<Rightarrow> v)"

text \<open>The await point of a call, and the value it returns.\<close>

definition await_call :: "env \<Rightarrow> nat \<Rightarrow> nat \<Rightarrow> kfunc_desc \<Rightarrow> abs_state \<Rightarrow> abs_state verdict" where
  "await_call e at i desc st =
     (if kcontext desc = Sleepable_ctx
      then (let (st', killed) = kill_at_await st in
            case List.find (\<lambda>(r, d). after_has (e_live e) i r) killed of
              Some (r, d) \<Rightarrow> Reject (PointerCrossesAwait at r d)
            | None \<Rightarrow> Accept st')
      else Accept st)"

definition return_value :: "nat \<Rightarrow> nat \<Rightarrow> kfunc_desc \<Rightarrow> u64 option \<Rightarrow> abs_state \<Rightarrow> abs_state verdict" where
  "return_value at i desc sz st =
     (let ret = kret desc; is_lock = is_ptr_kind Kind_LockGuard (akind ret) in
      bindv (if consumes_in_arg_position ret
             then (if is_lock \<and> live_locks st \<ge> 1 then Reject (TooManyLocks at)
                   else Accept (acquire \<lparr>rid = int i, ris_lock = is_lock, rdomain = adomain ret\<rparr> st, int i))
             else Accept (st, NO_REF))
        (\<lambda>(st', ret_ref). Accept (st'\<lparr>aregs := (aregs st')[0 := stamp_size sz (value_of ret ret_ref)]\<rparr>)))"

definition call_kfunc :: "env \<Rightarrow> analysis \<Rightarrow> abs_state \<Rightarrow> nat \<Rightarrow> nat \<Rightarrow> int \<Rightarrow> astate verdict" where
  "call_kfunc e a st at i k =
     bindv (or_reject (List.find (\<lambda>d. kid d = k) (pr_kfuncs (e_prog e))) (UnknownKfunc at k)) (\<lambda>desc.
       if \<not> permits (pr_context (e_prog e)) (kcontext desc) then Reject (ContextMismatch at (kcontext desc) (pr_context (e_prog e)))
       else
         bindv (check_args e at desc (a, st)) (\<lambda>(a1, st1).
         bindv (acquired_mem_size st1 at desc) (\<lambda>sz.
           let a2 = a1\<lparr>kfunc_calls := kfunc_calls a1 @ [\<lparr>csite_insn = at, csite_id = kid desc, csite_addr = kaddr desc,
                       csite_may_suspend = kmay_suspend desc, csite_context = kcontext desc\<rparr>]\<rparr> in
           bindv (await_call e at i desc st1) (\<lambda>st2.
           bindv (return_value at i desc sz (st2\<lparr>aregs := clear_args (aregs st2)\<rparr>)) (\<lambda>st3.
             Accept (a2, if \<exists>x \<in> set (kargs desc). is_ptr_kind Kind_Ctx (akind x) then invalidate_packet_bounds st3 else st3))))))"

subsection \<open>Exit and branches\<close>

definition check_exit :: "abs_state \<Rightarrow> nat \<Rightarrow> unit verdict" where
  "check_exit st at =
     (case arefs st of
        r # _ \<Rightarrow> Reject (LeakedReference at (case position (ptr_such (\<lambda>p. pref_id p = rid r)) (aregs st) of Some i \<Rightarrow> i | None \<Rightarrow> 0))
      | [] \<Rightarrow>
          (case aregs st ! 0 of
             NotInit \<Rightarrow> Reject (UninitRegister at 0)
           | Ptr _ \<Rightarrow> Reject (PointerArithmetic at 0)
           | Scalar _ \<Rightarrow> Accept ()))"

text \<open>A comparison of a packet pointer with its end; \<open>None\<close> when the operands are no such pair.\<close>

definition dynamic_pair :: "pred \<Rightarrow> ptr_val \<Rightarrow> ptr_val \<Rightarrow> (ptr_val \<times> ptr_val \<times> pred) option" where
  "dynamic_pair pr dp sp =
     (if pclass dp = Class_Mem \<and> pclass sp = Class_MemEnd then Some (dp, sp, pr)
      else if pclass dp = Class_MemEnd \<and> pclass sp = Class_Mem then Some (sp, dp, swap_operands pr)
      else None)"

definition extent_limit :: "pred \<Rightarrow> ptr_val \<Rightarrow> u64 option" where
  "extent_limit relation mem =
     (case as_const (poff mem) of
        None \<Rightarrow> None
      | Some o' \<Rightarrow>
          if o' < 0 then None
          else if relation = Pred_Eq \<or> relation = Pred_Le then Some (as_u64 o')
          else if relation = Pred_Lt then checked_add (as_u64 o') 1
          else None)"

fun publish_extent :: "type_key \<Rightarrow> u64 \<Rightarrow> abs_value \<Rightarrow> abs_value" where
  "publish_extent key limit (Ptr p) =
     Ptr (if pclass p = Class_Mem \<and> pkey p = key
          then p\<lparr>psize := Some (case psize p of None \<Rightarrow> limit | Some n \<Rightarrow> max n limit)\<rparr> else p)"
| "publish_extent key limit v = v"

definition refine_packet :: "abs_state \<Rightarrow> ptr_val \<times> ptr_val \<times> pred \<Rightarrow> abs_state" where
  "refine_packet st t =
     (let (mem, fin, relation) = t in
      if key_is_some (pkey mem) \<and> pkey mem = pkey fin
      then (case extent_limit relation mem of
              Some limit \<Rightarrow> st\<lparr>aregs := map (publish_extent (pkey mem) limit) (aregs st)\<rparr>
            | None \<Rightarrow> st)
      else st)"

text \<open>A null test of a pointer; the inner \<open>None\<close> is an infeasible edge.\<close>

definition refine_null :: "abs_state \<Rightarrow> bool \<Rightarrow> pred \<Rightarrow> reg \<Rightarrow> ptr_val \<Rightarrow> scalar \<Rightarrow> abs_state option" where
  "refine_null st wide pr dst p z =
     (if wide \<and> as_const z = Some 0 \<and> (pr = Pred_Eq \<or> pr = Pred_Ne)
      then (if pr = Pred_Eq
            then (if \<not> pnullable p then None
                  else (let st1 = st\<lparr>aregs := (aregs st)[reg_usize dst := Scalar (scalar_constant 0)]\<rparr>
                        in Some (if pref_id p \<noteq> NO_REF then fst (release (pref_id p) st1) else st1)))
            else Some (st\<lparr>aregs := (aregs st)[reg_usize dst := Ptr (p\<lparr>pnullable := False\<rparr>)]\<rparr>))
      else Some st)"

definition refine_regs :: "abs_state \<Rightarrow> reg \<Rightarrow> source \<Rightarrow> scalar \<Rightarrow> scalar \<Rightarrow> abs_state" where
  "refine_regs st dst src na nb =
     (let rs = (aregs st)[reg_usize dst := Scalar na] in
      st\<lparr>aregs := (case src of
           SrcReg sr \<Rightarrow> if \<not> is_frame_ptr sr \<and> sr \<noteq> dst then rs[reg_usize sr := Scalar nb] else rs
         | Imm _ \<Rightarrow> rs)\<rparr>)"

definition refine :: "abs_state \<Rightarrow> nat \<Rightarrow> bool \<Rightarrow> pred \<Rightarrow> reg \<Rightarrow> source \<Rightarrow> abs_state option verdict" where
  "refine st at wide pr dst src =
     bindv (get_value st at dst) (\<lambda>d.
     bindv (source_value st at src wide) (\<lambda>s.
       Accept
         (case (d, s) of
            (Ptr dp, Ptr sp) \<Rightarrow>
              (case (if wide then dynamic_pair pr dp sp else None) of
                 Some t \<Rightarrow> Some (refine_packet st t)
               | None \<Rightarrow> Some st)
          | (Ptr p, Scalar z) \<Rightarrow> refine_null st wide pr dst p z
          | (Scalar x, Scalar y) \<Rightarrow>
              if \<not> refinable wide pr x \<or> \<not> refinable wide pr y then Some st
              else map_option (\<lambda>(na, nb). refine_regs st dst src na nb) (refine_scalars wide pr x y)
          | _ \<Rightarrow> Some st)))"

subsection \<open>The transfer function\<close>

definition imm64_value :: "env \<Rightarrow> nat \<Rightarrow> imm64 \<Rightarrow> abs_value verdict" where
  "imm64_value e at v =
     (case v of
        Value w \<Rightarrow> Accept (Scalar (scalar_constant (sint w)))
      | MapFd fd \<Rightarrow> bindv (map_by_fd e at (sint fd)) (\<lambda>d. Accept map_handle)
      | MapIdx idx \<Rightarrow> bindv (map_by_idx e at (sint idx)) (\<lambda>d. Accept map_handle)
      | MapValue fd value_offset \<Rightarrow> bindv (map_by_fd e at (sint fd)) (\<lambda>d. map_value_ptr at d (sint value_offset))
      | MapIdxValue idx value_offset \<Rightarrow> bindv (map_by_idx e at (sint idx)) (\<lambda>d. map_value_ptr at d (sint value_offset))
      | BtfId _ \<Rightarrow> Reject (NotImplemented ''kernel-variable addresses need a type registry in Program'')
      | SubprogAddr _ \<Rightarrow> Reject (NotImplemented ''callback subprogram addresses need a callback-typed kfunc argument''))"

definition mov_abs :: "bool \<Rightarrow> u8 option \<Rightarrow> abs_value \<Rightarrow> abs_value verdict" where
  "mov_abs wide sx v =
     (case v of
        Ptr p \<Rightarrow> Accept (if wide \<and> sx = None then Ptr p else UNKNOWN_SCALAR)
      | Scalar s \<Rightarrow> or_panic (map_option Scalar (mov_op wide sx s))
      | NotInit \<Rightarrow> Accept NotInit)"

definition abs_step :: "env \<Rightarrow> nat \<Rightarrow> astate \<Rightarrow> astate verdict" where
  "abs_step e i s =
     (let (a, st) = s; insn = ir_insns (e_ir e) ! i; at = islot insn in
      case iop insn of
        Alu wide op dst src \<Rightarrow> alu_step a st at wide op dst src
      | Neg wide dst \<Rightarrow> bindv (get_scalar st at dst) (\<lambda>d. set_in a st at dst (Scalar (neg_op wide d)))
      | Mov wide dst src sx \<Rightarrow>
          bindv (source_value st at src wide) (\<lambda>v. bindv (mov_abs wide sx v) (\<lambda>out. set_in a st at dst out))
      | Div wide sg dst src \<Rightarrow>
          bindv (get_scalar st at dst) (\<lambda>d. bindv (scalar_source st at src wide) (\<lambda>x. set_in a st at dst (Scalar (div_op wide sg d x))))
      | Mod wide sg dst src \<Rightarrow>
          bindv (get_scalar st at dst) (\<lambda>d. bindv (scalar_source st at src wide) (\<lambda>x. set_in a st at dst (Scalar (mod_op wide sg d x))))
      | End dst ord width \<Rightarrow> bindv (get_scalar st at dst) (\<lambda>d. set_in a st at dst (Scalar (end_op ord width d)))
      | AddrSpaceCast dst src dst_as src_as \<Rightarrow> addr_space_cast a st at dst src dst_as src_as
      | Load sz sx dst src o' \<Rightarrow> load_step e a st at sz sx dst src o'
      | Store sz dst o' src \<Rightarrow> store_step e a st at sz dst o' src
      | Atomic sz op dst src o' \<Rightarrow> atomic_step e a st at sz op dst src o'
      | LoadImm64 dst value \<Rightarrow> bindv (imm64_value e at value) (\<lambda>v. set_in a st at dst v)
      | Call (Subprog o') \<Rightarrow> call_subprog e a st at (next_slot insn) (sint o')
      | Call (Kfunc k) \<Rightarrow> call_kfunc e a st at i (sint k)
      | Exit \<Rightarrow> bindv (check_exit st at) (\<lambda>_. Accept (a, st))
      | _ \<Rightarrow> Accept (a, st))"

subsection \<open>Blocks\<close>

definition block_at_slot :: "env \<Rightarrow> nat \<Rightarrow> int \<Rightarrow> nat verdict" where
  "block_at_slot e nxt o' =
     (let target = unat (as_u64 (int nxt + o')) in
      bindv (or_panic (Option.bind (nth_opt (ir_of_slot (e_ir e)) target) id)) (\<lambda>i. or_panic (nth_opt (ir_block_of (e_ir e)) i)))"

definition edge :: "nat \<Rightarrow> abs_state option \<Rightarrow> (nat \<times> abs_state) list" where
  "edge b r = (case r of Some s \<Rightarrow> [(b, s)] | None \<Rightarrow> [])"

definition walk_block :: "env \<Rightarrow> nat \<Rightarrow> astate \<Rightarrow> (analysis \<times> (nat \<times> abs_state) list) verdict" where
  "walk_block e b s =
     (let blk = ir_blocks (e_ir e) ! b; last = bend blk - 1; insn = ir_insns (e_ir e) ! last; at = islot insn in
      bindv (foldv (abs_step e) [bstart blk..<last] s) (\<lambda>(a, st).
        case iop insn of
          Exit \<Rightarrow> bindv (check_exit st at) (\<lambda>_. Accept (a, []))
        | JumpCond wide op dst src o' \<Rightarrow>
            bindv (block_at_slot e (next_slot insn) (sint o')) (\<lambda>taken.
            bindv (block_at_slot e (next_slot insn) 0) (\<lambda>fall.
            bindv (refine st at wide (pred_of op) dst src) (\<lambda>t.
            bindv (refine st at wide (negate (pred_of op)) dst src) (\<lambda>f.
              Accept (a, edge taken t @ edge fall f)))))
        | MayGoto o' \<Rightarrow>
            bindv (block_at_slot e (next_slot insn) (sint o')) (\<lambda>taken.
            bindv (block_at_slot e (next_slot insn) 0) (\<lambda>fall. Accept (a, [(taken, st), (fall, st)])))
        | _ \<Rightarrow> bindv (abs_step e last (a, st)) (\<lambda>(a', st'). Accept (a', map (\<lambda>t. (t, st')) (bsuccs blk)))))"

subsection \<open>The worklist\<close>

definition fixpoint_round_budget :: "nat \<Rightarrow> u64" where
  "fixpoint_round_budget blocks = max (saturating_mul (of_nat blocks) 512) 16384"

record worklist =
  in_state :: "abs_state option list"
  pending :: "nat list"
  queued :: "bool list"

definition merge_into :: "env \<Rightarrow> nat \<Rightarrow> abs_state option \<Rightarrow> abs_state \<Rightarrow> abs_state \<times> bool" where
  "merge_into e succ cur st =
     (case cur of
        None \<Rightarrow> (st, True)
      | Some old \<Rightarrow>
          let m = (if ir_widen (e_ir e) ! succ
                   then state_widen (ir_thresholds (e_ir e)) (before (e_prec e) ! bstart (ir_blocks (e_ir e) ! succ)) old st
                   else state_join old st)
          in (m, \<not> state_is_subset_of m old))"

definition propagate :: "env \<Rightarrow> bool list \<Rightarrow> nat \<times> abs_state \<Rightarrow> worklist \<Rightarrow> worklist" where
  "propagate e reach out w =
     (let (succ, st) = out in
      if \<not> reach ! succ then w
      else
        (let (merged, changed) = merge_into e succ (in_state w ! succ) st in
         if changed
         then (let w' = w\<lparr>in_state := (in_state w)[succ := Some merged]\<rparr> in
               if queued w ! succ then w'
               else w'\<lparr>pending := succ # pending w, queued := (queued w)[succ := True]\<rparr>)
         else w))"

text \<open>The loop, with the rounds it has made so far; a \<open>Vec\<close> used as a stack has its top at the head.\<close>

function worklist_loop :: "env \<Rightarrow> nat \<Rightarrow> bool list \<Rightarrow> int \<Rightarrow> int \<Rightarrow> analysis \<Rightarrow> worklist \<Rightarrow> (analysis \<times> worklist) verdict" where
  "worklist_loop e sp reach budget rounds a w =
     (case pending w of
        [] \<Rightarrow> Accept (a, w)
      | b # rest \<Rightarrow>
          if rounds + 1 > budget then Reject (FixpointDiverged sp (rounds + 1))
          else
            (let w1 = w\<lparr>pending := rest, queued := (queued w)[b := False]\<rparr> in
             case in_state w1 ! b of
               None \<Rightarrow> worklist_loop e sp reach budget (rounds + 1) a w1
             | Some start \<Rightarrow>
                 (case walk_block e b (a, start) of
                    Panic \<Rightarrow> Panic
                  | Reject err \<Rightarrow> Reject err
                  | Accept (a', outs) \<Rightarrow> worklist_loop e sp reach budget (rounds + 1) a' (fold (propagate e reach) outs w1))))"
  by pat_completeness auto
termination
  by (relation "measure (\<lambda>(e, sp, reach, budget, rounds, a, w). nat (budget - rounds))") auto

definition graph_of :: "full_ir \<Rightarrow> ir" where
  "graph_of r = ir.truncate r"

definition analyse_subprog :: "env \<Rightarrow> nat \<Rightarrow> abs_state \<Rightarrow> analysis \<Rightarrow> (analysis \<times> worklist) verdict" where
  "analyse_subprog e sp entry a =
     (let r = e_ir e; n = length (ir_blocks r); eb = entry_block (ir_subprogs r ! sp) in
      bindv (or_panic (reachable_blocks (graph_of r) (Some eb))) (\<lambda>reach.
        worklist_loop e sp reach (uint (fixpoint_round_budget n)) 0 a
          \<lparr>in_state = (replicate n None)[eb := Some entry], pending = [eb], queued = (replicate n False)[eb := True]\<rparr>))"

subsection \<open>The result\<close>

record verified_program =
  vp_insns :: "insn list"
  vp_context :: exec_context
  vp_max_stack_bytes :: nat
  vp_initial_fuel :: u64
  vp_fault_sites :: "fault_site list"
  vp_bare_access_sites :: "nat list"
  vp_typed_load_sites :: "typed_load_site list"
  vp_subprogs :: "(nat \<times> nat) list"
  vp_uses_arena :: bool
  vp_kfunc_calls :: "kfunc_call_site list"

definition align8 :: "nat \<Rightarrow> nat" where
  "align8 n = (n + 7) div 8 * 8"

definition analyse_in_order :: "env \<Rightarrow> nat \<Rightarrow> analysis \<Rightarrow> analysis verdict" where
  "analyse_in_order e sp a =
     (case an_entry a ! sp of
        None \<Rightarrow> Accept a
      | Some entry \<Rightarrow> bindv (analyse_subprog e sp entry (a\<lparr>an_current := sp\<rparr>)) (\<lambda>(a', w). Accept a'))"

text \<open>Sums over the call graph, callees before callers.\<close>

definition over_callees :: "subprog list \<Rightarrow> nat list \<Rightarrow> (nat \<Rightarrow> nat \<Rightarrow> nat) \<Rightarrow> nat list \<Rightarrow> nat list" where
  "over_callees sps order f init = fold (\<lambda>sp t. t[sp := f sp (Max (insert 0 ((!) t ` set (callees (sps ! sp)))))]) (rev order) init"

fun dedup_by_key :: "('a \<Rightarrow> nat) \<Rightarrow> 'a list \<Rightarrow> 'a list" where
  "dedup_by_key key (x # y # xs) = (if key x = key y then dedup_by_key key (x # xs) else x # dedup_by_key key (y # xs))"
| "dedup_by_key key xs = xs"

definition by_site :: "('a \<Rightarrow> nat) \<Rightarrow> 'a list \<Rightarrow> 'a list" where
  "by_site key xs = dedup_by_key key (sort_key key xs)"

definition cfg_verdict :: "('a, cfg_error) result option \<Rightarrow> 'a verdict" where
  "cfg_verdict r = (case r of None \<Rightarrow> Panic | Some (Err e) \<Rightarrow> Reject (Cfg e) | Some (Ok x) \<Rightarrow> Accept x)"

definition start_analysis :: "nat \<Rightarrow> u64 \<Rightarrow> analysis" where
  "start_analysis n ctx_size = \<lparr>fault_sites = [], bare_access_sites = [], typed_load_sites = [], kfunc_calls = [], uses_arena = False,
     an_entry = (replicate n None)[0 := Some (entry_state ctx_size)], an_depth = replicate n 0, an_current = 0\<rparr>"

definition run_verifier :: "program \<Rightarrow> verified_program verdict" where
  "run_verifier prog =
     bindv (cfg_verdict (build_ir (pr_insns prog))) (\<lambda>r.
     bindv (cfg_verdict (topological_order (graph_of r))) (\<lambda>order.
     bindv (or_panic (liveness (graph_of r))) (\<lambda>live_masks.
     bindv (or_panic (precision (graph_of r))) (\<lambda>prec_masks.
       let e = \<lparr>e_ir = r, e_prog = prog, e_live = live_masks, e_prec = prec_masks\<rparr>;
           sps = ir_subprogs r; n = length sps;
           ctx_size = of_nat (length (pr_ctx_fields prog)) * 8
       in bindv (foldv (analyse_in_order e) order (start_analysis n ctx_size)) (\<lambda>a.
            let total = over_callees sps order (\<lambda>sp callee_max. align8 (an_depth a ! sp) + callee_max) (replicate n 0);
                depth = over_callees sps order (\<lambda>sp callee_max. 1 + callee_max) (replicate n 1)
            in if depth ! 0 > MAX_CALL_DEPTH then Reject (CallDepth (depth ! 0) MAX_CALL_DEPTH)
               else if int (total ! 0) > MAX_STACK_BYTES then Reject (StackTooDeep (total ! 0) (nat MAX_STACK_BYTES))
               else Accept
                 \<lparr>vp_insns = pr_insns prog, vp_context = pr_context prog, vp_max_stack_bytes = total ! 0, vp_initial_fuel = DEFAULT_FUEL,
                  vp_fault_sites = by_site fsite_insn (fault_sites a), vp_bare_access_sites = by_site id (bare_access_sites a),
                  vp_typed_load_sites = by_site tsite_insn (typed_load_sites a),
                  vp_subprogs = map (\<lambda>i. (entry_slot (sps ! i), align8 (an_depth a ! i))) [0..<n],
                  vp_uses_arena = uses_arena a, vp_kfunc_calls = by_site csite_insn (kfunc_calls a)\<rparr>)))))"

definition bad_object :: "object_desc list \<Rightarrow> nat \<Rightarrow> bool" where
  "bad_object obs i =
     (let ob = obs ! i in
      \<not> key_is_some (od_key ob) \<or> od_size ob = 0
      \<or> (\<exists>f \<in> set (od_fields ob). fld_size f = 0 \<or> fld_offset f + fld_size f > od_size ob)
      \<or> (\<exists>earlier \<in> set (take i obs). od_key earlier = od_key ob))"

definition verify :: "program \<Rightarrow> verified_program verdict" where
  "verify prog =
     (if pr_insns prog = [] then Reject (Cfg Empty)
      else
        bindv (foldv (\<lambda>k _. case validate k of Err err \<Rightarrow> Reject (KfuncDescriptor err) | Ok _ \<Rightarrow> Accept ()) (pr_kfuncs prog) ()) (\<lambda>_.
        bindv (foldv (\<lambda>i _. case validate_type (pr_ctx_fields prog ! i) (int i) of Err err \<Rightarrow> Reject (BadCtxField i err) | Ok _ \<Rightarrow> Accept ())
                 [0..<length (pr_ctx_fields prog)] ()) (\<lambda>_.
        bindv (foldv (\<lambda>i _. if bad_object (pr_objects prog) i then Reject (BadObjectDescriptor i) else Accept ())
                 [0..<length (pr_objects prog)] ()) (\<lambda>_. run_verifier prog))))"

end
