(* ===== verification/Bpf_Wellformed.thy ===== *)
theory Bpf_Wellformed
  imports Bpf_Verifier Bpf_Subprog
begin

text \<open>
  The analysis keeps its abstract states well formed, whatever the program does: unknown bits hold zero, interval ends lie
  in \<open>i64\<close>, there are eleven registers and \<open>R10\<close> is the frame pointer. The scalar operations of \<open>domain.rs\<close> keep their part of it on any
  operands, also on operands that contain no value at all, as the states of dead code may.
\<close>

subsection \<open>Scalars\<close>

named_theorems scalar_closed

lemma scalar_okI: "tnum_ok t \<Longrightarrow> I64_MIN \<le> lo \<Longrightarrow> lo \<le> I64_MAX \<Longrightarrow> I64_MIN \<le> hi \<Longrightarrow> hi \<le> I64_MAX \<Longrightarrow>
    scalar_ok \<lparr>stnum = t, smin = lo, smax = hi\<rparr>"
  by (simp add: scalar_ok_def in_range_def)

lemma scalar_okD: "scalar_ok s \<Longrightarrow> tnum_ok (stnum s)" "scalar_ok s \<Longrightarrow> I64_MIN \<le> smin s" "scalar_ok s \<Longrightarrow> smin s \<le> I64_MAX"
    "scalar_ok s \<Longrightarrow> I64_MIN \<le> smax s" "scalar_ok s \<Longrightarrow> smax s \<le> I64_MAX"
  by (auto simp: scalar_ok_def in_range_def)

lemma i64_ends [simp]: "I64_MIN \<le> I64_MAX" "I64_MIN \<le> 0" "0 \<le> I64_MAX"
  by (simp_all add: I64_MIN_def I64_MAX_def)

lemma normalize_ok: "scalar_ok s \<Longrightarrow> normalize s = Some s' \<Longrightarrow> scalar_ok s'"
  using normalize_exact [of s] by simp

lemma normalized_mk_ok: "tnum_ok t \<Longrightarrow> I64_MIN \<le> lo \<Longrightarrow> lo \<le> I64_MAX \<Longrightarrow> I64_MIN \<le> hi \<Longrightarrow> hi \<le> I64_MAX \<Longrightarrow>
    scalar_ok (normalized \<lparr>stnum = t, smin = lo, smax = hi\<rparr>)"
  by (intro normalized_ok scalar_okI)

lemma scalar_of_ok: "tnum_ok t \<Longrightarrow> I64_MIN \<le> fst b \<Longrightarrow> fst b \<le> I64_MAX \<Longrightarrow> I64_MIN \<le> snd b \<Longrightarrow> snd b \<le> I64_MAX \<Longrightarrow>
    scalar_ok (scalar_of t b)"
  unfolding scalar_of_def by (rule normalized_mk_ok)

lemma scalar_of_cut_ok: "tnum_ok t \<Longrightarrow> scalar_ok (scalar_of t (in_i64 lo hi))"
  using in_i64_range [of lo hi] by (intro scalar_of_ok) auto

lemma constant_ok: "I64_MIN \<le> c \<Longrightarrow> c \<le> I64_MAX \<Longrightarrow> scalar_ok (scalar_constant c)"
  unfolding scalar_constant_def by (rule scalar_okI) auto

lemma constant_cases_ok [scalar_closed]:
  "scalar_ok (scalar_constant (sint (w :: u64)))" "scalar_ok (scalar_constant (sint (k :: u32)))" "scalar_ok (scalar_constant (uint (k :: u32)))"
  "scalar_ok (scalar_constant (sint (h :: u16)))" "scalar_ok (scalar_constant 0)"
  using i64_bounds [of w] sint_greater_eq [of k] sint_lt [of k] uint_lt2p [of k] sint_greater_eq [of h] sint_lt [of h]
  by (auto intro!: constant_ok intro: order_trans [OF _ uint_ge_0] simp: I64_MIN_def I64_MAX_def)

lemma arith_closed [scalar_closed]:
  "scalar_ok (scalar_add a b)" "scalar_ok (scalar_sub a b)" "scalar_ok (scalar_mul a b)" "scalar_ok (scalar_neg a)"
  by (auto simp: scalar_add_def scalar_sub_def scalar_mul_def scalar_neg_def interval_add_def interval_neg_def interval_mul_def Let_def
      case_prod_beta intro!: scalar_of_cut_ok tnum_ok_ops)

lemma bitwise_closed [scalar_closed]: "scalar_ok (scalar_and a b)" "scalar_ok (scalar_or a b)" "scalar_ok (scalar_xor a b)"
  by (auto simp: scalar_and_def scalar_or_def scalar_xor_def intro!: scalar_of_ok tnum_ok_arith)

lemma drop_bit_range: "I64_MIN \<le> k \<Longrightarrow> k \<le> I64_MAX \<Longrightarrow> I64_MIN \<le> drop_bit n k \<and> drop_bit n k \<le> I64_MAX"
  using drop_bit_i64 [of k n] by blast

lemma shift_closed [scalar_closed]:
  assumes "scalar_ok a"
  shows "scalar_ok (scalar_shl a b)" "scalar_ok (scalar_shr a b)" "scalar_ok (scalar_sar a b)"
  using assms scalar_okD [OF assms] drop_bit_range [of "smin a"] drop_bit_range [of "smax a"] i64_bounds
  by (auto simp: scalar_shl_def scalar_shr_def scalar_sar_def split: option.splits intro!: scalar_of_ok tnum_ok_shift)

lemma range_closed [scalar_closed]: "scalar_ok (from_unsigned_range lo hi)" "scalar_ok (udiv a b)" "scalar_ok (umod a b)"
proof -
  show r: "scalar_ok (from_unsigned_range lo hi)" for lo hi
    using i64_bounds by (auto simp: from_unsigned_range_def Let_def intro!: scalar_of_ok tnum_ok_range)
  show "scalar_ok (udiv a b)" "scalar_ok (umod a b)" by (simp_all add: udiv_def umod_def Let_def case_prod_beta r)
qed

text \<open>A scalar of 32 bits stays one when it is reduced; \<open>sext32\<close> subtracts \<open>2 ^ 32\<close> from its ends.\<close>

definition half_width :: "scalar \<Rightarrow> bool" where
  "half_width s \<longleftrightarrow> scalar_ok s \<and> (\<forall>i \<ge> 32. \<not> bit (tvalue (stnum s)) i) \<and> (\<forall>i \<ge> 32. \<not> bit (tmask (stnum s)) i)
     \<and> 0 \<le> smin s \<and> smin s < 2 ^ 32 \<and> 0 \<le> smax s \<and> smax s < 2 ^ 32"

lemma meet_low:
  assumes "tnum_meet a b = Some c" "tnum_ok b" "\<not> bit (tvalue a) i" "\<not> bit (tmask a) i"
  shows "\<not> bit (tvalue c) i \<and> \<not> bit (tmask c) i"
proof -
  have e: "(tvalue a XOR tvalue b) AND NOT (tmask a OR tmask b) = 0"
    and c: "c = \<lparr>tvalue = (tvalue a OR tvalue b) AND NOT (tmask a AND tmask b), tmask = tmask a AND tmask b\<rparr>"
    using assms(1) by (auto simp: tnum_meet_def Let_def split: if_splits)
  have "\<not> bit (tvalue b) i"
    using arg_cong [OF e, of "\<lambda>w. bit w i"] assms(2-4) by (cases "i < 64") (auto simp: tnum_ok_bits bit_simps dest: bit_u64)
  then show ?thesis using assms(3,4) by (simp add: c bit_simps)
qed

lemma round_half_width:
  assumes "normalize_round s = Some s'" "half_width s"
  shows "half_width s'"
proof -
  obtain t where t: "tnum_meet (stnum s) (derived_tnum (smin s') (smax s')) = Some t" "stnum s' = t"
    "smin s \<le> smin s'" "smax s' \<le> smax s" "smin s' \<le> smax s'"
    using assms(1) by (auto simp: normalize_round_def Let_def not_less split: if_splits option.splits prod.splits)
  moreover have "scalar_ok s'" using normalize_round_ok [OF assms(1)] assms(2) by (simp add: half_width_def scalar_ok_def)
  ultimately show ?thesis using assms(2) meet_low [OF t(1) derived_tnum_ok] by (auto simp: half_width_def)
qed

lemma normalized_half_width: "half_width s \<Longrightarrow> half_width (normalized s)"
proof -
  have "normalize_loop n s = Some s' \<Longrightarrow> half_width s \<Longrightarrow> half_width s'" for n s s'
    by (induction n arbitrary: s) (auto split: if_splits option.splits dest: round_half_width)
  then show "half_width s \<Longrightarrow> half_width (normalized s)" by (auto simp: normalized_def Bpf_Scalar.normalize_def split: option.splits)
qed

lemma zero_extend_low: "i \<ge> 32 \<Longrightarrow> \<not> bit (tvalue (tnum_zero_extend t 32)) i \<and> \<not> bit (tmask (tnum_zero_extend t 32)) i"
proof -
  have m: "push_bit 32 1 - 1 = (mask 32 :: u64)" by (simp add: mask_eq_exp_minus_1)
  show "i \<ge> 32 \<Longrightarrow> ?thesis" unfolding tnum_zero_extend_def Let_def m by (simp add: bit_and_iff bit_mask_iff)
qed

lemma take_bit_i64: "0 \<le> sint (take_bit 32 (w :: u64)) \<and> sint (take_bit 32 w) < 2 ^ 32"
  using take_bit32_le [of w] by (simp add: sint_take_bit32 uint_take_bit32)

lemma zext32_half: "scalar_ok s \<Longrightarrow> half_width (zext32 s)"
proof -
  assume s: "scalar_ok s"
  let ?t = "tnum_zero_extend (stnum s) 32"
  have t: "tnum_ok ?t" using s by (simp add: scalar_okD tnum_ok_shift)
  have mk: "half_width (normalized \<lparr>stnum = t', smin = sint (take_bit 32 lo :: u64), smax = sint (take_bit 32 hi :: u64)\<rparr>)"
    if "tnum_ok t'" "\<And>i. i \<ge> 32 \<Longrightarrow> \<not> bit (tvalue t') i \<and> \<not> bit (tmask t') i" for t' lo hi
    using that take_bit_i64 [of lo] take_bit_i64 [of hi]
    by (intro normalized_half_width) (auto simp: half_width_def scalar_ok_def in_range_def I64_MIN_def I64_MAX_def)
  show ?thesis
  proof (cases "drop_bit 32 (as_u64 (smin s)) = drop_bit 32 (as_u64 (smax s))")
    case True
    have "\<not> bit (tvalue c) i \<and> \<not> bit (tmask c) i" if "tnum_meet ?t (tnum_from_unsigned_range lo hi) = Some c" "i \<ge> 32" for c lo hi i
      using meet_low [OF that(1) tnum_ok_range] zero_extend_low [OF that(2)] by blast
    then show ?thesis
      unfolding zext32_def Let_def and_low32 if_P [OF True]
      by (intro mk) (auto simp: t zero_extend_low split: option.split dest: tnum_ok_meet)
  next
    case False
    have low: "w = take_bit 32 w" if "\<And>i. i \<ge> 32 \<Longrightarrow> \<not> bit w i" for w :: u64
      using that by (auto simp: u64_eq_iff bit_take_bit_iff not_less [symmetric])
    have "tvalue ?t = take_bit 32 (tvalue ?t)" "tvalue ?t OR tmask ?t = take_bit 32 (tvalue ?t OR tmask ?t)"
      by (rule low, simp add: zero_extend_low bit_or_iff)+
    then show ?thesis
      unfolding zext32_def Let_def if_not_P [OF False] tnum_unsigned_bounds_def prod.case
      using mk [OF t zero_extend_low, of "tvalue ?t" "tvalue ?t OR tmask ?t"] by simp
  qed
qed

lemma zext32_closed [scalar_closed]: "scalar_ok s \<Longrightarrow> scalar_ok (zext32 s)"
  using zext32_half [of s] by (simp add: half_width_def)

lemma unsigned_bounds_half:
  assumes "half_width z"
  shows "uint (fst (unsigned_bounds z)) < 2 ^ 32" "uint (snd (unsigned_bounds z)) < 2 ^ 32"
proof -
  have b: "uint w < 2 ^ 32" if "\<And>i. i \<ge> 32 \<Longrightarrow> \<not> bit w i" for w :: u64
  proof -
    have "w = take_bit 32 w" using that by (auto simp: u64_eq_iff bit_take_bit_iff not_less [symmetric])
    then show ?thesis using take_bit32_le [of w] by simp
  qed
  have "uint (tvalue (stnum z)) < 2 ^ 32" using assms by (intro b) (auto simp: half_width_def)
  moreover have "uint (as_u64 (smin z)) < 2 ^ 32" "uint (as_u64 (smax z)) < 2 ^ 32"
    using assms uint_as_u64 [of "smin z"] uint_as_u64 [of "smax z"] by (auto simp: half_width_def I64_MIN_def I64_MAX_def)
  ultimately show "uint (fst (unsigned_bounds z)) < 2 ^ 32" "uint (snd (unsigned_bounds z)) < 2 ^ 32"
    using assms by (auto simp: unsigned_bounds_def Let_def half_width_def tnum_unsigned_bounds_def max_def min_def word_le_def)
qed

lemma sext32_closed [scalar_closed]: "scalar_ok s \<Longrightarrow> scalar_ok (sext32 s)"
proof -
  assume s: "scalar_ok s"
  obtain lo hi where b: "unsigned_bounds (zext32 s) = (lo, hi)" by (rule prod.exhaust)
  then have "uint lo < 2 ^ 32" "uint hi < 2 ^ 32" using unsigned_bounds_half [OF zext32_half [OF s]] by auto
  then have "0 \<le> sint lo" "sint lo < 2 ^ 32" "0 \<le> sint hi" "sint hi < 2 ^ 32"
    using uint_small_sint [of lo] uint_small_sint [of hi] by auto
  then show ?thesis
    unfolding sext32_def Let_def b prod.case
    using tnum_ok_shift(5) [of "stnum (zext32 s)" 32] zext32_closed [OF s]
    by (auto intro!: normalized_mk_ok simp: scalar_okD I64_MIN_def I64_MAX_def)
qed

lemma width_ends:
  assumes "0 < bits" "bits < 64"
  shows "I64_MIN \<le> - (2 ^ (bits - 1))" "- (2 ^ (bits - 1)) \<le> I64_MAX" "I64_MIN \<le> 2 ^ (bits - 1) - 1" "2 ^ (bits - 1) - 1 \<le> I64_MAX"
proof -
  define k :: int where "k = 2 ^ (bits - 1)"
  have "1 \<le> k" "I64_MIN \<le> - k" "k - 1 \<le> I64_MAX" using i64_exp [of bits] assms by (simp_all add: k_def)
  then show "I64_MIN \<le> - (2 ^ (bits - 1))" "- (2 ^ (bits - 1)) \<le> I64_MAX" "I64_MIN \<le> 2 ^ (bits - 1) - 1" "2 ^ (bits - 1) - 1 \<le> I64_MAX"
    unfolding k_def [symmetric] by (auto simp: I64_MIN_def I64_MAX_def)
qed

lemma sign_extend_closed: "scalar_ok s \<Longrightarrow> scalar_sign_extend s bits = Some s' \<Longrightarrow> scalar_ok s'"
  using width_ends [of bits]
  by (auto simp: scalar_sign_extend_def Let_def scalar_okD intro!: normalized_mk_ok tnum_ok_shift split: if_splits)

lemma bits_closed [scalar_closed]: "scalar_ok (unsigned_bits n)" "scalar_ok (signed_bits n)"
proof -
  show "scalar_ok (unsigned_bits n)"
    using i64_bounds [of "push_bit n 1 - 1"] by (auto simp: unsigned_bits_def Let_def intro!: scalar_okI) (simp add: tnum_ok_def)
  show "scalar_ok (signed_bits n)"
    using width_ends [of n] by (auto simp: signed_bits_def intro!: normalized_mk_ok tnum_ok_shift)
qed

lemma as_const_range: "scalar_ok s \<Longrightarrow> as_const s = Some c \<Longrightarrow> \<exists>w :: u64. c = sint w"
proof -
  assume s: "scalar_ok s" and c: "as_const s = Some c"
  then have "c = sint (tvalue (stnum s)) \<or> c = smin s" by (auto simp: as_const_def split: if_splits)
  moreover have "smin s = sint (as_u64 (smin s))" using s by (simp add: sint_as_u64 scalar_okD)
  ultimately show ?thesis by blast
qed

lemma signed_division_closed [scalar_closed]:
  assumes "scalar_ok a"
  shows "scalar_ok (sdiv_scalar a b)" "scalar_ok (smod_scalar a b)"
  using as_const_range [OF assms] concrete_sdiv_range concrete_smod_range
  by (fastforce simp: sdiv_scalar_def smod_scalar_def split: option.split intro!: constant_ok)+

lemma as_u32_ok: "scalar_ok (scalar_constant (as_u32 i))"
  unfolding as_u32_def by (rule constant_cases_ok)

lemma bswap_closed [scalar_closed]: "scalar_ok (bswap a width)"
  by (auto simp: bswap_def bits_closed constant_cases_ok split: option.split)

lemma alu_closed [scalar_closed]: "scalar_ok a \<Longrightarrow> scalar_ok b \<Longrightarrow> scalar_ok (scalar_alu op wide a b)"
  by (cases op) (auto simp: scalar_alu_def alu_wide_def Let_def scalar_closed)

lemma unary_closed [scalar_closed]:
  "scalar_ok a \<Longrightarrow> scalar_ok (neg_op wide a)" "scalar_ok a \<Longrightarrow> scalar_ok (end_op ord width a)"
  by (auto simp: neg_op_def end_op_def scalar_closed)

lemma mov_closed: "mov_op wide sx a = Some b \<Longrightarrow> scalar_ok a \<Longrightarrow> scalar_ok b"
  by (auto simp: mov_op_def scalar_closed split: option.splits if_splits dest: sign_extend_closed)

lemma divmod_closed [scalar_closed]: "scalar_ok a \<Longrightarrow> scalar_ok (div_op wide sg a b)" "scalar_ok a \<Longrightarrow> scalar_ok (mod_op wide sg a b)"
  by (auto simp: div_op_def mod_op_def scalar_closed as_u32_ok split: option.split)

text \<open>Refinement of a pair by a predicate.\<close>

lemma refined_ok:
  assumes "scalar_ok s"
  shows "refine_signed_min s c = Some r \<Longrightarrow> I64_MIN \<le> c \<Longrightarrow> c \<le> I64_MAX \<Longrightarrow> scalar_ok r"
    "refine_signed_max s c = Some r \<Longrightarrow> I64_MIN \<le> c \<Longrightarrow> c \<le> I64_MAX \<Longrightarrow> scalar_ok r"
    "refine_unsigned_max s w = Some r \<Longrightarrow> scalar_ok r" "refine_unsigned_min s w = Some r \<Longrightarrow> scalar_ok r"
    "refine_ne s q = Some r \<Longrightarrow> scalar_ok r" "refine_bits_clear s q = Some r \<Longrightarrow> scalar_ok r" "refine_bits_set s q = Some r \<Longrightarrow> scalar_ok r"
proof -
  have n: "normalize x = Some r \<Longrightarrow> tnum_ok (stnum x) \<Longrightarrow> I64_MIN \<le> smin x \<Longrightarrow> smin x \<le> I64_MAX \<Longrightarrow> I64_MIN \<le> smax x \<Longrightarrow> smax x \<le> I64_MAX
      \<Longrightarrow> scalar_ok r" for x
    by (rule normalize_ok [of x]) (simp_all add: scalar_ok_def in_range_def)
  note S = scalar_okD [OF assms] and b = i64_bounds [of w]
  show "refine_signed_min s c = Some r \<Longrightarrow> I64_MIN \<le> c \<Longrightarrow> c \<le> I64_MAX \<Longrightarrow> scalar_ok r"
    unfolding refine_signed_min_def by (erule n) (use S in auto)
  show "refine_signed_max s c = Some r \<Longrightarrow> I64_MIN \<le> c \<Longrightarrow> c \<le> I64_MAX \<Longrightarrow> scalar_ok r"
    unfolding refine_signed_max_def by (erule n) (use S in auto)
  show "refine_unsigned_max s w = Some r \<Longrightarrow> scalar_ok r"
    unfolding refine_unsigned_max_def
    by (auto split: if_splits option.splits elim!: n dest: tnum_ok_meet simp: S b le_max_iff_disj min_le_iff_disj)
  have "I64_MIN \<le> - 1" "- 1 \<le> I64_MAX" by (simp_all add: I64_MIN_def I64_MAX_def)
  then show "refine_unsigned_min s w = Some r \<Longrightarrow> scalar_ok r"
    using assms unfolding refine_unsigned_min_def
    by (auto split: if_splits option.splits elim!: n simp: S b le_max_iff_disj min_le_iff_disj)
  show "refine_ne s q = Some r \<Longrightarrow> scalar_ok r"
    using assms unfolding refine_ne_def i64_checked_add_def
    by (auto split: if_splits option.splits elim!: n simp: S)
  show "refine_bits_clear s q = Some r \<Longrightarrow> scalar_ok r" "refine_bits_set s q = Some r \<Longrightarrow> scalar_ok r"
    using assms unfolding refine_bits_clear_def refine_bits_set_def
    by (auto split: if_splits option.splits elim!: n dest: tnum_ok_meet simp: S)
qed

lemma meet_closed: "scalar_ok a \<Longrightarrow> scalar_ok b \<Longrightarrow> scalar_meet a b = Some c \<Longrightarrow> scalar_ok c"
  using scalar_meet_cases [of a b] by simp

lemma saturated_range: "I64_MIN \<le> i64_saturating_add a b \<and> i64_saturating_add a b \<le> I64_MAX"
  by (auto simp: i64_saturating_add_def)

lemma refine_pair_closed:
  assumes "scalar_ok a" "scalar_ok b" "refine_pair p a b = (Some na, Some nb)"
  shows "scalar_ok na \<and> scalar_ok nb"
proof -
  note A = refined_ok [OF assms(1)] and B = refined_ok [OF assms(2)] and M = meet_closed [OF assms(1,2)] meet_closed [OF assms(2,1)]
  show ?thesis
    using assms
    by (cases p) (auto simp: refine_pair_def Let_def refine_eq_def saturated_range scalar_okD dest!: A B M)
qed

subsection \<open>Frames\<close>

lemma frame_ok_note_depth [simp]: "frame_ok (note_depth o' st) = frame_ok st"
  by (simp add: frame_ok_def)

lemma frame_ok_write_bytes: "frame_ok st \<Longrightarrow> frame_ok (fold write_byte bs st)"
  by (auto simp: frame_ok_def spilled_write_bytes split: if_splits)

lemma frame_ok_write: "frame_ok st \<Longrightarrow> value_ok v \<Longrightarrow> frame_ok (frame_write o' sz v st)"
proof (cases "sz = Size_Dw \<and> o' smod 8 = 0")
  case True
  assume "frame_ok st" "value_ok v"
  then show ?thesis using True by (auto simp: frame_ok_def frame_write_def Let_def spilled_def slot_at_def note_depth_def split: if_splits)
next
  case False
  assume "frame_ok st"
  then show ?thesis unfolding frame_write_def Let_def if_not_P [OF False] by (simp add: frame_ok_write_bytes)
qed

lemma frame_ok_ops:
  assumes "frame_ok st"
  shows "frame_ok (write_maybe lo hi st)" "frame_ok (write_unspecified o' len st)" "frame_ok (clobber st)" "value_ok (frame_read st o' sz)"
proof -
  show "frame_ok (write_maybe lo hi st)"
    using assms by (auto simp: frame_ok_def spilled_def slot_at_write_maybe forget_value_def split: if_splits)
  show "frame_ok (write_unspecified o' len st)" using assms by (auto simp: write_unspecified_def frame_ok_write_bytes)
  show "frame_ok (clobber st)" by (simp add: frame_ok_def clobber_view)
  have "fs_whole (slot_at st i) \<Longrightarrow> value_ok (fs_value (slot_at st i))" for i using assms unfolding frame_ok_def spilled_def by metis
  then show "value_ok (frame_read st o' sz)" by (auto simp: frame_read_def Let_def bits_closed)
qed

subsection \<open>States\<close>

definition analysis_ok :: "nat \<Rightarrow> analysis \<Rightarrow> bool" where
  "analysis_ok ns a \<longleftrightarrow> length (an_entry a) = ns \<and> (\<forall>s \<in> set (an_entry a). case s of Some st \<Rightarrow> state_ok st | None \<Rightarrow> True)"

abbreviation pair_ok :: "nat \<Rightarrow> astate \<Rightarrow> bool" where
  "pair_ok ns s \<equiv> analysis_ok ns (fst s) \<and> state_ok (snd s)"

lemma analysis_ok_simps [simp]:
  "analysis_ok ns (a\<lparr>uses_arena := u\<rparr>) = analysis_ok ns a" "analysis_ok ns (a\<lparr>fault_sites := fs\<rparr>) = analysis_ok ns a"
  "analysis_ok ns (a\<lparr>bare_access_sites := bs\<rparr>) = analysis_ok ns a" "analysis_ok ns (a\<lparr>typed_load_sites := ts\<rparr>) = analysis_ok ns a"
  "analysis_ok ns (a\<lparr>kfunc_calls := ks\<rparr>) = analysis_ok ns a" "analysis_ok ns (a\<lparr>an_depth := d\<rparr>) = analysis_ok ns a"
  "analysis_ok ns (a\<lparr>an_current := c\<rparr>) = analysis_ok ns a" "analysis_ok ns (note_frame_depth k a) = analysis_ok ns a" "analysis_ok ns (touch_arena v a) = analysis_ok ns a"
  by (auto simp: analysis_ok_def note_frame_depth_def touch_arena_def split: abs_value.split)

lemma state_ok_set: "state_ok st \<Longrightarrow> value_ok v \<Longrightarrow> state_ok (st\<lparr>aregs := (aregs st)[k := v]\<rparr>)"
  by (cases "k < 11") (auto simp: state_ok_def nth_list_update)

lemma state_ok_frame: "state_ok st \<Longrightarrow> frame_ok f \<Longrightarrow> state_ok (st\<lparr>astack := f\<rparr>)"
  by (simp add: state_ok_def)

lemma get_value_Accept: "get_value st at r = Accept v \<longleftrightarrow> v = aregs st ! reg_usize r \<and> v \<noteq> NotInit"
  by (auto simp: get_value_def split: abs_value.splits)

lemma get_scalar_Accept: "get_scalar st at r = Accept s \<longleftrightarrow> aregs st ! reg_usize r = Scalar s"
  by (auto simp: get_scalar_def bindv_Accept get_value_Accept split: abs_value.splits)

lemma get_ptr_Accept: "get_ptr st at r = Accept p \<longleftrightarrow> aregs st ! reg_usize r = Ptr p"
  by (auto simp: get_ptr_def bindv_Accept get_value_Accept split: abs_value.splits)

lemma set_value_Accept: "set_value st at r v = Accept st' \<longleftrightarrow> \<not> is_frame_ptr r \<and> st' = st\<lparr>aregs := (aregs st)[reg_usize r := v]\<rparr>"
  by (auto simp: set_value_def)

lemma set_in_Accept: "set_in a st at r v = Accept s \<longleftrightarrow> \<not> is_frame_ptr r \<and> s = (a, st\<lparr>aregs := (aregs st)[reg_usize r := v]\<rparr>)"
  by (auto simp: set_in_def bindv_Accept set_value_Accept)

lemmas accepts = bindv_Accept get_value_Accept get_scalar_Accept get_ptr_Accept set_value_Accept set_in_Accept

lemma reg_value_ok: "state_ok st \<Longrightarrow> reg_ok r \<Longrightarrow> value_ok (aregs st ! reg_usize r)"
  using reg_ok_11 [of r] by (simp add: state_ok_def)

lemma source_value_ok: "source_value st at src wide = Accept v \<Longrightarrow> state_ok st \<Longrightarrow> source_ok src \<Longrightarrow> value_ok v"
  by (cases src) (auto simp: accepts reg_value_ok constant_cases_ok split: if_splits)

lemma scalar_source_Accept: "scalar_source st at src wide = Accept x \<longleftrightarrow> source_value st at src wide = Accept (Scalar x)"
  by (cases "source_value st at src wide") (auto simp: scalar_source_def split: abs_value.splits)

lemma alu_value_ok: "alu_value at wide op dst d s = Accept v \<Longrightarrow> value_ok d \<Longrightarrow> value_ok s \<Longrightarrow> value_ok v"
  by (auto simp: alu_value_def Let_def arena_offset_def scalar_closed split: abs_value.splits if_splits alu_op.splits)

lemma value_of_ok: "value_ok (value_of d k)"
  by (auto simp: value_of_def scalar_closed split: type_kind.split)

lemma imm64_value_ok: "imm64_value e at v = Accept x \<Longrightarrow> value_ok x"
  by (auto simp: imm64_value_def accepts map_handle_def map_value_ptr_def scalar_closed split: imm64.splits if_splits)

lemma mov_abs_ok: "mov_abs wide sx v = Accept x \<Longrightarrow> value_ok v \<Longrightarrow> value_ok x"
  by (auto simp: mov_abs_def split: abs_value.splits if_splits dest: mov_closed)

lemma access_ok: "access e a st at r o' sz w f = Accept (a', res) \<Longrightarrow> analysis_ok ns a \<Longrightarrow> analysis_ok ns a'"
  by (auto simp: access_def access_faulting_def access_stack_def typed_field_load_def accepts Let_def split: if_splits option.splits)

lemma load_value_ok: "load_value e a st at sz cls res = Accept (a', v) \<Longrightarrow> analysis_ok ns a \<Longrightarrow> state_ok st \<Longrightarrow> analysis_ok ns a' \<and> value_ok v"
  by (auto simp: load_value_def Let_def accepts ctx_field_def scalar_closed value_of_ok frame_ok_ops state_okD split: ptr_class.splits resolved.splits if_splits option.splits)

lemma store_frame_ok: "analysis_ok ns a \<Longrightarrow> state_ok st \<Longrightarrow> value_ok v \<Longrightarrow> pair_ok ns (store_frame a st sz cls res v)"
  by (auto simp: store_frame_def Let_def state_ok_frame frame_ok_write frame_ok_ops state_okD split: ptr_class.splits resolved.splits)

lemma alu_step_ok:
  "alu_step a st at wide op dst src = Accept s \<Longrightarrow> analysis_ok ns a \<Longrightarrow> state_ok st \<Longrightarrow> reg_ok dst \<Longrightarrow> source_ok src \<Longrightarrow> pair_ok ns s"
  by (auto simp: alu_step_def accepts intro!: state_ok_set dest!: source_value_ok alu_value_ok dest: reg_value_ok)

lemma cast_ok:
  "addr_space_cast a st at dst src da sa = Accept s \<Longrightarrow> analysis_ok ns a \<Longrightarrow> state_ok st \<Longrightarrow> pair_ok ns s"
  by (auto simp: addr_space_cast_def accepts split: if_splits intro!: state_ok_set)

lemma extend_loaded_ok: "extend_loaded sz sx v = Accept v' \<Longrightarrow> value_ok v \<Longrightarrow> value_ok v'"
  by (auto simp: extend_loaded_def split: abs_value.splits if_splits dest: sign_extend_closed)

lemma stored_value_ok: "value_ok v \<Longrightarrow> value_ok (stored_value sz v)"
  by (auto simp: stored_value_def split: abs_value.split)

lemma load_step_ok:
  "load_step e a st at sz sx dst src o' = Accept s \<Longrightarrow> analysis_ok ns a \<Longrightarrow> state_ok st \<Longrightarrow> pair_ok ns s"
  by (auto simp: load_step_def accepts intro!: state_ok_set dest!: access_ok load_value_ok extend_loaded_ok)

lemma store_step_ok:
  "store_step e a st at sz dst o' src = Accept s \<Longrightarrow> analysis_ok ns a \<Longrightarrow> state_ok st \<Longrightarrow> source_ok src \<Longrightarrow> pair_ok ns s"
  using store_frame_ok stored_value_ok by (fastforce simp: store_step_def accepts dest!: access_ok source_value_ok)

lemma atomic_step_ok:
  assumes "atomic_step e a st at sz op dst src o' = Accept s" "analysis_ok ns a" "state_ok st"
  shows "pair_ok ns s"
proof -
  let ?w = "Scalar (unsigned_bits (size_bits sz))"
  have ok: "pair_ok ns (store_frame a1 st sz cls res ?w)" if "access e a st at dst o' sz True None = Accept (a1, res)" for a1 res cls
    using access_ok [OF that assms(2)] assms(3) by (intro store_frame_ok) (simp_all add: bits_closed)
  have set: "set_value st2 at r ?w = Accept st3 \<Longrightarrow> state_ok st2 \<Longrightarrow> state_ok st3" for st2 st3 r
    by (auto simp: accepts bits_closed intro: state_ok_set)
  show ?thesis
    using assms(1) by (auto simp: atomic_step_def bindv_Accept Let_def case_prod_beta split: if_splits dest!: set ok)
qed

lemma or_Some [simp]: "or_panic (Some x) = Accept x" "or_panic None = Panic" "or_reject (Some x) err = Accept x" "or_reject None err = Reject err"
  by (simp_all add: or_panic_def or_reject_def)

subsection \<open>Calls\<close>

definition regs_ok :: "abs_value list \<Rightarrow> bool" where
  "regs_ok rs \<longleftrightarrow> length rs = 11 \<and> (\<forall>v \<in> set rs. value_ok v)"

lemma state_ok_iff: "state_ok st \<longleftrightarrow> regs_ok (aregs st) \<and> frame_ok (astack st) \<and> refs_sorted (arefs st)"
  by (auto simp: state_ok_def regs_ok_def all_set_conv_all_nth)

lemma regs_ok_update: "regs_ok rs \<Longrightarrow> value_ok v \<Longrightarrow> regs_ok (rs[k := v])"
  using set_update_subset_insert [of rs k v] by (auto simp: regs_ok_def)

lemma regs_ok_map: "regs_ok rs \<Longrightarrow> (\<And>v. value_ok v \<Longrightarrow> value_ok (f v)) \<Longrightarrow> regs_ok (map f rs)"
  by (auto simp: regs_ok_def)

lemma regs_ok_clear: "regs_ok rs \<Longrightarrow> regs_ok (clear_args rs)"
  by (simp add: clear_args_def regs_ok_update)

lemma frame_pointer_ok: "value_ok (Ptr frame_pointer)" "value_ok (Ptr (ptr_region cls n))"
  by (simp_all add: frame_pointer_def ptr_region_def scalar_closed)

lemma callee_arg_ok: "callee_arg at v s = Accept (v', s') \<Longrightarrow> value_ok v \<Longrightarrow> value_ok v' \<and> analysis_ok ns (fst s') = analysis_ok ns (fst s)"
  by (auto simp: callee_arg_def Let_def frame_pointer_ok simp del: value_ok.simps split: abs_value.splits if_splits option.splits)

lemma callee_args_ok:
  "callee_args at st ks (rs, s) = Accept (rs', s') \<Longrightarrow> state_ok st \<Longrightarrow> (\<forall>k \<in> set ks. k < 11) \<Longrightarrow> regs_ok rs \<Longrightarrow>
    regs_ok rs' \<and> analysis_ok ns (fst s') = analysis_ok ns (fst s)"
proof (induction ks arbitrary: rs s)
  case (Cons k ks)
  from Cons.prems(1) obtain v s1 where c: "callee_arg at (aregs st ! k) s = Accept (v, s1)" "callee_args at st ks (rs[k := v], s1) = Accept (rs', s')"
    by (auto simp: bindv_Accept)
  have "value_ok v \<and> analysis_ok ns (fst s1) = analysis_ok ns (fst s)" using callee_arg_ok [OF c(1)] Cons.prems(2,3) by (simp add: state_okD)
  then show ?case using Cons.IH [OF c(2)] Cons.prems by (simp add: regs_ok_update)
qed simp

lemma analysis_ok_entry: "analysis_ok ns a \<Longrightarrow> state_ok st \<Longrightarrow> analysis_ok ns (a\<lparr>an_entry := (an_entry a)[k := Some st]\<rparr>)"
  using set_update_subset_insert [of "an_entry a" k "Some st"] by (fastforce simp: analysis_ok_def)

lemma entry_ok: "analysis_ok ns a \<Longrightarrow> k < ns \<Longrightarrow> an_entry a ! k = Some st \<Longrightarrow> state_ok st"
  using nth_mem [of k "an_entry a"] by (fastforce simp: analysis_ok_def)

lemma call_subprog_ok:
  assumes "call_subprog e a st at nxt o' = Accept s" "analysis_ok ns a" "state_ok st" "ns = length (ir_subprogs (e_ir e))"
  shows "pair_ok ns s"
proof -
  obtain callee rs a1 passed where c: "position (\<lambda>s. entry_slot s = to_u32 (int nxt + o')) (ir_subprogs (e_ir e)) = Some callee"
    "callee_args at st [1, 2, 3, 4, 5] ((replicate 11 NotInit)[10 := Ptr frame_pointer], a, False) = Accept (rs, a1, passed)"
    and s: "s = (let ent = \<lparr>aregs = rs, astack = frame_default, arefs = []\<rparr>;
            a2 = a1\<lparr>an_entry := (an_entry a1)[callee := Some (case an_entry a1 ! callee of None \<Rightarrow> ent | Some prev \<Rightarrow> state_join prev ent)]\<rparr>;
            st1 = (if passed then st\<lparr>astack := clobber (astack st)\<rparr> else st)
        in (a2, st1\<lparr>aregs := clear_args ((aregs st1)[0 := UNKNOWN_SCALAR])\<rparr>))"
    using assms(1) by (auto simp: call_subprog_def bindv_Accept Let_def)
  have "regs_ok ((replicate 11 NotInit)[10 := Ptr frame_pointer])"
    using regs_ok_update [OF _ frame_pointer_ok(1), of "replicate 11 NotInit" 10] by (simp add: regs_ok_def del: value_ok.simps(3))
  then have r: "regs_ok rs" "analysis_ok ns a1" using callee_args_ok [OF c(2) assms(3)] assms(2) by auto
  have "state_ok \<lparr>aregs = rs, astack = frame_default, arefs = []\<rparr>" (is "state_ok ?ent")
    using r(1) by (simp add: state_ok_iff default_frame by_key_def)
  moreover have "callee < ns" using c(1) assms(4) by (auto dest: position_SomeD)
  ultimately have "state_ok (case an_entry a1 ! callee of None \<Rightarrow> ?ent | Some prev \<Rightarrow> state_join prev ?ent)"
    using entry_ok [OF r(2)] by (auto intro: state_join_ok split: option.split)
  moreover have "state_ok (st'\<lparr>aregs := clear_args ((aregs st')[0 := UNKNOWN_SCALAR])\<rparr>)" if "state_ok st'" for st'
    using that by (simp add: state_ok_iff regs_ok_clear regs_ok_update)
  ultimately show ?thesis
    using r(2) assms(3) frame_ok_ops(3) [OF state_okD(3) [OF assms(3)]] by (simp add: s Let_def analysis_ok_entry state_ok_frame)
qed

lemma foldv_inv:
  "(\<And>x s s'. x \<in> set xs \<Longrightarrow> f x s = Accept s' \<Longrightarrow> P s \<Longrightarrow> P s') \<Longrightarrow> foldv f xs s = Accept s' \<Longrightarrow> P s \<Longrightarrow> P s'"
proof (induction xs arbitrary: s)
  case (Cons x xs)
  from Cons.prems(2) obtain s1 where "f x s = Accept s1" "foldv f xs s1 = Accept s'" by (auto simp: bindv_Accept)
  then show ?case using Cons.prems(1) [of x s s1] Cons.prems(1,3) by (intro Cons.IH) auto
qed simp

lemma state_ok_refs: "state_ok st \<Longrightarrow> state_ok (fst (release k st))" "state_ok st \<Longrightarrow> state_ok (acquire r st)"
  using release_spec' [of st k] insert_ref_spec [of "arefs st" r] by (auto simp: state_ok_iff acquire_def)

lemma state_ok_kill: "state_ok st \<Longrightarrow> state_ok (kill_ref k st)" "state_ok st \<Longrightarrow> state_ok (fst (kill_at_await st))"
    "state_ok st \<Longrightarrow> state_ok (invalidate_packet_bounds st)"
proof -
  have "value_ok v \<Longrightarrow> value_ok (unsize_packet v)" for v by (cases v) auto
  then show "state_ok st \<Longrightarrow> state_ok (invalidate_packet_bounds st)"
    by (simp add: state_ok_iff invalidate_packet_bounds_def regs_ok_map)
qed (simp_all add: state_ok_iff kill_ref_def kill_at_await_def regs_ok_map kill_slots_ok)

lemma check_mem_arg_ok: "check_mem_arg a st at k desc p = Accept s \<Longrightarrow> analysis_ok ns a \<Longrightarrow> state_ok st \<Longrightarrow> pair_ok ns s"
  by (auto simp: check_mem_arg_def Let_def accepts state_ok_frame frame_ok_ops state_okD
      split: if_splits option.splits abs_value.splits ptr_class.splits)

lemma check_ptr_arg_ok:
  assumes "check_ptr_arg a st at k desc r kd key p = Accept s" "analysis_ok ns a" "state_ok st"
  shows "pair_ok ns s"
proof -
  note M = check_mem_arg_ok [of a st at k desc p _ ns, OF _ assms(2,3)]
  obtain a1 st1 where p: "pair_ok ns (a1, st1)"
    and s: "s = (touch_arena (Ptr p) a1, st1) \<or> s = (touch_arena (Ptr p) a1, kill_ref (pref_id p) (fst (release (pref_id p) st1)))"
    using assms by (auto simp: check_ptr_arg_def Let_def bindv_Accept case_prod_beta split: if_splits dest: M)
  show ?thesis using s p by (auto simp: state_ok_kill state_ok_refs)
qed

lemma check_arg_ok:
  assumes "check_arg e at desc k s = Accept s'" "pair_ok ns s"
  shows "pair_ok ns s'"
proof -
  obtain a st where s: "s = (a, st)" by (rule prod.exhaust)
  obtain r v where "arg_reg k = Some r" "get_value st at r = Accept v" using assms(1) by (auto simp: s check_arg_def Let_def bindv_Accept)
  then show ?thesis
    using assms by (cases "akind (kargs desc ! k)"; cases v) (auto simp: s check_arg_def Let_def split: if_splits dest: check_ptr_arg_ok)
qed

lemma check_args_ok: "check_args e at desc s = Accept s' \<Longrightarrow> pair_ok ns s \<Longrightarrow> pair_ok ns s'"
  unfolding check_args_def by (erule foldv_inv [rotated]) (auto dest: check_arg_ok)

lemma await_call_ok: "await_call e at i desc st = Accept st' \<Longrightarrow> state_ok st \<Longrightarrow> state_ok st'"
  using state_ok_kill(2) [of st] by (auto simp: await_call_def split: if_splits prod.splits option.splits)

lemma stamp_size_ok: "value_ok v \<Longrightarrow> value_ok (stamp_size sz v)"
  by (auto simp: stamp_size_def split: abs_value.split option.split)

lemma return_value_ok: "return_value at i desc sz st = Accept st' \<Longrightarrow> state_ok st \<Longrightarrow> state_ok st'"
  by (auto simp: return_value_def Let_def bindv_Accept state_ok_set state_ok_refs stamp_size_ok value_of_ok split: if_splits)

lemma call_kfunc_ok: "call_kfunc e a st at i k = Accept s \<Longrightarrow> analysis_ok ns a \<Longrightarrow> state_ok st \<Longrightarrow> pair_ok ns s"
proof -
  assume c: "call_kfunc e a st at i k = Accept s" and ok: "analysis_ok ns a" "state_ok st"
  have A: "check_args e at desc (a, st) = Accept s' \<Longrightarrow> pair_ok ns s'" for desc s' using check_args_ok [of e at desc "(a, st)" s' ns] ok by simp
  have R: "return_value at i desc sz (st2\<lparr>aregs := clear_args (aregs st2)\<rparr>) = Accept st3 \<Longrightarrow> state_ok st2 \<Longrightarrow> state_ok st3" for desc sz st2 st3
    by (erule return_value_ok) (simp add: state_ok_iff regs_ok_clear)
  show ?thesis
    using c by (auto simp: call_kfunc_def bindv_Accept Let_def state_ok_kill split: if_splits dest!: A await_call_ok R)
qed

subsection \<open>Branches, blocks and the worklist\<close>

lemma publish_extent_ok: "value_ok v \<Longrightarrow> value_ok (publish_extent key limit v)"
  by (cases v) auto

lemma refine_ok:
  assumes "refine st at wide pr dst src = Accept (Some st')" "state_ok st" "reg_ok dst" "source_ok src"
  shows "state_ok st'"
proof -
  obtain d s where d: "get_value st at dst = Accept d" "source_value st at src wide = Accept s" using assms(1) by (auto simp: refine_def bindv_Accept)
  have ok: "value_ok d" "value_ok s" using d assms(2-4) by (auto simp: accepts reg_value_ok dest: source_value_ok)
  have packet: "state_ok (refine_packet st t)" for t
    using assms(2) by (auto simp: refine_packet_def state_ok_iff publish_extent_ok intro: regs_ok_map split: prod.split option.split)
  have null: "refine_null st wide pr dst p z = Some st' \<Longrightarrow> d = Ptr p \<Longrightarrow> state_ok st'" for p z
    using assms(2) ok(1) by (auto simp: refine_null_def Let_def state_ok_set state_ok_refs scalar_closed split: if_splits)
  have pair: "refine_pair pr x y = (Some na, Some nb) \<Longrightarrow> d = Scalar x \<Longrightarrow> s = Scalar y \<Longrightarrow> state_ok (refine_regs st dst src na nb)" for x y na nb
    using refine_pair_closed [of x y pr na nb] ok assms(2)
    by (auto simp: refine_regs_def Let_def state_ok_iff regs_ok_update split: source.split)
  show ?thesis
    using assms(1,2) d by (cases d; cases s) (auto simp: refine_def refine_scalars_def packet dest: null pair split: if_splits option.splits prod.splits)
qed

lemma abs_step_ok:
  assumes "abs_step e i s = Accept s'" "pair_ok ns s" "representable (iop (ir_insns (e_ir e) ! i))" "ns = length (ir_subprogs (e_ir e))"
  shows "pair_ok ns s'"
proof -
  obtain a st where s: "s = (a, st)" by (rule prod.exhaust)
  then have a: "analysis_ok ns a" and st: "state_ok st" using assms(2) by auto
  note st' = state_ok_set [OF st]
  have rs: "scalar_ok x" if "aregs st ! reg_usize r = Scalar x" "reg_ok r" for r x using reg_value_ok [OF st that(2)] that(1) by simp
  note sv = source_value_ok [OF _ st]
  show ?thesis
  proof (cases "iop (ir_insns (e_ir e) ! i)")
    case (Call t)
    then show ?thesis
      using assms(1) s call_kfunc_ok [OF _ a st] call_subprog_ok [OF _ a st assms(4)] by (cases t) (auto simp: abs_step_def Let_def)
  qed (use assms(1,3) a in \<open>auto simp: s abs_step_def Let_def accepts st st' scalar_source_Accept scalar_closed rs
      dest: sv mov_abs_ok imm64_value_ok alu_step_ok [OF _ a st] cast_ok [OF _ a st] load_step_ok [OF _ a st] store_step_ok [OF _ a st] atomic_step_ok [OF _ a st]\<close>)
qed

text \<open>What the transfer functions need of the graph.\<close>

definition env_ok :: "env \<Rightarrow> bool" where
  "env_ok e \<longleftrightarrow> (\<forall>i \<in> set (ir_insns (e_ir e)). representable (iop i)) \<and> thresholds_ok (ir_thresholds (e_ir e))
     \<and> (\<forall>b \<in> set (ir_blocks (e_ir e)). bstart b < bend b \<and> bend b \<le> length (ir_insns (e_ir e)) \<and> (\<forall>s \<in> set (bsuccs b). s < length (ir_blocks (e_ir e))))
     \<and> (\<forall>b \<in> set (ir_block_of (e_ir e)). b < length (ir_blocks (e_ir e)))"

lemma env_okD:
  assumes "env_ok e"
  shows "i < length (ir_insns (e_ir e)) \<Longrightarrow> representable (iop (ir_insns (e_ir e) ! i))" "thresholds_ok (ir_thresholds (e_ir e))"
    "b < length (ir_blocks (e_ir e)) \<Longrightarrow> bstart (ir_blocks (e_ir e) ! b) < bend (ir_blocks (e_ir e) ! b)"
    "b < length (ir_blocks (e_ir e)) \<Longrightarrow> bend (ir_blocks (e_ir e) ! b) \<le> length (ir_insns (e_ir e))"
    "b < length (ir_blocks (e_ir e)) \<Longrightarrow> t \<in> set (bsuccs (ir_blocks (e_ir e) ! b)) \<Longrightarrow> t < length (ir_blocks (e_ir e))"
    "t \<in> set (ir_block_of (e_ir e)) \<Longrightarrow> t < length (ir_blocks (e_ir e))"
  using assms by (auto simp: env_ok_def)

lemma block_at_slot_Accept: "block_at_slot e nxt o' = Accept t \<longleftrightarrow>
    (\<exists>i. nth_opt (ir_of_slot (e_ir e)) (jump_target nxt o') = Some (Some i) \<and> nth_opt (ir_block_of (e_ir e)) i = Some t)"
  by (auto simp: block_at_slot_def Let_def bindv_Accept jump_target_def bind_eq_Some_conv)

lemma block_at_slot_less: "block_at_slot e nxt o' = Accept t \<Longrightarrow> env_ok e \<Longrightarrow> t < length (ir_blocks (e_ir e))"
  by (auto simp: block_at_slot_Accept nth_opt_Some_iff intro: env_okD(6))

lemma steps_ok:
  assumes "foldv (abs_step e) [i..<j] s = Accept s'" "pair_ok ns s" "env_ok e" "ns = length (ir_subprogs (e_ir e))" "j \<le> length (ir_insns (e_ir e))"
  shows "pair_ok ns s'"
  using foldv_inv [of "[i..<j]" "abs_step e" "pair_ok ns" s s'] assms abs_step_ok env_okD(1) by auto

lemma walk_block_ok:
  assumes w: "walk_block e b (a, st) = Accept (a', outs)" and ok: "analysis_ok ns a" "state_ok st" and e: "env_ok e"
    and ns: "ns = length (ir_subprogs (e_ir e))" and b: "b < length (ir_blocks (e_ir e))"
  shows "analysis_ok ns a' \<and> (\<forall>(t, s) \<in> set outs. state_ok s \<and> t < length (ir_blocks (e_ir e)))"
proof -
  let ?blk = "ir_blocks (e_ir e) ! b" and ?l = "bend (ir_blocks (e_ir e) ! b) - 1"
  let ?in = "ir_insns (e_ir e) ! ?l"
  note B = env_okD(3,4) [OF e b]
  obtain a1 st1 where f: "foldv (abs_step e) [bstart ?blk..<?l] (a, st) = Accept (a1, st1)" using w by (auto simp: walk_block_def Let_def bindv_Accept)
  have p: "pair_ok ns (a1, st1)" using steps_ok [OF f _ e ns] ok B by simp
  have r: "representable (iop ?in)" using env_okD(1) [OF e, of ?l] B by simp
  have R: "refine st1 at wide pr dst src = Accept (Some s) \<Longrightarrow> reg_ok dst \<Longrightarrow> source_ok src \<Longrightarrow> state_ok s" for at wide pr dst src s
    using refine_ok p by simp
  note T = block_at_slot_less [OF _ e]
  have "abs_step e ?l (a1, st1) = Accept s' \<Longrightarrow> pair_ok ns s'" for s' using abs_step_ok [OF _ p r ns] .
  then show ?thesis
    using w f r p env_okD(5) [OF e b]
    by (cases "iop ?in") (auto simp: walk_block_def Let_def bindv_Accept edge_def split: option.splits dest!: R T)
qed

end
