(* ===== verification/Bpf_Fixpoint.thy ===== *)
theory Bpf_Fixpoint
  imports Bpf_Wellformed
begin

text \<open>
  What the worklist of \<open>analyse_subprog\<close> returns: states that are well formed and stable. A block is stable when walking it
  from its own state is accepted and every state it sends along an edge is covered by the state of the edge's target.
\<close>

subsection \<open>What is recorded does not matter\<close>

text \<open>What a step does to the state does not depend on what the analysis has recorded so far.\<close>

definition same_state :: "('a \<times> 'b) verdict \<Rightarrow> ('a \<times> 'b) verdict \<Rightarrow> bool" where
  "same_state r r' \<longleftrightarrow> map_verdict snd r = map_verdict snd r'"

lemma same_Accept [simp]: "same_state (Accept x) (Accept y) \<longleftrightarrow> snd x = snd y" "same_state (Reject err) (Reject err)" "same_state Panic Panic"
  by (simp_all add: same_state_def)

lemma same_refl [simp]: "same_state r r"
  by (simp add: same_state_def)

lemma same_bind: "same_state r r' \<Longrightarrow> (\<And>a a' x. same_state (f (a, x)) (f' (a', x))) \<Longrightarrow> same_state (bindv r f) (bindv r' f')"
  by (cases r; cases r') (auto simp: same_state_def)

lemma same_then: "(\<And>x. same_state (f x) (f' x)) \<Longrightarrow> same_state (bindv r f) (bindv r f')"
  by (cases r) simp_all

lemma same_AcceptD: "same_state r r' \<Longrightarrow> r = Accept (a, x) \<Longrightarrow> \<exists>a'. r' = Accept (a', x)"
  by (cases r') (auto simp: same_state_def)

lemma same_set_in: "same_state (set_in a st at r v) (set_in b st at r v)"
  by (auto simp: set_in_def intro: same_then)

lemma same_access: "same_state (access e a st at r o' sz w f) (access e b st at r o' sz w f)"
  unfolding access_def
  by (rule same_then) (auto simp: Let_def access_faulting_def typed_field_load_def access_stack_def split: option.split)

lemma same_load_value: "same_state (load_value e a st at sz cls res) (load_value e b st at sz cls res)"
  by (auto simp: load_value_def Let_def intro: same_then split: ptr_class.split resolved.split)

lemma same_store_frame: "snd (store_frame a st sz cls res v) = snd (store_frame b st sz cls res v)"
  by (auto simp: store_frame_def Let_def split: ptr_class.split resolved.split)

lemma same_check_mem: "same_state (check_mem_arg a st at k desc p) (check_mem_arg b st at k desc p)"
  by (auto simp: check_mem_arg_def Let_def intro!: same_then split: option.split abs_value.split ptr_class.split)

lemma same_check_ptr: "same_state (check_ptr_arg a st at k desc r kd key p) (check_ptr_arg b st at k desc r kd key p)"
  unfolding check_ptr_arg_def Let_def
  by (auto simp: same_check_mem split: prod.split intro!: same_bind)

lemma same_check_arg: "same_state (check_arg e at desc k (a, st)) (check_arg e at desc k (b, st))"
  unfolding check_arg_def Let_def
  by (auto simp: same_check_ptr split: type_kind.split abs_value.split intro!: same_then)

lemma same_foldv:
  assumes "\<And>x a b st. same_state (f x (a, st)) (f x (b, st))"
  shows "same_state (foldv f xs (a, st)) (foldv f xs (b, st))"
proof (induction xs arbitrary: a b st)
  case (Cons x xs)
  then show ?case using assms by (auto intro: same_bind)
qed simp

lemma same_kfunc: "same_state (call_kfunc e a st at i k) (call_kfunc e b st at i k)"
  unfolding call_kfunc_def check_args_def Let_def
  by (auto intro!: same_then same_bind same_foldv same_check_arg)

lemma callee_args_same:
  "map_verdict (\<lambda>(rs, a, p). (rs, p)) (callee_args at st ks (rs, a, p)) = map_verdict (\<lambda>(rs, a, p). (rs, p)) (callee_args at st ks (rs, b, p))"
proof (induction ks arbitrary: rs a b p)
  case (Cons k ks)
  then show ?case by (auto simp: callee_arg_def Let_def split: abs_value.split option.split)
qed simp

lemma same_subprog: "same_state (call_subprog e a st at nxt o') (call_subprog e b st at nxt o')"
  unfolding call_subprog_def Let_def
  by (rule same_then)
    (use callee_args_same [of at st "[1, 2, 3, 4, 5]" "(replicate 11 NotInit)[10 := Ptr frame_pointer]" a False b] in
      \<open>cases "callee_args at st [1, 2, 3, 4, 5] ((replicate 11 NotInit)[10 := Ptr frame_pointer], a, False)";
       cases "callee_args at st [1, 2, 3, 4, 5] ((replicate 11 NotInit)[10 := Ptr frame_pointer], b, False)"; auto simp: same_state_def\<close>)

lemma same_store:
  assumes "\<And>x y s. same_state (g x s) (g' y s)"
  shows "same_state (case store_frame a st sz cls res v of (x, s) \<Rightarrow> g x s) (case store_frame b st sz cls res v of (y, s) \<Rightarrow> g' y s)"
  using assms same_store_frame [of a st sz cls res v b] by (simp add: case_prod_beta)

lemma same_atomic: "same_state (atomic_step e a st at sz op dst src o') (atomic_step e b st at sz op dst src o')"
  unfolding atomic_step_def Let_def
  by (auto intro!: same_then same_bind same_access same_store)

lemma same_step: "same_state (abs_step e i (a, st)) (abs_step e i (b, st))"
  unfolding abs_step_def Let_def alu_step_def addr_space_cast_def load_step_def store_step_def
  by (auto split: decoded.split call_target.split prod.split
      intro!: same_then same_set_in same_bind same_access same_load_value same_store_frame same_kfunc same_subprog same_atomic)

lemma same_steps: "same_state (foldv (abs_step e) is (a, st)) (foldv (abs_step e) is (b, st))"
  by (intro same_foldv same_step)

subsection \<open>Stability\<close>

definition state_le :: "abs_state \<Rightarrow> abs_state \<Rightarrow> bool" where
  "state_le s t \<longleftrightarrow> (\<forall>E c. gamma_state E s c \<longrightarrow> gamma_state E t c)"

lemma state_le_refl [simp]: "state_le s s" and state_le_trans: "state_le s t \<Longrightarrow> state_le t u \<Longrightarrow> state_le s u"
  by (auto simp: state_le_def)

definition covered :: "abs_state option list \<Rightarrow> nat \<Rightarrow> abs_state \<Rightarrow> bool" where
  "covered ins t s \<longleftrightarrow> (\<exists>u. ins ! t = Some u \<and> state_le s u)"

definition settled :: "env \<Rightarrow> bool list \<Rightarrow> abs_state option list \<Rightarrow> nat \<Rightarrow> abs_state \<Rightarrow> bool" where
  "settled e reach ins b s \<longleftrightarrow>
     (\<exists>a a' outs. analysis_ok (length (ir_subprogs (e_ir e))) a \<and> walk_block e b (a, s) = Accept (a', outs)
        \<and> (\<forall>(t, s') \<in> set outs. t < length (ir_blocks (e_ir e)) \<and> (reach ! t \<longrightarrow> covered ins t s')))"

definition grown :: "nat \<Rightarrow> abs_state option list \<Rightarrow> abs_state option list \<Rightarrow> bool" where
  "grown n ins ins' \<longleftrightarrow> (\<forall>t < n. \<forall>s. ins ! t = Some s \<longrightarrow> covered ins' t s)"

lemma grown_refl [simp]: "grown n ins ins"
  by (auto simp: grown_def covered_def)

lemma covered_grown: "covered ins t s \<Longrightarrow> grown n ins ins' \<Longrightarrow> t < n \<Longrightarrow> covered ins' t s"
  unfolding covered_def grown_def by (blast intro: state_le_trans)

lemma grown_trans: "grown n a b \<Longrightarrow> grown n b c \<Longrightarrow> grown n a c"
  using covered_grown by (fastforce simp: grown_def)

subsection \<open>The loop\<close>

text \<open>The part of the invariant that holds in the middle of propagating a block's edges.\<close>

definition queue_ok :: "nat \<Rightarrow> worklist \<Rightarrow> bool" where
  "queue_ok n w \<longleftrightarrow> length (in_state w) = n \<and> length (queued w) = n \<and> distinct (pending w) \<and> set (pending w) \<subseteq> {..<n}
     \<and> (\<forall>b < n. queued w ! b \<longleftrightarrow> b \<in> set (pending w)) \<and> (\<forall>s. Some s \<in> set (in_state w) \<longrightarrow> state_ok s)"

definition advanced :: "nat \<Rightarrow> worklist \<Rightarrow> worklist \<Rightarrow> bool" where
  "advanced n w w' \<longleftrightarrow> queue_ok n w' \<and> grown n (in_state w) (in_state w') \<and> set (pending w) \<subseteq> set (pending w')
     \<and> (\<forall>k < n. in_state w' ! k \<noteq> in_state w ! k \<longrightarrow> k \<in> set (pending w'))"

lemma advanced_refl: "queue_ok n w \<Longrightarrow> advanced n w w"
  by (simp add: advanced_def)

lemma advanced_trans: "advanced n u v \<Longrightarrow> advanced n v w \<Longrightarrow> advanced n u w"
  unfolding advanced_def by (metis grown_trans subset_iff)

lemma merge_into_spec:
  assumes "env_ok e" "state_ok st" "\<And>old. cur = Some old \<Longrightarrow> state_ok old" "merge_into e t cur st = (m, changed)"
  shows "state_ok m" "state_le st m" "cur = Some old \<Longrightarrow> state_le old m" "\<not> changed \<Longrightarrow> \<exists>old. cur = Some old \<and> state_le st old"
proof -
  show "state_ok m" "state_le st m" "cur = Some old \<Longrightarrow> state_le old m" "\<not> changed \<Longrightarrow> \<exists>old. cur = Some old \<and> state_le st old" for old
    using assms env_okD(2) [OF assms(1)]
    by (cases cur; auto simp: merge_into_def Let_def state_le_def split: if_splits
        intro: state_join_ok state_widen_ok state_join_covers state_widen_covers state_subset_covers)+
qed

lemma propagate_spec:
  assumes "env_ok e" "queue_ok n w" "state_ok s" "t < n"
  shows "advanced n w (propagate e reach (t, s) w) \<and> (reach ! t \<longrightarrow> covered (in_state (propagate e reach (t, s) w)) t s)"
proof -
  obtain m changed where m: "merge_into e t (in_state w ! t) s = (m, changed)" by (rule prod.exhaust)
  have Q: "length (in_state w) = n" "length (queued w) = n" "distinct (pending w)" "set (pending w) \<subseteq> {..<n}"
    "\<And>b. b < n \<Longrightarrow> queued w ! b \<longleftrightarrow> b \<in> set (pending w)" "\<And>s. Some s \<in> set (in_state w) \<Longrightarrow> state_ok s"
    using assms(2) by (auto simp: queue_ok_def)
  have "\<And>old. in_state w ! t = Some old \<Longrightarrow> state_ok old" using Q(1,6) assms(4) nth_mem [of t "in_state w"] by metis
  note M = merge_into_spec [OF assms(1,3) this m]
  show ?thesis
  proof (cases "reach ! t \<and> changed")
    case True
    have set: "Some s' \<in> set ((in_state w)[t := Some m]) \<Longrightarrow> state_ok s'" for s'
      using Q(6) M(1) set_update_subset_insert [of "in_state w" t "Some m"] by auto
    have g: "grown n (in_state w) ((in_state w)[t := Some m])"
      using M(3) Q(1) assms(4) by (auto simp: grown_def covered_def nth_list_update)
    show ?thesis
      using True m Q M(2) g set assms(4)
      by (auto simp: propagate_def Let_def advanced_def queue_ok_def covered_def nth_list_update)
  next
    case False
    then show ?thesis
      using m M(4) advanced_refl [OF assms(2)] by (auto simp: propagate_def covered_def)
  qed
qed

lemma propagate_all:
  assumes "env_ok e"
  shows "queue_ok n w \<Longrightarrow> \<forall>(t, s) \<in> set outs. state_ok s \<and> t < n \<Longrightarrow>
    advanced n w (fold (propagate e reach) outs w) \<and> (\<forall>(t, s) \<in> set outs. reach ! t \<longrightarrow> covered (in_state (fold (propagate e reach) outs w)) t s)"
proof (induction outs arbitrary: w)
  case (Cons x outs)
  obtain t s where x: "x = (t, s)" by (rule prod.exhaust)
  let ?w = "propagate e reach x w"
  have p: "advanced n w ?w" "reach ! t \<Longrightarrow> covered (in_state ?w) t s" using propagate_spec [OF assms Cons.prems(1), of s t] Cons.prems(2) x by auto
  have f: "advanced n ?w (fold (propagate e reach) outs ?w)"
    "\<forall>(t, s) \<in> set outs. reach ! t \<longrightarrow> covered (in_state (fold (propagate e reach) outs ?w)) t s"
    using Cons.IH [of ?w] p(1) Cons.prems(2) by (auto simp: advanced_def)
  have "reach ! t \<Longrightarrow> covered (in_state (fold (propagate e reach) outs ?w)) t s"
    using covered_grown [OF p(2)] f(1) Cons.prems(2) x by (auto simp: advanced_def)
  then show ?case using advanced_trans [OF p(1) f(1)] f(2) x by auto
qed (simp add: advanced_refl)

definition loop_inv :: "env \<Rightarrow> bool list \<Rightarrow> worklist \<Rightarrow> bool" where
  "loop_inv e reach w \<longleftrightarrow> queue_ok (length (ir_blocks (e_ir e))) w
     \<and> (\<forall>b < length (ir_blocks (e_ir e)). \<forall>s. in_state w ! b = Some s \<longrightarrow> b \<in> set (pending w) \<or> settled e reach (in_state w) b s)"

lemma settled_grown: "settled e reach ins b s \<Longrightarrow> grown (length (ir_blocks (e_ir e))) ins ins' \<Longrightarrow> settled e reach ins' b s"
  unfolding settled_def by (fast intro: covered_grown)

lemma visit_block:
  assumes e: "env_ok e" and I: "loop_inv e reach w" and p: "pending w = b # rest"
    and w1: "w1 = w\<lparr>pending := rest, queued := (queued w)[b := False]\<rparr>"
  shows "queue_ok (length (ir_blocks (e_ir e))) w1" "b < length (ir_blocks (e_ir e))" "in_state w1 ! b = None \<Longrightarrow> loop_inv e reach w1"
    and "in_state w1 ! b = Some s \<Longrightarrow> analysis_ok (length (ir_subprogs (e_ir e))) a \<Longrightarrow> walk_block e b (a, s) = Accept (a', outs) \<Longrightarrow> \<forall>(t, s') \<in> set outs. state_ok s' \<and> t < length (ir_blocks (e_ir e)) \<Longrightarrow>
      loop_inv e reach (fold (propagate e reach) outs w1) \<and> grown (length (ir_blocks (e_ir e))) (in_state w) (in_state (fold (propagate e reach) outs w1))"
proof -
  let ?n = "length (ir_blocks (e_ir e))"
  have Q: "queue_ok ?n w" using I by (simp add: loop_inv_def)
  show q1: "queue_ok ?n w1" and b: "b < ?n" using Q p by (auto simp: queue_ok_def w1 nth_list_update)
  have old: "k \<in> set rest \<or> k = b \<or> settled e reach (in_state w) k u" if "k < ?n" "in_state w ! k = Some u" for k u
    using I that p by (auto simp: loop_inv_def)
  show "loop_inv e reach w1" if "in_state w1 ! b = None"
    unfolding loop_inv_def
  proof (intro conjI allI impI q1)
    fix k u assume "k < ?n" "in_state w1 ! k = Some u"
    then show "k \<in> set (pending w1) \<or> settled e reach (in_state w1) k u"
      using old [of k u] that by (cases "k = b") (simp_all add: w1)
  qed
  assume s: "in_state w1 ! b = Some s" and a: "analysis_ok (length (ir_subprogs (e_ir e))) a" and walk: "walk_block e b (a, s) = Accept (a', outs)"
    and outs: "\<forall>(t, s') \<in> set outs. state_ok s' \<and> t < ?n"
  let ?w = "fold (propagate e reach) outs w1"
  have A: "advanced ?n w1 ?w" and C: "\<forall>(t, s') \<in> set outs. reach ! t \<longrightarrow> covered (in_state ?w) t s'"
    using propagate_all [OF e q1 outs] by auto
  have g: "grown ?n (in_state w) (in_state ?w)" using A by (simp add: advanced_def w1)
  have "k \<in> set (pending ?w) \<or> settled e reach (in_state ?w) k u" if k: "k < ?n" "in_state ?w ! k = Some u" for k u
  proof (cases "in_state ?w ! k = in_state w ! k")
    case True
    have "settled e reach (in_state ?w) b s" unfolding settled_def using a walk outs C by fast
    then show ?thesis
      using old [of k u] k True s A settled_grown [OF _ g] by (auto simp: advanced_def w1)
  qed (use A k(1) in \<open>simp add: advanced_def w1\<close>)
  then show "loop_inv e reach ?w \<and> grown ?n (in_state w) (in_state ?w)" using A g by (simp add: loop_inv_def advanced_def)
qed

lemma worklist_loop_spec:
  "worklist_loop e sp reach budget rounds a w = Accept (a', w') \<Longrightarrow> env_ok e \<Longrightarrow> loop_inv e reach w \<Longrightarrow> analysis_ok ns a \<Longrightarrow>
   ns = length (ir_subprogs (e_ir e)) \<Longrightarrow>
   loop_inv e reach w' \<and> pending w' = [] \<and> grown (length (ir_blocks (e_ir e))) (in_state w) (in_state w') \<and> analysis_ok ns a'"
proof (induction e sp reach budget rounds a w rule: worklist_loop.induct)
  case (1 e sp reach budget rounds a w)
  show ?case
  proof (cases "pending w")
    case Nil
    then show ?thesis using 1 by simp
  next
    case (Cons b rest)
    define w1 where "w1 = w\<lparr>pending := rest, queued := (queued w)[b := False]\<rparr>"
    note V = visit_block [OF "1.prems"(2,3) Cons w1_def]
    have bud: "\<not> rounds + 1 > budget" using "1.prems"(1) Cons by (auto split: if_splits)
    show ?thesis
    proof (cases "in_state w1 ! b")
      case None
      then have "worklist_loop e sp reach budget (rounds + 1) a w1 = Accept (a', w')"
        using "1.prems"(1) Cons bud by (simp add: w1_def Let_def)
      from "1.IH"(1) [OF Cons bud w1_def None this "1.prems"(2) V(3) [OF None] "1.prems"(4,5)]
      show ?thesis by (simp add: w1_def)
    next
      case (Some s)
      obtain a1 outs where walk: "walk_block e b (a, s) = Accept (a1, outs)"
        and rec: "worklist_loop e sp reach budget (rounds + 1) a1 (fold (propagate e reach) outs w1) = Accept (a', w')"
        using "1.prems"(1) Cons bud Some by (auto simp: w1_def Let_def split: verdict.splits)
      have "state_ok s" using V(1,2) Some nth_mem [of b "in_state w1"] by (auto simp: queue_ok_def)
      note W = walk_block_ok [OF walk "1.prems"(4) this "1.prems"(2,5) V(2)]
      then have F: "loop_inv e reach (fold (propagate e reach) outs w1)"
        "grown (length (ir_blocks (e_ir e))) (in_state w) (in_state (fold (propagate e reach) outs w1))" using V(4) [OF Some _ walk] "1.prems"(4,5) by auto
      from "1.IH"(2) [OF Cons bud w1_def Some walk refl rec "1.prems"(2) F(1) _ "1.prems"(5)] W F(2)
      show ?thesis by (auto intro: grown_trans)
    qed
  qed
qed

subsection \<open>The graph of an accepted program\<close>

lemma graph_of_simps [simp]:
  "ir_insns (graph_of r) = ir_insns r" "ir_of_slot (graph_of r) = ir_of_slot r" "ir_blocks (graph_of r) = ir_blocks r"
  "ir_block_of (graph_of r) = ir_block_of r" "ir_subprogs (graph_of r) = ir_subprogs r" "ir_thresholds (graph_of r) = ir_thresholds r"
  by (simp_all add: graph_of_def ir.defs)

lemma build_ir_graph: "build_ir prog = Some (Ok r) \<Longrightarrow> build_graph prog = Ok (graph_of r)"
  by (auto simp: build_ir_def graph_of_def ir.defs Let_def split: sum.splits option.splits)

lemma decode_representable: "decode prog k = Some (Ok (d, w)) \<Longrightarrow> representable d"
  by (auto simp: decode_def Let_def bind_result_Ok split: option.splits dest: decode_slot_range)

lemma flow_thresholds: "flow_insn tab i = Ok (ss, es, ts) \<Longrightarrow> thresholds_ok ts"
proof -
  have w: "I64_MIN \<le> sint (k :: u32)" "sint k \<le> I64_MAX" for k using sint_ge [of k] sint_lt [of k] by (simp_all add: I64_MIN_def I64_MAX_def)
  have imm: "thresholds_ok (imm_threshold src)" for src by (cases src) (simp_all add: thresholds_ok_def w)
  have own: "thresholds_ok (own_thresholds d)" for d
    using imm i64_bounds by (cases d rule: own_thresholds.cases) (simp_all add: thresholds_ok_def)
  show "flow_insn tab i = Ok (ss, es, ts) \<Longrightarrow> thresholds_ok ts"
    using imm own [of "iop i"] by (auto simp: flow_insn_def bind_Ok split: decoded.splits call_target.splits imm64.splits)
qed

lemma pass_thresholds: "flow_pass tab is = Ok (sss, es, ts) \<Longrightarrow> thresholds_ok ts"
proof (induction "is" arbitrary: sss es ts)
  case (Cons i "is")
  then show ?case using flow_thresholds [of tab i] by (fastforce simp: bind_Ok thresholds_ok_def)
qed simp

lemma graph_thresholds:
  assumes "build_graph prog = Ok r"
  shows "thresholds_ok (ir_thresholds r)"
proof -
  obtain sss es ts tab "is" where "flow_pass tab is = Ok (sss, es, ts)"
    "ir_thresholds r = sort_dedup (ts @ [0, - 1, - (2 ^ 31), 2 ^ 31 - 1, 2 ^ 32 - 1])"
    using assms by (auto simp: build_graph_def bind_Ok Let_def case_prod_beta split: if_splits)
  then show ?thesis using pass_thresholds by (auto simp: thresholds_ok_def I64_MIN_def I64_MAX_def)
qed

lemma env_of_build:
  assumes "build_ir prog = Some (Ok r)" "e_ir e = r"
  shows "env_ok e"
proof -
  note g = build_ir_graph [OF assms(1)]
  obtain sss es ts bs where T: "tiled prog (length prog) (ir_insns r) (ir_of_slot r)"
    and F: "flow_pass (ir_of_slot r) (ir_insns r) = Ok (sss, es, ts)"
    and B: "block_numbers (leaders (ir_of_slot r) (ir_insns r) (sort_dedup (0 # es)) sss) (length (ir_insns r)) bs (ir_block_of r)"
    "ir_blocks r = fold (label_one (ir_block_of r)) (label_pairs (ir_of_slot r) (sort_dedup (0 # es)) (length (ir_insns r)))
       (link_blocks (ir_of_slot r) (ir_block_of r) sss bs)"
    by (rule graph_blocks [OF g, unfolded graph_of_simps]) (auto intro: that)
  have "length (map edges (ir_blocks r)) = length (map edges (link_blocks (ir_of_slot r) (ir_block_of r) sss bs))" unfolding B(2) label_edges ..
  then have len: "length (ir_blocks r) = length bs" by (simp add: link_blocks_def)
  note N = block_numbersD [OF B(1)]
  note flow = block_flow [OF g, unfolded graph_of_simps, OF F]
  have "\<exists>i < length (ir_insns r). ir_block_of r ! i = b" if "b < length (ir_blocks r)" for b
    using that N(2,3) len by (metis in_set_conv_nth lessThan_iff)
  then have "bstart (ir_blocks r ! b) < bend (ir_blocks r ! b) \<and> bend (ir_blocks r ! b) \<le> length (ir_insns r)" if "b < length (ir_blocks r)" for b
    using that flow(2-4) by (metis le_less_trans)
  moreover have "representable (iop i)" if "i \<in> set (ir_insns r)" for i
    using that tiledD(3) [OF T] decode_representable by (fastforce simp: in_set_conv_nth)
  moreover have "b < length (ir_blocks r)" if "b \<in> set (ir_block_of r)" for b using that N(3) len by simp
  ultimately show ?thesis
    using graph_thresholds [OF g] block_edges_in [OF g] assms(2) by (auto simp: env_ok_def in_set_conv_nth)
qed

lemma analyse_subprog_spec:
  assumes a: "analyse_subprog e sp entry a = Accept (a', w)" and e: "env_ok e" and ok: "state_ok entry" "analysis_ok (length (ir_subprogs (e_ir e))) a"
    and eb: "entry_block (ir_subprogs (e_ir e) ! sp) < length (ir_blocks (e_ir e))"
  obtains reach where "reachable_blocks (graph_of (e_ir e)) (Some (entry_block (ir_subprogs (e_ir e) ! sp))) = Some reach"
    "queue_ok (length (ir_blocks (e_ir e))) w"
    "\<And>b s. b < length (ir_blocks (e_ir e)) \<Longrightarrow> in_state w ! b = Some s \<Longrightarrow> settled e reach (in_state w) b s"
    "covered (in_state w) (entry_block (ir_subprogs (e_ir e) ! sp)) entry"
proof -
  let ?n = "length (ir_blocks (e_ir e))" and ?eb = "entry_block (ir_subprogs (e_ir e) ! sp)"
  let ?w = "\<lparr>in_state = (replicate ?n None)[?eb := Some entry], pending = [?eb], queued = (replicate ?n False)[?eb := True]\<rparr>"
  obtain reach where r: "reachable_blocks (graph_of (e_ir e)) (Some ?eb) = Some reach"
    and l: "worklist_loop e sp reach (uint (fixpoint_round_budget ?n)) 0 a ?w = Accept (a', w)"
    using a by (auto simp: analyse_subprog_def Let_def bindv_Accept)
  have "s = entry" if "Some s \<in> set ((replicate ?n None)[?eb := Some entry])" for s
    using that set_update_subset_insert [of "replicate ?n None" ?eb "Some entry"] by (auto split: if_splits)
  then have "loop_inv e reach ?w" using eb ok(1) by (auto simp: loop_inv_def queue_ok_def nth_list_update)
  note W = worklist_loop_spec [OF l e this ok(2) refl]
  show ?thesis
  proof (rule that [OF r])
    show "queue_ok ?n w" using W by (simp add: loop_inv_def)
    show "settled e reach (in_state w) b s" if "b < ?n" "in_state w ! b = Some s" for b s using W that by (auto simp: loop_inv_def)
    show "covered (in_state w) ?eb entry" using W eb by (auto simp: grown_def)
  qed
qed

subsection \<open>Properties\<close>

text \<open>
  C11. What the analysis returns is a fixpoint above its entry, widening included. When \<open>analyse_subprog\<close> accepts for a program whose \<open>Ir\<close> was
  built: the state kept for the entry block describes every configuration that the entry state describes; every state it keeps is well
  formed; and walking a block from its state is accepted, with each state it sends along an edge described by the state kept for the target.
\<close>

theorem analysis_settles:
  assumes "build_ir prog = Some (Ok (e_ir e))" "analyse_subprog e sp entry a = Accept (a', w)" "state_ok entry"
    and "analysis_ok (length (ir_subprogs (e_ir e))) a" "entry_block (ir_subprogs (e_ir e) ! sp) < length (ir_blocks (e_ir e))"
  shows "(\<exists>u. in_state w ! entry_block (ir_subprogs (e_ir e) ! sp) = Some u \<and> (\<forall>E c. gamma_state E entry c \<longrightarrow> gamma_state E u c))
    \<and> (\<exists>reach. reachable_blocks (graph_of (e_ir e)) (Some (entry_block (ir_subprogs (e_ir e) ! sp))) = Some reach
        \<and> (\<forall>b < length (ir_blocks (e_ir e)). \<forall>s. in_state w ! b = Some s \<longrightarrow> state_ok s \<and>
            (\<exists>a1 a2 outs. walk_block e b (a1, s) = Accept (a2, outs) \<and> (\<forall>(t, s') \<in> set outs. t < length (ir_blocks (e_ir e))
               \<and> (reach ! t \<longrightarrow> (\<exists>u. in_state w ! t = Some u \<and> (\<forall>E c. gamma_state E s' c \<longrightarrow> gamma_state E u c)))))))"
proof -
  obtain reach where r: "reachable_blocks (graph_of (e_ir e)) (Some (entry_block (ir_subprogs (e_ir e) ! sp))) = Some reach"
    and q: "queue_ok (length (ir_blocks (e_ir e))) w"
    and S: "\<And>b s. b < length (ir_blocks (e_ir e)) \<Longrightarrow> in_state w ! b = Some s \<Longrightarrow> settled e reach (in_state w) b s"
    and c: "covered (in_state w) (entry_block (ir_subprogs (e_ir e) ! sp)) entry"
    using analyse_subprog_spec [OF assms(2) env_of_build [OF assms(1) refl] assms(3-5)] by blast
  have "state_ok s" if "b < length (ir_blocks (e_ir e))" "in_state w ! b = Some s" for b s
    using q that nth_mem [of b "in_state w"] by (auto simp: queue_ok_def)
  then show ?thesis using r c S unfolding settled_def covered_def state_le_def by (intro conjI exI [of _ reach]) fast+
qed

text \<open>A jump over a block that is never entered.\<close>

definition jump_on :: "insn list" where
  "jump_on =
     [\<lparr>code = 0xB7, regs = 0, off = 0, imm = 0\<rparr>,
      \<lparr>code = 0x05, regs = 0, off = 1, imm = 0\<rparr>,
      \<lparr>code = 0x95, regs = 0, off = 0, imm = 0\<rparr>,
      \<lparr>code = 0x95, regs = 0, off = 0, imm = 0\<rparr>]"

definition jump_env :: "full_ir \<Rightarrow> env" where
  "jump_env r = \<lparr>e_ir = r, e_prog = \<lparr>pr_insns = jump_on, pr_context = Atomic_ctx, pr_ctx_fields = [], pr_kfuncs = [], pr_maps = [], pr_objects = []\<rparr>,
     e_live = \<lparr>before = replicate 4 0, after = replicate 4 0\<rparr>, e_prec = \<lparr>before = replicate 4 0, after = replicate 4 0\<rparr>\<rparr>"

theorem analysis_settles_witness:
  "\<exists>e a w s. analyse_subprog e 0 (entry_state 0) (start_analysis 1 0) = Accept (a, w) \<and> in_state w ! 2 = Some s \<and> state_ok s"
proof -
  have "case build_ir jump_on of
      Some (Ok r) \<Rightarrow>
        (case analyse_subprog (jump_env r) 0 (entry_state 0) (start_analysis 1 0) of
           Accept (a, w) \<Rightarrow> entry_block (ir_subprogs r ! 0) < length (ir_blocks r) \<and> length (ir_subprogs r) = 1 \<and> 2 < length (ir_blocks r) \<and> in_state w ! 2 \<noteq> None
         | _ \<Rightarrow> False)
    | _ \<Rightarrow> False"
    by code_simp
  then obtain r a w s where b: "build_ir jump_on = Some (Ok r)"
    and an: "analyse_subprog (jump_env r) 0 (entry_state 0) (start_analysis 1 0) = Accept (a, w)"
    and x: "entry_block (ir_subprogs r ! 0) < length (ir_blocks r)" "length (ir_subprogs r) = 1" "2 < length (ir_blocks r)" "in_state w ! 2 = Some s"
    by (auto split: option.splits sum.splits verdict.splits)
  have ir: "e_ir (jump_env r) = r" by (simp add: jump_env_def)
  have ok: "analysis_ok (length (ir_subprogs (e_ir (jump_env r)))) (start_analysis 1 0)"
    using x(2) by (simp add: ir analysis_ok_def start_analysis_def entry_state_ok)
  note A = analysis_settles [OF _ an entry_state_ok ok, of jump_on, unfolded ir, OF b x(1)]
  have "state_ok s" using A x(3,4) by blast
  then show ?thesis using an x(4) by blast
qed

end
