(* ===== verification/Bpf_Sound.thy ===== *)
theory Bpf_Sound
  imports Bpf_Wellformed
begin

text \<open>
  The transfer functions of the verifier against the reference interpreter, instruction by instruction. A run of the
  interpreter has two regions, the stack and the read-only context, and no other memory: a pointer of another class has no address to
  hold. The flag \<open>nl\<close> says whether pointers that may be null can be null. A state of the analysis describes a machine when
  its registers and its frame do.
\<close>

subsection \<open>The regions of a run\<close>

definition run_regions :: "bool \<Rightarrow> nat \<Rightarrow> regions" where
  "run_regions nl n = \<lparr>bases = (\<lambda>c key ref. if c = Class_Stack then {of_nat STACK_BYTES} else if c = Class_Ctx then {CTX_BASE} else {}),
     extent = (\<lambda>b. if b = CTX_BASE then n else 0), writable = (\<lambda>b. b \<noteq> CTX_BASE), lifetime = (\<lambda>_. Static), nulls = nl\<rparr>"

definition config_of :: "machine \<Rightarrow> config" where
  "config_of m = \<lparr>cregs = mregs m, cmem = machine_memory m, cheld = {}\<rparr>"

text \<open>The machine \<open>m\<close> is described by \<open>st\<close>, and its context by the fields that the program declares.\<close>

definition describes :: "bool \<Rightarrow> arg_desc list \<Rightarrow> abs_state \<Rightarrow> machine \<Rightarrow> bool" where
  "describes nl flds st m \<longleftrightarrow> machine_ok m \<and> length (mctx m) = 8 * length flds \<and> length flds < 2 ^ 32
     \<and> (\<forall>k < length flds. gamma_value (run_regions nl (8 * length flds)) (value_of (flds ! k) NO_REF) (u64_of_bytes (range_get (8 * k) 8 (mctx m))))
     \<and> gamma_state (run_regions nl (8 * length flds)) st (config_of m)"

lemma stack_base: "(of_nat STACK_BYTES :: u64) = 16384" "CTX_BASE = 4294967296"
  by (simp_all add: STACK_BYTES_def CTX_BASE_def)

lemma gamma_ptr_cases:
  assumes "gamma_ptr (run_regions nl n) p v"
  obtains (Stack) d where "pclass p = Class_Stack" "scalar_contains (poff p) d" "v = of_nat STACK_BYTES + d"
  | (Ctx) d where "pclass p = Class_Ctx" "preadonly p" "scalar_contains (poff p) d" "v = CTX_BASE + d" "\<And>k. psize p = Some k \<Longrightarrow> unat k \<le> n"
  | (Null) "nl" "pnullable p" "v = 0"
  using assms by (auto simp: gamma_ptr_def grants_def run_regions_def split: if_splits)

text \<open>Offsets of one region: what is granted does not depend on the offset.\<close>

lemma gamma_ptr_move:
  assumes "gamma_ptr (run_regions nl n) p v" "\<And>d. scalar_contains (poff p) d \<Longrightarrow> scalar_contains s (d + k)" "nl \<Longrightarrow> \<not> pnullable p"
  shows "gamma_ptr (run_regions nl n) (p\<lparr>poff := s\<rparr>) (v + k)"
proof -
  obtain b d where "grants (run_regions nl n) p b" "scalar_contains (poff p) d" "v = b + d" using assms(1,3) by (auto simp: gamma_ptr_def run_regions_def)
  then show ?thesis using assms(2) [of d] unfolding gamma_ptr_def grants_off by (auto simp: add.assoc)
qed

lemma gamma_ptr_diff:
  assumes "gamma_ptr (run_regions nl n) p v" "gamma_ptr (run_regions nl n) q w" "pclass p = pclass q"
    "nl \<Longrightarrow> \<not> pnullable p \<and> \<not> pnullable q"
  obtains d d' where "scalar_contains (poff p) d" "scalar_contains (poff q) d'" "v - w = d - d'"
  using assms by (elim gamma_ptr_cases) auto

lemma gamma_ptr_nonnull: "gamma_ptr (run_regions nl n) p v \<Longrightarrow> v \<noteq> 0 \<Longrightarrow> gamma_ptr (run_regions nl n) (p\<lparr>pnullable := False\<rparr>) v"
  by (auto simp: gamma_ptr_def grants_def run_regions_def)

subsection \<open>Registers and operands\<close>

lemma describesD:
  assumes "describes nl flds st m"
  shows "machine_ok m" "length (mctx m) = 8 * length flds" "length (mctx m) < 2 ^ 36"
    "gamma_frame (run_regions nl (8 * length flds)) (astack st) (machine_memory m)"
    "i < 11 \<Longrightarrow> gamma_value (run_regions nl (8 * length flds)) (aregs st ! i) (mregs m ! i)"
    "k < length flds \<Longrightarrow> gamma_value (run_regions nl (8 * length flds)) (value_of (flds ! k) NO_REF) (u64_of_bytes (range_get (8 * k) 8 (mctx m)))"
  using assms by (auto simp: describes_def gamma_state_def gamma_regs_def config_of_def)

lemma reg_described: "describes nl flds st m \<Longrightarrow> reg_ok r \<Longrightarrow> gamma_value (run_regions nl (8 * length flds)) (aregs st ! reg_usize r) (get_reg m r)"
  using describesD(5) [of nl flds st m "reg_usize r"] reg_ok_11 [of r] by (simp add: get_reg_def)

lemma memory_set_reg [simp]: "machine_memory (set_reg m r w) = machine_memory m"
  by (simp add: machine_memory_def set_reg_def cong: if_cong)

lemma set_described:
  assumes "describes nl flds st m" "state_ok st" "gamma_value (run_regions nl (8 * length flds)) v w"
  shows "describes nl flds (st\<lparr>aregs := (aregs st)[reg_usize r := v]\<rparr>) (set_reg m r w)"
proof -
  have "gamma_value (run_regions nl (8 * length flds)) ((aregs st)[reg_usize r := v] ! i) (mregs (set_reg m r w) ! i)" if "i < 11" for i
    using that describesD(1,5) [OF assms(1)] assms(2,3) by (cases "reg_usize r = i") (auto simp: set_reg_def machine_ok_def state_okD(1))
  then show ?thesis using assms(1) by (simp add: describes_def gamma_state_def gamma_regs_def config_of_def)
qed

lemma contains_constant: "I64_MIN \<le> c \<Longrightarrow> c \<le> I64_MAX \<Longrightarrow> scalar_contains (scalar_constant c) (as_u64 c)"
  using models_constant by (simp add: models_def)

lemma immediate_described: "gamma_value E (Scalar (scalar_constant (if wide then sint (k :: u32) else uint k))) (if wide then scast k else ucast k)"
proof -
  have "I64_MIN \<le> sint k" "sint k \<le> I64_MAX" using sint_ge [of k] sint_lt [of k] by (simp_all add: I64_MIN_def I64_MAX_def)
  moreover have "0 \<le> uint k" "uint k < 4294967296" using unsigned_less [of k, where 'a = int] by simp_all
  then have "I64_MIN \<le> uint k" "uint k \<le> I64_MAX" by (simp_all add: I64_MIN_def I64_MAX_def order_trans [of _ 0])
  ultimately show ?thesis using contains_constant [of "sint k"] contains_constant [of "uint k"] by (cases wide) simp_all
qed

lemma source_value_at: "source_value st at src wide = Accept v \<longleftrightarrow> source_value st at' src wide = Accept v"
  by (cases src) (auto simp: accepts)

lemma source_described:
  assumes "source_value st at src wide = Accept v" "describes nl flds st m" "source_ok src"
  shows "gamma_value (run_regions nl (8 * length flds)) v (val m src wide)"
  using assms immediate_described [of _ wide] reg_described [OF assms(2)] by (cases src) (auto simp: accepts)

lemma scalar_models: "value_ok (Scalar s) \<Longrightarrow> gamma_value E (Scalar s) w \<Longrightarrow> models s w"
  by (simp add: models_def)

subsection \<open>Arithmetic\<close>

text \<open>
  Arithmetic on a pointer that may be null gives a pointer the analysis still tests for null, although the sum of null and a number
  is not null. The transfer function is sound for it only when there are no null pointers.
\<close>

definition null_capable :: "abs_value \<Rightarrow> bool" where
  "null_capable v = (case v of Ptr p \<Rightarrow> pnullable p | _ \<Rightarrow> False)"

definition null_arith_sound :: "abs_state \<Rightarrow> decoded \<Rightarrow> bool" where
  "null_arith_sound st d =
     (case d of
        Alu wide op dst src \<Rightarrow>
          \<not> null_capable (aregs st ! reg_usize dst)
          \<and> (case source_value st 0 src wide of Accept v \<Rightarrow> \<not> null_capable v | _ \<Rightarrow> True)
      | _ \<Rightarrow> True)"

lemma alu_value_sound:
  assumes "alu_value at wide op dst d s = Accept v" "value_ok d" "value_ok s"
    "gamma_value (run_regions nl n) d x" "gamma_value (run_regions nl n) s y" "nl \<Longrightarrow> \<not> null_capable d \<and> \<not> null_capable s"
  shows "gamma_value (run_regions nl n) v (alu op wide x y)"
proof -
  have S: "gamma_value (run_regions nl n) (Scalar (scalar_alu op wide a b)) (alu op wide x y)" if "models a x" "models b y" for a b
    using alu_wide_sound [OF that] alu_narrow_sound [OF that] by (cases wide) (simp_all add: alu_def scalar_alu_def models_def)
  show ?thesis
  proof (cases d)
    case (Ptr p)
    have g: "gamma_ptr (run_regions nl n) p x" using assms(4) Ptr by simp
    have nn: "nl \<Longrightarrow> \<not> pnullable p" using assms(6) Ptr by (simp add: null_capable_def)
    then have c: "pclass p = Class_Stack \<or> pclass p = Class_Ctx" using g by (elim gamma_ptr_cases) auto
    have ok: "scalar_ok (poff p)" using assms(2) Ptr by simp
    show ?thesis
    proof (cases s)
      case (Scalar b)
      then have b: "models b y" using assms(3,5) by (simp add: models_def)
      have "scalar_contains (scalar_add (poff p) b) (k + y)" "scalar_contains (scalar_sub (poff p) b) (k - y)" if "scalar_contains (poff p) k" for k
        using scalar_add_sound [of "poff p" k b y] scalar_sub_sound [of "poff p" k b y] ok b that by (auto simp: models_def)
      then show ?thesis
        using assms(1) c Ptr Scalar gamma_ptr_move [OF g _ nn, of "scalar_add (poff p) b" y] gamma_ptr_move [OF g _ nn, of "scalar_sub (poff p) b" "- y"]
        by (auto simp: alu_value_def Let_def alu_def split: if_splits)
    next
      case q: (Ptr q)
      have "gamma_ptr (run_regions nl n) q y" "nl \<Longrightarrow> \<not> pnullable p \<and> \<not> pnullable q" using assms(5,6) nn q by (simp_all add: null_capable_def)
      then have "scalar_contains (scalar_sub (poff p) (poff q)) (x - y)" if "pclass p = pclass q"
        using gamma_ptr_diff [OF g _ that, of y] scalar_sub_sound [of "poff p" _ "poff q"] ok assms(3) q by (metis models_def value_ok.simps(3))
      then show ?thesis using assms(1) c Ptr q by (auto simp: alu_value_def Let_def alu_def split: if_splits)
    qed (use assms(1) c Ptr in \<open>auto simp: alu_value_def Let_def split: if_splits\<close>)
  qed (use assms S in \<open>auto simp: alu_value_def Let_def models_def split: abs_value.splits\<close>)
qed

lemma mov_abs_sound:
  assumes "mov_abs wide sx v = Accept u" "value_ok v" "gamma_value E v x" "sx \<noteq> Some 0"
  shows "gamma_value E u (mov_value wide sx x)"
proof (cases v)
  case (Scalar s)
  then obtain r where "mov_op wide sx s = Some r" "models r (mov_value wide sx x)" using mov_op_sound [of s x sx wide] assms by (auto simp: models_def)
  then show ?thesis using assms(1) Scalar by (auto simp: mov_abs_def models_def)
qed (use assms in \<open>auto simp: mov_abs_def mov_value_def split: if_splits\<close>)

subsection \<open>Memory\<close>

lemma size_bytes_pos: "0 < size_bytes sz" "unat (of_nat (size_bytes sz) :: u64) = size_bytes sz"
  by (cases sz; simp)+

lemma sint_stack:
  assumes "- MAX_STACK_BYTES \<le> sint x" "sint x < 0"
  shows "sint (of_nat STACK_BYTES + x :: u64) = int STACK_BYTES + sint x"
proof -
  have "of_nat STACK_BYTES + x = as_u64 (int STACK_BYTES + sint x)" by simp
  then show ?thesis using sint_as_u64 [of "int STACK_BYTES + sint x"] assms
    by (simp add: STACK_BYTES_def MAX_STACK_BYTES_def I64_MIN_def I64_MAX_def)
qed

text \<open>The place \<open>o'\<close> of an access to the frame and what the analysis knows of it.\<close>

definition placed :: "size \<Rightarrow> resolved \<Rightarrow> int \<Rightarrow> bool" where
  "placed sz res o' \<longleftrightarrow> - MAX_STACK_BYTES \<le> o' \<and> o' + int (size_bytes sz) \<le> 0
     \<and> (res = Const o' \<or> (\<exists>lo hi. res = StackRange lo hi \<and> - MAX_STACK_BYTES \<le> lo \<and> lo \<le> o' \<and> o' + int (size_bytes sz) \<le> hi \<and> hi \<le> 0))"

lemma placed_frame: "placed sz res o' \<Longrightarrow> in_frame o' \<and> o' < 0"
  using size_bytes_pos(1) [of sz] by (auto simp: placed_def in_frame_def)

lemma access_stack_placed:
  assumes "access_stack a at addr sz = Accept (a', res)" "models addr x"
  shows "placed sz res (sint x)"
proof -
  have "smin addr \<le> sint x" "sint x \<le> smax addr" using assms(2) by (simp_all add: models_iff)
  then show ?thesis
    using assms(1) as_const_sound [OF assms(2)]
    by (auto simp: access_stack_def Let_def placed_def i64_checked_add_def split: option.splits if_splits)
qed

lemma past_regionD:
  assumes "\<not> past_region addr len region" "models addr x" "unat region < 2 ^ 36"
  shows "0 \<le> sint x" "unat x + unat len \<le> unat region"
proof -
  have s: "0 \<le> smin addr" "smin addr \<le> sint x" "sint x \<le> smax addr" "smax addr \<le> I64_MAX"
    using assms by (auto simp: past_region_def models_iff in_range_def)
  then show 0: "0 \<le> sint x" by simp
  then have "uint x = sint x" using sign_sint [of x] sint_nonneg_uint [of x] by simp
  moreover have "uint (as_u64 (smax addr)) = smax addr"
    using s by (simp add: I64_MAX_def uint_word_of_int)
  ultimately have "unat x \<le> unat (as_u64 (smax addr))" using s(3) by (simp add: unat_eq_nat_uint nat_mono)
  moreover have "\<not> unat region < unat (saturating_add (as_u64 (smax addr)) len)" using assms(1) by (simp add: past_region_def word_less_nat_alt)
  ultimately show "unat x + unat len \<le> unat region"
    using assms(3) by (simp add: unat_saturating_add min_def split: if_splits)
qed

lemma access_cases:
  assumes "access e a st at r o' sz w f = Accept (a', res)" "aregs st ! reg_usize r = Ptr p" "gamma_ptr (run_regions nl n) p v" "scalar_ok (poff p)" "n < 2 ^ 36"
  obtains (Stack) x where "pclass p = Class_Stack" "v + scast o' = of_nat STACK_BYTES + x" "placed sz res (sint x)"
  | (Ctx) c where "pclass p = Class_Ctx" "\<not> w" "res = Const (int c)" "c + size_bytes sz \<le> n" "v + scast o' = CTX_BASE + of_nat c"
proof -
  let ?addr = "scalar_add (poff p) (scalar_constant (sint o'))"
  have "I64_MIN \<le> sint o'" "sint o' \<le> I64_MAX" using sint_ge [of o'] sint_lt [of o'] by (simp_all add: I64_MIN_def I64_MAX_def)
  then have k: "models (scalar_constant (sint o')) (scast o')" using models_constant [of "sint o'"] by simp
  have addr: "models ?addr (d + scast o')" if "scalar_contains (poff p) d" for d
    using scalar_add_sound [OF _ k] that assms(4) by (simp add: models_def)
  from assms(3) show ?thesis
  proof (cases rule: gamma_ptr_cases)
    case (Stack d)
    then have "access_stack a at ?addr sz = Accept (a', res)"
      using assms(1,2) by (auto simp: access_def accepts Let_def is_faulting_def split: if_splits)
    from access_stack_placed [OF this addr [OF Stack(2)]] show ?thesis using that(1) [of "d + scast o'"] Stack by (simp add: add.assoc)
  next
    case (Ctx d)
    then obtain region c where c: "psize p = Some region" "\<not> past_region ?addr (of_nat (size_bytes sz)) region" "as_const ?addr = Some c" "res = Const c" "\<not> w"
      using assms(1,2) by (auto simp: access_def accepts Let_def is_faulting_def split: if_splits option.splits)
    have x: "sint (d + scast o') = c" "d + scast o' = as_u64 c" using as_const_sound [OF addr [OF Ctx(3)] c(3)] by auto
    have "0 \<le> c" "unat (d + scast o') + size_bytes sz \<le> n"
      using past_regionD [OF c(2) addr [OF Ctx(3)]] Ctx(5) [OF c(1)] assms(5) x(1) size_bytes_pos(2) [of sz] by auto
    moreover from this have "int (unat (d + scast o')) = c" using x(1) sign_sint [of "d + scast o'"] sint_nonneg_uint [of "d + scast o'"] by simp
    ultimately show ?thesis using that(2) [of "unat (d + scast o')"] Ctx c by (simp add: add.assoc)
  next
    case Null
    then show ?thesis using assms(1,2) by (auto simp: access_def accepts)
  qed
qed

text \<open>Loads.\<close>

lemma initialized_defined:
  assumes "gamma_frame E st (machine_memory m)" "is_initialized st lo len" "- MAX_STACK_BYTES \<le> lo" "lo \<le> 0" "len \<noteq> 0" "lo \<le> b" "b < lo + int (unat len)"
  shows "mem_defined (machine_memory m) b"
proof -
  have "I64_MIN \<le> lo" "lo \<le> I64_MAX" using assms(3,4) by (simp_all add: MAX_STACK_BYTES_def I64_MIN_def I64_MAX_def)
  then have "in_frame lo" "lo + int (unat len) \<le> 0" "init_at st b" using is_initialized_iff [OF assms(5), of lo st] assms(2,6,7) by auto
  then show ?thesis using gamma_frameD(1) [OF assms(1), of b] assms(6,7) by (auto simp: in_frame_def)
qed

lemma of_nat_size: "(of_nat (size_bytes sz) :: u64) \<noteq> 0"
  by (cases sz) simp_all

lemma width_described: "gamma_value E (Scalar (unsigned_bits (size_bits sz))) (u64_of_bytes (mem_get M o' (size_bytes sz)))"
  using unsigned_bits_sound [of "size_bits sz"] u64_of_bytes_small [of "mem_get M o' (size_bytes sz)"]
  by (simp add: mem_get_def size_bits_def mult.commute models_def)

lemma stack_load_sound:
  assumes "load_value e a st at sz Class_Stack res = Accept (a', v)" "placed sz res (sint x)" "describes nl flds st m"
  shows "\<exists>w. load m (of_nat STACK_BYTES + x) sz = Ok w \<and> gamma_value (run_regions nl (8 * length flds)) v w"
proof -
  let ?o = "sint x" and ?M = "machine_memory m"
  note D = describesD [OF assms(3)] and P = placed_frame [OF assms(2)]
  have p: "- MAX_STACK_BYTES \<le> ?o" "?o + int (size_bytes sz) \<le> 0" using assms(2) by (simp_all add: placed_def)
  have addr: "sint (of_nat STACK_BYTES + x) = int STACK_BYTES + ?o" using sint_stack p P by simp
  have L: "load m (of_nat STACK_BYTES + x) sz = Ok (u64_of_bytes (mem_get ?M ?o (size_bytes sz)))"
    if "\<And>b. ?o \<le> b \<Longrightarrow> b < ?o + int (size_bytes sz) \<Longrightarrow> mem_defined ?M b"
    using load_memory [OF D(1) addr _ p(2) that] P by simp
  from assms(2) consider "res = Const ?o"
    | lo hi where "res = StackRange lo hi" "- MAX_STACK_BYTES \<le> lo" "lo \<le> ?o" "?o + int (size_bytes sz) \<le> hi" "hi \<le> 0" by (auto simp: placed_def)
  then show ?thesis
  proof cases
    case 1
    then have i: "is_initialized (astack st) ?o (of_nat (size_bytes sz))" and v: "v = frame_read (astack st) ?o sz"
      using assms(1) by (auto simp: load_value_def Let_def split: if_splits)
    from L [OF initialized_defined [OF D(4) i p(1) _ of_nat_size]] P frame_read_sound [OF D(4) _ p(2)]
    show ?thesis unfolding v size_bytes_pos(2) by auto
  next
    case 2
    have len: "unat (as_u64 (hi - lo)) = nat (hi - lo)"
      using 2 p by (simp add: unat_eq_nat_uint uint_word_of_int MAX_STACK_BYTES_def del: of_int_diff)
    then have "as_u64 (hi - lo) \<noteq> 0" using 2(3,4) size_bytes_pos(1) [of sz] by (auto simp: unat_eq_0 [symmetric])
    moreover have "is_initialized (astack st) lo (as_u64 (hi - lo))" "v = Scalar (unsigned_bits (size_bits sz))"
      using assms(1) 2(1) by (auto simp: load_value_def Let_def split: if_splits)
    ultimately show ?thesis
      using L [OF initialized_defined [OF D(4), of lo "as_u64 (hi - lo)"]] 2 P len width_described by (auto simp del: of_int_diff)
  qed
qed

lemma context_load:
  assumes "c + size_bytes sz \<le> length (mctx m)" "length (mctx m) < 2 ^ 36"
  shows "load m (CTX_BASE + of_nat c) sz = Ok (u64_of_bytes (range_get c (size_bytes sz) (mctx m)))"
proof -
  have "c < 2 ^ 36" using assms by linarith
  then have "unat (of_nat c :: u64) = c" "CTX_BASE \<le> CTX_BASE + of_nat c"
    by (simp_all add: unat_of_nat word_le_nat_alt stack_base unat_word_ariths)
  then show ?thesis using assms by (simp add: load_def ctx_load_def Let_def not_less [symmetric])
qed

lemma aligned_field:
  assumes "int c smod 8 = 0"
  shows "nat (int c sdiv 8) = c div 8" "c = 8 * (c div 8)"
proof -
  have "int c mod 8 = 0" using assms by (cases "c = 0") (simp_all add: signed_modulo_int_def)
  then show "c = 8 * (c div 8)" by presburger
  have "int c sdiv 8 = int c div 8" by (cases "c = 0") (simp_all add: signed_divide_int_def)
  then show "nat (int c sdiv 8) = c div 8" by (simp add: nat_div_distrib)
qed

lemma context_load_sound:
  assumes "load_value e a st at sz Class_Ctx (Const (int c)) = Accept (a', v)" "c + size_bytes sz \<le> 8 * length flds" "describes nl flds st m"
    and "flds = pr_ctx_fields (e_prog e)"
  shows "\<exists>w. load m (CTX_BASE + of_nat c) sz = Ok w \<and> gamma_value (run_regions nl (8 * length flds)) v w \<and> sz = Size_Dw"
proof -
  note D = describesD [OF assms(3)]
  have f: "sz = Size_Dw" "int c smod 8 = 0" "c div 8 < length flds" "v = value_of (flds ! (c div 8)) NO_REF"
    using assms(1,4) aligned_field(1) [of c] by (auto simp: load_value_def Let_def accepts ctx_field_def nth_opt_Some_iff split: if_splits option.splits)
  have "load m (CTX_BASE + of_nat c) sz = Ok (u64_of_bytes (range_get (8 * (c div 8)) 8 (mctx m)))"
    using context_load [of c sz m] assms(2) D(2,3) f(1) aligned_field(2) [OF f(2)] by simp
  then show ?thesis using D(6) [OF f(3)] f(1,4) by simp
qed

lemma frame_read_ptr: "frame_read st o' sz = Ptr p \<Longrightarrow> sz = Size_Dw"
  by (auto simp: frame_read_def Let_def split: if_splits)

lemma extend_loaded_sound:
  assumes "extend_loaded sz sx v = Accept u" "value_ok v" "gamma_value E v w" "\<And>p. v = Ptr p \<Longrightarrow> sz = Size_Dw" "\<not> (sx \<and> sz = Size_Dw)"
  shows "gamma_value E u (if sx then sext w (size_bits sz) else w)"
proof (cases v)
  case (Scalar s)
  have "0 < size_bits sz" using size_bytes_pos(1) [of sz] by (simp add: size_bits_def)
  then show ?thesis
    using assms(1-3) Scalar scalar_sign_extend_sound [of s w "size_bits sz"] by (auto simp: extend_loaded_def models_def split: if_splits)
qed (use assms in \<open>auto simp: extend_loaded_def\<close>)

lemma loaded_ok: "load_value e a st at sz cls res = Accept (a', v) \<Longrightarrow> state_ok st \<Longrightarrow> value_ok v"
  by (auto simp: load_value_def Let_def accepts ctx_field_def scalar_closed value_of_ok frame_ok_ops state_okD
      split: ptr_class.splits resolved.splits if_splits option.splits)

lemma load_step_sound:
  assumes l: "load_step e a st at sz sx dst src o' = Accept (a', st')" and ok: "state_ok st" "reg_ok src" "\<not> (sx \<and> sz = Size_Dw)"
    and d: "describes nl flds st m" "flds = pr_ctx_fields (e_prog e)"
  shows "\<exists>w. load m (get_reg m src + scast o') sz = Ok w \<and> describes nl flds st' (set_reg m dst (if sx then sext w (size_bits sz) else w))"
proof -
  obtain p a1 res a2 v u where p: "aregs st ! reg_usize src = Ptr p" and acc: "access e a st at src o' sz False (Some (reg_usize dst)) = Accept (a1, res)"
    and lv: "load_value e a1 st at sz (pclass p) res = Accept (a2, v)" and ex: "extend_loaded sz sx v = Accept u"
    and st': "st' = st\<lparr>aregs := (aregs st)[reg_usize dst := u]\<rparr>"
    using l by (auto simp: load_step_def accepts)
  have g: "gamma_ptr (run_regions nl (8 * length flds)) p (get_reg m src)" "scalar_ok (poff p)"
    using reg_described [OF d(1) ok(2)] reg_value_ok [OF ok(1,2)] p by auto
  have n: "8 * length flds < 2 ^ 36" using describesD(2,3) [OF d(1)] by simp
  obtain w where w: "load m (get_reg m src + scast o') sz = Ok w" "gamma_value (run_regions nl (8 * length flds)) v w" "\<And>p. v = Ptr p \<Longrightarrow> sz = Size_Dw"
    using acc p g n
  proof (cases rule: access_cases)
    case (Stack x)
    have "v = Ptr p' \<Longrightarrow> sz = Size_Dw" for p'
      using lv Stack(1,3) by (auto simp: load_value_def Let_def placed_def split: if_splits dest: frame_read_ptr)
    then show ?thesis using stack_load_sound [OF lv [unfolded Stack(1)] Stack(3) d(1)] Stack(2) that by auto
  next
    case (Ctx c)
    then show ?thesis using context_load_sound [OF lv [unfolded Ctx(1,3)] Ctx(4) d] that by auto
  qed
  have "value_ok v" by (rule loaded_ok [OF lv ok(1)])
  from extend_loaded_sound [OF ex this w(2,3) ok(3)] set_described [OF d(1) ok(1)] w(1) show ?thesis unfolding st' by auto
qed

text \<open>Stores.\<close>

lemma store_step_sound:
  assumes s: "store_step e a st at sz dst o' src = Accept (a', st')" and ok: "state_ok st" "reg_ok dst" "source_ok src" and d: "describes nl flds st m"
  shows "\<exists>m'. store m (get_reg m dst + scast o') sz (val m src True) = Ok m' \<and> describes nl flds st' m'"
proof -
  let ?E = "run_regions nl (8 * length flds)"
  obtain v p a1 res where v: "source_value st at src True = Accept v" and p: "aregs st ! reg_usize dst = Ptr p"
    and acc: "access e a st at dst o' sz True None = Accept (a1, res)" and st': "(a', st') = store_frame a1 st sz (pclass p) res (stored_value sz v)"
    using s by (auto simp: store_step_def accepts)
  have g: "gamma_ptr ?E p (get_reg m dst)" "scalar_ok (poff p)" using reg_described [OF d ok(2)] reg_value_ok [OF ok(1,2)] p by auto
  have n: "8 * length flds < 2 ^ 36" using describesD(2,3) [OF d] by simp
  have w: "gamma_value ?E (stored_value sz v) (val m src True)"
    using source_described [OF v d ok(3)] by (auto simp: stored_value_def split: abs_value.split)
  show ?thesis
    using acc p g n
  proof (cases rule: access_cases)
    case (Stack x)
    let ?o = "sint x" and ?bs = "take (size_bytes sz) (to_le_bytes 8 (val m src True))"
    note D = describesD [OF d] and P = placed_frame [OF Stack(3)]
    have q: "- MAX_STACK_BYTES \<le> ?o" "?o + int (size_bytes sz) \<le> 0" using Stack(3) by (simp_all add: placed_def)
    obtain m' where m': "store m (of_nat STACK_BYTES + x) sz (val m src True) = Ok m'" "machine_ok m'" "mregs m' = mregs m" "mctx m' = mctx m"
      "machine_memory m' = mem_put ?o ?bs (machine_memory m)"
      using store_memory [OF D(1) sint_stack [OF q(1)] _ q(2)] P by blast
    have len: "length ?bs = size_bytes sz" "?bs \<noteq> []" using size_bytes_le [of sz] size_bytes_pos(1) [of sz] by (auto simp: to_le_bytes_def)
    have "\<exists>f. st' = st\<lparr>astack := f\<rparr> \<and> gamma_frame ?E f (machine_memory m')"
      using st' Stack(1,3) frame_write_sound [OF D(4) _ q(2) w] write_maybe_sound [OF D(4), of _ _ ?o ?bs] P len m'(5)
      by (auto simp: store_frame_def Let_def placed_def in_frame_def)
    then show ?thesis using m'(1-4) Stack(2) d by (auto simp: describes_def gamma_state_def config_of_def)
  qed simp
qed

subsection \<open>One instruction\<close>

text \<open>The instructions the reference interpreter refuses.\<close>

fun interpreted :: "decoded \<Rightarrow> bool" where
  "interpreted (AddrSpaceCast dst src dst_as src_as) = False"
| "interpreted (Atomic sz op dst src o') = False"
| "interpreted (LoadImm64 dst v) = (case v of Value _ \<Rightarrow> True | _ \<Rightarrow> False)"
| "interpreted (MayGoto o') = False"
| "interpreted (Call t) = False"
| "interpreted _ = True"

lemma not_interpreted: "\<not> interpreted d \<Longrightarrow> exec d nxt m = (m, Return (Err Unsupported))"
  by (cases "(d, nxt, m)" rule: exec.cases) auto

text \<open>What a step may do: go on in a machine the state describes, exit, or refuse an instruction the interpreter does not have.\<close>

definition step_fits :: "bool \<Rightarrow> arg_desc list \<Rightarrow> abs_state \<Rightarrow> decoded \<Rightarrow> machine \<times> outcome \<Rightarrow> bool" where
  "step_fits nl flds st d r \<longleftrightarrow>
     (case snd r of
        Continue _ \<Rightarrow> describes nl flds st (fst r)
      | Return (Ok _) \<Rightarrow> d = Exit
      | Return (Err t) \<Rightarrow> t = Unsupported \<and> \<not> interpreted d)"

lemma abs_step_sound:
  assumes s: "abs_step e i (a, st) = Accept (a', st')" and op: "iop (ir_insns (e_ir e) ! i) = d" "representable d"
    and ok: "state_ok st" "describes nl flds st m" "flds = pr_ctx_fields (e_prog e)" "nl \<Longrightarrow> null_arith_sound st d"
  shows "step_fits nl flds st' d (exec d nxt m)"
proof -
  let ?E = "run_regions nl (8 * length flds)"
  note set = set_described [OF ok(2,1)] and reg = reg_described [OF ok(2)] and src = source_described [OF _ ok(2)]
  have sm: "models x (get_reg m r)" if "aregs st ! reg_usize r = Scalar x" "reg_ok r" for r x
    using reg [OF that(2)] reg_value_ok [OF ok(1) that(2)] that(1) by (simp add: models_def)
  have srm: "models x (val m sr wide)" if "source_value st at sr wide = Accept (Scalar x)" "source_ok sr" for x at sr wide
    using src [OF that] source_value_ok [OF that(1) ok(1) that(2)] by (simp add: models_def)
  have alu: "gamma_value ?E v (alu op wide (get_reg m dst) (val m sr wide))"
    if "alu_value at wide op dst (aregs st ! reg_usize dst) y = Accept v" "source_value st at sr wide = Accept y" "reg_ok dst" "source_ok sr" "d = Alu wide op dst sr" for at wide op dst sr v y
  proof (rule alu_value_sound [OF that(1) reg_value_ok [OF ok(1) that(3)] source_value_ok [OF that(2) ok(1) that(4)] reg [OF that(3)] src [OF that(2,4)]])
    have "source_value st 0 sr wide = Accept y" using that(2) source_value_at by blast
    then show "\<not> null_capable (aregs st ! reg_usize dst) \<and> \<not> null_capable y" if nl using ok(4) [OF that] \<open>d = _\<close> by (simp add: null_arith_sound_def)
  qed
  have mov: "gamma_value ?E v (mov_value wide sx (val m sr wide))"
    if "mov_abs wide sx y = Accept v" "source_value st at sr wide = Accept y" "source_ok sr" "sx \<noteq> Some 0" for at wide sr sx v y
    using mov_abs_sound [OF that(1) source_value_ok [OF that(2) ok(1) that(3)] src [OF that(2,3)] that(4)] .
  have setm: "describes nl flds (st\<lparr>aregs := (aregs st)[reg_usize r := Scalar x]\<rparr>) (set_reg m r w)" if "models x w" for r x w
    using that set by (simp add: models_def)
  show ?thesis
  proof (cases "interpreted d")
    case False
    then show ?thesis by (simp add: step_fits_def not_interpreted)
  next
    case True
    show ?thesis
    proof (cases d)
      case (Load sz sx dst sr o')
      then show ?thesis
        using s op load_step_sound [of e a st "islot (ir_insns (e_ir e) ! i)" sz sx dst sr o' a' st' nl flds m] ok
        by (auto simp: abs_step_def step_fits_def Let_def)
    next
      case (Store sz dst o' sr)
      then show ?thesis
        using s op store_step_sound [of e a st "islot (ir_insns (e_ir e) ! i)" sz dst o' sr a' st' nl flds m] ok
        by (auto simp: abs_step_def step_fits_def Let_def)
    next
      case (LoadImm64 dst v)
      then show ?thesis
        using s op True set [of _ _ dst] contains_constant [OF i64_bounds]
        by (auto simp: abs_step_def step_fits_def Let_def accepts imm64_value_def split: imm64.splits)
    next
      case (Mov wide dst sr sx)
      then have "sx \<noteq> Some 0" using op(2) by (auto split: option.splits)
      then show ?thesis using Mov s op mov set [of _ _ dst] by (auto simp: abs_step_def step_fits_def Let_def accepts)
    next
      case (Alu wide op' dst sr)
      then show ?thesis using s op alu set [of _ _ dst] by (auto simp: abs_step_def step_fits_def Let_def accepts alu_step_def)
    next
      case (JumpCond wide c dst sr o')
      then show ?thesis using s op ok by (simp add: abs_step_def step_fits_def)
    qed (use s op ok(1,2) True in \<open>auto simp: abs_step_def step_fits_def Let_def accepts scalar_source_Accept
        intro!: setm neg_op_sound div_op_sound mod_op_sound end_op_sound sm srm\<close>)
  qed
qed

subsection \<open>Branches\<close>

text \<open>
  A comparison of a pointer with zero is refined as a null test: the edge on which a pointer that is not nullable equals zero is
  taken to be infeasible. That is right unless the pointer's offset can cancel the address of its region.
\<close>

definition never_zero :: "ptr_val \<Rightarrow> bool" where
  "never_zero p \<longleftrightarrow> (pclass p = Class_Stack \<longrightarrow> \<not> scalar_contains (poff p) (- of_nat STACK_BYTES))
     \<and> (pclass p = Class_Ctx \<longrightarrow> \<not> scalar_contains (poff p) (- CTX_BASE))"

definition null_test_sound :: "abs_state \<Rightarrow> decoded \<Rightarrow> bool" where
  "null_test_sound st d =
     (case d of
        JumpCond wide c dst src o' \<Rightarrow>
          (case (aregs st ! reg_usize dst, source_value st 0 src wide) of
             (Ptr p, Accept (Scalar z)) \<Rightarrow>
               wide \<and> as_const z = Some 0 \<and> (c = Cond_Eq \<or> c = Cond_Ne) \<and> \<not> pnullable p \<longrightarrow> never_zero p
           | _ \<Rightarrow> True)
      | _ \<Rightarrow> True)"

lemma never_zero_ptr: "gamma_ptr (run_regions nl n) p 0 \<Longrightarrow> \<not> pnullable p \<Longrightarrow> \<not> never_zero p"
  by (erule gamma_ptr_cases) (auto simp: never_zero_def add_eq_0_iff dest!: sym [of 0])

lemma describes_set:
  assumes "describes nl flds st m" "state_ok st" "gamma_value (run_regions nl (8 * length flds)) v (mregs m ! k)"
  shows "describes nl flds (st\<lparr>aregs := (aregs st)[k := v]\<rparr>) m"
proof -
  have "gamma_value (run_regions nl (8 * length flds)) ((aregs st)[k := v] ! i) (mregs m ! i)" if "i < 11" for i
    using that describesD(5) [OF assms(1)] assms(2,3) by (cases "k = i") (auto simp: state_okD(1))
  then show ?thesis using assms(1) by (simp add: describes_def gamma_state_def gamma_regs_def config_of_def)
qed

lemma describes_refs: "describes nl flds (fst (release k st)) m \<longleftrightarrow> describes nl flds st m"
  by (auto simp: describes_def gamma_state_def config_of_def release_def split: sum.splits)

lemma edge_holds: "if wide then pred_holds (if cond c wide x y then pred_of c else negate (pred_of c)) x y
    else pred_holds (if cond c wide x y then pred_of c else negate (pred_of c)) (ucast x :: u32) (ucast y)"
  by (simp add: cond_def pred_of_cond negate_exact)

lemma pred_of_eq: "(if b then pred_of c else negate (pred_of c)) = Pred_Eq \<Longrightarrow> c = Cond_Eq \<or> c = Cond_Ne"
  by (cases c) (auto split: if_splits)

lemma refine_null_sound:
  assumes r: "refine_null st wide pr dst p z = r" and ok: "state_ok st" "describes nl flds st m" "aregs st ! reg_usize dst = Ptr p" "reg_ok dst"
    and z: "models z y" and h: "wide \<Longrightarrow> pred_holds pr (get_reg m dst) y"
    and nz: "wide \<Longrightarrow> as_const z = Some 0 \<Longrightarrow> pr = Pred_Eq \<Longrightarrow> \<not> pnullable p \<Longrightarrow> never_zero p"
  shows "\<exists>st'. r = Some st' \<and> describes nl flds st' m"
proof (cases "wide \<and> as_const z = Some 0 \<and> (pr = Pred_Eq \<or> pr = Pred_Ne)")
  case True
  then have y: "y = 0" using as_const_sound [OF z, of 0] by simp
  have g: "gamma_ptr (run_regions nl (8 * length flds)) p (get_reg m dst)" using reg_described [OF ok(2,4)] ok(3) by simp
  note set = describes_set [OF ok(2,1), of _ "reg_usize dst", folded get_reg_def]
  show ?thesis
  proof (cases "pr = Pred_Eq")
    case eq: True
    then have "get_reg m dst = 0" using h True y by simp
    moreover from this have "pnullable p" using nz True eq never_zero_ptr g by metis
    moreover have "scalar_contains (scalar_constant 0) 0" using contains_constant [of 0] by (simp add: I64_MIN_def I64_MAX_def)
    ultimately show ?thesis using r True eq set [of "Scalar (scalar_constant 0)"] by (auto simp: refine_null_def Let_def describes_refs)
  next
    case False
    then have "pr = Pred_Ne" using True by blast
    then have "get_reg m dst \<noteq> 0" using h True y by simp
    then show ?thesis using r True False set [of "Ptr (p\<lparr>pnullable := False\<rparr>)"] gamma_ptr_nonnull [OF g] by (auto simp: refine_null_def)
  qed
qed (use r ok(2) in \<open>auto simp: refine_null_def\<close>)

lemma publish_extent_sound: "gamma_value (run_regions nl n) v w \<Longrightarrow> gamma_value (run_regions nl n) (publish_extent key limit v) w"
  by (cases v) (auto simp: gamma_ptr_def grants_def run_regions_def)

lemma refine_packet_sound:
  assumes "describes nl flds st m" "state_ok st"
  shows "describes nl flds (refine_packet st t) m"
proof -
  have "describes nl flds (st\<lparr>aregs := map (publish_extent key limit) (aregs st)\<rparr>) m" for key limit
    using assms publish_extent_sound [OF describesD(5) [OF assms(1)]]
    by (simp add: describes_def gamma_state_def gamma_regs_def config_of_def state_okD(1))
  then show ?thesis using assms(1) by (auto simp: refine_packet_def split: prod.splits option.splits)
qed

lemma refine_sound:
  assumes r: "refine st at wide (if cond c wide (get_reg m dst) (val m src wide) then pred_of c else negate (pred_of c)) dst src = Accept r"
    and ok: "state_ok st" "describes nl flds st m" "reg_ok dst" "source_ok src" and nt: "null_test_sound st (JumpCond wide c dst src o')"
  shows "\<exists>st'. r = Some st' \<and> describes nl flds st' m"
proof -
  let ?E = "run_regions nl (8 * length flds)" and ?x = "get_reg m dst" and ?y = "val m src wide"
  define pr where "pr = (if cond c wide ?x ?y then pred_of c else negate (pred_of c))"
  note h = edge_holds [of wide c ?x ?y, folded pr_def]
  obtain d s where d: "d = aregs st ! reg_usize dst" "d \<noteq> NotInit" and s: "source_value st at src wide = Accept s"
    using r by (auto simp: refine_def accepts)
  have g: "gamma_value ?E d ?x" "gamma_value ?E s ?y" "value_ok d" "value_ok s"
    using reg_described [OF ok(2,3)] source_described [OF s ok(2,4)] reg_value_ok [OF ok(1,3)] source_value_ok [OF s ok(1,4)] d(1) by simp_all
  have r': "r = (case (d, s) of
            (Ptr dp, Ptr sp) \<Rightarrow> (case (if wide then dynamic_pair pr dp sp else None) of Some t \<Rightarrow> Some (refine_packet st t) | None \<Rightarrow> Some st)
          | (Ptr p, Scalar z) \<Rightarrow> refine_null st wide pr dst p z
          | (Scalar x, Scalar y) \<Rightarrow>
              if \<not> refinable wide pr x \<or> \<not> refinable wide pr y then Some st
              else map_option (\<lambda>(na, nb). refine_regs st dst src na nb) (refine_scalars wide pr x y)
          | _ \<Rightarrow> Some st)"
    using r get_value_Accept [of st at dst d] d unfolding pr_def [symmetric] by (simp add: refine_def s)
  show ?thesis
  proof (cases d)
    case (Ptr p)
    then have p: "gamma_ptr ?E p ?x" using g by simp
    show ?thesis
    proof (cases s)
      case (Scalar z)
      have s0: "source_value st 0 src wide = Accept s" using s source_value_at by blast
      have "never_zero p" if "wide" "as_const z = Some 0" "pr = Pred_Eq" "\<not> pnullable p"
        using nt that Ptr Scalar d(1) s0 pred_of_eq [of "cond c wide ?x ?y" c] unfolding pr_def by (auto simp: null_test_sound_def)
      then show ?thesis
        using refine_null_sound [of st wide pr dst p z r nl flds m ?y] ok(1-3) h g r' Ptr Scalar d(1) by (auto simp: models_def split: if_splits)
    next
      case q: (Ptr q)
      then show ?thesis using r' Ptr ok(2) refine_packet_sound [OF ok(2,1)] by (auto split: option.splits)
    qed (use r' Ptr ok(2) in simp)
  next
    case (Scalar a)
    show ?thesis
    proof (cases s)
      case b: (Scalar b)
      have m: "models a ?x" "models b ?y" using g Scalar b by (simp_all add: models_def)
      show ?thesis
      proof (cases "refinable wide pr a \<and> refinable wide pr b")
        case True
        then have "pred_holds pr ?x ?y" using h pred_narrow [OF m] by (cases wide) auto
        from refine_pair_sound [OF m this] obtain na nb where n: "refine_pair pr a b = (Some na, Some nb)" "models na ?x" "models nb ?y"
          by (cases "refine_pair pr a b") (auto simp: keeps_def)
        have s1: "state_ok (st\<lparr>aregs := (aregs st)[reg_usize dst := Scalar na]\<rparr>)" using state_ok_set [OF ok(1)] n(2) by (simp add: models_def)
        have d1: "describes nl flds (st\<lparr>aregs := (aregs st)[reg_usize dst := Scalar na]\<rparr>) m"
          using describes_set [OF ok(2,1), of "Scalar na" "reg_usize dst"] n(2) by (simp add: models_def get_reg_def)
        have "describes nl flds (refine_regs st dst src na nb) m"
          using d1 describes_set [OF d1 s1, of "Scalar nb"] n(3) by (cases src) (auto simp: refine_regs_def Let_def models_def get_reg_def)
        then show ?thesis using r' Scalar b True n(1) by (simp add: refine_scalars_def)
      qed (use r' Scalar b ok(2) in auto)
    qed (use r' Scalar ok(2) in simp_all)
  qed (use d(2) in simp)
qed

subsection \<open>The start of a run\<close>

text \<open>
  The context of a run: one word for each declared field. A number is one the field's type has; a pointer is null, if the field is
  declared nullable, or the address of the context, if it is declared a read-only context pointer. The machine has no memory for pointers of
  the other kinds, so such a field can only hold null.
\<close>

definition context_fits :: "program \<Rightarrow> u64 list \<Rightarrow> bool" where
  "context_fits prog words \<longleftrightarrow> length words = length (pr_ctx_fields prog) \<and> length words < 2 ^ 32
     \<and> (\<forall>k < length words. gamma_value (run_regions True (8 * length words)) (value_of (pr_ctx_fields prog ! k) NO_REF) (words ! k))"

lemma le_bytes_u64: "u64_of_bytes (to_le_bytes 8 w) = w"
  using u64_of_bytes_take [of 8 w] by (simp add: take_bit_word_eq_self)

lemma range_get_concat:
  "k < length xss \<Longrightarrow> (\<And>xs. xs \<in> set xss \<Longrightarrow> length xs = n) \<Longrightarrow> range_get (n * k) n (concat xss) = xss ! k"
proof (induction xss arbitrary: k)
  case (Cons xs xss)
  have n: "length xs = n" using Cons.prems(2) by simp
  show ?case
  proof (cases k)
    case 0
    then show ?thesis using n by (simp add: range_get_def)
  next
    case (Suc j)
    then have "range_get (n * j) n (concat xss) = xss ! j" using Cons by simp
    then show ?thesis using Suc n by (simp add: range_get_def)
  qed
qed simp

lemma entry_described:
  assumes "context_fits prog words"
  shows "describes True (pr_ctx_fields prog) (entry_state (of_nat (length (pr_ctx_fields prog)) * 8)) (with_ctx words)"
proof -
  let ?n = "length (pr_ctx_fields prog)" and ?m = "with_ctx words"
  have len: "length words = ?n" "?n < 2 ^ 32" using assms by (auto simp: context_fits_def)
  have ctx: "mctx ?m = concat (map (to_le_bytes 8) words)" by (simp add: with_ctx_def machine_new_def)
  have "range_get (8 * k) 8 (mctx ?m) = to_le_bytes 8 (words ! k)" if "k < ?n" for k
    unfolding ctx using range_get_concat [of k "map (to_le_bytes 8) words" 8] that len(1) by fastforce
  then have word: "u64_of_bytes (range_get (8 * k) 8 (mctx ?m)) = words ! k" if "k < ?n" for k using that by (simp add: le_bytes_u64)
  have "length (concat (map (to_le_bytes 8) xs)) = 8 * length xs" for xs :: "u64 list" by (induction xs) simp_all
  then have l: "length (mctx ?m) = 8 * ?n" using ctx len(1) by simp
  have c0: "scalar_contains (scalar_constant 0) 0" using contains_constant [of 0] by (simp add: I64_MIN_def I64_MAX_def)
  have "unat (of_nat ?n * 8 :: u64) \<le> 8 * ?n" using unat_of_nat [of "?n * 8", where 'a = 64] by (simp add: mult.commute)
  then have r1: "gamma_ptr (run_regions True (8 * ?n)) ((ptr_region Class_Ctx (of_nat ?n * 8))\<lparr>preadonly := True\<rparr>) CTX_BASE"
    using c0 by (auto simp: gamma_ptr_def grants_def run_regions_def ptr_region_def intro!: exI [of _ 0])
  have r10: "gamma_ptr (run_regions True (8 * ?n)) frame_pointer (of_nat STACK_BYTES)"
    using c0 by (auto simp: gamma_ptr_def grants_def run_regions_def frame_pointer_def stack_base intro!: exI [of _ 0])
  have "gamma_value (run_regions True (8 * ?n)) (aregs (entry_state (of_nat ?n * 8)) ! i) (mregs ?m ! i)" if "i < 11" for i
    using that r1 r10 by (auto simp: entry_state_def with_ctx_def machine_new_def nth_list_update)
  moreover have "machine_ok ?m" by (simp add: machine_ok_def with_ctx_def machine_new_def)
  ultimately show ?thesis
    using l len word assms
    by (auto simp: describes_def gamma_state_def gamma_regs_def config_of_def entry_state_def default_frame context_fits_def)
qed

subsection \<open>Properties\<close>

text \<open>
  C10. One step of the analysis simulates one step of the interpreter. If a well-formed state describes a machine and \<open>step\<close> accepts the instruction,
  then executing it either goes on in a machine that the new state describes, or exits at an \<open>Exit\<close>, or is an instruction the interpreter does
  not implement: loads and stores are inside the stack or the context, and every byte a load reads was written. This holds without further
  condition for machines without null pointers (\<open>nl = False\<close>), and for machines whose nullable pointers may be null (\<open>nl = True\<close>) unless the
  instruction does arithmetic on a nullable pointer.
\<close>

theorem step_simulated:
  assumes "abs_step e i (a, st) = Accept (a', st')" "iop (ir_insns (e_ir e) ! i) = d" "representable d" "state_ok st"
    and "describes nl (pr_ctx_fields (e_prog e)) st m" "nl \<Longrightarrow> null_arith_sound st d"
  shows "case exec d nxt m of
      (m', Continue pc) \<Rightarrow> describes nl (pr_ctx_fields (e_prog e)) st' m'
    | (m', Return (Ok v)) \<Rightarrow> d = Exit
    | (m', Return (Err t)) \<Rightarrow> t = Unsupported \<and> \<not> interpreted d"
  using abs_step_sound [OF assms(1-5) refl assms(6), of nxt] by (auto simp: step_fits_def split: prod.splits outcome.splits sum.splits)

text \<open>A store of the frame pointer below itself, as the first instruction of a program.\<close>

definition spill_env :: env where
  "spill_env = \<lparr>e_ir = \<lparr>ir_insns = [\<lparr>iop = Store Size_Dw (Reg 10) (- 8) (SrcReg (Reg 10)), islot = 0, iwidth = 1\<rparr>], ir_of_slot = [Some 0], ir_blocks = [],
     ir_block_of = [], ir_subprogs = [], ir_thresholds = [], ir_back_edges = [], ir_widen = []\<rparr>,
     e_prog = \<lparr>pr_insns = [], pr_context = Atomic_ctx, pr_ctx_fields = [], pr_kfuncs = [], pr_maps = [], pr_objects = []\<rparr>,
     e_live = \<lparr>before = [], after = []\<rparr>, e_prec = \<lparr>before = [], after = []\<rparr>\<rparr>"

theorem step_simulated_witness:
  "\<exists>st m. exec (Store Size_Dw (Reg 10) (- 8) (SrcReg (Reg 10))) 1 (with_ctx []) = (m, Continue 1) \<and> describes True [] st m"
proof -
  let ?d = "Store Size_Dw (Reg 10) (- 8) (SrcReg (Reg 10))"
  have "case abs_step spill_env 0 (start_analysis 0 0, entry_state 0) of Accept _ \<Rightarrow> True | _ \<Rightarrow> False" by code_simp
  then obtain a st where s: "abs_step spill_env 0 (start_analysis 0 0, entry_state 0) = Accept (a, st)" by (auto split: verdict.splits)
  have d: "iop (ir_insns (e_ir spill_env) ! 0) = ?d" "representable ?d" "pr_ctx_fields (e_prog spill_env) = []"
    by (simp_all add: spill_env_def reg_ok_def NUM_REGS_def)
  have "describes True (pr_ctx_fields (e_prog spill_env)) (entry_state 0) (with_ctx [])"
    using entry_described [of "e_prog spill_env" "[]"] d(3) by (simp add: context_fits_def)
  from step_simulated [OF s d(1,2) entry_state_ok this, of 1]
  have "case exec ?d 1 (with_ctx []) of (m', Continue pc) \<Rightarrow> describes True [] st m' | (m', Return (Ok v)) \<Rightarrow> ?d = Exit
      | (m', Return (Err t)) \<Rightarrow> t = Unsupported \<and> \<not> interpreted ?d" by (simp only: d(3) null_arith_sound_def decoded.case HOL.simp_thms)
  moreover obtain m y where x: "exec ?d 1 (with_ctx []) = (m, y)" by (rule prod.exhaust)
  moreover have "y = Continue 1 \<or> (\<exists>t. y = Return (Err t))" using x by (auto split: sum.splits)
  ultimately show ?thesis by (auto simp del: exec.simps)
qed

end
