(* ===== verification/Bpf_Safety.thy ===== *)
theory Bpf_Safety
  imports Bpf_Fixpoint Bpf_Sound
begin

text \<open>
  What acceptance by the BPF verifier means for a run: the states that \<open>verify\<close> computes for the main program describe every machine
  the reference interpreter reaches, so an accepted program never leaves its memory, reads nothing that was not written and
  never runs off its code.
\<close>

subsection \<open>Blocks\<close>

lemma same_block:
  assumes "build_graph prog = Ok r" "k + 1 < bend (ir_blocks r ! (ir_block_of r ! k))" "k < length (ir_insns r)"
  shows "ir_block_of r ! (k + 1) = ir_block_of r ! k"
proof -
  obtain sss es ts bs where F: "flow_pass (ir_of_slot r) (ir_insns r) = Ok (sss, es, ts)"
    and B: "blocks_ok (leaders (ir_of_slot r) (ir_insns r) (sort_dedup (0 # es)) sss) (length (ir_insns r)) bs (ir_block_of r)"
    "block_numbers (leaders (ir_of_slot r) (ir_insns r) (sort_dedup (0 # es)) sss) (length (ir_insns r)) bs (ir_block_of r)"
    "ir_blocks r = fold (label_one (ir_block_of r)) (label_pairs (ir_of_slot r) (sort_dedup (0 # es)) (length (ir_insns r)))
       (link_blocks (ir_of_slot r) (ir_block_of r) sss bs)"
    by (rule graph_blocks [OF assms(1)]) (auto intro: that)
  let ?lb = "link_blocks (ir_of_slot r) (ir_block_of r) sss bs" and ?b = "ir_block_of r ! k"
  have E: "map edges (ir_blocks r) = map edges ?lb" unfolding B(3) label_edges ..
  have b: "?b < length bs" using blocks_okD(2) [OF B(1) assms(3)] .
  moreover have "length ?lb = length bs" "length (ir_blocks r) = length ?lb" using arg_cong [OF E, of length] by (simp_all add: link_blocks_def)
  ultimately have "edges (ir_blocks r ! ?b) = edges (?lb ! ?b)" using arg_cong [OF E, of "\<lambda>l. l ! ?b"] by simp
  then have "bend (bs ! (ir_block_of r ! k)) = bend (ir_blocks r ! (ir_block_of r ! k))" using edges_link [OF b] by (simp add: edges_def)
  moreover have "k + 1 < length (ir_insns r)" using block_flow(4) [OF assms(1) F assms(3)] assms(2) by simp
  ultimately show ?thesis using block_numbers_run [OF B(2,1) refl, of k "k + 1"] assms(2) by simp
qed

subsection \<open>The states of the main program\<close>

definition main_states :: "program \<Rightarrow> (env \<times> worklist) option" where
  "main_states prog =
     (case build_ir (pr_insns prog) of
        Some (Ok r) \<Rightarrow>
          (case (liveness (graph_of r), precision (graph_of r)) of
             (Some live_masks, Some prec_masks) \<Rightarrow>
               let e = \<lparr>e_ir = r, e_prog = prog, e_live = live_masks, e_prec = prec_masks\<rparr>; ctx_size = of_nat (length (pr_ctx_fields prog)) * 8 in
               (case analyse_subprog e 0 (entry_state ctx_size) (start_analysis (length (ir_subprogs r)) ctx_size) of
                  Accept (a, w) \<Rightarrow> Some (e, w)
                | _ \<Rightarrow> None)
           | _ \<Rightarrow> None)
      | _ \<Rightarrow> None)"

lemma foldv_append: "foldv f (xs @ ys) s = bindv (foldv f xs s) (foldv f ys)"
proof (induction xs arbitrary: s)
  case (Cons x xs)
  then show ?case by (cases "f x s") simp_all
qed simp

lemma foldv_skip: "(\<And>x. x \<in> set xs \<Longrightarrow> f x s = Accept s) \<Longrightarrow> foldv f xs s = Accept s"
  by (induction xs) simp_all

lemma main_analysed:
  assumes "foldv (analyse_in_order e) order (start_analysis n sz) = Accept a" "distinct order" "set order = {..<n}" "0 < n"
  shows "\<exists>a' w. analyse_subprog e 0 (entry_state sz) (start_analysis n sz) = Accept (a', w)"
proof -
  let ?a = "start_analysis n sz"
  have "0 \<in> set order" using assms(3,4) by simp
  then obtain xs ys where o: "order = xs @ 0 # ys" "0 \<notin> set xs" by (auto dest: split_list_first)
  have "foldv (analyse_in_order e) xs ?a = Accept ?a"
  proof (rule foldv_skip)
    fix x assume "x \<in> set xs"
    then have "x < n" "x \<noteq> 0" using o assms(3) by (auto intro: ccontr)
    then show "analyse_in_order e x ?a = Accept ?a" by (simp add: analyse_in_order_def start_analysis_def)
  qed
  moreover have "an_entry ?a ! 0 = Some (entry_state sz)" "?a\<lparr>an_current := 0\<rparr> = ?a" using assms(4) by (simp_all add: start_analysis_def)
  ultimately show ?thesis using assms(1) unfolding o(1) by (auto simp: foldv_append bindv_Accept analyse_in_order_def)
qed

lemma subprog_zero:
  assumes "build_graph prog = Ok r"
  shows "0 < length (ir_subprogs r)" "ir_of_slot r ! 0 = Some 0" "entry_block (ir_subprogs r ! 0) = ir_block_of r ! 0" "0 < length prog" "0 < length (ir_insns r)"
proof -
  obtain es sss ts where T: "tiled prog (length prog) (ir_insns r) (ir_of_slot r)" and ne: "ir_insns r \<noteq> []"
    and S: "ir_subprogs r = make_subprogs (ir_of_slot r) (ir_block_of r) (sort_dedup (0 # es))
       (call_edges (sort_dedup (0 # es)) (ir_block_of r) (ir_blocks r) (ir_insns r))"
    by (rule graph_blocks [OF assms]) (auto intro: that)
  show t: "ir_of_slot r ! 0 = Some 0" "0 < length prog" "0 < length (ir_insns r)" using tiledD(4,5) [OF T, of 0] tiledD(8) [OF T] ne by auto
  show "0 < length (ir_subprogs r)" "entry_block (ir_subprogs r ! 0) = ir_block_of r ! 0"
    using entries_props [of es] t(1) by (simp_all add: S make_subprogs_def to_ir_def)
qed

lemma cfg_verdict_Accept: "cfg_verdict r = Accept x \<longleftrightarrow> r = Some (Ok x)"
  by (auto simp: cfg_verdict_def split: option.splits sum.splits)

lemma verify_main:
  assumes "verify prog = Accept vp"
  obtains e w a where "main_states prog = Some (e, w)" "build_ir (pr_insns prog) = Some (Ok (e_ir e))" "e_prog e = prog"
    "analyse_subprog e 0 (entry_state (of_nat (length (pr_ctx_fields prog)) * 8))
       (start_analysis (length (ir_subprogs (e_ir e))) (of_nat (length (pr_ctx_fields prog)) * 8)) = Accept (a, w)"
proof -
  let ?sz = "of_nat (length (pr_ctx_fields prog)) * 8"
  have "run_verifier prog = Accept vp" using assms by (auto simp: verify_def bindv_Accept split: if_splits)
  then obtain r order l p a where b: "build_ir (pr_insns prog) = Some (Ok r)" and o: "topological_order (graph_of r) = Some (Ok order)"
    and lp: "liveness (graph_of r) = Some l" "precision (graph_of r) = Some p"
    and f: "foldv (analyse_in_order \<lparr>e_ir = r, e_prog = prog, e_live = l, e_prec = p\<rparr>) order (start_analysis (length (ir_subprogs r)) ?sz) = Accept a"
    by (auto simp: run_verifier_def bindv_Accept Let_def cfg_verdict_Accept)
  note g = build_ir_graph [OF b]
  have "distinct order" "set order = {..<length (ir_subprogs r)}" using topological_order_cases [OF g] o by simp_all
  from main_analysed [OF f this] subprog_zero(1) [OF g] obtain a' w
    where "analyse_subprog \<lparr>e_ir = r, e_prog = prog, e_live = l, e_prec = p\<rparr> 0 (entry_state ?sz) (start_analysis (length (ir_subprogs r)) ?sz) = Accept (a', w)"
    by auto
  then show ?thesis
    using that [of "\<lparr>e_ir = r, e_prog = prog, e_live = l, e_prec = p\<rparr>" w a'] b lp by (simp add: main_states_def Let_def)
qed

subsection \<open>The simulation\<close>

text \<open>States that the analysis has settled on, for a program whose null tests and whose pointer arithmetic they justify.\<close>

definition null_tests_at :: "env \<Rightarrow> nat \<Rightarrow> abs_state \<Rightarrow> bool" where
  "null_tests_at e b s =
     (let blk = ir_blocks (e_ir e) ! b; last = bend blk - 1 in
      case foldv (abs_step e) [bstart blk..<last] (start_analysis (length (ir_subprogs (e_ir e))) 0, s) of
        Accept (a, st) \<Rightarrow> null_test_sound st (iop (ir_insns (e_ir e) ! last))
      | _ \<Rightarrow> True)"

lemma null_tests_atD:
  assumes "null_tests_at e b s" "foldv (abs_step e) [bstart (ir_blocks (e_ir e) ! b)..<bend (ir_blocks (e_ir e) ! b) - 1] (a, s) = Accept (a', st)"
  shows "null_test_sound st (iop (ir_insns (e_ir e) ! (bend (ir_blocks (e_ir e) ! b) - 1)))"
  using assms(1) same_AcceptD [OF same_steps assms(2), of "start_analysis (length (ir_subprogs (e_ir e))) 0"] by (auto simp: null_tests_at_def Let_def)

fun null_arith_along :: "env \<Rightarrow> nat list \<Rightarrow> astate \<Rightarrow> bool" where
  "null_arith_along e [] s = True"
| "null_arith_along e (i # is) s \<longleftrightarrow> null_arith_sound (snd s) (iop (ir_insns (e_ir e) ! i))
     \<and> (case abs_step e i s of Accept s' \<Rightarrow> null_arith_along e is s' | _ \<Rightarrow> True)"

definition null_arith_at :: "env \<Rightarrow> nat \<Rightarrow> abs_state \<Rightarrow> bool" where
  "null_arith_at e b s =
     (let blk = ir_blocks (e_ir e) ! b in
      null_arith_along e [bstart blk..<bend blk] (start_analysis (length (ir_subprogs (e_ir e))) 0, s))"

lemma null_arith_alongD:
  "null_arith_along e (xs @ k # ys) s \<Longrightarrow> foldv (abs_step e) xs s = Accept (a, st) \<Longrightarrow> null_arith_sound st (iop (ir_insns (e_ir e) ! k))"
  by (induction xs arbitrary: s) (auto simp: bindv_Accept)

lemma null_arith_atD:
  assumes "null_arith_at e b s" "foldv (abs_step e) [bstart (ir_blocks (e_ir e) ! b)..<k] (a, s) = Accept (a', st)"
    "bstart (ir_blocks (e_ir e) ! b) \<le> k" "k < bend (ir_blocks (e_ir e) ! b)"
  shows "null_arith_sound st (iop (ir_insns (e_ir e) ! k))"
proof -
  let ?lo = "bstart (ir_blocks (e_ir e) ! b)" and ?hi = "bend (ir_blocks (e_ir e) ! b)"
  have "[?lo..<?hi] = [?lo..<k] @ k # [k + 1..<?hi]" using assms(3,4) upt_add_eq_append [of ?lo k "?hi - k"] by (simp add: upt_conv_Cons)
  then have "null_arith_along e ([?lo..<k] @ k # [k + 1..<?hi]) (start_analysis (length (ir_subprogs (e_ir e))) 0, s)"
    using assms(1) by (simp add: null_arith_at_def Let_def)
  then show ?thesis
    using null_arith_alongD same_AcceptD [OF same_steps assms(2), of "start_analysis (length (ir_subprogs (e_ir e))) 0"] by blast
qed

definition post_fixpoint :: "insn list \<Rightarrow> env \<Rightarrow> bool list \<Rightarrow> abs_state option list \<Rightarrow> bool" where
  "post_fixpoint prog e reach ins \<longleftrightarrow> build_graph prog = Ok (graph_of (e_ir e)) \<and> length prog \<le> 2 ^ 16 \<and> env_ok e
     \<and> (\<forall>b < length (ir_blocks (e_ir e)). reach ! b \<longrightarrow> (\<forall>t \<in> set (bsuccs (ir_blocks (e_ir e) ! b)). reach ! t))
     \<and> (\<forall>b < length (ir_blocks (e_ir e)). \<forall>s. ins ! b = Some s \<longrightarrow> state_ok s \<and> settled e reach ins b s \<and> null_tests_at e b s \<and> null_arith_at e b s)"

lemma post_fixpointD:
  assumes "post_fixpoint prog e reach ins"
  shows "build_graph prog = Ok (graph_of (e_ir e))" "length prog \<le> 2 ^ 16" "env_ok e"
    "b < length (ir_blocks (e_ir e)) \<Longrightarrow> reach ! b \<Longrightarrow> t \<in> set (bsuccs (ir_blocks (e_ir e) ! b)) \<Longrightarrow> reach ! t"
    "b < length (ir_blocks (e_ir e)) \<Longrightarrow> ins ! b = Some s \<Longrightarrow> state_ok s \<and> settled e reach ins b s \<and> null_tests_at e b s \<and> null_arith_at e b s"
  using assms unfolding post_fixpoint_def by blast+

text \<open>The machine at \<open>pc\<close> is described by the state that the walk of its block has reached there.\<close>

definition tracked :: "env \<Rightarrow> bool list \<Rightarrow> abs_state option list \<Rightarrow> nat \<Rightarrow> machine \<Rightarrow> bool" where
  "tracked e reach ins pc m \<longleftrightarrow> (\<exists>k b s a a' outs ak st.
     pc < length (ir_of_slot (e_ir e)) \<and> ir_of_slot (e_ir e) ! pc = Some k \<and> b = ir_block_of (e_ir e) ! k \<and> reach ! b \<and> ins ! b = Some s
     \<and> analysis_ok (length (ir_subprogs (e_ir e))) a \<and> walk_block e b (a, s) = Accept (a', outs)
     \<and> (\<forall>(t, s') \<in> set outs. reach ! t \<longrightarrow> covered ins t s')
     \<and> foldv (abs_step e) [bstart (ir_blocks (e_ir e) ! b)..<k] (a, s) = Accept (ak, st) \<and> describes True (pr_ctx_fields (e_prog e)) st m)"

lemma describes_le: "describes True flds s m \<Longrightarrow> state_le s u \<Longrightarrow> describes True flds u m"
  by (auto simp: describes_def state_le_def)

lemma describes_fuel [simp]: "describes True flds st (m\<lparr>mfuel := f\<rparr>) = describes True flds st m"
  by (simp add: describes_def config_of_def machine_memory_def cong: if_cong)

lemma enter_block:
  assumes P: "post_fixpoint prog e reach ins" and pc: "pc < length (ir_of_slot (e_ir e))" "ir_of_slot (e_ir e) ! pc = Some k"
    and t: "bstart (ir_blocks (e_ir e) ! (ir_block_of (e_ir e) ! k)) = k" "ir_block_of (e_ir e) ! k < length (ir_blocks (e_ir e))"
    and r: "reach ! (ir_block_of (e_ir e) ! k)" "covered ins (ir_block_of (e_ir e) ! k) st" and d: "describes True (pr_ctx_fields (e_prog e)) st m"
  shows "tracked e reach ins pc m"
proof -
  let ?b = "ir_block_of (e_ir e) ! k"
  obtain u where u: "ins ! ?b = Some u" "state_le st u" using r(2) by (auto simp: covered_def)
  obtain a a' outs where w: "analysis_ok (length (ir_subprogs (e_ir e))) a" "walk_block e ?b (a, u) = Accept (a', outs)"
    "\<forall>(t, s') \<in> set outs. reach ! t \<longrightarrow> covered ins t s'"
    using post_fixpointD(5) [OF P t(2) u(1)] unfolding settled_def by fastforce
  have "foldv (abs_step e) [bstart (ir_blocks (e_ir e) ! ?b)..<k] (a, u) = Accept (a, u)" using t(1) by simp
  then show ?thesis unfolding tracked_def using pc r(1) u w describes_le [OF d] by blast
qed

lemma walk_prefix:
  assumes "walk_block e b s = Accept r"
  shows "\<exists>a st. foldv (abs_step e) [bstart (ir_blocks (e_ir e) ! b)..<bend (ir_blocks (e_ir e) ! b) - 1] s = Accept (a, st)"
  using assms by (auto simp: walk_block_def Let_def bindv_Accept)

lemma walk_next:
  assumes "walk_block e b s = Accept r" "foldv (abs_step e) [bstart (ir_blocks (e_ir e) ! b)..<k] s = Accept x"
    "bstart (ir_blocks (e_ir e) ! b) \<le> k" "k + 1 < bend (ir_blocks (e_ir e) ! b)"
  shows "\<exists>a st. abs_step e k x = Accept (a, st) \<and> foldv (abs_step e) [bstart (ir_blocks (e_ir e) ! b)..<k + 1] s = Accept (a, st)"
proof -
  let ?lo = "bstart (ir_blocks (e_ir e) ! b)" and ?hi = "bend (ir_blocks (e_ir e) ! b) - 1"
  have "[?lo..<?hi] = [?lo..<k] @ k # [k + 1..<?hi]" using assms(3,4) upt_add_eq_append [of ?lo k "?hi - k"] by (simp add: upt_conv_Cons)
  then have "\<exists>y. abs_step e k x = Accept y" using walk_prefix [OF assms(1)] assms(2) by (auto simp: foldv_append bindv_Accept)
  then show ?thesis using assms(2,3) by (auto simp: foldv_append)
qed

lemma located:
  assumes g: "build_graph prog = Ok (graph_of r)" and n: "length prog \<le> 2 ^ 16" and pc: "pc < length (ir_of_slot r)" "ir_of_slot r ! pc = Some k"
  obtains sss es ts where "flow_pass (ir_of_slot r) (ir_insns r) = Ok (sss, es, ts)" "k < length (ir_insns r)"
    "\<And>m. step prog pc m = exec (iop (ir_insns r ! k)) (next_slot (ir_insns r ! k)) m"
    "\<And>m m' pc'. exec (iop (ir_insns r ! k)) (next_slot (ir_insns r ! k)) m = (m', Continue pc') \<Longrightarrow>
       pc' \<in> set (sss ! k) \<and> pc' < length (ir_of_slot r) \<and> ir_of_slot r ! pc' = Some (to_ir (ir_of_slot r) pc') \<and> to_ir (ir_of_slot r) pc' < length (ir_insns r)"
proof -
  from g obtain sss es ts where T: "tiled prog (length prog) (ir_insns r) (ir_of_slot r)"
    and F: "flow_pass (ir_of_slot r) (ir_insns r) = Ok (sss, es, ts)" by (elim build_graph_Ok) simp
  note len = tiledD(1) [OF T]
  have k: "k < length (ir_insns r)" "islot (ir_insns r ! k) = pc" using tiledD(7) [OF T, of pc k] pc len by auto
  obtain e t where f: "flow_insn (ir_of_slot r) (ir_insns r ! k) = Ok (sss ! k, e, t)" using flow_pass_nth [OF F] k(1) by blast
  show ?thesis
  proof (rule that [OF F k(1)])
    show "step prog pc m = exec (iop (ir_insns r ! k)) (next_slot (ir_insns r ! k)) m" for m
      using tiledD(3) [OF T k(1)] k(2) pc(1) len by (simp add: step_def next_slot_def)
    fix m m' pc' assume "exec (iop (ir_insns r ! k)) (next_slot (ir_insns r ! k)) m = (m', Continue pc')"
    then have "pc' \<in> set (sss ! k)" using exec_flow [OF f] n len by simp
    then show "pc' \<in> set (sss ! k) \<and> pc' < length (ir_of_slot r) \<and> ir_of_slot r ! pc' = Some (to_ir (ir_of_slot r) pc') \<and> to_ir (ir_of_slot r) pc' < length (ir_insns r)"
      using flow_targets [OF T F k(1)] len by simp
  qed
qed

text \<open>The edge that the last instruction of a block takes is one that the walk reports, with a state that describes the machine after it.\<close>

lemma jump_target_next: "n < 2 ^ 64 \<Longrightarrow> jump_target n 0 = n"
  using jump_target_eq [of n n 0] by simp

lemma last_step_sound:
  assumes w: "walk_block e b s = Accept (a', outs)" "foldv (abs_step e) [bstart (ir_blocks (e_ir e) ! b)..<k] s = Accept (ak, st)"
    and k: "bend (ir_blocks (e_ir e) ! b) = k + 1" and i: "iop (ir_insns (e_ir e) ! k) = d" "next_slot (ir_insns (e_ir e) ! k) = nxt" "representable d" "nxt < 2 ^ 64"
    and st: "state_ok st" "describes True flds st m" "flds = pr_ctx_fields (e_prog e)" "null_test_sound st d" "null_arith_sound st d"
    and x: "exec d nxt m = (m', y)"
  shows "case y of
      Return (Ok v) \<Rightarrow> True
    | Return (Err t) \<Rightarrow> t = Unsupported \<and> \<not> interpreted d
    | Continue pc \<Rightarrow> \<exists>st'. describes True flds st' m' \<and>
        ((\<forall>t \<in> set (bsuccs (ir_blocks (e_ir e) ! b)). (t, st') \<in> set outs)
         \<or> (\<exists>j t. nth_opt (ir_of_slot (e_ir e)) pc = Some (Some j) \<and> nth_opt (ir_block_of (e_ir e)) j = Some t \<and> (t, st') \<in> set outs))"
proof -
  have step: "?thesis" if "abs_step e k (ak, st) = Accept (a1, st1)" "outs = map (\<lambda>t. (t, st1)) (bsuccs (ir_blocks (e_ir e) ! b))" for a1 st1
    using abs_step_sound [OF that(1) i(1,3) st(1-3) st(5), of nxt] x that(2) by (auto simp: step_fits_def split: outcome.splits sum.splits)
  show ?thesis
  proof (cases d)
    case (JumpCond wide c dst src o')
    let ?e = "if cond c wide (get_reg m dst) (val m src wide) then pred_of c else negate (pred_of c)"
    let ?o = "if cond c wide (get_reg m dst) (val m src wide) then sint o' else 0"
    obtain t r where t: "block_at_slot e nxt ?o = Accept t" and r: "refine st (islot (ir_insns (e_ir e) ! k)) wide ?e dst src = Accept r"
      and outs: "set (edge t r) \<subseteq> set outs"
      using w k i(1,2) JumpCond by (cases "cond c wide (get_reg m dst) (val m src wide)") (auto simp: walk_block_def Let_def bindv_Accept)
    obtain st' where st': "r = Some st'" "describes True flds st' m"
      using refine_sound [OF r st(1,2) _ _ st(4) [unfolded JumpCond]] i(3) JumpCond by auto
    have "m' = m" "y = Continue (jump_target nxt ?o)" using x JumpCond jump_target_next [OF i(4)] by auto
    then show ?thesis using st' t outs by (auto simp: block_at_slot_Accept edge_def)
  next
    case (MayGoto o')
    then show ?thesis using x by auto
  next
    case Exit
    then show ?thesis using x by auto
  qed (use w k i(1) step in \<open>auto simp: walk_block_def Let_def bindv_Accept\<close>)
qed

lemma next_slot_small:
  assumes "build_graph prog = Ok (graph_of r)" "length prog \<le> 2 ^ 16" "k < length (ir_insns r)"
  shows "next_slot (ir_insns r ! k) < 2 ^ 64"
proof -
  from assms(1) have T: "tiled prog (length prog) (ir_insns r) (ir_of_slot r)" by (elim build_graph_Ok) simp
  then have "next_slot (ir_insns r ! k) \<le> length prog" using decode_fits [OF tiledD(3) [OF T assms(3)]] by (simp add: next_slot_def)
  then show ?thesis using assms(2) by simp
qed

definition fits :: "env \<Rightarrow> bool list \<Rightarrow> abs_state option list \<Rightarrow> machine \<times> outcome \<Rightarrow> bool" where
  "fits e reach ins r \<longleftrightarrow>
     (case snd r of
        Continue pc \<Rightarrow> tracked e reach ins pc (fst r)
      | Return (Ok v) \<Rightarrow> True
      | Return (Err t) \<Rightarrow> t = Unsupported \<and> (\<exists>i \<in> set (ir_insns (e_ir e)). \<not> interpreted (iop i)))"

lemma step_tracked:
  assumes P: "post_fixpoint prog e reach ins" and T: "tracked e reach ins pc m"
  shows "fits e reach ins (step prog pc m)"
proof -
  let ?r = "e_ir e" and ?flds = "pr_ctx_fields (e_prog e)"
  note D = post_fixpointD [OF P]
  obtain k b s a a' outs ak st where pc: "pc < length (ir_of_slot ?r)" "ir_of_slot ?r ! pc = Some k" and b: "b = ir_block_of ?r ! k" "reach ! b" "ins ! b = Some s"
    and w: "analysis_ok (length (ir_subprogs ?r)) a" "walk_block e b (a, s) = Accept (a', outs)" "\<forall>(t, s') \<in> set outs. reach ! t \<longrightarrow> covered ins t s'"
    and f: "foldv (abs_step e) [bstart (ir_blocks ?r ! b)..<k] (a, s) = Accept (ak, st)" and d: "describes True ?flds st m"
    using T unfolding tracked_def by blast
  obtain sss es ts where F: "flow_pass (ir_of_slot ?r) (ir_insns ?r) = Ok (sss, es, ts)" and k: "k < length (ir_insns ?r)"
    and S: "\<And>m. step prog pc m = exec (iop (ir_insns ?r ! k)) (next_slot (ir_insns ?r ! k)) m"
    and C: "\<And>m m' pc'. exec (iop (ir_insns ?r ! k)) (next_slot (ir_insns ?r ! k)) m = (m', Continue pc') \<Longrightarrow>
       pc' \<in> set (sss ! k) \<and> pc' < length (ir_of_slot ?r) \<and> ir_of_slot ?r ! pc' = Some (to_ir (ir_of_slot ?r) pc') \<and> to_ir (ir_of_slot ?r) pc' < length (ir_insns ?r)"
    using located [OF D(1,2) pc] by blast
  note B = block_flow [OF D(1), unfolded graph_of_simps, OF F k, folded b(1)]
  note rep = env_okD(1) [OF D(3) k] and fin = D(5) [OF B(1) b(3)]
  have st: "state_ok st" using steps_ok [OF f _ D(3) refl] w(1) fin k by simp
  have na: "null_arith_sound st (iop (ir_insns ?r ! k))" using null_arith_atD [OF _ f B(2,3)] fin by simp
  obtain m' y where x: "exec (iop (ir_insns ?r ! k)) (next_slot (ir_insns ?r ! k)) m = (m', y)" by (rule prod.exhaust)
  have i: "ir_insns ?r ! k \<in> set (ir_insns ?r)" using k by simp
  show ?thesis
  proof (cases "k + 1 < bend (ir_blocks ?r ! b)")
    case True
    obtain a1 st1 where n: "abs_step e k (ak, st) = Accept (a1, st1)" "foldv (abs_step e) [bstart (ir_blocks ?r ! b)..<k + 1] (a, s) = Accept (a1, st1)"
      using walk_next [OF w(2) f B(2) True] by blast
    have sf: "step_fits True ?flds st1 (iop (ir_insns ?r ! k)) (m', y)" using abs_step_sound [OF n(1) refl rep st d refl na] x by metis
    have nx: "ir_of_slot ?r ! pc' = Some (k + 1) \<and> pc' < length (ir_of_slot ?r)" if "y = Continue pc'" for pc' using C [of m m' pc'] x that B(5) [OF True] by auto
    have bk: "b = ir_block_of ?r ! (k + 1)" using same_block [OF D(1), unfolded graph_of_simps, of k] True k b(1) by simp
    have "tracked e reach ins pc' m'" if "y = Continue pc'" for pc'
      unfolding tracked_def using nx [OF that] bk b(2,3) w n(2) sf that by (auto simp: step_fits_def simp del: upt_Suc)
    then show ?thesis using sf i unfolding S x by (auto simp: fits_def step_fits_def split: outcome.splits sum.splits)
  next
    case False
    then have e: "bend (ir_blocks ?r ! b) = k + 1" using B(3) by simp
    have "null_test_sound st (iop (ir_insns ?r ! k))" using null_tests_atD [of e b s a ak st] fin f e by simp
    then have L: "case y of
      Return (Ok v) \<Rightarrow> True
    | Return (Err t) \<Rightarrow> t = Unsupported \<and> \<not> interpreted (iop (ir_insns ?r ! k))
    | Continue pc \<Rightarrow> \<exists>st'. describes True ?flds st' m' \<and>
        ((\<forall>t \<in> set (bsuccs (ir_blocks ?r ! b)). (t, st') \<in> set outs)
         \<or> (\<exists>j t. nth_opt (ir_of_slot ?r) pc = Some (Some j) \<and> nth_opt (ir_block_of ?r) j = Some t \<and> (t, st') \<in> set outs))"
      using last_step_sound [OF w(2) f e refl refl rep _ st d refl _ na x] next_slot_small [OF D(1,2), of k] k by simp
    have "tracked e reach ins pc' m'" if y: "y = Continue pc'" for pc'
    proof -
      note c = C [OF x [unfolded y]]
      let ?t = "ir_block_of ?r ! to_ir (ir_of_slot ?r) pc'"
      have t: "?t \<in> set (bsuccs (ir_blocks ?r ! b))" using B(6) [OF e] c by simp
      obtain st' where st': "describes True ?flds st' m'" "(?t, st') \<in> set outs" using L y t c by (fastforce simp: nth_opt_Some_iff)
      have "reach ! ?t" using D(4) [OF B(1) b(2) t] .
      moreover from this have "covered ins ?t st'" using w(3) st'(2) by fastforce
      moreover have "?t < length (ir_blocks ?r)" using block_flow(1) [OF D(1), unfolded graph_of_simps, OF F] c by blast
      ultimately show ?thesis using enter_block [OF P _ _ B(7) [OF e]] c st'(1) by blast
    qed
    then show ?thesis using L i unfolding S x by (auto simp: fits_def split: outcome.splits sum.splits)
  qed
qed

lemma run_tracked:
  assumes "post_fixpoint prog e reach ins"
  shows "tracked e reach ins pc m \<Longrightarrow>
    (case snd (run_from prog pc m) of Ok v \<Rightarrow> True | Err t \<Rightarrow> t = OutOfFuel \<or> t = Unsupported \<and> (\<exists>i \<in> set (ir_insns (e_ir e)). \<not> interpreted (iop i)))"
  using assms
proof (induction prog pc m rule: run_from.induct)
  case (1 prog pc m)
  let ?m = "m\<lparr>mfuel := mfuel m - 1\<rparr>"
  obtain m' y where s: "step prog pc ?m = (m', y)" by (rule prod.exhaust)
  have "tracked e reach ins pc ?m" using "1.prems"(1) by (simp add: tracked_def)
  from step_tracked [OF "1.prems"(2) this] have f: "fits e reach ins (m', y)" unfolding s .
  show ?case
  proof (cases "mfuel m = 0")
    case False
    show ?thesis
    proof (cases y)
      case (Continue pc')
      then show ?thesis using "1.IH" [OF False s [symmetric] Continue] f "1.prems"(2) False s by (simp add: run_from.simps [of prog pc m] fits_def)
    next
      case (Return r)
      then show ?thesis using f False s by (cases r) (auto simp: run_from.simps [of prog pc m] fits_def)
    qed
  qed (simp add: run_from.simps)
qed

subsection \<open>The run of an accepted program\<close>

text \<open>The condition on null tests, checked on the states of the analysis.\<close>

definition null_tests_justified :: "program \<Rightarrow> bool" where
  "null_tests_justified prog =
     (case main_states prog of
        None \<Rightarrow> True
      | Some (e, w) \<Rightarrow> list_all (\<lambda>b. case in_state w ! b of None \<Rightarrow> True | Some s \<Rightarrow> null_tests_at e b s) [0..<length (ir_blocks (e_ir e))])"

text \<open>The condition on arithmetic: no operand of an arithmetic instruction is a pointer that may be null.\<close>

definition null_arith_justified :: "program \<Rightarrow> bool" where
  "null_arith_justified prog =
     (case main_states prog of
        None \<Rightarrow> True
      | Some (e, w) \<Rightarrow> list_all (\<lambda>b. case in_state w ! b of None \<Rightarrow> True | Some s \<Rightarrow> null_arith_at e b s) [0..<length (ir_blocks (e_ir e))])"

lemma verified_main:
  assumes "verify prog = Accept vp" "length (pr_insns prog) \<le> 2 ^ 16" "null_tests_justified prog" "context_fits prog words" "null_arith_justified prog"
  obtains e reach ins where "post_fixpoint (pr_insns prog) e reach ins" "tracked e reach ins 0 (with_ctx words)"
    "build_graph (pr_insns prog) = Ok (graph_of (e_ir e))"
proof -
  let ?sz = "of_nat (length (pr_ctx_fields prog)) * 8"
  obtain e w a where M: "main_states prog = Some (e, w)" and b: "build_ir (pr_insns prog) = Some (Ok (e_ir e))" and p: "e_prog e = prog"
    and an: "analyse_subprog e 0 (entry_state ?sz) (start_analysis (length (ir_subprogs (e_ir e))) ?sz) = Accept (a, w)"
    using verify_main [OF assms(1)] by blast
  note g = build_ir_graph [OF b] and z = subprog_zero [OF build_ir_graph [OF b], unfolded graph_of_simps]
  let ?n = "length (ir_blocks (e_ir e))" and ?eb = "ir_block_of (e_ir e) ! 0"
  obtain sss es ts where F: "flow_pass (ir_of_slot (e_ir e)) (ir_insns (e_ir e)) = Ok (sss, es, ts)"
    and T: "tiled (pr_insns prog) (length (pr_insns prog)) (ir_insns (e_ir e)) (ir_of_slot (e_ir e))" using g by (elim build_graph_Ok) simp
  have eb: "?eb < ?n" "bstart (ir_blocks (e_ir e) ! ?eb) = 0" using block_flow(1,2) [OF g, unfolded graph_of_simps, OF F z(5)] by simp_all
  have "analysis_ok (length (ir_subprogs (e_ir e))) (start_analysis (length (ir_subprogs (e_ir e))) ?sz)"
    using set_update_subset_insert [of "replicate (length (ir_subprogs (e_ir e))) None" 0 "Some (entry_state ?sz)"]
    by (auto simp: analysis_ok_def start_analysis_def entry_state_ok)
  from analyse_subprog_spec [OF an env_of_build [OF b refl] entry_state_ok this, unfolded z(3), OF eb(1)]
  obtain reach where r: "reachable_blocks (graph_of (e_ir e)) (Some ?eb) = Some reach" and q: "queue_ok ?n w"
    and s: "\<And>b s. b < ?n \<Longrightarrow> in_state w ! b = Some s \<Longrightarrow> settled e reach (in_state w) b s" and c: "covered (in_state w) ?eb (entry_state ?sz)"
    by blast
  have R: "reach ! v \<longleftrightarrow> (?eb, v) \<in> (block_edges (ir_blocks (e_ir e)))\<^sup>*" if "v < ?n" for v
    using reachable_blocks_spec [OF g, of ?eb] r eb(1) that by auto
  have "reach ! t" if "b < ?n" "reach ! b" "t \<in> set (bsuccs (ir_blocks (e_ir e) ! b))" for b t
  proof -
    have "t < ?n" using block_edges_in [OF g, unfolded graph_of_simps, OF nth_mem] that by blast
    moreover have "(b, t) \<in> block_edges (ir_blocks (e_ir e))" using that by (simp add: block_edges_def)
    ultimately show ?thesis using R that by (meson rtrancl.rtrancl_into_rtrancl)
  qed
  moreover have "state_ok s'" if "b < ?n" "in_state w ! b = Some s'" for b s'
    using q that nth_mem [of b "in_state w"] by (auto simp: queue_ok_def)
  moreover have "null_tests_at e b s'" if "b < ?n" "in_state w ! b = Some s'" for b s'
    using assms(3) M that by (auto simp: null_tests_justified_def list_all_iff split: option.splits)
  moreover have "null_arith_at e b s'" if "b < ?n" "in_state w ! b = Some s'" for b s'
    using assms(5) M that by (auto simp: null_arith_justified_def list_all_iff split: option.splits)
  ultimately have P: "post_fixpoint (pr_insns prog) e reach (in_state w)"
    using g assms(2) env_of_build [OF b refl] s by (simp add: post_fixpoint_def)
  moreover have "tracked e reach (in_state w) 0 (with_ctx words)"
    using enter_block [OF P, of 0 0] z(2,4) eb R [OF eb(1)] c entry_described [OF assms(4)] p tiledD(1) [OF T] by simp
  ultimately show ?thesis using that g by blast
qed

lemma accepted_run:
  assumes "verify prog = Accept vp" "length (pr_insns prog) \<le> 2 ^ 16" "null_tests_justified prog" "context_fits prog words" "null_arith_justified prog"
  shows "case snd (run (pr_insns prog) ((with_ctx words)\<lparr>mfuel := fuel\<rparr>)) of
      Ok v \<Rightarrow> True
    | Err t \<Rightarrow> t = OutOfFuel \<or> t = Unsupported \<and> (\<exists>slot d w. decode (pr_insns prog) slot = Some (Ok (d, w)) \<and> \<not> interpreted d)"
proof -
  obtain e reach ins where P: "post_fixpoint (pr_insns prog) e reach ins" and t: "tracked e reach ins 0 (with_ctx words)"
    and g: "build_graph (pr_insns prog) = Ok (graph_of (e_ir e))"
    using verified_main [OF assms] by blast
  have T: "tiled (pr_insns prog) (length (pr_insns prog)) (ir_insns (e_ir e)) (ir_of_slot (e_ir e))" using g by (elim build_graph_Ok) simp
  have "\<exists>slot d w. decode (pr_insns prog) slot = Some (Ok (d, w)) \<and> \<not> interpreted d" if "i \<in> set (ir_insns (e_ir e))" "\<not> interpreted (iop i)" for i
    using that tiledD(3) [OF T] by (metis in_set_conv_nth)
  moreover have "tracked e reach ins 0 ((with_ctx words)\<lparr>mfuel := fuel\<rparr>)" using t by (simp add: tracked_def)
  ultimately show ?thesis using run_tracked [OF P, of 0 "(with_ctx words)\<lparr>mfuel := fuel\<rparr>"] by (auto simp: run_def split: sum.splits)
qed

text \<open>Running a program instruction by instruction.\<close>

lemma run_next:
  assumes "mfuel m \<noteq> 0" "step prog pc m = (m', Continue pc')"
  shows "run_from prog pc m = run_from prog pc' (m'\<lparr>mfuel := mfuel m - 1\<rparr>)"
  using assms step_at_fuel [of prog pc "mfuel m - 1" m] by (simp add: run_from.simps [of prog pc m])

lemma run_ends:
  assumes "mfuel m \<noteq> 0" "step prog pc m = (m', Return r)"
  shows "snd (run_from prog pc m) = r"
  using assms step_at_fuel [of prog pc "mfuel m - 1" m] by (simp add: run_from.simps [of prog pc m])

subsection \<open>Properties\<close>

text \<open>A store to a stack byte chosen by the context, after a bounds check.\<close>

definition bounded_store :: program where
  "bounded_store =
     \<lparr>pr_insns =
        [\<lparr>code = 0x79, regs = 0x12, off = 0, imm = 0\<rparr>,
         \<lparr>code = 0xB7, regs = 0x00, off = 0, imm = 0\<rparr>,
         \<lparr>code = 0x25, regs = 0x02, off = 4, imm = 7\<rparr>,
         \<lparr>code = 0xBF, regs = 0xA3, off = 0, imm = 0\<rparr>,
         \<lparr>code = 0x0F, regs = 0x23, off = 0, imm = 0\<rparr>,
         \<lparr>code = 0x73, regs = 0x23, off = - 8, imm = 0\<rparr>,
         \<lparr>code = 0xBF, regs = 0x20, off = 0, imm = 0\<rparr>,
         \<lparr>code = 0x95, regs = 0x00, off = 0, imm = 0\<rparr>],
      pr_context = Atomic_ctx, pr_ctx_fields = [\<lparr>akind = Type_Scalar 64 False, adomain = Static, aflags = 0\<rparr>], pr_kfuncs = [], pr_maps = [],
      pr_objects = []\<rparr>"

text \<open>A load through a nullable pointer of the context after a null test, and after the addition of 8 and a null test.\<close>

definition arena_field :: arg_desc where
  "arena_field = \<lparr>akind = Type_Ptr Kind_Arena TypeKey_NONE, adomain = Static, aflags = NULLABLE\<rparr>"

definition null_checked :: program where
  "null_checked =
     \<lparr>pr_insns =
        [\<lparr>code = 0x79, regs = 0x12, off = 0, imm = 0\<rparr>,
         \<lparr>code = 0xB7, regs = 0x00, off = 0, imm = 0\<rparr>,
         \<lparr>code = 0x15, regs = 0x02, off = 1, imm = 0\<rparr>,
         \<lparr>code = 0x79, regs = 0x20, off = 0, imm = 0\<rparr>,
         \<lparr>code = 0x95, regs = 0x00, off = 0, imm = 0\<rparr>],
      pr_context = Atomic_ctx, pr_ctx_fields = [arena_field], pr_kfuncs = [], pr_maps = [], pr_objects = []\<rparr>"

definition null_shift :: program where
  "null_shift =
     \<lparr>pr_insns =
        [\<lparr>code = 0x79, regs = 0x12, off = 0, imm = 0\<rparr>,
         \<lparr>code = 0xB7, regs = 0x00, off = 0, imm = 0\<rparr>,
         \<lparr>code = 0x07, regs = 0x02, off = 0, imm = 8\<rparr>,
         \<lparr>code = 0x15, regs = 0x02, off = 1, imm = 0\<rparr>,
         \<lparr>code = 0x79, regs = 0x20, off = 0, imm = 0\<rparr>,
         \<lparr>code = 0x95, regs = 0x00, off = 0, imm = 0\<rparr>],
      pr_context = Atomic_ctx, pr_ctx_fields = [arena_field], pr_kfuncs = [], pr_maps = [], pr_objects = []\<rparr>"

text \<open>A pointer whose offset cancels its base.\<close>

definition null_escape :: program where
  "null_escape =
     \<lparr>pr_insns =
        [\<lparr>code = 0x7B, regs = 0xAA, off = - 12, imm = 0\<rparr>,
         \<lparr>code = 0x79, regs = 0xA2, off = - 12, imm = 0\<rparr>,
         \<lparr>code = 0xBF, regs = 0xA3, off = 0, imm = 0\<rparr>,
         \<lparr>code = 0x1F, regs = 0x23, off = 0, imm = 0\<rparr>,
         \<lparr>code = 0x15, regs = 0x03, off = 2, imm = 0\<rparr>,
         \<lparr>code = 0xB7, regs = 0x00, off = 0, imm = 0\<rparr>,
         \<lparr>code = 0x95, regs = 0x00, off = 0, imm = 0\<rparr>,
         \<lparr>code = 0x79, regs = 0x20, off = 0, imm = 0\<rparr>,
         \<lparr>code = 0x95, regs = 0x00, off = 0, imm = 0\<rparr>],
      pr_context = Atomic_ctx, pr_ctx_fields = [], pr_kfuncs = [], pr_maps = [], pr_objects = []\<rparr>"

text \<open>Both conditions on the states of the analysis, evaluated together.\<close>

lemma justified_code:
  "null_tests_justified prog \<and> null_arith_justified prog \<longleftrightarrow>
     (case main_states prog of
        None \<Rightarrow> True
      | Some (e, w) \<Rightarrow> list_all (\<lambda>b. case in_state w ! b of None \<Rightarrow> True | Some s \<Rightarrow> null_tests_at e b s \<and> null_arith_at e b s)
          [0..<length (ir_blocks (e_ir e))])"
  by (auto simp: null_tests_justified_def null_arith_justified_def list_all_iff split: option.splits)

lemma bounded_store_accepted: "case verify bounded_store of Accept _ \<Rightarrow> True | _ \<Rightarrow> False"
  by code_simp

lemma bounded_store_justified: "null_tests_justified bounded_store \<and> null_arith_justified bounded_store"
  unfolding justified_code by code_simp

lemma null_checked_accepted: "case verify null_checked of Accept _ \<Rightarrow> True | _ \<Rightarrow> False"
  by code_simp

lemma null_checked_justified: "null_tests_justified null_checked \<and> null_arith_justified null_checked"
  unfolding justified_code by code_simp

lemma null_shift_accepted: "case verify null_shift of Accept _ \<Rightarrow> True | _ \<Rightarrow> False"
  by code_simp

lemma null_shift_tests: "null_tests_justified null_shift"
  by code_simp

lemma null_escape_arith: "null_arith_justified null_escape"
  by code_simp

lemma arena_field_null: "gamma_value (run_regions True n) (value_of arena_field NO_REF) 0"
  by (simp add: value_of_def arena_field_def gamma_ptr_def run_regions_def flags_contain_def NULLABLE_def)

lemma null_contexts: "context_fits null_checked [0]" "context_fits null_shift [0]"
  using arena_field_null by (simp_all add: context_fits_def null_checked_def null_shift_def)

text \<open>
  C1. An accepted program is safe. Let \<open>verify\<close> accept a program of at most \<open>2^16\<close> slots, whose null tests are justified (no pointer that is
  compared with zero as non-null can have an offset that cancels its base) and which does no arithmetic on a pointer that may be null; both
  are checked on the states of the analysis. Let each word of the context be a number of its field's type, null if the field is a nullable
  pointer, or the address of the context if it is a read-only context pointer; the machine has no memory for other pointers. Then the reference
  interpreter, with any fuel, returns a value, runs out of fuel, or stops at an instruction it does not implement, the last only if the program has
  one: it never accesses memory outside the stack and the context, never reads a stack byte that was not written and never leaves the code.
\<close>

theorem verified_run_safe:
  assumes "verify prog = Accept vp" "length (pr_insns prog) \<le> 2 ^ 16" "null_tests_justified prog" "null_arith_justified prog" "context_fits prog words"
    and "run (pr_insns prog) ((with_ctx words)\<lparr>mfuel := fuel\<rparr>) = (m, Err t)"
  shows "t = OutOfFuel \<or> t = Unsupported \<and> (\<exists>slot d w. decode (pr_insns prog) slot = Some (Ok (d, w)) \<and> \<not> interpreted d)"
  using accepted_run [OF assms(1-3,5,4), of fuel] assms(6) by simp

theorem verified_run_safe_witness:
  "snd (run (pr_insns bounded_store) ((with_ctx [5])\<lparr>mfuel := 100\<rparr>)) \<noteq> Err BadAccess
   \<and> snd (run (pr_insns bounded_store) ((with_ctx [5])\<lparr>mfuel := 100\<rparr>)) \<noteq> Err UninitRead
   \<and> snd (run (pr_insns null_checked) ((with_ctx [0])\<lparr>mfuel := 100\<rparr>)) \<noteq> Err UninitRead"
proof -
  obtain vp vp' where v: "verify bounded_store = Accept vp" "verify null_checked = Accept vp'"
    using bounded_store_accepted null_checked_accepted by (auto split: verdict.splits)
  have n: "length (pr_insns bounded_store) \<le> 2 ^ 16" "length (pr_insns null_checked) \<le> 2 ^ 16" by (simp_all add: bounded_store_def null_checked_def)
  have "context_fits bounded_store [5]"
    by (simp add: context_fits_def bounded_store_def value_of_def unsigned_bits_def)
  note safe = verified_run_safe [OF v(1) n(1) bounded_store_justified [THEN conjunct1] bounded_store_justified [THEN conjunct2] this, of 100]
    verified_run_safe [OF v(2) n(2) null_checked_justified [THEN conjunct1] null_checked_justified [THEN conjunct2] null_contexts(1), of 100]
  show ?thesis
    using safe(1) [of "fst (run (pr_insns bounded_store) ((with_ctx [5])\<lparr>mfuel := 100\<rparr>))"]
      safe(2) [of "fst (run (pr_insns null_checked) ((with_ctx [0])\<lparr>mfuel := 100\<rparr>))"]
    by (metis prod.collapse trap.distinct)
qed

lemma null_escape_accepted: "case verify null_escape of Accept _ \<Rightarrow> True | _ \<Rightarrow> False"
  by code_simp

lemma null_escape_code:
  "map (\<lambda>k. decode (pr_insns null_escape) k) [0, 1, 2, 3, 4, 7] = map (\<lambda>d. Some (Ok (d, 1)))
     [Store Size_Dw (Reg 10) (- 12) (SrcReg (Reg 10)), Load Size_Dw False (Reg 2) (Reg 10) (- 12), Mov True (Reg 3) (SrcReg (Reg 10)) None,
      Alu True Alu_Sub (Reg 3) (SrcReg (Reg 2)), JumpCond True Cond_Eq (Reg 3) (Imm 0) 2, Load Size_Dw False (Reg 0) (Reg 2) 0]"
  by code_simp

lemma null_escape_run: "snd (run (pr_insns null_escape) (with_ctx [])) = Err BadAccess"
proof -
  let ?p = "pr_insns null_escape" and ?m = "with_ctx []"
  have n: "length ?p = 9" by (simp add: null_escape_def)
  note D = null_escape_code [simplified]
  have m: "machine_ok ?m" "get_reg ?m (Reg 10) = 16384" "mfuel ?m = 1048576"
    by (simp_all add: machine_ok_def with_ctx_def machine_new_def get_reg_def reg_usize_def stack_base)
  have a: "sint (16372 :: u64) = int STACK_BYTES + (- 12)" by (simp add: STACK_BYTES_def)
  obtain m1 where s1: "store ?m 16372 Size_Dw 16384 = Ok m1" "machine_ok m1" "mregs m1 = mregs ?m"
    using store_memory [OF m(1) a, of Size_Dw 16384] by (auto simp: in_frame_def MAX_STACK_BYTES_def)
  have f1: "mfuel m1 = 1048576" using s1(1) m(3) by (auto elim!: store_Ok)
  have l: "load m1 16372 Size_Dw = Ok 16384" using load_store_same [OF m(1) s1(1)] by simp
  have bad: "load m' 16384 Size_Dw = Err BadAccess" for m'
    by (simp add: load_def ctx_load_def stack_base stack_slot_def STACK_BYTES_def Let_def)
  let ?m1 = "m1\<lparr>mfuel := 1048575\<rparr>"
  let ?m2 = "(set_reg ?m1 (Reg 2) 16384)\<lparr>mfuel := 1048574\<rparr>"
  let ?m3 = "(set_reg ?m2 (Reg 3) 16384)\<lparr>mfuel := 1048573\<rparr>"
  let ?m4 = "(set_reg ?m3 (Reg 3) 0)\<lparr>mfuel := 1048572\<rparr>"
  have r: "mregs m1 = [0, CTX_BASE, 0, 0, 0, 0, 0, 0, 0, 0, 16384]" by (simp add: s1(3) with_ctx_def machine_new_def stack_base numeral_eq_Suc)
  note regs = get_reg_def set_reg_def reg_usize_def r
  have "run_from ?p 0 ?m = run_from ?p 1 ?m1"
    by (subst run_next [where m' = m1 and pc' = 1]) (simp_all add: step_def n D m s1)
  also have "\<dots> = run_from ?p 2 ?m2"
    by (subst run_next [where m' = "set_reg ?m1 (Reg 2) 16384" and pc' = 2]) (simp_all add: step_def n D l regs)
  also have "\<dots> = run_from ?p 3 ?m3"
    by (subst run_next [where m' = "set_reg ?m2 (Reg 3) 16384" and pc' = 3]) (simp_all add: step_def n D regs mov_value_def)
  also have "\<dots> = run_from ?p 4 ?m4"
    by (subst run_next [where m' = "set_reg ?m3 (Reg 3) 0" and pc' = 4]) (simp_all add: step_def n D regs alu_def)
  also have "\<dots> = run_from ?p 7 (?m4\<lparr>mfuel := 1048571\<rparr>)"
    by (subst run_next [where m' = ?m4 and pc' = 7]) (simp_all add: step_def n D regs cond_def jump_target_def)
  finally show ?thesis
    using run_ends [of "?m4\<lparr>mfuel := 1048571\<rparr>" ?p 7 "?m4\<lparr>mfuel := 1048571\<rparr>" "Err BadAccess"] by (simp add: run_def step_def n D regs bad)
qed

lemma null_shift_code:
  "map (\<lambda>k. decode (pr_insns null_shift) k) [0, 1, 2, 3, 4] = map (\<lambda>d. Some (Ok (d, 1)))
     [Load Size_Dw False (Reg 2) (Reg 1) 0, Mov True (Reg 0) (Imm 0) None, Alu True Alu_Add (Reg 2) (Imm 8),
      JumpCond True Cond_Eq (Reg 2) (Imm 0) 1, Load Size_Dw False (Reg 0) (Reg 2) 0]"
  by code_simp

lemma null_shift_run: "snd (run (pr_insns null_shift) (with_ctx [0])) = Err UninitRead"
proof -
  let ?p = "pr_insns null_shift" and ?m = "with_ctx [0]"
  have n: "length ?p = 6" by (simp add: null_shift_def)
  note D = null_shift_code [simplified]
  have c: "mctx ?m = to_le_bytes 8 (0 :: u64)" "length (to_le_bytes 8 (0 :: u64)) = 8" by (simp_all add: with_ctx_def to_le_bytes_def)
  have l: "load ?m CTX_BASE Size_Dw = Ok 0" using context_load [of 0 Size_Dw ?m] by (simp add: c range_get_def le_bytes_u64)
  have u: "load (?m\<lparr>mregs := rs\<rparr>) 8 Size_Dw = Err UninitRead" for rs
    by (simp add: load_def ctx_load_def stack_base stack_slot_def STACK_BYTES_def Let_def with_ctx_def machine_new_def range_get_def list_all_iff)
  have r: "mregs ?m = [0, CTX_BASE, 0, 0, 0, 0, 0, 0, 0, 0, 16384]" "mfuel ?m = 1048576"
    by (simp_all add: with_ctx_def machine_new_def stack_base numeral_eq_Suc)
  note regs = get_reg_def set_reg_def reg_usize_def r
  let ?m1 = "?m\<lparr>mregs := [0, CTX_BASE, 0, 0, 0, 0, 0, 0, 0, 0, 16384], mfuel := 1048575\<rparr>"
  let ?m2 = "?m\<lparr>mregs := [0, CTX_BASE, 0, 0, 0, 0, 0, 0, 0, 0, 16384], mfuel := 1048574\<rparr>"
  let ?m3 = "?m\<lparr>mregs := [0, CTX_BASE, 8, 0, 0, 0, 0, 0, 0, 0, 16384], mfuel := 1048573\<rparr>"
  let ?m4 = "?m\<lparr>mregs := [0, CTX_BASE, 8, 0, 0, 0, 0, 0, 0, 0, 16384], mfuel := 1048572\<rparr>"
  have "run_from ?p 0 ?m = run_from ?p 1 ?m1"
    by (subst run_next [where m' = "?m\<lparr>mregs := [0, CTX_BASE, 0, 0, 0, 0, 0, 0, 0, 0, 16384]\<rparr>" and pc' = 1]) (simp_all add: step_def n D l regs)
  also have "\<dots> = run_from ?p 2 ?m2"
    by (subst run_next [where m' = ?m1 and pc' = 2]) (simp_all add: step_def n D regs mov_value_def)
  also have "\<dots> = run_from ?p 3 ?m3"
    by (subst run_next [where m' = "?m3\<lparr>mfuel := 1048574\<rparr>" and pc' = 3]) (simp_all add: step_def n D regs alu_def)
  also have "\<dots> = run_from ?p 4 ?m4"
    by (subst run_next [where m' = ?m3 and pc' = 4]) (simp_all add: step_def n D regs cond_def)
  finally show ?thesis
    using run_ends [of ?m4 ?p 4 ?m4 "Err UninitRead"] by (simp add: run_def step_def n D regs u)
qed

text \<open>
  C12. The conditions of the safety theorem are needed: the verifier as written accepts unsafe programs. \<open>null_escape\<close> spills the frame pointer
  unaligned, reads it back as an unknown number, and subtracts it from the frame pointer; the difference counts as a non-null pointer, so
  the branch on which it is zero is never analysed. At run time that branch is taken and loads past the end of the stack. \<open>null_shift\<close> adds 8
  to a nullable pointer of its context and then tests the sum for null; its null tests are justified, but when the pointer is null the sum is not, and
  the load that follows the test reads memory that was never written.
\<close>

theorem null_test_gap:
  "((\<exists>vp. verify null_escape = Accept vp) \<and> context_fits null_escape [] \<and> \<not> null_tests_justified null_escape
     \<and> snd (run (pr_insns null_escape) (with_ctx [])) = Err BadAccess)
   \<and> ((\<exists>vp. verify null_shift = Accept vp) \<and> context_fits null_shift [0] \<and> null_tests_justified null_shift
     \<and> \<not> null_arith_justified null_shift \<and> snd (run (pr_insns null_shift) (with_ctx [0])) = Err UninitRead)"
proof (rule conjI)
  obtain vp where v: "verify null_escape = Accept vp" using null_escape_accepted by (auto split: verdict.splits)
  have c: "context_fits null_escape []" by (simp add: context_fits_def null_escape_def)
  have "length (pr_insns null_escape) \<le> 2 ^ 16" by (simp add: null_escape_def)
  then have "\<not> null_tests_justified null_escape"
    using accepted_run [OF v _ _ c null_escape_arith, of "mfuel (with_ctx [])"] null_escape_run by auto
  then show "(\<exists>vp. verify null_escape = Accept vp) \<and> context_fits null_escape [] \<and> \<not> null_tests_justified null_escape
     \<and> snd (run (pr_insns null_escape) (with_ctx [])) = Err BadAccess" using v c null_escape_run by blast
next
  obtain vp where v: "verify null_shift = Accept vp" using null_shift_accepted by (auto split: verdict.splits)
  have "length (pr_insns null_shift) \<le> 2 ^ 16" by (simp add: null_shift_def)
  then have "\<not> null_arith_justified null_shift"
    using accepted_run [OF v _ null_shift_tests null_contexts(2), of "mfuel (with_ctx [0])"] null_shift_run by auto
  then show "(\<exists>vp. verify null_shift = Accept vp) \<and> context_fits null_shift [0] \<and> null_tests_justified null_shift
     \<and> \<not> null_arith_justified null_shift \<and> snd (run (pr_insns null_shift) (with_ctx [0])) = Err UninitRead"
    using v null_contexts(2) null_shift_tests null_shift_run by blast
qed

end
