(* ===== verification/Spec2Isabelle.thy ===== *)
theory Spec2Isabelle
  imports Capability_System Buddy_Spec Ring_Concurrent Sched_Policy Admission Timer_Wheel
    Bpf_Safety
begin

text \<open>
  A verification development for NARF, a framekernel written in Rust: the small privileged parts that the rest of the
  kernel trusts. This theory imports all others, explains how they fit together, and holds the
  property that spans components.

  \<^bold>\<open>The program and what is modelled.\<close> NARF separates authority (capabilities), memory (frame allocators and address
  spaces), communication (rings), time (timer wheel) and computation (scheduler policies and budgets) into crates with
  typed interfaces, and admits extension code through a BPF verifier. The theories follow the crates.

  \<^item> \<open>Narf_Prelude\<close>: machine integers, saturating and checked arithmetic, \<open>Result\<close>, \<open>position\<close>, \<open>swap_remove\<close> and
    the list, multiset and word facts that the other theories share.
  \<^item> \<open>Capabilities\<close>, \<open>Capability_System\<close> (\<open>capabilities/src/lib.rs\<close>): rights, kinds, 128-bit slots, the object table
    with its epochs, typed capabilities and per-task tables. The object table is passed explicitly where the source locks
    a global. \<open>cap_step\<close> closes the public operations into a step relation; the properties hold in all reachable
    states: authority comes only from creation and narrowing derivation, a revoked capability never runs until the
    32-bit epoch wraps, and a table lookup returns only what was installed.
  \<^item> \<open>Buddy\<close>, \<open>Buddy_Spec\<close> (\<open>memory/src/buddy.rs\<close>): a NUMA zone, its free lists by mobility class and order. \<open>zone_ok\<close> is the
    invariant; the locale \<open>frame_allocator\<close> is the contract for clients, interpreted on the zone. Shown: no block is handed
    out twice; allocation fails exactly when no block of sufficient order is free, and below a ceiling exactly when no such block lies whole below
    it; ceilings are respected; allocation, ceiling allocation and free keep buddies merged; donation, removal and draining conserve frames.
  \<^item> \<open>Ring\<close>, \<open>Ring_Concurrent\<close> (\<open>ipc/src/lib.rs\<close>, \<open>ipc/src/transport.rs\<close>): the lock-free ring, its halves, futures and
    destructors; the \<open>RingTransport\<close> seam as the locale \<open>ring_transport\<close>, interpreted on the ring and on the
    \<open>VecRing\<close> reference, which agree up to the retagging of messages. The concurrent model interleaves every atomic access of both halves: order is
    preserved, no message is lost or duplicated, no wakeup is lost; a call or a poll that is not interleaved has exactly the outcome of the
    sequential operation.
  \<^item> \<open>Budget\<close>, \<open>Sched_Policy\<close>, \<open>Admission\<close> (\<open>scheduler/src\<close>): CPU budgets with replenishment and donation, the
    picking and preemption decisions of the policies as scans by an order (locale \<open>pick_order\<close>), with the EEVDF pick and preemption
    decided on the raw fields of the queued tasks, and real-time admission, whose three counters are bounded under all interleavings of
    concurrent callers.
  \<^item> \<open>Timer_Wheel\<close> (\<open>time/src/timer_wheel.rs\<close>, \<open>lib/src/deferred_wake.rs\<close>): the wheel with its cached next
    deadline, firing and draining in batches, and the per-CPU queue of deferred wakes.
  \<^item> \<open>Bpf_Isa\<close> (\<open>bpf/isa/src\<close>): opcodes, instruction slots, decoder and encoder; decoding inverts encoding
    exactly on the representable instructions.
  \<^item> \<open>Bpf_Tnum\<close>, \<open>Bpf_Scalar\<close>, \<open>Bpf_Lattice\<close>, \<open>Bpf_Transfer\<close>, \<open>Bpf_Branch\<close> (\<open>bpf/verifier/src/domain.rs\<close> and the predicates and
    scalar refinement of \<open>fixpoint.rs\<close>): the verifier's numeric domain. \<open>models s v\<close> says that the abstract value \<open>s\<close> is well formed
    and contains \<open>v\<close>. Every transfer function is shown to contain the concrete result, both edges of a branch keep the
    values that take them, merges cover their arguments (locales \<open>merge_domain\<close> and \<open>meet_domain\<close>, interpreted on tnums
    and on scalars), and reduction and meet are exact.
  \<^item> \<open>Bpf_Interp\<close> (\<open>bpf/verifier/src/interp.rs\<close>): the concrete semantics that the domain is sound for, and the
    reference machine.
  \<^item> \<open>Bpf_Cfg\<close>, \<open>Bpf_Subprog\<close>, \<open>Bpf_Widen\<close> (\<open>bpf/verifier/src/ir.rs\<close>): the graph of basic blocks, subprograms and calls, and the
    widening points. Every step of the reference machine follows an edge of the graph, so no run leaves the program; no
    edge leaves its subprogram; the pass that places widening points terminates and leaves no cycle without one.
  \<^item> \<open>Bpf_Liveness\<close>, \<open>Bpf_Order\<close> (\<open>liveness.rs\<close>, \<open>topological_order\<close> of \<open>fixpoint.rs\<close>): the backward analyses return the least
    solution of their equations, and registers that are not live cannot change how a run ends; the call order exists
    exactly for programs without recursion; reachability and postorder visit exactly the blocks on a path from the entry.
  \<^item> \<open>Bpf_Value\<close>, \<open>Bpf_Stack\<close>, \<open>Bpf_State\<close> (\<open>bpf/verifier/src/state.rs\<close>): pointer values with their validity domains, the frame as slots with
    spilled values and initialised bytes, and the whole abstract state with its references. A concretisation says which
    register contents and stack bytes a state describes; reads, writes and the merges at control-flow joins are
    shown sound for it, the slot-wise initialisation test equals the byte-wise one, and the references behave as a set.
  \<^item> \<open>Bpf_Kfunc\<close>, \<open>Bpf_Dom\<close>, \<open>Bpf_Verifier\<close> (\<open>kfunc.rs\<close>, \<open>ir.rs\<close>, \<open>fixpoint.rs\<close>, \<open>lib.rs\<close>): kernel-function contracts and their validation, dominators
    and component entries, then the forward analysis itself: every transfer function, calls, branch refinement, the worklist
    and \<open>verify\<close>.
  \<^item> \<open>Bpf_Wellformed\<close>, \<open>Bpf_Fixpoint\<close>, \<open>Bpf_Sound\<close>, \<open>Bpf_Safety\<close>: what acceptance means. Every transfer function keeps states well formed; the worklist,
    with joins and widening, returns a fixpoint above its entry state; each accepted step simulates a step of the reference
    machine; so a run of an accepted program never leaves its memory, reads no byte that was not written and stays in its code
    (\<open>verified_run_safe\<close>). The machine has the stack and the context as its only memory and refuses calls, atomics and map
    loads, so the theorem speaks of runs up to such an instruction. A word of the context is a number of the declared type, null where the
    field is a nullable pointer, or the address of the context where it is a read-only context pointer; non-null pointers into memory of other
    kinds (map values, objects, arenas, packets) are outside the theorem, because the machine has no such memory. There are two conditions on the
    program, both checked on the states of the analysis: its null tests are justified (\<open>null_tests_justified\<close>), and it does no arithmetic on
    a pointer that may be null (\<open>null_arith_justified\<close>). \<open>null_test_gap\<close> shows that \<open>verify\<close> accepts an unsafe program without the one
    and without the other.

  \<^bold>\<open>How components meet.\<close> Admission calls the capability check twice, with a revocation possibly in between; \<open>revoked_authority_cannot_reserve\<close>
  below is the property of the composition. The wheel drains into the deferred-wake queue (\<open>Timer_Wheel\<close>). The transfer
  functions are proved against the interpreter's instruction functions, the interpreter runs on the decoder of \<open>Bpf_Isa\<close>, and
  the safety of a run composes decoder, graph, domain, state, fixpoint and interpreter.

  \<^bold>\<open>Conventions.\<close> A struct is a record, an enum a datatype, \<open>u8\<close> to \<open>u128\<close> are words, \<open>usize\<close> lengths and frame numbers are
  natural numbers where the source bounds them, \<open>i64\<close> bounds of the domain are integers cut to their range where the source
  cuts them. Arithmetic overflow wraps as in the release profile, where the source does not use checked or saturating operations. \<open>Result\<close> is a sum with the error on the left; a panic, undefined behaviour or an index out of
  range is an outer \<open>None\<close>. Locked globals are state arguments; wakers are numbers and their calls are logged; code outside
  the crates (\<open>Retag\<close>, the work of a woken task, the set of online CPUs) is a parameter.

  \<^bold>\<open>Bounds and loops.\<close> Loops are recursive functions with termination proofs; the reduction loop has the source's three
  rounds, tnum multiplication its 64 steps, the interpreter its fuel, where more fuel provably changes nothing but \<open>OutOfFuel\<close>. Capability properties
  carry the bound on the number of objects below which 32-bit indices are unique.

  \<^bold>\<open>Not modelled.\<close> Memory orderings weaker than sequential consistency; raw-pointer deallocation; hardware access (arch,
  interrupts, drivers, clocks); address spaces and paging; the executor and work stealing; file systems, networking, system calls.
  Of the BPF subsystem, the JIT, BTF and struct-ops.
\<close>

subsection \<open>Revocation reaches admission\<close>

lemma reserve_revoked:
  assumes "\<not> is_live t1 d \<or> \<not> is_live t2 d"
  shows "\<exists>e. reserve t1 t2 online d cpu budget r = (r, Err e)"
  using assms
  by (auto simp: reserve_def check_live_eq Let_def drop_reservation_def split: option.splits if_splits
      dest!: add_bounded_unat)

lemma reserve_revoked_first:
  "\<not> is_live t1 d \<Longrightarrow> reserve t1 t2 online d cpu budget r = (r, Err AuthorityRevoked)"
  by (simp add: reserve_def check_live_eq)

lemma reserve_cong:
  "is_live t1 d = is_live u1 d \<Longrightarrow> is_live t2 d = is_live u2 d \<Longrightarrow>
   reserve t1 t2 online d cpu budget r = reserve u1 u2 online d cpu budget r"
  by (simp only: reserve_def check_live_eq)

text \<open>
  C40. Revocation reaches the scheduler. Once the authority object behind a bandwidth capability is revoked, through
  any copy of it, no holder can reserve real-time bandwidth with a capability for it: a
  call that starts after the revocation is refused with \<open>AuthorityRevoked\<close>, a call that is overtaken by
  the revocation is refused as well, and neither leaves a trace in the counters. Reservations under other
  authorities proceed as if nothing had happened.
\<close>

theorem revoked_authority_cannot_reserve:
  assumes "is_live t d" and "is_live t other"
    and "index (slot d) = index (slot c)" and "index (slot other) \<noteq> index (slot c)"
  shows "reserve (revoke t c) t2 online d cpu budget r = (r, Err AuthorityRevoked)
    \<and> (\<exists>e. reserve t (revoke t c) online d cpu budget r = (r, Err e))
    \<and> reserve (revoke t c) (revoke t c) online other cpu budget r = reserve t t online other cpu budget r"
proof -
  have dead: "\<not> is_live (revoke t c) d" and live: "is_live (revoke t c) other"
    using assms by (auto simp: is_live_iff current_epoch_revoke)
  then show ?thesis
    using reserve_revoked_first reserve_revoked reserve_cong assms(2) by metis
qed

definition two_budgets :: object_table where
  "two_budgets = fst (Capabilities.register (fst (Capabilities.register [] K_CpuBudget)) K_CpuBudget)"

definition other_authority :: cap where
  "other_authority = rt_authority\<lparr>slot := (slot rt_authority)\<lparr>index := 1\<rparr>\<rparr>"

theorem revoked_authority_cannot_reserve_witness:
  "reserve (revoke two_budgets rt_authority) two_budgets 3 rt_authority 1 rt_budget no_reservations
     = (no_reservations, Err AuthorityRevoked)"
  using revoked_authority_cannot_reserve [of two_budgets rt_authority other_authority rt_authority]
  by (simp add: two_budgets_def other_authority_def rt_authority_def Capabilities.register_def is_live_def
      check_live_def current_epoch_def nth_opt_def)

end
